(* ===== verification/Prelude.thy ===== *)
theory Prelude
  imports Complex_Main "HOL-Library.Word" "HOL-Library.Log_Nat"
begin

text \<open>
  The vocabulary the components share: the C integer types as words of their width, the
  macros of \<^verbatim>\<open>common/types/generic.h\<close>, the return codes of \<^verbatim>\<open>common/states.h\<close>, and the
  generic facts on words and lists that the component proofs rest on.
\<close>

unbundle bit_operations_syntax

subsection \<open>C types\<close>

type_synonym u8 = "8 word"
type_synonym u16 = "16 word"
type_synonym u32 = "32 word"
type_synonym u64 = "64 word"
type_synonym i32 = "32 word"
type_synonym i64 = "64 word"

type_synonym state_t = int

text \<open>
  \<^typ>\<open>i32\<close> and \<^typ>\<open>i64\<close> are the same words as their unsigned counterparts; a signed
  comparison of the source is written on \<^const>\<open>sint\<close>.
\<close>

abbreviation (input) EAR_SUCCESS :: state_t where "EAR_SUCCESS \<equiv> 0"
abbreviation (input) EAR_ERROR :: state_t where "EAR_ERROR \<equiv> - 1"
abbreviation (input) EAR_UNDEFINED :: state_t where "EAR_UNDEFINED \<equiv> - 24"

subsection \<open>Macros of generic.h\<close>

definition ear_min :: "'a::ord \<Rightarrow> 'a \<Rightarrow> 'a" where
  "ear_min x y = (if x < y then x else y)"

definition ear_max :: "'a::ord \<Rightarrow> 'a \<Rightarrow> 'a" where
  "ear_max x y = (if x > y then x else y)"

subsection \<open>Collections\<close>

named_theorems report_forms \<open>the forms of the report of a node\<close>
named_theorems example_states \<open>definitions of the example states of a node\<close>


subsection \<open>Words\<close>

text \<open>
  A power, a frequency or a node count is small: below \<open>2 ^ 31\<close> the signed and the unsigned
  reading of a 32-bit word agree, and differences of such words are exact.
\<close>

lemma uint_less_pow31: "unat (w :: 32 word) < 2 ^ 31 \<Longrightarrow> uint w < 2 ^ 31"
  by (metis int_ops(3) of_nat_less_iff of_nat_numeral of_nat_power uint_nat)

lemma sint_small: "unat (w :: 32 word) < 2 ^ 31 \<Longrightarrow> sint w = int (unat w)"
  using uint_less_pow31 [of w] signed_take_bit_int_eq_self [of 31 "uint w"] uint_ge_0 [of w]
  by (simp add: sint_uint)

lemma sint_dist:
  assumes "unat (a :: 32 word) < 2 ^ 31" "unat (b :: 32 word) < 2 ^ 31"
  shows "sint (a - b) = int (unat a) - int (unat b)"
proof -
  have "uint a < 2 ^ 31" "uint b < 2 ^ 31" using assms by (simp_all only: uint_less_pow31)
  moreover have "0 \<le> uint a" "0 \<le> uint b" by simp_all
  ultimately have "- (2 ^ 31) \<le> uint a - uint b" "uint a - uint b < 2 ^ 31" by linarith+
  then have "signed_take_bit 31 (uint a - uint b) = uint a - uint b"
    by (rule signed_take_bit_int_eq_self)
  then show ?thesis using assms by (simp add: sint_word_ariths(2) sint_small)
qed

declare of_nat_unat [simp del]

lemma sint_dist_neg:
  assumes "unat (a :: 32 word) < 2 ^ 31" "unat (b :: 32 word) < 2 ^ 31"
  shows "sint (a - b) < 0 \<longleftrightarrow> unat a < unat b"
  using sint_dist [OF assms] by linarith

lemma ucast_of_nat: "(ucast w :: 'b::len word) = of_nat (unat (w :: 'a::len word))"
  by (simp add: of_nat_unat)

lemma unat_of_nat_less: "n < 2 ^ LENGTH('a) \<Longrightarrow> unat (of_nat n :: 'a::len word) = n"
  by (simp add: unat_of_nat take_bit_nat_eq_self)

lemma sint_nonneg_iff: "0 \<le> sint (w :: 32 word) \<longleftrightarrow> unat w < 2 ^ 31"
proof
  assume pos: "0 \<le> sint w"
  show "unat w < 2 ^ 31"
  proof (rule ccontr)
    assume "\<not> unat w < 2 ^ 31"
    then have "2 ^ 31 \<le> int (unat w)" by simp
    then have "2 ^ 31 \<le> uint w" by (simp only: of_nat_unat)
    moreover have u: "uint w < 2 ^ 32" using uint_lt2p [of w] by simp
    ultimately have "uint w div 2 ^ 31 = 1" by (simp add: int_div_pos_eq [where r = "uint w - 2 ^ 31"])
    then have "bit (uint w) 31" by (simp add: bit_iff_odd)
    moreover have "take_bit 32 (uint w) = uint w" using u by (simp add: take_bit_int_eq_self)
    ultimately have "sint w = uint w - 2 ^ 32" by (simp add: sint_uint signed_take_bit_eq_take_bit_minus)
    then show False using pos u by simp
  qed
next
  assume "unat w < 2 ^ 31"
  then show "0 \<le> sint w" by (simp add: sint_small)
qed

lemma sint_nonneg: "0 \<le> sint (w :: 32 word) \<Longrightarrow> sint w = int (unat w)"
  by (simp add: sint_nonneg_iff sint_small)

lemma ucast_up_down [simp]: "(ucast (ucast (w :: u32) :: u64) :: u32) = w"
  by (rule bit_word_eqI) (simp add: bit_ucast_iff)

lemma unat_u8_le: "unat (w :: u8) \<le> 255"
  using unsigned_less [of w, where 'a = nat] by simp

lemma unat_u16_le: "unat (w :: u16) \<le> 65535"
  using unsigned_less [of w, where 'a = nat] by simp

lemma unat_dist: "unat (b :: 'a::len word) \<le> unat a \<Longrightarrow> unat (a - b) = unat a - unat b"
  by (simp add: unat_sub word_le_nat_alt)

lemma unat_plus: "unat a + unat b < 2 ^ LENGTH('a) \<Longrightarrow> unat (a + b :: 'a::len word) = unat a + unat b"
  by (rule unat_add_lem [THEN iffD1])

lemma unat_times: "unat a * unat b < 2 ^ LENGTH('a) \<Longrightarrow> unat (a * b :: 'a::len word) = unat a * unat b"
  by (rule unat_mult_lem [THEN iffD1])

lemma unat_ucast_up:
  "LENGTH('a::len) \<le> LENGTH('b::len) \<Longrightarrow> unat (ucast (w :: 'a word) :: 'b word) = unat w"
  by (simp add: unsigned_ucast_eq take_bit_nat_eq_self less_le_trans [OF unsigned_less])

subsection \<open>Lists\<close>

lemma length_concat_map_int:
  "int (length (concat (map f xs))) = (\<Sum>x\<leftarrow>xs. int (length (f x)))"
  by (induction xs) auto

end
