(* ===== verification/C_Float.thy ===== *)
theory C_Float
  imports Prelude
begin

text \<open>
  IEEE 754 arithmetic as the C code uses it, on exact rationals: a \<open>float\<close> or \<open>double\<close> is the
  rational it denotes, and every conversion or operation computes exactly and then rounds to
  the nearest value of 24 (\<open>float\<close>) or 53 (\<open>double\<close>) significant bits, ties to even.
  Infinities, NaN and subnormals are left out: the code's floats are powers in watts and
  ratios of them, far from both ends of the exponent range.
\<close>

subsection \<open>Rounding\<close>

definition pow2 :: "int \<Rightarrow> rat" where
  "pow2 k = (if 0 \<le> k then 2 ^ nat k else 1 / 2 ^ nat (- k))"

definition ilog2 :: "rat \<Rightarrow> int" where
  "ilog2 x =
     (let (n, d) = quotient_of x; k = bitlen n - bitlen d
      in if pow2 k \<le> x then k else k - 1)"

definition rne :: "rat \<Rightarrow> int" where
  "rne x =
     (let f = \<lfloor>x\<rfloor>; r = x - of_int f
      in if r < 1 / 2 then f else if 1 / 2 < r then f + 1 else if even f then f else f + 1)"

definition ulp :: "nat \<Rightarrow> rat \<Rightarrow> rat" where
  "ulp p x = pow2 (ilog2 \<bar>x\<bar> - int p + 1)"

definition fl :: "nat \<Rightarrow> rat \<Rightarrow> rat" where
  "fl p x = (if x = 0 then 0 else of_int (rne (x / ulp p x)) * ulp p x)"

abbreviation to_float :: "rat \<Rightarrow> rat" where "to_float \<equiv> fl 24"
abbreviation to_double :: "rat \<Rightarrow> rat" where "to_double \<equiv> fl 53"

text \<open>A conversion from a floating value to an unsigned integer type drops the fraction.\<close>

definition trunc_word :: "rat \<Rightarrow> 'a::len word" where
  "trunc_word x = word_of_int \<lfloor>x\<rfloor>"

definition rat_of_word :: "'a::len word \<Rightarrow> rat" where
  "rat_of_word w = of_nat (unat w)"

subsection \<open>Powers of two and the binary exponent\<close>

lemma pow2_0 [simp]: "pow2 0 = 1"
  by (simp add: pow2_def)

lemma pow2_pos [simp]: "0 < pow2 k"
  by (simp add: pow2_def)

lemma pow2_nonneg [simp]: "0 \<le> pow2 k"
  by (rule less_imp_le) simp

lemma pow2_neq0 [simp]: "pow2 k \<noteq> 0"
  by (simp add: pow2_def)

lemma pow2_Suc: "pow2 (k + 1) = 2 * pow2 k"
proof (cases "0 \<le> k")
  case True
  then have "nat (k + 1) = Suc (nat k)" by simp
  with True show ?thesis by (simp add: pow2_def)
next
  case False
  then have "nat (- k) = Suc (nat (- (k + 1)))" by simp
  with False show ?thesis by (auto simp: pow2_def)
qed

lemma pow2_add_nat: "pow2 (k + int n) = pow2 k * 2 ^ n"
proof (induction n)
  case 0
  then show ?case by simp
next
  case (Suc n)
  have "pow2 (k + int (Suc n)) = pow2 ((k + int n) + 1)" by (simp add: algebra_simps)
  then show ?case using Suc by (simp only: pow2_Suc) simp
qed

lemma pow2_of_nat: "pow2 (int n) = 2 ^ n"
  by (simp add: pow2_def)

lemma pow2_mono: "j \<le> k \<Longrightarrow> pow2 j \<le> pow2 k"
proof -
  assume "j \<le> k"
  then obtain n where k: "k = j + int n" using zle_iff_zadd by auto
  have "pow2 j * 1 \<le> pow2 j * 2 ^ n" by (rule mult_left_mono) simp_all
  then show ?thesis unfolding k pow2_add_nat by simp
qed

lemma pow2_less_D: "pow2 j < pow2 k \<Longrightarrow> j < k"
  by (meson leD le_less_linear pow2_mono)

lemma pow2_diff: "pow2 (int a - int b) = 2 ^ a / 2 ^ b"
proof -
  have "pow2 (int a - int b) * 2 ^ b = pow2 (int a)"
    using pow2_add_nat [of "int a - int b" b] by simp
  then show ?thesis by (simp add: pow2_of_nat field_simps)
qed


lemma pow2_add: "pow2 (j + k) = pow2 j * pow2 k"
proof (cases "0 \<le> k")
  case True
  then obtain n where "k = int n" using zero_le_imp_eq_int by blast
  then show ?thesis by (simp add: pow2_add_nat pow2_of_nat)
next
  case False
  then obtain n where n: "k = - int n" by (metis int_cases4 of_nat_0_le_iff)
  have "pow2 (j + k) * 2 ^ n = pow2 j" using pow2_add_nat [of "j + k" n] n by simp
  moreover have "pow2 k * 2 ^ n = 1" using pow2_add_nat [of k n] n by simp
  ultimately have "pow2 (j + k) * 2 ^ n = (pow2 j * pow2 k) * 2 ^ n" by (simp add: mult.assoc)
  then show ?thesis by simp
qed

lemma ilog2_bounds:
  assumes "0 < x"
  shows "pow2 (ilog2 x) \<le> x" and "x < pow2 (ilog2 x + 1)"
proof -
  obtain n d where q: "quotient_of x = (n, d)" by force
  have d: "0 < d" and x: "x = of_int n / of_int d"
    using quotient_of_denom_pos [OF q] quotient_of_div [OF q] by auto
  have n: "0 < n" using assms x d by (simp add: zero_less_divide_iff)
  define a where "a = nat (bitlen n - 1)"
  define b where "b = nat (bitlen d - 1)"
  have bn: "bitlen n = int a + 1" and bd: "bitlen d = int b + 1"
    using n d by (simp_all add: a_def b_def bitlen_def floorlog_def)
  have "nat (bitlen n) = Suc a" "nat (bitlen d) = Suc b" using bn bd by simp_all
  then have "2 ^ a \<le> n" "n < 2 ^ Suc a" "2 ^ b \<le> d" "d < 2 ^ Suc b"
    using bitlen_bounds [OF n] bitlen_bounds [OF d] by (simp_all only: a_def b_def)
  then have "(of_int (2 ^ a) :: rat) \<le> of_int n" "(of_int n :: rat) < of_int (2 ^ Suc a)"
    "(of_int (2 ^ b) :: rat) \<le> of_int d" "(of_int d :: rat) < of_int (2 ^ Suc b)"
    by (simp_all only: of_int_le_iff of_int_less_iff)
  then have na: "(2::rat) ^ a \<le> of_int n" "of_int n < (2::rat) * 2 ^ a"
    and db: "(2::rat) ^ b \<le> of_int d" "of_int d < (2::rat) * 2 ^ b"
    by simp_all
  have p: "pow2 (int a - int b) = 2 ^ a / 2 ^ b" by (rule pow2_diff)
  have "x < 2 * pow2 (int a - int b)"
  proof -
    have "of_int n * 2 ^ b < 2 * 2 ^ a * (of_int d :: rat)"
      using na(2) db(1) by (intro mult_less_le_imp_less) (use n in auto)
    then show ?thesis using d by (simp add: x p field_simps)
  qed
  moreover have "pow2 (int a - int b) < 2 * x"
  proof -
    have "2 ^ a * of_int d < of_int n * ((2::rat) * 2 ^ b)"
      using na(1) db(2) by (intro mult_le_less_imp_less) (use n d in auto)
    then show ?thesis using d by (simp add: x p field_simps)
  qed
  ultimately show "pow2 (ilog2 x) \<le> x" "x < pow2 (ilog2 x + 1)"
    using pow2_Suc [of "int a - int b"] pow2_Suc [of "int a - int b - 1"]
    by (auto simp: ilog2_def q bn bd Let_def)
qed

lemma ilog2_unique:
  assumes "pow2 k \<le> x" "x < pow2 (k + 1)"
  shows "ilog2 x = k"
proof -
  have "0 < x" using assms(1) pow2_pos [of k] by linarith
  from ilog2_bounds [OF this] assms have "pow2 (ilog2 x) < pow2 (k + 1)" "pow2 k < pow2 (ilog2 x + 1)"
    by linarith+
  then show ?thesis by (auto dest!: pow2_less_D)
qed

lemma ilog2_mono: "0 < x \<Longrightarrow> x \<le> y \<Longrightarrow> ilog2 x \<le> ilog2 y"
  using ilog2_bounds [of x] ilog2_bounds [of y] pow2_less_D [of "ilog2 x" "ilog2 y + 1"] by auto

subsection \<open>Rounding to the nearest integer\<close>

lemma rne_of_int [simp]: "rne (of_int i) = i"
  by (simp add: rne_def)

lemma rne_bounds: "\<lfloor>x\<rfloor> \<le> rne x" "rne x \<le> \<lfloor>x\<rfloor> + 1"
  by (auto simp: rne_def Let_def)

lemma rne_mono: "x \<le> y \<Longrightarrow> rne x \<le> rne y"
proof -
  assume le: "x \<le> y"
  show ?thesis
  proof (cases "\<lfloor>x\<rfloor> = \<lfloor>y\<rfloor>")
    case True
    with le show ?thesis by (auto simp: rne_def Let_def)
  next
    case False
    then have "\<lfloor>x\<rfloor> < \<lfloor>y\<rfloor>" using le floor_mono [OF le] by simp
    then show ?thesis using rne_bounds [of x] rne_bounds [of y] by linarith
  qed
qed

lemma rne_le: "x \<le> of_int i \<Longrightarrow> rne x \<le> i"
  using rne_mono [of x "of_int i"] by simp

lemma rne_ge: "of_int i \<le> x \<Longrightarrow> i \<le> rne x"
  using rne_mono [of "of_int i" x] by simp

subsection \<open>Rounding to a given precision\<close>

lemma fl_0 [simp]: "fl p 0 = 0"
  by (simp add: fl_def)

lemma ulp_pos [simp]: "0 < ulp p x"
  by (simp add: ulp_def)

text \<open>A rounded positive value stays within its binade, ends included.\<close>

lemma fl_binade:
  assumes "0 < x" "1 \<le> p"
  shows "pow2 (ilog2 x) \<le> fl p x" and "fl p x \<le> pow2 (ilog2 x + 1)"
proof -
  define e where "e = ilog2 x"
  define s where "s = ulp p x"
  have s: "s = pow2 (e - int p + 1)" "0 < s" using assms by (simp_all add: s_def e_def ulp_def)
  have lo: "pow2 e = of_int (2 ^ (p - 1)) * s"
    using pow2_add_nat [of "e - int p + 1" "p - 1"] assms s by simp
  have hi: "pow2 (e + 1) = of_int (2 ^ p) * s"
    using pow2_add_nat [of "e - int p + 1" p] s by (simp add: algebra_simps)
  have "of_int (2 ^ (p - 1)) \<le> x / s" "x / s \<le> of_int (2 ^ p)"
    using ilog2_bounds [OF assms(1)] lo hi s(2)
    by (simp_all add: e_def [symmetric] pos_le_divide_eq pos_divide_le_eq)
  then have "2 ^ (p - 1) \<le> rne (x / s)" "rne (x / s) \<le> 2 ^ p" by (simp_all only: rne_le rne_ge)
  then have "of_int (2 ^ (p - 1)) * s \<le> of_int (rne (x / s)) * s"
    "of_int (rne (x / s)) * s \<le> of_int (2 ^ p) * s"
    using s(2) by (simp_all only: mult_le_cancel_right_pos of_int_le_iff)
  then show "pow2 (ilog2 x) \<le> fl p x" "fl p x \<le> pow2 (ilog2 x + 1)"
    using assms(1) lo hi by (simp_all add: fl_def s_def e_def)
qed

lemma fl_nonneg: "0 \<le> x \<Longrightarrow> 1 \<le> p \<Longrightarrow> 0 \<le> fl p x"
  using order_trans [OF pow2_nonneg fl_binade(1) [of x p]] by (cases "x = 0") simp_all

lemma fl_mono:
  assumes "0 \<le> x" "x \<le> y" "1 \<le> p"
  shows "fl p x \<le> fl p y"
proof (cases "x = 0")
  case True
  then show ?thesis using fl_nonneg [of y p] assms by simp
next
  case False
  then have pos: "0 < x" "0 < y" using assms by simp_all
  show ?thesis
  proof (cases "ilog2 x = ilog2 y")
    case True
    then have "ulp p x = ulp p y" using pos by (simp add: ulp_def)
    moreover have "rne (x / ulp p y) \<le> rne (y / ulp p y)"
      by (rule rne_mono) (use assms(2) in \<open>simp add: divide_right_mono less_imp_le\<close>)
    ultimately show ?thesis using pos by (simp add: fl_def mult_right_mono less_imp_le)
  next
    case False
    then have "ilog2 x + 1 \<le> ilog2 y" using ilog2_mono [OF pos(1) assms(2)] by simp
    then have "pow2 (ilog2 x + 1) \<le> pow2 (ilog2 y)" by (rule pow2_mono)
    then show ?thesis
      using fl_binade(2) [OF pos(1) assms(3)] fl_binade(1) [OF pos(2) assms(3)] by linarith
  qed
qed

text \<open>Values of at most \<open>p\<close> significant bits are exact.\<close>

lemma fl_dyadic:
  assumes "m < 2 ^ p" "1 \<le> p"
  shows "fl p (of_nat m * pow2 k) = of_nat m * pow2 k"
proof (cases "m = 0")
  case True
  then show ?thesis by simp
next
  case False
  define e where "e = ilog2 (of_nat m)"
  have m: "0 < (of_nat m :: rat)" using False by simp
  note b = ilog2_bounds [OF m, folded e_def]
  have "pow2 e < pow2 (int p)"
    using b(1) assms(1) by (simp add: pow2_of_nat) (metis le_less_trans of_nat_less_iff of_nat_numeral of_nat_power)
  then have ep: "e < int p" by (rule pow2_less_D)
  have "ilog2 (of_nat m * pow2 k) = e + k"
    by (rule ilog2_unique) (use b in \<open>auto simp: pow2_add mult_right_mono\<close>)
  then have u: "ulp p (of_nat m * pow2 k) = pow2 (e + k - int p + 1)"
    by (simp add: ulp_def abs_mult)
  define j where "j = nat (int p - 1 - e)"
  have "k = (e + k - int p + 1) + int j" using ep by (simp add: j_def)
  then have "pow2 k = pow2 (e + k - int p + 1) * 2 ^ j" by (metis pow2_add_nat)
  then have q: "of_nat m * pow2 k / pow2 (e + k - int p + 1) = of_int (int m * 2 ^ j)"
    and k: "of_int (int m * 2 ^ j) * pow2 (e + k - int p + 1) = of_nat m * pow2 k" by simp_all
  show ?thesis unfolding fl_def u q rne_of_int k by simp
qed

lemma fl_of_nat: "m < 2 ^ p \<Longrightarrow> 1 \<le> p \<Longrightarrow> fl p (of_nat m) = of_nat m"
  using fl_dyadic [of m p 0] by simp

lemma rne_minus: "rne (- x) = - rne x"
proof (cases "x = of_int \<lfloor>x\<rfloor>")
  case True
  then show ?thesis by (metis of_int_minus rne_of_int)
next
  case False
  then have "of_int \<lfloor>x\<rfloor> < x" using of_int_floor_le [of x] by linarith
  then have "\<lfloor>- x\<rfloor> = - \<lfloor>x\<rfloor> - 1" by (intro floor_unique) (use floor_correct [of x] in simp_all)
  then show ?thesis by (auto simp: rne_def Let_def)
qed

lemma rne_err: "\<bar>of_int (rne x) - x\<bar> \<le> 1 / 2"
  using of_int_floor_le [of x] floor_correct [of x]
  by (auto simp: rne_def Let_def abs_if simp del: of_int_floor_le)

lemma fl_minus: "fl p (- x) = - fl p x"
  by (simp add: fl_def ulp_def rne_minus)

lemma fl_nonpos: "x \<le> 0 \<Longrightarrow> 1 \<le> p \<Longrightarrow> fl p x \<le> 0"
  using fl_nonneg [of "- x" p] by (simp add: fl_minus)

lemma fl_mono_le:
  assumes "x \<le> y" "1 \<le> p"
  shows "fl p x \<le> fl p y"
proof (cases "0 \<le> x \<or> y \<le> 0")
  case True
  then show ?thesis using fl_mono [of x y p] fl_mono [of "- y" "- x" p] assms by (auto simp: fl_minus)
next
  case False
  then show ?thesis using fl_nonpos [of x p] fl_nonneg [of y p] assms by linarith
qed

lemma fl_err:
  assumes "1 \<le> p"
  shows "\<bar>fl p x - x\<bar> \<le> \<bar>x\<bar> / 2 ^ p"
proof (cases "x = 0")
  case False
  have u: "ulp p x = pow2 (ilog2 \<bar>x\<bar>) * 2 / 2 ^ p"
    using pow2_add_nat [of "ilog2 \<bar>x\<bar> - int p + 1" p] pow2_Suc [of "ilog2 \<bar>x\<bar>"] by (simp add: ulp_def field_simps)
  have "fl p x - x = (of_int (rne (x / ulp p x)) - x / ulp p x) * ulp p x"
    using False less_imp_neq [OF ulp_pos [of p x]] by (simp add: fl_def algebra_simps)
  then have "\<bar>fl p x - x\<bar> = \<bar>of_int (rne (x / ulp p x)) - x / ulp p x\<bar> * ulp p x"
    by (simp only: abs_mult abs_of_pos [OF ulp_pos])
  also have "\<dots> \<le> 1 / 2 * ulp p x"
    by (intro mult_right_mono rne_err less_imp_le [OF ulp_pos])
  also have "\<dots> = pow2 (ilog2 \<bar>x\<bar>) / 2 ^ p" by (simp add: u)
  also have "\<dots> \<le> \<bar>x\<bar> / 2 ^ p" using ilog2_bounds(1) [of "\<bar>x\<bar>"] False by (simp add: divide_right_mono)
  finally show ?thesis .
qed simp

lemma fl_up: "0 \<le> x \<Longrightarrow> 1 \<le> p \<Longrightarrow> fl p x \<le> x * (1 + 1 / 2 ^ p)"
  using fl_err [of p x] by (simp add: abs_if algebra_simps split: if_splits)

lemma unat_trunc_word:
  assumes "0 \<le> x" "x < 2 ^ LENGTH('a)"
  shows "unat (trunc_word x :: 'a::len word) = nat \<lfloor>x\<rfloor>"
proof -
  have "\<lfloor>x\<rfloor> < 2 ^ LENGTH('a)" using assms(2) by (simp add: floor_less_iff)
  then have "uint (trunc_word x :: 'a word) = \<lfloor>x\<rfloor>" using assms(1)
    by (simp add: trunc_word_def uint_word_of_int take_bit_int_eq_self)
  then show ?thesis by (simp only: unat_eq_nat_uint)
qed

lemma fl_numeral:
  "(numeral k :: nat) < 2 ^ p \<Longrightarrow> 1 \<le> p \<Longrightarrow> fl p (numeral k) = numeral k"
  using fl_of_nat [of "numeral k" p] by simp

lemma fl_pow: "1 \<le> p \<Longrightarrow> fl p (2 ^ k) = 2 ^ k"
  using fl_dyadic [of 1 p "int k"] one_less_power [of "2 :: nat" p] by (simp add: pow2_def)

lemma fl_inverse_pow: "1 \<le> p \<Longrightarrow> fl p (1 / 2 ^ k) = 1 / 2 ^ k"
  using fl_dyadic [of 1 p "- int k"] one_less_power [of "2 :: nat" p] by (simp add: pow2_def split: if_splits)

lemma fl_half: "1 \<le> p \<Longrightarrow> fl p (1 / 2) = 1 / 2"
  using fl_inverse_pow [of p 1] by simp

lemma fl_one: "1 \<le> p \<Longrightarrow> fl p 1 = 1"
  using fl_of_nat [of 1 p] one_less_power [of "2 :: nat" p] by simp

text \<open>Rounding a rounded value changes nothing.\<close>

lemma fl_idem_pos:
  assumes "0 < x" "1 \<le> p"
  shows "fl p (fl p x) = fl p x"
proof -
  let ?k = "rne (x / ulp p x)"
  have ulp: "ulp p x = pow2 (ilog2 x - int p + 1)" using assms by (simp add: ulp_def)
  have "x < pow2 (ilog2 x + 1)" using ilog2_bounds [OF assms(1)] by simp
  also have "pow2 (ilog2 x + 1) = ulp p x * 2 ^ p" using pow2_add_nat [of "ilog2 x - int p + 1" p] by (simp add: ulp algebra_simps)
  finally have "x / ulp p x \<le> of_int (2 ^ p)" by (simp add: pos_divide_le_eq mult.commute)
  then have k: "?k \<le> 2 ^ p" by (rule rne_le)
  have k0: "0 \<le> ?k" using assms by (intro rne_ge) (simp add: zero_le_divide_iff less_imp_le)
  have fl: "fl p x = of_int ?k * ulp p x" using assms by (simp add: fl_def)
  show ?thesis
  proof (cases "?k = 2 ^ p")
    case True
    then have "fl p x = of_nat 1 * pow2 (ilog2 x + 1)"
      using fl \<open>pow2 (ilog2 x + 1) = ulp p x * 2 ^ p\<close> by simp
    then show ?thesis using fl_dyadic [of 1 p] assms(2) one_less_power [of "2 :: nat" p] by simp
  next
    case False
    define m where "m = nat ?k"
    have "?k = int m" using k0 by (simp add: m_def)
    moreover have "m < 2 ^ p" using k k0 False by (simp add: nat_less_iff m_def)
    ultimately have "fl p (of_nat m * ulp p x) = of_nat m * ulp p x" "fl p x = of_nat m * ulp p x"
      using fl_dyadic [of m p "ilog2 x - int p + 1"] assms(2) fl by (simp_all add: ulp)
    then show ?thesis by simp
  qed
qed

lemma fl_idem: "1 \<le> p \<Longrightarrow> fl p (fl p x) = fl p x"
  using fl_idem_pos [of x p] fl_idem_pos [of "- x" p] by (cases "x = 0 \<or> 0 < x") (auto simp: fl_minus)

subsection \<open>Percentages\<close>

text \<open>
  Comparing an integer with a quotient by 100 computed in double precision is exact: the
  quotient never rounds onto or across the integer.
\<close>

lemma to_double_eighth:
  assumes "m < 2 ^ 40"
  shows "to_double (of_nat m / 128) = of_nat m / 128"
  using fl_dyadic [of m 53 "- 7"] assms by (simp add: pow2_def)

lemma percent_le_iff:
  assumes "n < 2 ^ 32"
  shows "to_double (of_nat f / 100) \<le> of_nat n \<longleftrightarrow> f \<le> 100 * n"
proof
  assume le: "to_double (of_nat f / 100) \<le> of_nat n"
  show "f \<le> 100 * n"
  proof (rule ccontr)
    assume "\<not> f \<le> 100 * n"
    then have "(of_nat (100 * n + 1) :: rat) \<le> of_nat f" by (intro of_nat_mono) simp
    then have "of_nat (128 * n + 1) / 128 \<le> (of_nat f / 100 :: rat)" by simp
    then have "to_double (of_nat (128 * n + 1) / 128) \<le> to_double (of_nat f / 100)"
      by (intro fl_mono) simp_all
    then have "of_nat (128 * n + 1) / 128 \<le> (of_nat n :: rat)"
      using le assms to_double_eighth [of "128 * n + 1"] by simp
    then show False by simp
  qed
next
  assume "f \<le> 100 * n"
  then have "(of_nat f :: rat) \<le> of_nat (100 * n)" by (rule of_nat_mono)
  then have "to_double (of_nat f / 100) \<le> to_double (of_nat n)" by (intro fl_mono) simp_all
  then show "to_double (of_nat f / 100) \<le> of_nat n" using assms by (simp add: fl_of_nat)
qed

lemma percent_ge_iff:
  assumes "n < 2 ^ 32"
  shows "of_nat n \<le> to_double (of_nat f / 100) \<longleftrightarrow> 100 * n \<le> f"
proof
  assume le: "of_nat n \<le> to_double (of_nat f / 100)"
  show "100 * n \<le> f"
  proof (rule ccontr)
    assume "\<not> 100 * n \<le> f"
    then have "f + 1 \<le> 100 * n" "1 \<le> n" by linarith+
    then have "(of_nat (f + 1) :: rat) \<le> of_nat (100 * n)" by (intro of_nat_mono)
    moreover have "(of_nat (128 * n - 1) :: rat) = 128 * of_nat n - 1"
      using \<open>1 \<le> n\<close> by (simp add: of_nat_diff)
    ultimately have "(of_nat f / 100 :: rat) \<le> of_nat (128 * n - 1) / 128" by simp
    then have "to_double (of_nat f / 100) \<le> to_double (of_nat (128 * n - 1) / 128)"
      by (intro fl_mono) simp_all
    moreover have "to_double (of_nat (128 * n - 1) / 128) = of_nat (128 * n - 1) / 128"
      using assms by (intro to_double_eighth) simp
    ultimately have "(of_nat n :: rat) \<le> of_nat (128 * n - 1) / 128" using le by linarith
    then show False using \<open>(of_nat (128 * n - 1) :: rat) = 128 * of_nat n - 1\<close> by simp
  qed
next
  assume "100 * n \<le> f"
  then have "(of_nat (100 * n) :: rat) \<le> of_nat f" by (rule of_nat_mono)
  then have "to_double (of_nat n) \<le> to_double (of_nat f / 100)" by (intro fl_mono) simp_all
  then show "of_nat n \<le> to_double (of_nat f / 100)" using assms by (simp add: fl_of_nat)
qed

end
