(* ===== verification/Powercap_Types.thy ===== *)
theory Powercap_Types
  imports C_Float
begin

text \<open>
  The data of the powercap subsystem: the structures of
  \<^verbatim>\<open>daemon/powercap/powercap_status_conf.h\<close> and the constants of
  \<^verbatim>\<open>common/types/powercap.h\<close> and \<^verbatim>\<open>common/config/config_def.h\<close>.  Each structure is a record
  whose field names carry the structure's prefix; a heap array together with its length field
  is a list next to that field, and \<^const>\<open>None\<close> is the null pointer.  The mutexes are left out.
\<close>

subsection \<open>Status codes and configuration constants\<close>

abbreviation (input) PC_STATUS_OK :: u32 where "PC_STATUS_OK \<equiv> 0"
abbreviation (input) PC_STATUS_GREEDY :: u32 where "PC_STATUS_GREEDY \<equiv> 1"
abbreviation (input) PC_STATUS_RELEASE :: u32 where "PC_STATUS_RELEASE \<equiv> 2"
abbreviation (input) PC_STATUS_ASK_DEF :: u32 where "PC_STATUS_ASK_DEF \<equiv> 3"
abbreviation (input) PC_STATUS_IDLE :: u32 where "PC_STATUS_IDLE \<equiv> 4"
abbreviation (input) PC_STATUS_STOP :: u32 where "PC_STATUS_STOP \<equiv> 5"
abbreviation (input) PC_STATUS_START :: u32 where "PC_STATUS_START \<equiv> 6"
abbreviation (input) PC_STATUS_RUN :: u32 where "PC_STATUS_RUN \<equiv> 7"
abbreviation (input) PC_STATUS_ERROR :: u32 where "PC_STATUS_ERROR \<equiv> 100"

abbreviation (input) POWER_CAP_UNLIMITED :: u32 where "POWER_CAP_UNLIMITED \<equiv> 1"

abbreviation (input) DOMAIN_NODE :: nat where "DOMAIN_NODE \<equiv> 0"
abbreviation (input) DOMAIN_CPU :: nat where "DOMAIN_CPU \<equiv> 1"
abbreviation (input) DOMAIN_DRAM :: nat where "DOMAIN_DRAM \<equiv> 2"
abbreviation (input) DOMAIN_GPU :: nat where "DOMAIN_GPU \<equiv> 3"
abbreviation (input) NUM_DOMAINS :: nat where "NUM_DOMAINS \<equiv> 4"

abbreviation (input) PC_MODE_LIMIT :: u32 where "PC_MODE_LIMIT \<equiv> 200"
abbreviation (input) PC_MODE_TARGET :: u32 where "PC_MODE_TARGET \<equiv> 201"

subsection \<open>Structures\<close>

record node_powercap_opt =
  pc_def_powercap :: u32
  pc_powercap_idle :: u32
  pc_current_pc :: u32
  pc_last_t1_allocated :: u32
  pc_released :: u32
  pc_max_node_power :: u32
  pc_th_inc :: u32
  pc_th_red :: u32
  pc_th_release :: u32
  pc_powercap_status :: u32
  pc_cluster_perc_power :: u32
  pc_requested :: u32
  pc_pper_domain :: "u32 list"

record greedy_bytes =
  gb_requested :: u8
  gb_stress :: u8
  gb_extra_power :: u16

record powercap_status =
  cs_total_nodes :: u32
  cs_idle_nodes :: u32
  cs_released :: u32
  cs_requested :: u32
  cs_total_idle_power :: u32
  cs_current_power :: u32
  cs_total_powercap :: u32
  cs_num_greedy :: u32
  cs_greedy_nodes :: "i32 list"
  cs_greedy_data :: "greedy_bytes list"

record powercap_opt =
  po_num_greedy :: u32
  po_greedy_nodes :: "i32 list"
  po_extra_power :: "i32 list"
  po_cluster_perc_power :: u8

record dom_power =
  dp_platform :: u32
  dp_cpu :: u32
  dp_dram :: u32
  dp_gpu :: u32

record pc_release_data =
  rd_released :: u32

record domain_status =
  ds_ok :: u32
  ds_exceed :: u32
  ds_current_pc :: u32
  ds_stress :: u8
  ds_requested :: u8

record pmgt_status =
  ps_status :: u32
  ps_tbr :: u32
  ps_extra :: u16
  ps_requested :: u8
  ps_stress :: u8

record domain_settings =
  dm_node_ratio :: rat
  dm_security_range :: rat

end
