(* ===== verification/Powercap_Status.thy ===== *)
theory Powercap_Status
  imports Powercap_Types
begin

text \<open>
  The decision functions of \<^verbatim>\<open>daemon/powercap/powercap_status.c\<close>: how far a node is from its
  powercap, which status it reports, how stressed it is, and when a change of utilisation is
  large enough to redistribute power between the domains of the node.
\<close>

subsection \<open>Definitions\<close>

text \<open>
  \<open>util_changed\<close>: the arguments are narrowed to \<^verbatim>\<open>int\<close>, the quotient is computed in
  single precision and compared with \<open>MAX_ALLOWED_DIFF\<close>, which is \<open>0.25\<close>.  A positive
  quotient by zero is infinite, hence above the bound; zero by zero is not.
\<close>

definition float_ratio_above :: "int \<Rightarrow> int \<Rightarrow> rat \<Rightarrow> bool" where
  "float_ratio_above num den bound =
     (if den = 0 then 0 < num
      else bound < to_float (to_float (of_int num) / to_float (of_int den)))"

definition util_changed :: "u64 \<Rightarrow> u64 \<Rightarrow> bool" where
  "util_changed ucurr uprev =
     (let icurr = (ucast ucurr :: i32); iprev = (ucast uprev :: i32)
      in if uprev = 0 \<and> ucurr \<noteq> 0 then True
         else if ucurr = 0 \<and> uprev \<noteq> 0 then True
         else if uprev = 0 \<and> ucurr = 0 then False
         else let idiff = icurr - iprev
              in if sint idiff < 0
                 then float_ratio_above (sint (idiff * (- 1))) (sint iprev) (1 / 4)
                 else float_ratio_above (sint idiff) (sint icurr) (1 / 4))"

definition compute_power_to_release :: "node_powercap_opt \<Rightarrow> u32 \<Rightarrow> u32" where
  "compute_power_to_release pc_opt current = pc_th_release pc_opt"

definition compute_extra_gpu_power :: "u32 \<Rightarrow> u32 \<Rightarrow> u32 \<Rightarrow> u32" where
  "compute_extra_gpu_power current diff target = 10"

text \<open>
  The three tests share the signed distance to the cap.  Once it is known not to be negative,
  the comparison with an unsigned threshold is an unsigned one.
\<close>

definition more_power :: "node_powercap_opt \<Rightarrow> u32 \<Rightarrow> bool" where
  "more_power pc_opt current =
     (let dist = pc_current_pc pc_opt - current
      in if sint dist < 0 then True
         else if dist < pc_th_inc pc_opt then True
         else False)"

definition free_power :: "node_powercap_opt \<Rightarrow> u32 \<Rightarrow> bool" where
  "free_power pc_opt current =
     (let dist = pc_current_pc pc_opt - current
      in if sint dist < 0 then False
         else if dist \<ge> pc_th_red pc_opt then True
         else False)"

definition ok_power :: "node_powercap_opt \<Rightarrow> u32 \<Rightarrow> bool" where
  "ok_power pc_opt current =
     (let dist = pc_current_pc pc_opt - current
      in if sint dist < 0 then False
         else if dist < pc_th_red pc_opt \<and> dist > pc_th_inc pc_opt then True
         else False)"

definition is_powercap_set :: "node_powercap_opt \<Rightarrow> bool" where
  "is_powercap_set pc_opt = (pc_current_pc pc_opt \<noteq> 0)"

definition is_powercap_on :: "node_powercap_opt \<Rightarrow> bool" where
  "is_powercap_on pc_opt =
     (pc_powercap_status pc_opt \<noteq> PC_STATUS_ERROR \<and> is_powercap_set pc_opt)"

definition get_powercapopt_value :: "node_powercap_opt \<Rightarrow> u32" where
  "get_powercapopt_value pc_opt = pc_current_pc pc_opt"

definition get_powercap_allocated :: "node_powercap_opt \<Rightarrow> u32" where
  "get_powercap_allocated pc_opt = pc_last_t1_allocated pc_opt"

definition powercap_get_stress :: "u32 \<Rightarrow> u32 \<Rightarrow> u32 \<Rightarrow> u32 \<Rightarrow> u32" where
  "powercap_get_stress max_freq min_freq t_freq c_freq =
     (let dv = max_freq - min_freq
      in if dv > 0 then (100 * (t_freq - c_freq)) div dv else 0)"

definition compute_power_status :: "node_powercap_opt \<Rightarrow> u32 \<Rightarrow> u32" where
  "compute_power_status pc current_power =
     (if pc_last_t1_allocated pc < pc_def_powercap pc then PC_STATUS_ASK_DEF
      else if ok_power pc current_power then PC_STATUS_OK
      else if more_power pc current_power then PC_STATUS_GREEDY
      else if free_power pc current_power then PC_STATUS_RELEASE
      else PC_STATUS_OK)"

definition compute_next_status :: "node_powercap_opt \<Rightarrow> u32 \<Rightarrow> u64 \<Rightarrow> u64 \<Rightarrow> u32" where
  "compute_next_status pc current_power eff_f req_f =
     (let pstate = compute_power_status pc current_power
      in if pstate = PC_STATUS_RELEASE
         then (if eff_f = req_f then PC_STATUS_RELEASE else PC_STATUS_OK)
         else if pstate = PC_STATUS_GREEDY
         then (if eff_f < req_f then PC_STATUS_GREEDY else PC_STATUS_OK)
         else if pstate = PC_STATUS_OK
         then (if eff_f < req_f then PC_STATUS_GREEDY else PC_STATUS_OK)
         else pstate)"

definition powercap_status_to_str :: "u32 \<Rightarrow> string" where
  "powercap_status_to_str s =
     (if s = PC_STATUS_OK then ''OK''
      else if s = PC_STATUS_GREEDY then ''greedy''
      else if s = PC_STATUS_RELEASE then ''release''
      else if s = PC_STATUS_ASK_DEF then ''ask_def''
      else if s = PC_STATUS_IDLE then ''idle''
      else if s = PC_STATUS_STOP then ''stop''
      else if s = PC_STATUS_START then ''start''
      else if s = PC_STATUS_RUN then ''run''
      else ''undef'')"

text \<open>A node at 300 W, for the examples.\<close>

definition node_example :: node_powercap_opt where
  "node_example = \<lparr>pc_def_powercap = 250, pc_powercap_idle = 100, pc_current_pc = 300,
     pc_last_t1_allocated = 300, pc_released = 0, pc_max_node_power = 500, pc_th_inc = 5,
     pc_th_red = 50, pc_th_release = 25, pc_powercap_status = PC_STATUS_OK,
     pc_cluster_perc_power = 100, pc_requested = 0, pc_pper_domain = [0, 150, 50, 100]\<rparr>"

subsection \<open>Distance to the cap\<close>

lemma power_tests:
  assumes "unat (pc_current_pc pc) < 2 ^ 31" "unat current < 2 ^ 31"
  shows "more_power pc current \<longleftrightarrow>
           unat (pc_current_pc pc) < unat current + unat (pc_th_inc pc)"
    and "free_power pc current \<longleftrightarrow>
           unat current + unat (pc_th_red pc) \<le> unat (pc_current_pc pc)"
    and "ok_power pc current \<longleftrightarrow>
           unat current + unat (pc_th_inc pc) < unat (pc_current_pc pc) \<and>
           unat (pc_current_pc pc) < unat current + unat (pc_th_red pc)"
  using assms unat_dist [of current "pc_current_pc pc"]
  by (cases "unat (pc_current_pc pc) < unat current";
      simp add: more_power_def free_power_def ok_power_def Let_def sint_dist_neg word_less_nat_alt
        word_le_nat_alt; linarith)+

text \<open>\<open>compute_power_status\<close> classifies a node by the headroom below its cap: less than
  \<open>th_inc\<close> watts (or a consumption above the cap) is greedy, at least \<open>th_red\<close> watts can be
  released, anything between is fine.\<close>

theorem compute_power_status_spec:
  assumes "pc_def_powercap pc \<le> pc_last_t1_allocated pc" and "pc_th_inc pc \<le> pc_th_red pc"
    and "unat (pc_current_pc pc) < 2 ^ 31" and "unat current < 2 ^ 31"
  shows "compute_power_status pc current =
    (if unat (pc_current_pc pc) < unat current + unat (pc_th_inc pc) then PC_STATUS_GREEDY
     else if unat current + unat (pc_th_red pc) \<le> unat (pc_current_pc pc) then PC_STATUS_RELEASE
     else PC_STATUS_OK)"
  using assms by (auto simp: compute_power_status_def power_tests word_le_nat_alt not_less)

text \<open>The status a node takes next depends on the cap, the consumption and the release
  threshold only: it is greedy when it runs below the requested frequency with less than
  \<open>th_red\<close> watts left, it releases power when it runs at the requested frequency with at least
  \<open>th_red\<close> watts left, and a node below its default allocation always asks for it.  The
  threshold \<open>th_inc\<close> has no influence.\<close>

theorem compute_next_status_spec:
  assumes "pc_th_inc pc \<le> pc_th_red pc"
    and "unat (pc_current_pc pc) < 2 ^ 31" and "unat current < 2 ^ 31"
  shows "compute_next_status pc current eff_f req_f =
    (if pc_last_t1_allocated pc < pc_def_powercap pc then PC_STATUS_ASK_DEF
     else if unat current + unat (pc_th_red pc) \<le> unat (pc_current_pc pc)
     then (if eff_f = req_f then PC_STATUS_RELEASE else PC_STATUS_OK)
     else (if eff_f < req_f then PC_STATUS_GREEDY else PC_STATUS_OK))"
  using assms
  by (auto simp: compute_next_status_def compute_power_status_def power_tests word_le_nat_alt
      word_less_nat_alt)

subsection \<open>Stress\<close>

lemma stress_unat:
  assumes "min_freq \<le> max_freq" "c_freq \<le> t_freq" "100 * (unat t_freq - unat c_freq) < 2 ^ 32"
  shows "unat (powercap_get_stress max_freq min_freq t_freq c_freq) =
           100 * (unat t_freq - unat c_freq) div (unat max_freq - unat min_freq)"
proof -
  have d: "unat (max_freq - min_freq) = unat max_freq - unat min_freq"
    and n: "unat (t_freq - c_freq) = unat t_freq - unat c_freq"
    using assms by (simp_all add: unat_dist word_le_nat_alt)
  have "unat (100 * (t_freq - c_freq)) = 100 * (unat t_freq - unat c_freq)"
    using assms(3) by (subst unat_times) (simp_all add: n)
  then show ?thesis
    by (simp add: powercap_get_stress_def Let_def unat_div d word_less_nat_alt)
qed

text \<open>Between the minimum and the target frequency, the stress is the percentage of the
  frequency range the node is below its target, and it never exceeds 100.\<close>

theorem powercap_get_stress_percent:
  assumes "min_freq \<le> c_freq" "c_freq \<le> t_freq" "t_freq \<le> max_freq"
    and "100 * (unat max_freq - unat min_freq) < 2 ^ 32"
  shows "unat (powercap_get_stress max_freq min_freq t_freq c_freq) =
           100 * (unat t_freq - unat c_freq) div (unat max_freq - unat min_freq) \<and>
         powercap_get_stress max_freq min_freq t_freq c_freq \<le> 100"
proof -
  have le: "unat t_freq - unat c_freq \<le> unat max_freq - unat min_freq"
    using assms(1-3) by (auto simp: word_le_nat_alt)
  then have e: "unat (powercap_get_stress max_freq min_freq t_freq c_freq) =
           100 * (unat t_freq - unat c_freq) div (unat max_freq - unat min_freq)"
    using assms by (intro stress_unat) auto
  also have "\<dots> \<le> 100 * (unat max_freq - unat min_freq) div (unat max_freq - unat min_freq)"
    using le by (intro div_le_mono) simp
  also have "\<dots> \<le> 100" by simp
  finally show ?thesis using e by (simp add: word_le_nat_alt)
qed

text \<open>Above the target frequency (turbo, or a target lowered by the cap) the difference
  wraps around and the stress is above 100, outside the range the interface documents.\<close>

theorem powercap_get_stress_above_target:
  assumes "min_freq < max_freq" "t_freq < c_freq"
    and "100 * (unat c_freq - unat t_freq) + 101 * (unat max_freq - unat min_freq) \<le> 2 ^ 32"
  shows "100 < powercap_get_stress max_freq min_freq t_freq c_freq"
proof -
  define a where "a = 100 * (unat c_freq - unat t_freq)"
  define d where "d = unat max_freq - unat min_freq"
  have ud: "unat (max_freq - min_freq) = d" and d: "0 < d"
    using assms(1) by (simp_all add: d_def unat_dist word_less_nat_alt)
  have a: "0 < a" using assms(2) by (simp add: a_def word_less_nat_alt)
  have "unat (100 * (c_freq - t_freq)) = a"
    using assms by (subst unat_times; simp add: a_def unat_dist word_less_nat_alt)
  moreover have "100 * (t_freq - c_freq) = 0 - 100 * (c_freq - t_freq)" by simp
  ultimately have "unat (100 * (t_freq - c_freq)) = 2 ^ 32 - a"
    using a by (simp only: unat_sub_if') simp
  moreover have "101 * d \<le> 2 ^ 32 - a" using assms(3) by (simp add: a_def d_def)
  then have "101 \<le> (2 ^ 32 - a) div d" using d by (simp add: less_eq_div_iff_mult_less_eq)
  ultimately show ?thesis
    using d by (simp add: powercap_get_stress_def Let_def word_less_nat_alt unat_div ud)
qed

subsection \<open>Utilisation changes\<close>

lemma float_ratio_above_quarter:
  assumes "a < 2 ^ 23" "0 < b" "b < 2 ^ 23"
  shows "float_ratio_above (int a) (int b) (1 / 4) \<longleftrightarrow> b < 4 * a"
proof -
  define q where "q = (of_nat a :: rat) / of_nat b"
  have f: "float_ratio_above (int a) (int b) (1 / 4) \<longleftrightarrow> 1 / 4 < to_float q"
    using assms by (simp add: float_ratio_above_def fl_of_nat q_def)
  have quarter: "to_float (1 / 4) = 1 / 4"
    using fl_dyadic [of 1 24 "- 2"] by (simp add: pow2_def)
  show ?thesis
  proof (cases "b < 4 * a")
    case True
    have "of_nat (b + 1) \<le> (of_nat (4 * a) :: rat)" using True by (intro of_nat_mono) simp
    then have ab: "(of_nat b + 1) / 4 \<le> (of_nat a :: rat)" by simp
    have "(of_nat b :: rat) \<le> of_nat (2 ^ 23)" using assms(3) by (intro of_nat_mono) simp
    then have "(1 / 4 + 1 / 2 ^ 25) * of_nat b \<le> (of_nat b + 1) / (4 :: rat)" by simp
    then have "1 / 4 + 1 / 2 ^ 25 \<le> q"
      using ab assms(2) unfolding q_def by (subst pos_le_divide_eq) (simp only: of_nat_0_less_iff, linarith)
    then have "to_float (1 / 4 + 1 / 2 ^ 25) \<le> to_float q" by (intro fl_mono) simp_all
    moreover have "to_float (1 / 4 + 1 / 2 ^ 25) = 1 / 4 + 1 / 2 ^ 25"
      using fl_dyadic [of "2 ^ 23 + 1" 24 "- 25"] by (simp add: pow2_def)
    ultimately have "1 / 4 < to_float q" by (simp add: less_le_trans)
    then show ?thesis using True f by simp
  next
    case False
    then have "of_nat (4 * a) \<le> (of_nat b :: rat)" by (intro of_nat_mono) simp
    then have "q \<le> 1 / 4" using assms(2) by (simp add: q_def field_simps)
    then have "to_float q \<le> 1 / 4"
      using fl_mono [of q "1 / 4" 24] quarter by (simp add: q_def)
    then show ?thesis using False f by simp
  qed
qed

lemma ucast_small: "unat (w :: u64) < 2 ^ 31 \<Longrightarrow> unat (ucast w :: i32) = unat w"
  by (simp add: unsigned_ucast_eq take_bit_nat_eq_self)

text \<open>A change of utilisation is reported exactly when it exceeds a quarter of the larger
  of the two values; the single-precision arithmetic of the test introduces no error for
  utilisations below \<open>2 ^ 23\<close>.\<close>

theorem util_changed_spec:
  assumes "unat ucurr < 2 ^ 23" "unat uprev < 2 ^ 23"
  shows "util_changed ucurr uprev \<longleftrightarrow>
           max (unat ucurr) (unat uprev) <
           4 * (max (unat ucurr) (unat uprev) - min (unat ucurr) (unat uprev))"
proof -
  have c: "unat (ucast ucurr :: i32) = unat ucurr" and p: "unat (ucast uprev :: i32) = unat uprev"
    using assms by (simp_all add: ucast_small)
  define d where "d = (ucast ucurr :: i32) - ucast uprev"
  have d: "sint d = int (unat ucurr) - int (unat uprev)"
    using assms by (simp add: d_def sint_dist c p)
  have s: "sint (ucast ucurr :: i32) = int (unat ucurr)" "sint (ucast uprev :: i32) = int (unat uprev)"
    using assms c p by (simp_all add: sint_small)
  show ?thesis
  proof (cases "unat ucurr < unat uprev")
    case True
    have "- d = ucast uprev - (ucast ucurr :: i32)" by (simp add: d_def)
    then have "sint (- d) = int (unat uprev - unat ucurr)"
      using True assms by (simp add: sint_dist c p)
    then show ?thesis
      using True assms d s float_ratio_above_quarter [of "unat uprev - unat ucurr" "unat uprev"]
      by (auto simp: util_changed_def Let_def d_def [symmetric] unat_eq_0 unat_gt_0)
  next
    case False
    then have "sint d = int (unat ucurr - unat uprev)" using d by simp
    then show ?thesis
      using False assms s float_ratio_above_quarter [of "unat ucurr - unat uprev" "unat ucurr"]
      by (auto simp: util_changed_def Let_def d_def [symmetric] unat_eq_0 unat_gt_0)
  qed
qed

end
