(* ===== verification/Node_Conf.thy ===== *)
theory Node_Conf
  imports Prelude "HOL-Library.Signed_Division"
begin

text \<open>
  Node lists in the style of SLURM (\<^verbatim>\<open>island[0-2]rack[07-12]\<close>), as
  \<^verbatim>\<open>common/types/configuration/node_conf.c\<close> stores them, counts them and tests membership in
  them, and as \<^verbatim>\<open>common/types/configuration/cluster_conf.c\<close> expands them into addresses and
  host names.  The main results relate the three: the expansion is the reference, the test is
  membership in it and the count is its length.  Numbers of a range are mathematical integers:
  they come from at most nine decimal digits.  The fixed-size text buffers are unbounded lists.
\<close>

subsection \<open>Data\<close>

record range_pair =
  pr_first :: int
  pr_second :: int
  pr_leading_zeroes :: int

datatype range_def =
  Range_Def (rg_prefix: string) (rg_numbers: "range_pair list") (rg_next: "range_def option")

record node_range =
  nr_r_def :: range_def
  nr_db_ip :: int
  nr_sec_ip :: int
  nr_specific_tags :: "nat list"
  nr_eargm_id :: int

text \<open>The fields of \<^verbatim>\<open>node_conf_t\<close> and \<^verbatim>\<open>node_island_t\<close> that take part in the functions below.\<close>

record node_conf =
  nc_range :: "node_range list"
  nc_cpus :: u32
  nc_coef_file :: string

record node_island =
  is_id :: u32
  is_ranges :: "node_range list"
  is_db_ips :: "string list"
  is_backup_ips :: "string list"
  is_specific_tags :: "string list"

subsection \<open>Printing a number with padding\<close>

fun digits :: "nat \<Rightarrow> string" where
  "digits n = (if n < 10 then [char_of (48 + n)] else digits (n div 10) @ [char_of (48 + n mod 10)])"

declare digits.simps [simp del]

text \<open>The conversion \<^verbatim>\<open>%d\<close> of \<^verbatim>\<open>sprintf\<close>.\<close>

definition show_int :: "int \<Rightarrow> string" where
  "show_int i = (if i < 0 then CHR ''-'' # digits (nat (- i)) else digits (nat i))"

function is_smaller_unit :: "int \<Rightarrow> int \<Rightarrow> int" where
  "is_smaller_unit small big =
     (if small = 0 then big else is_smaller_unit (small sdiv 10) (big sdiv 10))"
  by auto
termination
proof (relation "measure (\<lambda>(small, _). nat \<bar>small\<bar>)")
  show "((small sdiv 10, big sdiv 10), small, big) \<in> measure (\<lambda>(small, _). nat \<bar>small\<bar>)"
    if "small \<noteq> 0" for small big :: int
    using that by (auto simp: signed_divide_int_def sgn_if abs_mult)
qed simp

function difference_loop :: "int \<Rightarrow> int \<Rightarrow> int \<Rightarrow> int" where
  "difference_loop small big difference =
     (if big = 0 then difference
      else difference_loop (small sdiv 10) (big sdiv 10)
             (if small = 0 then difference + 1 else difference))"
  by auto
termination
proof (relation "measure (\<lambda>(_, big, _). nat \<bar>big\<bar>)")
  show "((small sdiv 10, big sdiv 10, if small = 0 then d + 1 else d), small, big, d)
      \<in> measure (\<lambda>(_, big, _). nat \<bar>big\<bar>)" if "big \<noteq> 0" for small big d :: int
    using that by (auto simp: signed_divide_int_def sgn_if abs_mult)
qed simp

declare is_smaller_unit.simps [simp del] difference_loop.simps [simp del]

definition difference_in_units :: "int \<Rightarrow> int \<Rightarrow> int" where
  "difference_in_units small big = difference_loop (if small = 0 then small + 1 else small) big 0"

subsection \<open>Counting, expanding, testing\<close>

text \<open>
  The texts that one pair of numbers contributes after \<open>base\<close> and the prefix: none for
  \<open>0-0\<close>, the padded number for \<open>N-0\<close>, one padded number per value of the interval
  otherwise.  The membership test and the two expansions of the configuration each have a copy of
  this part of their loop bodies: \<open>pair_buffs\<close> is that of the test, \<open>ip_pair_buffs\<close> and
  \<open>name_pair_buffs\<close> are those of the expansions.
\<close>

definition pair_buffs :: "string \<Rightarrow> string \<Rightarrow> range_pair \<Rightarrow> string list" where
  "pair_buffs base prefix aux =
     (if pr_first aux = 0 \<and> pr_second aux = 0 then [base @ prefix]
      else if pr_second aux = 0
      then [base @ prefix @ replicate (nat (pr_leading_zeroes aux)) CHR ''0'' @ show_int (pr_first aux)]
      else map (\<lambda>i. base @ prefix @
                  replicate (nat (pr_leading_zeroes aux + difference_in_units (pr_first aux + i) (pr_second aux)))
                    CHR ''0'' @
                  show_int (pr_first aux + i))
             [0..pr_second aux - pr_first aux])"

definition ip_pair_buffs :: "string \<Rightarrow> string \<Rightarrow> range_pair \<Rightarrow> string list" where
  "ip_pair_buffs base prefix aux =
     (if pr_first aux = 0 \<and> pr_second aux = 0 then [base @ prefix]
      else if pr_second aux = 0
      then [base @ prefix @ replicate (nat (pr_leading_zeroes aux)) CHR ''0'' @ show_int (pr_first aux)]
      else map (\<lambda>i. base @ prefix @
                  replicate (nat (pr_leading_zeroes aux + difference_in_units (pr_first aux + i) (pr_second aux)))
                    CHR ''0'' @
                  show_int (pr_first aux + i))
             [0..pr_second aux - pr_first aux])"

definition name_pair_buffs :: "string \<Rightarrow> string \<Rightarrow> range_pair \<Rightarrow> string list" where
  "name_pair_buffs base prefix aux =
     (if pr_first aux = 0 \<and> pr_second aux = 0 then [base @ prefix]
      else if pr_second aux = 0
      then [base @ prefix @ replicate (nat (pr_leading_zeroes aux)) CHR ''0'' @ show_int (pr_first aux)]
      else map (\<lambda>i. base @ prefix @
                  replicate (nat (pr_leading_zeroes aux + difference_in_units (pr_first aux + i) (pr_second aux)))
                    CHR ''0'' @
                  show_int (pr_first aux + i))
             [0..pr_second aux - pr_first aux])"

fun range_get_num_nodes :: "range_def option \<Rightarrow> int" where
  "range_get_num_nodes None = 1"
| "range_get_num_nodes (Some (Range_Def prefix numbers next)) =
     (if numbers = [] then 1
      else let inner_count = range_get_num_nodes next
           in foldl (\<lambda>total aux.
                if pr_first aux = 0 \<and> pr_second aux = 0 then total + 1
                else if pr_second aux = 0 then total + 1 * inner_count
                else total + (pr_second aux - pr_first aux + 1) * inner_count) 0 numbers)"

definition node_range_get_num_nodes :: "node_range \<Rightarrow> int" where
  "node_range_get_num_nodes r = range_get_num_nodes (Some (nr_r_def r))"

fun check_range_for_node :: "string \<Rightarrow> range_def option \<Rightarrow> string \<Rightarrow> bool" where
  "check_range_for_node base None nodename = (nodename = base)"
| "check_range_for_node base (Some (Range_Def prefix numbers next)) nodename =
     (if numbers = [] then nodename = base @ prefix
      else list_ex (\<lambda>aux.
             list_ex (\<lambda>buff. take (length buff) nodename = buff \<and> check_range_for_node buff next nodename)
               (pair_buffs base prefix aux)) numbers)"

text \<open>
  The resolver behind \<open>get_ip\<close> is a parameter.  The arrays the code reallocates are the
  accumulators.
\<close>

fun add_ips_from_range ::
  "(string \<Rightarrow> int) \<Rightarrow> string \<Rightarrow> range_def option \<Rightarrow> int list \<Rightarrow> int list" where
  "add_ips_from_range get_ip base None ips = ips @ [get_ip base]"
| "add_ips_from_range get_ip base (Some (Range_Def prefix numbers next)) ips =
     (if numbers = [] then ips @ [get_ip (base @ prefix)]
      else fold (\<lambda>aux ips.
             fold (\<lambda>buff ips. add_ips_from_range get_ip buff next ips) (ip_pair_buffs base prefix aux) ips)
             numbers ips)"

fun add_ips_and_names_from_range ::
  "(string \<Rightarrow> int) \<Rightarrow> string \<Rightarrow> range_def option \<Rightarrow> int list \<times> string list \<Rightarrow> int list \<times> string list" where
  "add_ips_and_names_from_range get_ip base None (ips, names) = (ips @ [get_ip base], names @ [base])"
| "add_ips_and_names_from_range get_ip base (Some (Range_Def prefix numbers next)) (ips, names) =
     (if numbers = [] then (ips @ [get_ip (base @ prefix)], names @ [base @ prefix])
      else fold (\<lambda>aux acc.
             fold (\<lambda>buff acc. add_ips_and_names_from_range get_ip buff next acc) (name_pair_buffs base prefix aux) acc)
             numbers (ips, names))"

definition range_conf_contains_node :: "node_conf \<Rightarrow> string \<Rightarrow> bool" where
  "range_conf_contains_node node nodename =
     list_ex (\<lambda>rng. let r = nr_r_def rng
        in take (length (rg_prefix r)) nodename = rg_prefix r \<and>
           (rg_numbers r = [] \<or> check_range_for_node '''' (Some r) nodename)) (nc_range node)"

fun island_range_loop :: "int \<Rightarrow> node_range list \<Rightarrow> string \<Rightarrow> int" where
  "island_range_loop i [] nodename = - 1"
| "island_range_loop i (rng # ranges) nodename =
     (let r = nr_r_def rng
      in if take (length (rg_prefix r)) nodename \<noteq> rg_prefix r then island_range_loop (i + 1) ranges nodename
         else if rg_numbers r = [] then i
         else if check_range_for_node '''' (Some r) nodename then i
         else island_range_loop (i + 1) ranges nodename)"

definition nodeconf_get_island_range_for_node :: "node_island \<Rightarrow> string \<Rightarrow> int" where
  "nodeconf_get_island_range_for_node node nodename = island_range_loop 0 (is_ranges node) nodename"

subsection \<open>The names a range denotes\<close>

text \<open>
  The reference: the host names of a range, in the order of the expansion.
\<close>

fun range_names :: "string \<Rightarrow> range_def option \<Rightarrow> string list" where
  "range_names base None = [base]"
| "range_names base (Some (Range_Def prefix numbers next)) =
     (if numbers = [] then [base @ prefix]
      else concat (map (\<lambda>aux. concat (map (\<lambda>buff. range_names buff next) (pair_buffs base prefix aux))) numbers))"

text \<open>
  A range is well formed when its numbers are not negative, its intervals are not empty, and
  an empty number stands at the last level only or above a single name.
\<close>

definition wf_pair :: "range_pair \<Rightarrow> bool" where
  "wf_pair aux \<longleftrightarrow> 0 \<le> pr_first aux \<and> 0 \<le> pr_leading_zeroes aux \<and>
     (pr_second aux = 0 \<or> pr_first aux \<le> pr_second aux)"

fun wf_range :: "range_def option \<Rightarrow> bool" where
  "wf_range None = True"
| "wf_range (Some (Range_Def prefix numbers next)) =
     (list_all (\<lambda>aux. wf_pair aux \<and>
        (pr_first aux = 0 \<and> pr_second aux = 0 \<longrightarrow> range_get_num_nodes next = 1)) numbers \<and> wf_range next)"

definition range_example :: range_def where
  "range_example = Range_Def ''rack'' [\<lparr>pr_first = 8, pr_second = 10, pr_leading_zeroes = 0\<rparr>,
     \<lparr>pr_first = 3, pr_second = 0, pr_leading_zeroes = 1\<rparr>]
     (Some (Range_Def ''n'' [\<lparr>pr_first = 0, pr_second = 1, pr_leading_zeroes = 0\<rparr>] None))"

lemma same_buffs [simp]:
  "ip_pair_buffs base prefix aux = pair_buffs base prefix aux"
  "name_pair_buffs base prefix aux = pair_buffs base prefix aux"
  by (simp_all only: ip_pair_buffs_def name_pair_buffs_def pair_buffs_def)

lemma fold_append_cong:
  "(\<And>b acc. b \<in> set bs \<Longrightarrow> f b acc = acc @ g b) \<Longrightarrow> fold f bs acc = acc @ concat (map g bs)"
  by (induction bs arbitrary: acc) auto

lemma fold_append_pair_cong:
  "(\<And>b acc. b \<in> set bs \<Longrightarrow> f b acc = (fst acc @ g b, snd acc @ h b)) \<Longrightarrow>
     fold f bs acc = (fst acc @ concat (map g bs), snd acc @ concat (map h bs))"
  by (induction bs arbitrary: acc) auto

lemma add_ips_eq: "add_ips_from_range get_ip base r ips = ips @ map get_ip (range_names base r)"
proof (induction base r arbitrary: ips rule: range_names.induct)
  case (2 base prefix numbers nxt)
  then show ?case
    by (auto simp: map_concat comp_def intro!: fold_append_cong)
qed simp

lemma add_ips_and_names_eq:
  "add_ips_and_names_from_range get_ip base r acc =
     (fst acc @ map get_ip (range_names base r), snd acc @ range_names base r)"
proof (induction base r arbitrary: acc rule: range_names.induct)
  case (1 base)
  then show ?case by (cases acc) simp
next
  case (2 base prefix numbers nxt)
  let ?names = "\<lambda>aux. concat (map (\<lambda>buff. range_names buff nxt) (pair_buffs base prefix aux))"
  have inner: "fold (\<lambda>buff acc. add_ips_and_names_from_range get_ip buff nxt acc) (pair_buffs base prefix aux) acc =
      (fst acc @ map get_ip (?names aux), snd acc @ ?names aux)"
    if "numbers \<noteq> []" "aux \<in> set numbers" for aux acc
    using 2 [OF that] by (subst fold_append_pair_cong) (auto simp: map_concat comp_def)
  show ?case
  proof (cases "numbers = []")
    case True
    then show ?thesis by (cases acc) simp
  next
    case False
    then have "fold (\<lambda>aux acc. fold (\<lambda>buff acc. add_ips_and_names_from_range get_ip buff nxt acc)
        (pair_buffs base prefix aux) acc) numbers acc =
      (fst acc @ concat (map (\<lambda>aux. map get_ip (?names aux)) numbers), snd acc @ concat (map ?names numbers))"
      by (intro fold_append_pair_cong inner)
    then show ?thesis using False by (cases acc) (simp add: map_concat comp_def)
  qed
qed

lemma pair_buffs_prefix: "buff \<in> set (pair_buffs base prefix aux) \<Longrightarrow> \<exists>t. buff = base @ t"
  by (auto simp: pair_buffs_def split: if_splits)

lemma range_names_prefix: "n \<in> set (range_names base r) \<Longrightarrow> \<exists>t. n = base @ t"
proof (induction base r arbitrary: n rule: range_names.induct)
  case (2 base prefix numbers nxt)
  then show ?case by (fastforce dest: pair_buffs_prefix split: if_splits)
qed simp

lemma range_names_starts:
  "n \<in> set (range_names base (Some r)) \<Longrightarrow> take (length (base @ rg_prefix r)) n = base @ rg_prefix r"
  by (cases r) (auto simp: pair_buffs_def dest!: range_names_prefix split: if_splits)

lemma range_names_take: "n \<in> set (range_names base r) \<Longrightarrow> take (length base) n = base"
  by (auto dest: range_names_prefix)

lemma check_range_eq: "check_range_for_node base r n \<longleftrightarrow> n \<in> set (range_names base r)"
proof (induction base r arbitrary: n rule: range_names.induct)
  case (2 base prefix numbers nxt)
  then show ?case by (auto simp: list_ex_iff) (blast intro: range_names_take)
qed simp

lemma length_pair_buffs:
  "wf_pair aux \<Longrightarrow> int (length (pair_buffs base prefix aux)) =
     (if pr_second aux = 0 then 1 else pr_second aux - pr_first aux + 1)"
  by (auto simp: pair_buffs_def wf_pair_def)

lemma num_nodes_fold:
  "foldl (\<lambda>total aux. if P aux then total + 1 else if Q aux then total + 1 * inner
       else total + f aux * inner) (a :: int) numbers =
     a + (\<Sum>aux\<leftarrow>numbers. if P aux then 1 else if Q aux then inner else f aux * inner)"
  by (induction numbers arbitrary: a) auto

lemma length_range_names:
  "wf_range r \<Longrightarrow> int (length (range_names base r)) = range_get_num_nodes r"
proof (induction base r rule: range_names.induct)
  case (2 base prefix numbers nxt)
  let ?inner = "range_get_num_nodes nxt"
  let ?count = "\<lambda>aux. if pr_first aux = 0 \<and> pr_second aux = 0 then 1
      else if pr_second aux = 0 then ?inner else (pr_second aux - pr_first aux + 1) * ?inner"
  have one: "(\<Sum>buff\<leftarrow>pair_buffs base prefix aux. int (length (range_names buff nxt))) = ?count aux"
    if ne: "numbers \<noteq> []" and aux: "aux \<in> set numbers" for aux
  proof -
    have "(\<Sum>buff\<leftarrow>pair_buffs base prefix aux. int (length (range_names buff nxt))) =
        int (length (pair_buffs base prefix aux)) * ?inner"
      using 2 ne aux by (subst map_cong [OF refl, where g = "\<lambda>_. ?inner"]) (auto simp: sum_list_triv)
    then show ?thesis
      using 2(2) aux by (auto simp: list_all_iff length_pair_buffs)
  qed
  show ?case
  proof (cases "numbers = []")
    case False
    have "int (length (range_names base (Some (Range_Def prefix numbers nxt)))) =
        (\<Sum>aux\<leftarrow>numbers. \<Sum>buff\<leftarrow>pair_buffs base prefix aux. int (length (range_names buff nxt)))"
      using False by (simp add: length_concat_map_int)
    also have "\<dots> = (\<Sum>aux\<leftarrow>numbers. ?count aux)"
      using one [OF False] by (intro arg_cong [where f = sum_list] map_cong) auto
    finally show ?thesis
      using False num_nodes_fold [where P = "\<lambda>aux. pr_first aux = 0 \<and> pr_second aux = 0" and a = 0
          and Q = "\<lambda>aux. pr_second aux = 0" and f = "\<lambda>aux. pr_second aux - pr_first aux + 1"
          and inner = ?inner and numbers = numbers]
      by (simp only: range_get_num_nodes.simps Let_def if_False add_0)
  qed simp
qed simp

subsection \<open>Width of the numbers\<close>

fun num_digits :: "nat \<Rightarrow> nat" where
  "num_digits n = (if n = 0 then 0 else Suc (num_digits (n div 10)))"

declare num_digits.simps [simp del]

lemma num_digits_0 [simp]: "num_digits 0 = 0"
  by (simp add: num_digits.simps)

lemma num_digits_mono: "m \<le> n \<Longrightarrow> num_digits m \<le> num_digits n"
proof (induction n arbitrary: m rule: num_digits.induct)
  case (1 n)
  have "m div 10 \<le> n div 10" using 1(2) by (rule div_le_mono)
  then show ?case using 1 by (cases "n = 0") (auto simp: num_digits.simps [of n] num_digits.simps [of m])
qed

lemma length_digits: "0 < n \<Longrightarrow> length (digits n) = num_digits n"
proof (induction n rule: digits.induct)
  case (1 n)
  show ?case
  proof (cases "n < 10")
    case True
    then show ?thesis using 1(2) by (simp add: digits.simps [of n] num_digits.simps [of n])
  next
    case False
    then show ?thesis using 1 by (simp add: digits.simps [of n] num_digits.simps [of n])
  qed
qed

lemma sdiv_of_nat: "int n sdiv 10 = int (n div 10)"
  by (simp add: signed_divide_int_def sgn_if zdiv_int)

lemma difference_loop_digits:
  "difference_loop (int m) (int n) d = d + int (num_digits n - num_digits m)"
proof (induction n arbitrary: m d rule: num_digits.induct)
  case (1 n)
  show ?case
  proof (cases "n = 0")
    case True
    then show ?thesis by (simp add: difference_loop.simps)
  next
    case False
    then have "difference_loop (int m) (int n) d =
        (if m = 0 then d + 1 else d) + int (num_digits (n div 10) - num_digits (m div 10))"
      using 1 [of "m div 10"] by (subst difference_loop.simps) (auto simp: sdiv_of_nat)
    then show ?thesis using False by (cases "m = 0") (simp_all add: num_digits.simps [of n] num_digits.simps [of m])
  qed
qed

lemma length_digits_padding:
  assumes "m \<le> n" "0 < n"
  shows "difference_in_units (int m) (int n) = int (length (digits n)) - int (length (digits m))"
    and "length (digits m) \<le> length (digits n)"
proof -
  define k where "k = (if m = 0 then 1 else m)"
  have "difference_in_units (int m) (int n) = int (num_digits n - num_digits k)"
    using difference_loop_digits [of k n 0] by (cases "m = 0") (simp_all add: difference_in_units_def k_def)
  moreover have "length (digits m) = num_digits k"
    using length_digits [of m] by (cases "m = 0") (simp_all add: k_def digits.simps [of 0] num_digits.simps [of "Suc 0"])
  moreover have "num_digits k \<le> num_digits n"
    using assms by (intro num_digits_mono) (auto simp: k_def)
  ultimately show "difference_in_units (int m) (int n) = int (length (digits n)) - int (length (digits m))"
    "length (digits m) \<le> length (digits n)"
    using length_digits [of n] assms by simp_all
qed

subsection \<open>Reading a number back\<close>

definition num_of :: "string \<Rightarrow> nat" where
  "num_of s = foldl (\<lambda>v c. 10 * v + (of_char c - 48)) 0 s"

lemma num_of_zeroes: "num_of (replicate k CHR ''0'' @ s) = num_of s"
  by (induction k) (simp_all add: num_of_def)

lemma num_of_digits: "num_of (digits n) = n"
proof (induction n rule: digits.induct)
  case (1 n)
  have small: "of_char (char_of (48 + k) :: char) - 48 = k" if "k < 10" for k :: nat
    using that by (simp add: of_char_of)
  show ?case using 1 small [of n] small [of "n mod 10"]
    by (cases "n < 10") (simp_all add: digits.simps [of n] num_of_def)
qed

lemma num_of_snoc: "num_of (s @ [c]) = 10 * num_of s + (of_char c - 48)"
  by (simp add: num_of_def)

text \<open>Texts of decimal digits; one of given length is determined by its value.\<close>

definition decimal :: "string \<Rightarrow> bool" where
  "decimal s \<longleftrightarrow> list_all (\<lambda>c. (48 :: nat) \<le> of_char c \<and> of_char c < (58 :: nat)) s"

lemma decimal_digits: "decimal (digits n)"
proof (induction n rule: digits.induct)
  case (1 n)
  have "decimal [char_of (48 + k)]" if "k < 10" for k :: nat using that by (simp add: decimal_def of_char_of)
  then show ?case using 1 by (cases "n < 10") (simp_all add: digits.simps [of n] decimal_def)
qed

lemma decimal_unique:
  assumes "decimal s" "decimal t" "length s = length t" "num_of s = num_of t"
  shows "s = t"
  using assms
proof (induction s arbitrary: t rule: rev_induct)
  case (snoc c s)
  then obtain t' d where t: "t = t' @ [d]" by (metis length_0_conv rev_exhaust snoc_eq_iff_butlast)
  let ?v = "\<lambda>c. of_char c - 48 :: nat"
  have r: "?v c < 10" "?v d < 10" "(48 :: nat) \<le> of_char c" "(48 :: nat) \<le> of_char d"
    using snoc.prems(1,2) by (auto simp: t decimal_def)
  have "10 * num_of s + ?v c = 10 * num_of t' + ?v d" using snoc.prems(4) by (simp only: t num_of_snoc)
  moreover have "(10 * num_of s + ?v c) div 10 = num_of s" "(10 * num_of t' + ?v d) div 10 = num_of t'"
    using r(1,2) by simp_all
  ultimately have "num_of s = num_of t'" "?v c = ?v d" by simp_all
  moreover from this have "c = d" using r(3,4) by (metis of_char_eq_iff le_add_diff_inverse)
  ultimately show ?case using snoc by (simp add: t decimal_def)
qed simp

subsection \<open>What a range denotes\<close>

text \<open>
  An independent reading of the notation.  The text of a number is decimal; for an interval it has
  the width of the upper end and the leading zeroes, and its value lies in the interval.
\<close>

definition number_text :: "range_pair \<Rightarrow> string \<Rightarrow> bool" where
  "number_text aux num \<longleftrightarrow>
     (if pr_first aux = 0 \<and> pr_second aux = 0 then num = ''''
      else if pr_second aux = 0
      then decimal num \<and> int (num_of num) = pr_first aux \<and>
           length num = nat (pr_leading_zeroes aux) + length (show_int (pr_first aux))
      else decimal num \<and> pr_first aux \<le> int (num_of num) \<and> int (num_of num) \<le> pr_second aux \<and>
           length num = nat (pr_leading_zeroes aux) + length (show_int (pr_second aux)))"

fun denotes :: "range_def option \<Rightarrow> string \<Rightarrow> bool" where
  "denotes None name = (name = '''')"
| "denotes (Some (Range_Def prefix numbers next)) name =
     (if numbers = [] then name = prefix
      else \<exists>aux \<in> set numbers. \<exists>num rest. name = prefix @ num @ rest \<and> number_text aux num \<and> denotes next rest)"

lemma decimal_padded: "decimal (replicate k CHR ''0'' @ digits n)"
  using decimal_digits [of n] by (auto simp: decimal_def list_all_iff)

lemma number_text_padded:
  assumes "decimal num" "num_of num = n" "length num = k + length (digits n)"
  shows "num = replicate k CHR ''0'' @ digits n"
  using assms by (intro decimal_unique decimal_padded) (simp_all add: num_of_zeroes num_of_digits)

text \<open>The padded numbers of an interval up to \<open>n\<close>.\<close>

definition padded :: "nat \<Rightarrow> nat \<Rightarrow> nat \<Rightarrow> string" where
  "padded z n k = replicate (z + (length (digits n) - length (digits k))) CHR ''0'' @ digits k"

lemma padded_facts:
  assumes "k \<le> n" "0 < n"
  shows "padded z n k = replicate (nat (int z + difference_in_units (int k) (int n))) CHR ''0'' @ show_int (int k)"
    "length (padded z n k) = z + length (digits n)" "num_of (padded z n k) = k" "decimal (padded z n k)"
  using length_digits_padding [OF assms]
  by (simp_all add: padded_def show_int_def nat_add_distrib num_of_zeroes num_of_digits decimal_padded)

lemma interval_text:
  assumes "pr_first aux = int m" "pr_second aux = int n" "pr_leading_zeroes aux = int z" "0 < n"
  shows "number_text aux num \<longleftrightarrow> (\<exists>k. m \<le> k \<and> k \<le> n \<and> num = padded z n k)"
proof
  assume "number_text aux num"
  then have t: "decimal num" "m \<le> num_of num" "num_of num \<le> n" "length num = z + length (digits n)"
    using assms by (simp_all add: number_text_def show_int_def)
  have "num = padded z n (num_of num)" unfolding padded_def
    using t length_digits_padding(2) [OF t(3) assms(4)] by (intro number_text_padded) simp_all
  then show "\<exists>k. m \<le> k \<and> k \<le> n \<and> num = padded z n k" using t by blast
next
  assume "\<exists>k. m \<le> k \<and> k \<le> n \<and> num = padded z n k"
  then show "number_text aux num" using assms padded_facts by (auto simp: number_text_def show_int_def)
qed

lemma interval_buffs:
  assumes "pr_first aux = int m" "pr_second aux = int n" "pr_leading_zeroes aux = int z" "0 < n" "m \<le> n"
  shows "set (pair_buffs base prefix aux) = (\<lambda>k. base @ prefix @ padded z n k) ` {m..n}"
proof -
  have "set (pair_buffs base prefix aux) = (\<lambda>i. base @ prefix @ padded z n (m + nat i)) ` {0..int n - int m}"
    using assms padded_facts(1) [of "m + nat _" n z] by (auto simp: pair_buffs_def intro!: image_cong)
  also have "\<dots> = (\<lambda>k. base @ prefix @ padded z n k) ` ((\<lambda>i. m + nat i) ` {0..int n - int m})" by (simp add: image_image)
  also have "(\<lambda>i. m + nat i) ` {0..int n - int m} = {m..n}"
  proof -
    have "k \<in> (\<lambda>i. m + nat i) ` {0..int n - int m}" if "m \<le> k" "k \<le> n" for k
      using that by (intro image_eqI [of _ _ "int (k - m)"]) auto
    then show ?thesis using assms(5) by auto
  qed
  finally show ?thesis .
qed

lemma pair_buffs_text:
  assumes "wf_pair aux"
  shows "buff \<in> set (pair_buffs base prefix aux) \<longleftrightarrow> (\<exists>num. buff = base @ prefix @ num \<and> number_text aux num)"
proof -
  define m n z where "m = nat (pr_first aux)" and "n = nat (pr_second aux)" and "z = nat (pr_leading_zeroes aux)"
  have wf: "pr_first aux = int m" "pr_leading_zeroes aux = int z" "pr_second aux = 0 \<or> m \<le> n \<and> pr_second aux = int n"
    using assms by (auto simp: wf_pair_def m_def n_def z_def)
  consider (none) "m = 0" "pr_second aux = 0" | (one) "m \<noteq> 0" "pr_second aux = 0" | (interval) "pr_second aux \<noteq> 0" by blast
  then show ?thesis
  proof cases
    case none
    then show ?thesis using wf by (simp add: pair_buffs_def number_text_def)
  next
    case one
    have "number_text aux num \<longleftrightarrow> num = replicate z CHR ''0'' @ digits m" for num
      using one wf number_text_padded [of num m z] decimal_padded [of z m]
      by (auto simp: number_text_def show_int_def num_of_zeroes num_of_digits)
    then show ?thesis using one wf by (simp add: pair_buffs_def show_int_def)
  next
    case interval
    then have "pr_second aux = int n" "m \<le> n" "0 < n" using wf by auto
    then show ?thesis
      using interval_buffs [OF wf(1) _ wf(2)] interval_text [OF wf(1) _ wf(2)] by auto
  qed
qed

lemma range_names_denotes:
  "wf_range r \<Longrightarrow> name \<in> set (range_names base r) \<longleftrightarrow> (\<exists>t. name = base @ t \<and> denotes r t)"
proof (induction base r arbitrary: name rule: range_names.induct)
  case (2 base prefix numbers nxt)
  show ?case
  proof (cases "numbers = []")
    case False
    have wf: "wf_pair aux" "wf_range nxt" if "aux \<in> set numbers" for aux
      using 2(2) that by (auto simp: list_all_iff)
    have "name \<in> set (range_names base (Some (Range_Def prefix numbers nxt))) \<longleftrightarrow>
        (\<exists>aux \<in> set numbers. \<exists>buff \<in> set (pair_buffs base prefix aux). name \<in> set (range_names buff nxt))"
      using False by auto
    also have "\<dots> \<longleftrightarrow> (\<exists>aux \<in> set numbers. \<exists>buff \<in> set (pair_buffs base prefix aux). \<exists>t. name = buff @ t \<and> denotes nxt t)"
      by (intro bex_cong refl) (rule 2(1) [OF False _ _ wf(2)])
    also have "\<dots> \<longleftrightarrow> (\<exists>aux \<in> set numbers. \<exists>num. number_text aux num \<and> (\<exists>t. name = (base @ prefix @ num) @ t \<and> denotes nxt t))"
      by (intro bex_cong refl) (auto simp only: Bex_def pair_buffs_text [OF wf(1)])
    also have "\<dots> \<longleftrightarrow> (\<exists>t. name = base @ t \<and> denotes (Some (Range_Def prefix numbers nxt)) t)"
      using False by auto
    finally show ?thesis .
  qed simp
qed simp

subsection \<open>Properties\<close>

text \<open>C18. Expanding a well-formed range yields exactly the names it denotes: those of the prefix, a
  decimal number of the right value and width and a name of the next level.  Both expansions
  of the configuration store the resolved addresses of these names in the same order, as
  many as the configuration counts.\<close>

theorem expansion_denotes:
  assumes "wf_range r"
  shows "\<exists>names. add_ips_and_names_from_range get_ip base r ([], []) = (map get_ip names, names) \<and>
    add_ips_from_range get_ip base r [] = map get_ip names \<and> int (length names) = range_get_num_nodes r \<and>
    (\<forall>name. name \<in> set names \<longleftrightarrow> (\<exists>t. name = base @ t \<and> denotes r t))"
  using range_names_denotes [OF assms] length_range_names [OF assms]
  by (intro exI [of _ "range_names base r"]) (simp add: add_ips_eq add_ips_and_names_eq)

lemma expansion_denotes_witness:
  "''rack09n1'' \<in> set (snd (add_ips_and_names_from_range (\<lambda>_. 0) '''' (Some range_example) ([], []))) \<and>
   length (add_ips_from_range (\<lambda>_. 0) '''' (Some range_example) []) = 8"
proof -
  have "wf_range (Some range_example)" by (simp add: range_example_def wf_pair_def)
  from expansion_denotes [OF this, of "\<lambda>_. 0" "''''"] obtain names
    where e: "add_ips_and_names_from_range (\<lambda>_. 0) '''' (Some range_example) ([], []) = (map (\<lambda>_. 0) names, names)"
      "add_ips_from_range (\<lambda>_. 0) '''' (Some range_example) [] = map (\<lambda>_. 0) names"
      "int (length names) = range_get_num_nodes (Some range_example)"
      "\<forall>name. name \<in> set names \<longleftrightarrow> (\<exists>t. name = '''' @ t \<and> denotes (Some range_example) t)"
    by blast
  have num: "number_text \<lparr>pr_first = 8, pr_second = 10, pr_leading_zeroes = 0\<rparr> ''09''"
    "number_text \<lparr>pr_first = 0, pr_second = 1, pr_leading_zeroes = 0\<rparr> ''1''"
    by code_simp+
  have one: "denotes (Some (Range_Def P N X)) (P @ t @ u)" if "aux \<in> set N" "number_text aux t" "denotes X u" for P N X aux t u
    using that by auto
  have n: "denotes (Some (Range_Def ''n'' [\<lparr>pr_first = 0, pr_second = 1, pr_leading_zeroes = 0\<rparr>] None)) (''n'' @ ''1'' @ '''')"
    by (rule one [OF _ num(2)]) (simp, simp only: denotes.simps)
  have "denotes (Some range_example) (''rack'' @ ''09'' @ ''n'' @ ''1'' @ '''')"
    unfolding range_example_def by (rule one [OF _ num(1) n]) simp
  then have "denotes (Some range_example) ''rack09n1''" by (simp only: append.simps)
  then have "''rack09n1'' \<in> set names" using e(4) by (metis append_Nil)
  moreover have "range_get_num_nodes (Some range_example) = 8" by (simp add: range_example_def)
  then have "length names = 8" using e(3) by linarith
  ultimately show ?thesis unfolding e(1,2) by (simp only: snd_conv length_map simp_thms)
qed

text \<open>The number of nodes that the configuration counts for a well-formed range is the
  number of names (hence of addresses) the expansion produces.\<close>

theorem num_nodes_is_expansion_length:
  assumes "wf_range (Some (nr_r_def r))"
  shows "node_range_get_num_nodes r =
    int (length (add_ips_from_range get_ip '''' (Some (nr_r_def r)) []))"
  using length_range_names [OF assms, of "''''"] by (simp add: node_range_get_num_nodes_def add_ips_eq)

text \<open>C17. The recursive test with its pruning of non-matching prefixes accepts exactly the names of
  the expansion.\<close>

theorem check_range_sound_complete:
  "check_range_for_node base r nodename \<longleftrightarrow>
     nodename \<in> set (snd (add_ips_and_names_from_range get_ip base r ([], [])))"
  by (simp add: check_range_eq add_ips_and_names_eq)

text \<open>All names of an interval have the same width, the width of its upper end plus the
  leading zeroes, and they are pairwise different.\<close>

theorem interval_names_aligned:
  assumes "wf_pair aux" and "pr_second aux \<noteq> 0" and "buff \<in> set (pair_buffs base prefix aux)"
  shows "length buff = length base + length prefix + nat (pr_leading_zeroes aux) +
           length (show_int (pr_second aux)) \<and>
         distinct (pair_buffs base prefix aux)"
proof -
  define m where "m = nat (pr_first aux)"
  define n where "n = nat (pr_second aux)"
  define nm where "nm = (\<lambda>i. base @ prefix @ replicate (nat (pr_leading_zeroes aux +
      difference_in_units (pr_first aux + i) (pr_second aux))) CHR ''0'' @ show_int (pr_first aux + i))"
  have mn: "pr_first aux = int m" "pr_second aux = int n" "m \<le> n" "0 < n" "0 \<le> pr_leading_zeroes aux"
    using assms by (auto simp: wf_pair_def m_def n_def)
  have buffs: "pair_buffs base prefix aux = map nm [0..pr_second aux - pr_first aux]"
    using assms(2) by (simp add: pair_buffs_def nm_def)
  have nm: "nm i = base @ prefix @ replicate (nat (pr_leading_zeroes aux) + (length (digits n) - length (digits (m + nat i))))
      CHR ''0'' @ digits (m + nat i) \<and> length (digits (m + nat i)) \<le> length (digits n)"
    if "0 \<le> i" "i \<le> pr_second aux - pr_first aux" for i
  proof -
    have k: "int m + i = int (m + nat i)" "m + nat i \<le> n" using that mn by auto
    show ?thesis
      using mn length_digits_padding [OF k(2) mn(4)]
      by (simp add: nm_def k(1) show_int_def nat_add_distrib del: of_nat_add)
  qed
  have inj: "inj_on nm (set [0..pr_second aux - pr_first aux])"
    by (rule inj_on_inverseI [where g = "\<lambda>s. int (num_of (drop (length base + length prefix) s)) - pr_first aux"])
      (use mn nm in \<open>simp add: num_of_zeroes num_of_digits\<close>)
  obtain i where "buff = nm i" "0 \<le> i" "i \<le> pr_second aux - pr_first aux"
    using assms(3) by (auto simp: buffs)
  with nm [of i] mn have "length buff = length base + length prefix + nat (pr_leading_zeroes aux) +
      length (show_int (pr_second aux))"
    by (simp add: show_int_def)
  then show ?thesis using inj by (simp add: buffs distinct_map)
qed

text \<open>Where no range without numbers is a proper beginning of the host name, the nodes that a
  \<^verbatim>\<open>node_conf_t\<close> contains are the names of its ranges.\<close>

theorem contains_node_iff_in_ranges:
  assumes "list_all (\<lambda>rng. rg_numbers (nr_r_def rng) = [] \<longrightarrow>
      length nodename \<le> length (rg_prefix (nr_r_def rng))) (nc_range node)"
  shows "range_conf_contains_node node nodename \<longleftrightarrow>
    (\<exists>rng \<in> set (nc_range node). nodename \<in> set (range_names '''' (Some (nr_r_def rng))))"
proof -
  have "take (length (rg_prefix r)) nodename = rg_prefix r \<and>
      (rg_numbers r = [] \<or> check_range_for_node '''' (Some r) nodename) \<longleftrightarrow>
      nodename \<in> set (range_names '''' (Some r))"
    if "rg_numbers r = [] \<longrightarrow> length nodename \<le> length (rg_prefix r)" for r
  proof (cases "rg_numbers r = []")
    case True
    then show ?thesis using that by (cases r) auto
  next
    case False
    then show ?thesis using range_names_starts [of nodename "''''" r] by (auto simp: check_range_eq)
  qed
  then show ?thesis using assms by (auto simp: range_conf_contains_node_def list_ex_iff list_all_iff Let_def)
qed

text \<open>A range that consists of a bare name also captures every longer name that begins with
  it, in the node table and in the islands, although the expansion of the range is the bare
  name alone: a node is given the configuration of another one.\<close>

theorem bare_range_captures_longer_names:
  assumes "rg_numbers (nr_r_def rng) = []" and "s \<noteq> ''''"
  shows "range_conf_contains_node \<lparr>nc_range = [rng], nc_cpus = cpus, nc_coef_file = coef\<rparr> (rg_prefix (nr_r_def rng) @ s) \<and>
    island_range_loop 0 [rng] (rg_prefix (nr_r_def rng) @ s) = 0 \<and>
    rg_prefix (nr_r_def rng) @ s \<notin> set (range_names '''' (Some (nr_r_def rng)))"
  using assms by (cases "nr_r_def rng") (simp add: range_conf_contains_node_def Let_def)

text \<open>An empty number (a pair \<open>0-0\<close>) above a second level is counted as one node whatever that
  level holds, while the expansion produces one name per name of that level.\<close>

theorem empty_number_miscounted:
  "range_get_num_nodes (Some (Range_Def prefix [\<lparr>pr_first = 0, pr_second = 0, pr_leading_zeroes = z\<rparr>] next)) = 1 \<and>
   range_names base (Some (Range_Def prefix [\<lparr>pr_first = 0, pr_second = 0, pr_leading_zeroes = z\<rparr>] next)) =
     range_names (base @ prefix) next"
  by (simp add: pair_buffs_def)

end
