(* ===== verification/Cluster_Conf.thy ===== *)
theory Cluster_Conf
  imports Node_Conf "HOL-Library.Multiset"
begin

text \<open>
  The cluster configuration of \<^verbatim>\<open>common/types/configuration/cluster_conf.c\<close>: counting the nodes
  of the cluster or of one global manager, resolving the tag of a range, the powercap the tags
  ask for, and restricting the configuration to the nodes of one tag, one global manager or one
  island.  Arrays with their lengths are lists; node counts and powers are mathematical
  integers where the code has \<^verbatim>\<open>int\<close> and \<^verbatim>\<open>long\<close>.
\<close>

subsection \<open>Data\<close>

abbreviation (input) POWER_CAP_DISABLED_INT :: int where "POWER_CAP_DISABLED_INT \<equiv> 0"
abbreviation (input) POWER_CAP_UNLIMITED_INT :: int where "POWER_CAP_UNLIMITED_INT \<equiv> 1"
abbreviation (input) POWER_CAP_AUTO_CONFIG_INT :: int where "POWER_CAP_AUTO_CONFIG_INT \<equiv> - 1"
abbreviation (input) POWERCAP_TYPE_NODE :: nat where "POWERCAP_TYPE_NODE \<equiv> 0"
abbreviation (input) TAG_TYPE_ARCH :: nat where "TAG_TYPE_ARCH \<equiv> 0"

text \<open>
  \<^verbatim>\<open>tag_t\<close>, \<^verbatim>\<open>policy_conf_t\<close>, \<^verbatim>\<open>energy_tag_t\<close>, \<^verbatim>\<open>eargm_def_t\<close> and the fields of
  \<^verbatim>\<open>cluster_conf_t\<close> that the development reads; floating-point settings are rational numbers.
\<close>

record tag =
  tg_id :: string
  tg_type :: nat
  tg_is_default :: bool
  tg_powercap_type :: nat
  tg_max_avx512_freq :: u64
  tg_max_avx2_freq :: u64
  tg_max_power :: u64
  tg_min_power :: u64
  tg_max_temp :: u64
  tg_cpu_temp_cap :: u64
  tg_gpu_temp_cap :: u64
  tg_error_power :: u64
  tg_gpu_def_freq :: u64
  tg_cpu_max_pstate :: int
  tg_imc_max_pstate :: int
  tg_idle_pstate :: int
  tg_imc_max_freq :: u64
  tg_imc_min_freq :: u64
  tg_powercap :: int
  tg_max_powercap :: int
  tg_energy_model :: string
  tg_energy_plugin :: string
  tg_powercap_plugin :: string
  tg_powercap_node_plugin :: string
  tg_powercap_gpu_plugin :: string
  tg_coeffs :: string
  tg_idle_governor :: string
  tg_default_policy :: string

record policy_conf =
  pl_policy :: u32
  pl_name :: string
  pl_tag :: string
  pl_settings :: "rat list"
  pl_def_freq :: rat
  pl_p_state :: u32
  pl_is_available :: bool

record energy_tag =
  en_tag :: string
  en_p_state :: u32
  en_users :: "string list"
  en_groups :: "string list"
  en_accounts :: "string list"

record eargm_def =
  ed_id :: i32
  ed_port :: u32
  ed_power :: i64
  ed_node :: string
  ed_subs :: "i32 list"

record cluster_conf =
  cc_nodes :: "node_conf list"
  cc_tags :: "tag list"
  cc_islands :: "node_island list"
  cc_power_policies :: "policy_conf list"
  cc_default_policy :: nat
  cc_auth_users :: "string list"
  cc_auth_groups :: "string list"
  cc_auth_accounts :: "string list"
  cc_admin_users :: "string list"
  cc_e_tags :: "energy_tag list"
  cc_eargms :: "eargm_def list"
  cc_powercap_mode :: u64
  cc_max_pstate :: u64
  cc_use_log :: u32
  cc_force_frequencies :: bool
  cc_obj_ener :: string
  cc_obj_power_model :: string

subsection \<open>Counting nodes\<close>

definition get_num_nodes_in_eargm :: "cluster_conf \<Rightarrow> int \<Rightarrow> int" where
  "get_num_nodes_in_eargm my_conf eargm_id =
     (if length (cc_islands my_conf) < 1 then EAR_ERROR
      else foldl (\<lambda>total_nodes island.
             foldl (\<lambda>total_nodes rng.
               if nr_eargm_id rng \<noteq> eargm_id then total_nodes
               else total_nodes + node_range_get_num_nodes rng) total_nodes (is_ranges island))
             0 (cc_islands my_conf))"

definition get_num_nodes :: "cluster_conf \<Rightarrow> int" where
  "get_num_nodes my_conf =
     (if length (cc_islands my_conf) < 1 then EAR_ERROR
      else foldl (\<lambda>total_nodes island.
             foldl (\<lambda>total_nodes rng. total_nodes + node_range_get_num_nodes rng)
               total_nodes (is_ranges island))
             0 (cc_islands my_conf))"

definition total_ranges :: "cluster_conf \<Rightarrow> nat" where
  "total_ranges my_conf = foldl (\<lambda>n island. n + length (is_ranges island)) 0 (cc_islands my_conf)"

text \<open>The expansions of all ranges; \<^const>\<open>None\<close> is the error return.\<close>

definition get_ip_ranges :: "(string \<Rightarrow> int) \<Rightarrow> cluster_conf \<Rightarrow> int list list option" where
  "get_ip_ranges get_ip my_conf =
     (if total_ranges my_conf < 1 then None
      else Some (concat (map (\<lambda>island.
             map (\<lambda>rng. add_ips_from_range get_ip '''' (Some (nr_r_def rng)) []) (is_ranges island))
             (cc_islands my_conf))))"

definition get_ip_and_names_from_ranges ::
  "(string \<Rightarrow> int) \<Rightarrow> cluster_conf \<Rightarrow> (int list \<times> string list) list option" where
  "get_ip_and_names_from_ranges get_ip my_conf =
     (if total_ranges my_conf < 1 then None
      else Some (concat (map (\<lambda>island.
             map (\<lambda>rng. add_ips_and_names_from_range get_ip '''' (Some (nr_r_def rng)) ([], []))
               (is_ranges island))
             (cc_islands my_conf))))"

fun get_range_ips_loop :: "(string \<Rightarrow> int) \<Rightarrow> node_island list \<Rightarrow> string \<Rightarrow> int list option" where
  "get_range_ips_loop get_ip [] nodename = None"
| "get_range_ips_loop get_ip (island # islands) nodename =
     (let range_idx = nodeconf_get_island_range_for_node island nodename
      in if range_idx < 0 then get_range_ips_loop get_ip islands nodename
         else Some (add_ips_from_range get_ip '''' (Some (nr_r_def (is_ranges island ! nat range_idx))) []))"

definition get_range_ips :: "(string \<Rightarrow> int) \<Rightarrow> cluster_conf \<Rightarrow> string \<Rightarrow> int list option" where
  "get_range_ips get_ip my_conf nodename = get_range_ips_loop get_ip (cc_islands my_conf) nodename"

text \<open>The first entry of the node table is tested even when the table is empty, which reads past
  it; the model returns \<^const>\<open>None\<close>, the null pointer, there.\<close>

definition get_node_conf :: "cluster_conf \<Rightarrow> string \<Rightarrow> node_conf option" where
  "get_node_conf my_conf nodename = find (\<lambda>n. range_conf_contains_node n nodename) (cc_nodes my_conf)"

subsection \<open>Tags\<close>

fun tag_index :: "int \<Rightarrow> tag list \<Rightarrow> string \<Rightarrow> int" where
  "tag_index i [] tg = - 1"
| "tag_index i (x # xs) tg = (if tg_id x = tg then i else tag_index (i + 1) xs tg)"

definition tag_id_exists :: "cluster_conf \<Rightarrow> string option \<Rightarrow> int" where
  "tag_id_exists conf tg = (case tg of None \<Rightarrow> 0 | Some s \<Rightarrow> tag_index 0 (cc_tags conf) s)"

definition get_default_tag_id :: "cluster_conf \<Rightarrow> int" where
  "get_default_tag_id conf =
     foldl (\<lambda>d i. if tg_is_default (cc_tags conf ! i) then int i else d) (- 1) [0..<length (cc_tags conf)]"

text \<open>The inner loop of the three functions below: the first tag of the range that exists.\<close>

fun range_tag_loop :: "cluster_conf \<Rightarrow> node_island \<Rightarrow> nat list \<Rightarrow> int" where
  "range_tag_loop conf island [] = - 1"
| "range_tag_loop conf island (k # ks) =
     (let tag_id = tag_id_exists conf (Some (is_specific_tags island ! k))
      in if tag_id \<ge> 0 then tag_id else range_tag_loop conf island ks)"

definition range_tag_id :: "cluster_conf \<Rightarrow> node_island \<Rightarrow> node_range \<Rightarrow> int" where
  "range_tag_id conf island rng =
     (let tag_id = range_tag_loop conf island (nr_specific_tags rng)
      in if tag_id < 0 then get_default_tag_id conf else tag_id)"

definition conf_ranges :: "cluster_conf \<Rightarrow> (node_island \<times> node_range) list" where
  "conf_ranges conf = concat (map (\<lambda>island. map (Pair island) (is_ranges island)) (cc_islands conf))"

fun tags_powercap_loop :: "cluster_conf \<Rightarrow> (node_island \<times> node_range) list \<Rightarrow> int \<Rightarrow> int" where
  "tags_powercap_loop conf [] ret = ret"
| "tags_powercap_loop conf ((island, rng) # rest) ret =
     (let tag_id = range_tag_id conf island rng
      in if tag_id < 0 then - 2
         else let powercap = tg_powercap (cc_tags conf ! nat tag_id)
              in tags_powercap_loop conf rest (if powercap = ret then ret else ret + powercap))"

definition get_tags_powercap_value :: "cluster_conf \<Rightarrow> int" where
  "get_tags_powercap_value conf = tags_powercap_loop conf (conf_ranges conf) 0"

fun tags_unlimited_loop :: "cluster_conf \<Rightarrow> (node_island \<times> node_range) list \<Rightarrow> bool" where
  "tags_unlimited_loop conf [] = True"
| "tags_unlimited_loop conf ((island, rng) # rest) =
     (let tag_id = range_tag_id conf island rng
      in if tag_id < 0 then False
         else if tg_powercap (cc_tags conf ! nat tag_id) \<noteq> 1 then False
         else tags_unlimited_loop conf rest)"

definition tags_are_unlimited :: "cluster_conf \<Rightarrow> bool" where
  "tags_are_unlimited conf = tags_unlimited_loop conf (conf_ranges conf)"

subsection \<open>Restricting the configuration\<close>

text \<open>
  The three functions delete array elements while they walk over the array.  Deleting by
  \<open>memmove\<close> keeps the order; deleting by moving the last element into the gap does not.
\<close>

function remove_loop :: "('a \<Rightarrow> bool) \<Rightarrow> 'a list \<Rightarrow> nat \<Rightarrow> 'a list" where
  "remove_loop keep xs j =
     (if j < length xs
      then if keep (xs ! j) then remove_loop keep xs (j + 1)
           else remove_loop keep (take j xs @ drop (j + 1) xs) j
      else xs)"
  by auto
termination by (relation "measure (\<lambda>(_, xs, j). length xs - j)") auto

function swap_remove_loop :: "('a \<Rightarrow> bool) \<Rightarrow> 'a list \<Rightarrow> nat \<Rightarrow> 'a list" where
  "swap_remove_loop keep xs j =
     (if j < length xs
      then if keep (xs ! j) then swap_remove_loop keep xs (j + 1)
           else swap_remove_loop keep (butlast (xs[j := last xs])) j
      else xs)"
  by auto
termination by (relation "measure (\<lambda>(_, xs, j). length xs - j)") auto

declare remove_loop.simps [simp del] swap_remove_loop.simps [simp del]

definition range_has_tag :: "cluster_conf \<Rightarrow> string \<Rightarrow> node_island \<Rightarrow> node_range \<Rightarrow> bool" where
  "range_has_tag conf tg island r =
     (list_ex (\<lambda>k. is_specific_tags island ! k = tg) (nr_specific_tags r) \<or>
      (nr_specific_tags r = [] \<and>
       (let def_tag_id = get_default_tag_id conf
        in def_tag_id \<ge> 0 \<and> def_tag_id < int (length (cc_tags conf)) \<and>
           tg = tg_id (cc_tags conf ! nat def_tag_id))))"

function by_tag_loop :: "cluster_conf \<Rightarrow> string \<Rightarrow> node_island list \<Rightarrow> nat \<Rightarrow> node_island list" where
  "by_tag_loop conf tg islands i =
     (if i < length islands
      then let island = islands ! i;
               ranges = remove_loop (range_has_tag conf tg island) (is_ranges island) 0;
               islands' = islands[i := island\<lparr>is_ranges := ranges\<rparr>]
           in if ranges = [] then by_tag_loop conf tg (take i islands' @ drop (i + 1) islands') i
              else by_tag_loop conf tg islands' (i + 1)
      else islands)"
  by auto
termination by (relation "measure (\<lambda>(_, _, islands, i). length islands - i)") (auto simp: Let_def)

declare by_tag_loop.simps [simp del]

definition remove_islands_by_tag :: "cluster_conf \<Rightarrow> string option \<Rightarrow> cluster_conf" where
  "remove_islands_by_tag conf tg =
     (case tg of None \<Rightarrow> conf
      | Some t \<Rightarrow> conf\<lparr>cc_islands := by_tag_loop conf t (cc_islands conf) 0\<rparr>)"

definition remove_islands_by_eargm :: "cluster_conf \<Rightarrow> int option \<Rightarrow> cluster_conf" where
  "remove_islands_by_eargm conf e_def =
     (case e_def of None \<Rightarrow> conf
      | Some e_id \<Rightarrow> conf\<lparr>cc_islands := map (\<lambda>island. island\<lparr>is_ranges :=
          swap_remove_loop (\<lambda>rng. nr_eargm_id rng = e_id) (is_ranges island) 0\<rparr>) (cc_islands conf)\<rparr>)"

definition remove_islands_by_island_id :: "cluster_conf \<Rightarrow> u32 \<Rightarrow> cluster_conf" where
  "remove_islands_by_island_id conf ident =
     conf\<lparr>cc_islands := remove_loop (\<lambda>island. is_id island = ident) (cc_islands conf) 0\<rparr>"

text \<open>A cluster of two islands under two global managers, for the examples.\<close>

definition example_range :: "string \<Rightarrow> int \<Rightarrow> int \<Rightarrow> nat list \<Rightarrow> int \<Rightarrow> node_range" where
  "example_range prefix a b tags e =
     \<lparr>nr_r_def = Range_Def prefix [\<lparr>pr_first = a, pr_second = b, pr_leading_zeroes = 0\<rparr>] None,
      nr_db_ip = 0, nr_sec_ip = 0, nr_specific_tags = tags, nr_eargm_id = e\<rparr>"

text \<open>\<open>set_default_tag_values\<close> on a tag with the given identifier.\<close>

definition set_default_tag_values :: "tag \<Rightarrow> tag" where
  "set_default_tag_values tg = tg\<lparr>tg_type := TAG_TYPE_ARCH, tg_powercap_type := POWERCAP_TYPE_NODE,
     tg_max_power := 5000, tg_max_powercap := POWER_CAP_UNLIMITED_INT, tg_error_power := 5500,
     tg_powercap := POWER_CAP_UNLIMITED_INT, tg_min_power := 30, tg_max_temp := 150, tg_cpu_temp_cap := 1,
     tg_gpu_temp_cap := 1, tg_gpu_def_freq := 0, tg_cpu_max_pstate := 5, tg_imc_max_pstate := 5,
     tg_idle_pstate := 1000, tg_imc_max_freq := 0, tg_imc_min_freq := 0, tg_coeffs := ''coeffs.default'',
     tg_energy_model := '''', tg_energy_plugin := '''', tg_powercap_plugin := '''', tg_powercap_node_plugin := '''',
     tg_powercap_gpu_plugin := '''', tg_idle_governor := ''default'', tg_default_policy := ''''\<rparr>"

definition example_tag :: "string \<Rightarrow> bool \<Rightarrow> tag" where
  "example_tag ident dflt = set_default_tag_values
     \<lparr>tg_id = ident, tg_type = 0, tg_is_default = dflt, tg_powercap_type = 0, tg_max_avx512_freq = 0,
      tg_max_avx2_freq = 0, tg_max_power = 0, tg_min_power = 0, tg_max_temp = 0, tg_cpu_temp_cap = 0,
      tg_gpu_temp_cap = 0, tg_error_power = 0, tg_gpu_def_freq = 0, tg_cpu_max_pstate = 0, tg_imc_max_pstate = 0,
      tg_idle_pstate = 0, tg_imc_max_freq = 0, tg_imc_min_freq = 0, tg_powercap = 0, tg_max_powercap = 0,
      tg_energy_model = '''', tg_energy_plugin = '''', tg_powercap_plugin = '''', tg_powercap_node_plugin = '''',
      tg_powercap_gpu_plugin = '''', tg_coeffs = '''', tg_idle_governor = '''', tg_default_policy = ''''\<rparr>"

definition conf_example :: cluster_conf where
  "conf_example = \<lparr>cc_nodes = [],
     cc_tags = [example_tag ''gpu'' False, example_tag ''cpu'' True],
     cc_islands =
       [\<lparr>is_id = 0, is_ranges = [example_range ''a'' 1 4 [] 1, example_range ''b'' 1 2 [0] 2],
         is_db_ips = [], is_backup_ips = [], is_specific_tags = [''gpu'']\<rparr>,
        \<lparr>is_id = 1, is_ranges = [example_range ''c'' 1 3 [] 2],
         is_db_ips = [], is_backup_ips = [], is_specific_tags = []\<rparr>],
     cc_power_policies = [], cc_default_policy = 0, cc_auth_users = [''root''], cc_auth_groups = [], cc_auth_accounts = [],
     cc_admin_users = [''root''], cc_e_tags = [\<lparr>en_tag = ''memory'', en_p_state = 4, en_users = [''ana''], en_groups = [], en_accounts = []\<rparr>],
     cc_eargms = [\<lparr>ed_id = 1, ed_port = 50000, ed_power = 4000, ed_node = ''m1'', ed_subs = []\<rparr>,
                  \<lparr>ed_id = 2, ed_port = 50000, ed_power = 5000, ed_node = ''m2'', ed_subs = []\<rparr>],
     cc_powercap_mode = 1, cc_max_pstate = 1, cc_use_log = 0, cc_force_frequencies = True,
     cc_obj_ener = ''energy_dcmi'', cc_obj_power_model = ''avx512_model''\<rparr>"

subsection \<open>Deletion while walking\<close>

lemma remove_loop_eq: "j \<le> length xs \<Longrightarrow> remove_loop keep xs j = take j xs @ filter keep (drop j xs)"
proof (induction keep xs j rule: remove_loop.induct)
  case (1 keep xs j)
  show ?case
  proof (cases "j < length xs")
    case True
    then have "drop j xs = xs ! j # drop (Suc j) xs" "take (Suc j) xs = take j xs @ [xs ! j]"
      by (simp_all add: Cons_nth_drop_Suc take_Suc_conv_app_nth)
    then show ?thesis using 1 True by (subst remove_loop.simps) (auto simp: min_def)
  qed (use 1 in \<open>simp add: remove_loop.simps\<close>)
qed


lemma swap_delete_tail:
  assumes "j < length xs"
  shows "take j (butlast (xs[j := last xs])) = take j xs"
    and "mset (drop j (butlast (xs[j := last xs]))) + {#xs ! j#} = mset (drop j xs)"
proof -
  obtain ys zs where xs: "xs = ys @ xs ! j # zs" "length ys = j"
    using id_take_nth_drop [OF assms] assms by (metis length_take min.absorb4)
  then show "take j (butlast (xs[j := last xs])) = take j xs"
    using assms by (metis append_eq_conv_conj butlast_append list.discI list_update_length take_butlast length_list_update take_update_cancel order_refl)
  show "mset (drop j (butlast (xs[j := last xs]))) + {#xs ! j#} = mset (drop j xs)"
  proof (cases zs rule: rev_cases)
    case Nil
    then show ?thesis by (subst (1 2 3) xs(1)) (simp add: xs(2) [symmetric] butlast_append)
  next
    case (snoc ws z)
    then show ?thesis
      by (subst (1 2 3) xs(1)) (simp add: xs(2) [symmetric] butlast_append)
  qed
qed

lemma mset_swap_remove_loop:
  "j \<le> length xs \<Longrightarrow>
     mset (swap_remove_loop keep xs j) = mset (take j xs) + filter_mset keep (mset (drop j xs))"
proof (induction keep xs j rule: swap_remove_loop.induct)
  case (1 keep xs j)
  show ?case
  proof (cases "j < length xs")
    case True
    have d: "drop j xs = xs ! j # drop (Suc j) xs" "take (Suc j) xs = take j xs @ [xs ! j]"
      using True by (simp_all add: Cons_nth_drop_Suc take_Suc_conv_app_nth)
    show ?thesis
    proof (cases "keep (xs ! j)")
      case keep: True
      then show ?thesis using 1(1,3) True d by (subst swap_remove_loop.simps) simp
    next
      case drop: False
      have "mset (swap_remove_loop keep xs j) =
          mset (take j xs) + filter_mset keep (mset (List.drop j (butlast (xs[j := last xs]))))"
        using 1(2) True drop swap_delete_tail(1) [OF True] by (subst swap_remove_loop.simps) simp
      also have "filter_mset keep (mset (List.drop j (butlast (xs[j := last xs])))) =
          filter_mset keep (mset (List.drop j xs))"
        using drop by (simp flip: swap_delete_tail(2) [OF True])
      finally show ?thesis .
    qed
  qed (use 1 in \<open>simp add: swap_remove_loop.simps\<close>)
qed

lemma by_tag_loop_eq:
  "i \<le> length islands \<Longrightarrow> by_tag_loop conf tg islands i =
     take i islands @ filter (\<lambda>island. is_ranges island \<noteq> [])
       (map (\<lambda>island. island\<lparr>is_ranges := filter (range_has_tag conf tg island) (is_ranges island)\<rparr>)
         (drop i islands))"
proof (induction conf tg islands i rule: by_tag_loop.induct)
  case (1 conf tg islands i)
  show ?case
  proof (cases "i < length islands")
    case True
    define ranges where "ranges = filter (range_has_tag conf tg (islands ! i)) (is_ranges (islands ! i))"
    have d: "drop i islands = islands ! i # drop (Suc i) islands" using True by (simp add: Cons_nth_drop_Suc)
    have t: "take (Suc i) (islands[i := x]) = take i islands @ [x]" for x
      using True by (simp add: take_Suc_conv_app_nth)
    show ?thesis
      using 1 True by (subst by_tag_loop.simps) (auto simp: Let_def remove_loop_eq d t min_def)
  qed (use 1 in \<open>simp add: by_tag_loop.simps\<close>)
qed

subsection \<open>Sums over the ranges\<close>

lemma foldl_add_sum:
  "(\<And>a x. x \<in> set xs \<Longrightarrow> f a x = a + g x) \<Longrightarrow> foldl f (a :: 'b::monoid_add) xs = a + (\<Sum>x\<leftarrow>xs. g x)"
  by (induction xs arbitrary: a) (auto simp: add.assoc)

lemma get_num_nodes_sum:
  "cc_islands conf \<noteq> [] \<Longrightarrow> get_num_nodes conf =
     (\<Sum>island\<leftarrow>cc_islands conf. \<Sum>rng\<leftarrow>is_ranges island. node_range_get_num_nodes rng)"
  using foldl_add_sum [of "cc_islands conf" "\<lambda>t i. foldl (\<lambda>t r. t + node_range_get_num_nodes r) t (is_ranges i)"
      "\<lambda>i. \<Sum>r\<leftarrow>is_ranges i. node_range_get_num_nodes r" 0]
  by (simp add: get_num_nodes_def foldl_add_sum [of _ _ node_range_get_num_nodes])

lemma get_num_nodes_in_eargm_sum:
  "cc_islands conf \<noteq> [] \<Longrightarrow> get_num_nodes_in_eargm conf e =
     (\<Sum>island\<leftarrow>cc_islands conf. \<Sum>rng\<leftarrow>is_ranges island. if nr_eargm_id rng = e then node_range_get_num_nodes rng else 0)"
  using foldl_add_sum [of "cc_islands conf"
      "\<lambda>t i. foldl (\<lambda>t r. if nr_eargm_id r \<noteq> e then t else t + node_range_get_num_nodes r) t (is_ranges i)"
      "\<lambda>i. \<Sum>r\<leftarrow>is_ranges i. if nr_eargm_id r = e then node_range_get_num_nodes r else 0" 0]
  by (simp add: get_num_nodes_in_eargm_def
      foldl_add_sum [of _ _ "\<lambda>r. if nr_eargm_id r = e then node_range_get_num_nodes r else 0"])

lemma sum_list_as_mset: "(\<Sum>x\<leftarrow>xs. f x) = (\<Sum>x\<in>#mset xs. f x)"
  by (induction xs) auto

lemma sum_swap_remove:
  "(\<Sum>x\<leftarrow>swap_remove_loop keep xs 0. f x) = (\<Sum>x\<leftarrow>xs. if keep x then f x else (0 :: int))"
proof -
  have "(\<Sum>x\<leftarrow>swap_remove_loop keep xs 0. f x) = (\<Sum>x\<in>#filter_mset keep (mset xs). f x)"
    using mset_swap_remove_loop [of 0 xs keep] by (simp add: sum_list_as_mset)
  also have "\<dots> = (\<Sum>x\<leftarrow>filter keep xs. f x)"
    by (simp add: sum_list_as_mset)
  finally show ?thesis by (simp add: sum_list_map_filter')
qed

subsection \<open>Properties\<close>

text \<open>Restricting the configuration to one global manager keeps, in every island, exactly the
  ranges of that manager, each as often as before, although their order changes.\<close>

theorem remove_by_eargm_keeps_own_ranges:
  "map (\<lambda>island. mset (is_ranges island)) (cc_islands (remove_islands_by_eargm conf (Some e))) =
     map (\<lambda>island. filter_mset (\<lambda>rng. nr_eargm_id rng = e) (mset (is_ranges island))) (cc_islands conf)"
  by (simp add: remove_islands_by_eargm_def mset_swap_remove_loop)

text \<open>C21. The nodes left after restricting the configuration to a global manager are as many as
  the nodes counted for that manager in the whole configuration.\<close>

theorem num_nodes_after_restriction:
  "get_num_nodes (remove_islands_by_eargm conf (Some e)) = get_num_nodes_in_eargm conf e"
proof (cases "cc_islands conf = []")
  case True
  then show ?thesis by (simp add: get_num_nodes_def get_num_nodes_in_eargm_def remove_islands_by_eargm_def)
next
  case False
  then show ?thesis
    by (simp add: get_num_nodes_sum get_num_nodes_in_eargm_sum remove_islands_by_eargm_def comp_def
        sum_swap_remove)
qed

text \<open>Restricting the configuration to a tag keeps the ranges of that tag in their order and
  drops the islands left without ranges; ranges without tags belong to the default tag.\<close>

theorem remove_by_tag_filters:
  "cc_islands (remove_islands_by_tag conf (Some tg)) =
     filter (\<lambda>island. is_ranges island \<noteq> [])
       (map (\<lambda>island. island\<lparr>is_ranges := filter (range_has_tag conf tg island) (is_ranges island)\<rparr>)
         (cc_islands conf))"
  by (simp add: remove_islands_by_tag_def by_tag_loop_eq)

text \<open>Restricting the configuration to an island identifier keeps the islands with that
  identifier, in order, and restricting twice is restricting once.\<close>

theorem remove_by_island_filters:
  "cc_islands (remove_islands_by_island_id conf ident) = filter (\<lambda>island. is_id island = ident) (cc_islands conf) \<and>
   remove_islands_by_island_id (remove_islands_by_island_id conf ident) ident = remove_islands_by_island_id conf ident"
  by (simp add: remove_islands_by_island_id_def remove_loop_eq)

lemma tags_powercap_loop_uniform:
  assumes "\<And>island rng. (island, rng) \<in> set rs \<Longrightarrow>
      0 \<le> range_tag_id conf island rng \<and> tg_powercap (cc_tags conf ! nat (range_tag_id conf island rng)) = p"
  shows "tags_powercap_loop conf rs p = p" and "rs \<noteq> [] \<Longrightarrow> tags_powercap_loop conf rs 0 = p"
proof -
  show p: "tags_powercap_loop conf rs p = p"
    using assms by (induction rs) (fastforce simp: Let_def)+
  show "tags_powercap_loop conf rs 0 = p" if "rs \<noteq> []"
  proof (cases rs)
    case (Cons x xs)
    obtain island rng where x: "x = (island, rng)" by (cases x)
    show ?thesis using p assms [of island rng] by (auto simp: Cons x Let_def split: if_splits)
  qed (use that in simp)
qed

lemma tags_unlimited_loop_iff:
  "tags_unlimited_loop conf rs \<longleftrightarrow> (\<forall>(island, rng) \<in> set rs.
     0 \<le> range_tag_id conf island rng \<and> tg_powercap (cc_tags conf ! nat (range_tag_id conf island rng)) = 1)"
  by (induction conf rs rule: tags_unlimited_loop.induct) (auto simp: Let_def)

text \<open>A cluster whose tags are all unlimited asks for the powercap value 1, the code of
  unlimited, as soon as it has a range.\<close>

theorem unlimited_tags_powercap_value:
  assumes "tags_are_unlimited conf" and "total_ranges conf \<noteq> 0"
  shows "get_tags_powercap_value conf = 1"
proof -
  have "total_ranges conf = (\<Sum>island\<leftarrow>cc_islands conf. length (is_ranges island))"
    by (simp add: total_ranges_def foldl_add_sum [of _ _ "\<lambda>i. length (is_ranges i)"])
  then have "conf_ranges conf \<noteq> []" using assms(2) by (auto simp: conf_ranges_def)
  then show ?thesis
    using assms(1) tags_powercap_loop_uniform(2) [of "conf_ranges conf" conf 1]
    by (auto simp: tags_are_unlimited_def tags_unlimited_loop_iff get_tags_powercap_value_def)
qed

end
