(* ===== verification/Cluster_Powercap.thy ===== *)
theory Cluster_Powercap
  imports Powercap_Types Cluster_Conf
begin

text \<open>
  The cluster power manager of \<^verbatim>\<open>global_manager/cluster_powercap.c\<close>: one period of the hard,
  soft and monitoring modes, the distribution of free power among greedy nodes, the reduction of
  extra allocations when running nodes need their default, the commands that move the
  cluster limit, and the data shared with a meta manager.  The globals of the file are the
  record \<open>eargm\<close>.  What the nodes answer is an input of a period; the events reported, the
  commands sent to the nodes and the actions executed are its output.
\<close>

subsection \<open>Data\<close>

record shared_powercap_data =
  sh_status :: u64
  sh_def_power :: u64
  sh_current_power :: u64
  sh_current_powercap :: u64
  sh_extra_power :: u64
  sh_requested :: u64
  sh_available_power :: u64

record eargm =
  gm_powercap_mode :: u64
  gm_defcon_power_limit :: u64
  gm_defcon_power_lower :: u64
  gm_powercap_limit_action :: string
  gm_powercap_lower_action :: string
  gm_default_cluster_powercap :: i64
  gm_current_cluster_powercap :: u32
  gm_min_cluster_powercap :: u32
  gm_powercap_unlimited :: bool
  gm_risk :: u32
  gm_max_num_nodes :: u32
  gm_num_eargm_nodes :: i32
  gm_ext_powercap_data :: shared_powercap_data
  gm_actions_executed :: u32
  gm_process_created :: u32
  gm_total_req_greedy :: u32
  gm_req_no_extra :: u32
  gm_num_no_extra :: u32
  gm_num_greedy :: u32
  gm_num_extra :: u32
  gm_extra_power_alloc :: u32
  gm_total_extra_power :: u32
  gm_greedy_allocated :: u32
  gm_must_send_pc_options :: bool
  gm_current_extra_power :: u64
  gm_total_free :: u32

abbreviation (input) MONITOR :: u64 where "MONITOR \<equiv> 0"
abbreviation (input) HARD_POWERCAP :: u64 where "HARD_POWERCAP \<equiv> 1"
abbreviation (input) SOFT_POWERCAP :: u64 where "SOFT_POWERCAP \<equiv> 2"
abbreviation (input) POWER_TYPE :: nat where "POWER_TYPE \<equiv> 0"
abbreviation (input) ENERGY_TYPE :: nat where "ENERGY_TYPE \<equiv> 1"
abbreviation (input) CLUSTER_POWER :: u32 where "CLUSTER_POWER \<equiv> 600"
abbreviation (input) NODE_POWERCAP :: u32 where "NODE_POWERCAP \<equiv> 601"
abbreviation (input) POWER_UNLIMITED :: u32 where "POWER_UNLIMITED \<equiv> 602"

datatype gm_output =
  Report_Event u32 u64
| Set_Powerlimit u64
| Send_Powercap_Options powercap_opt
| Release_Idle_Power
| Execute_Action string u32 u32 u32 u32

text \<open>The file's macro \<open>min\<close> on operands of type \<^verbatim>\<open>int\<close>; on unsigned operands it is
  \<^const>\<open>ear_min\<close>.\<close>

definition min_int :: "i32 \<Rightarrow> i32 \<Rightarrow> i32" where
  "min_int a b = (if sint a < sint b then a else b)"

subsection \<open>Distribution of power among greedy nodes\<close>

definition aggregate_elem :: "eargm \<Rightarrow> greedy_bytes \<Rightarrow> eargm" where
  "aggregate_elem s g =
     (let s = s\<lparr>gm_total_req_greedy := gm_total_req_greedy s + ucast (gb_requested g)\<rparr>;
          s = s\<lparr>gm_total_extra_power := gm_total_extra_power s + ucast (gb_extra_power g)\<rparr>;
          s = (if gb_extra_power g \<noteq> 0
               then s\<lparr>gm_num_extra := gm_num_extra s + 1,
                      gm_extra_power_alloc := gm_extra_power_alloc s + ucast (gb_extra_power g)\<rparr> else s);
          s = (if gb_requested g \<noteq> 0 then s\<lparr>gm_num_greedy := gm_num_greedy s + 1\<rparr> else s)
      in if gb_requested g \<noteq> 0 \<and> gb_extra_power g = 0
         then s\<lparr>gm_req_no_extra := gm_req_no_extra s + ucast (gb_requested g),
                gm_num_no_extra := gm_num_no_extra s + 1\<rparr> else s)"

abbreviation greedy_list :: "powercap_status \<Rightarrow> greedy_bytes list" where
  "greedy_list cs \<equiv> take (unat (cs_num_greedy cs)) (cs_greedy_data cs)"

definition aggregate_data :: "eargm \<Rightarrow> powercap_status \<Rightarrow> eargm" where
  "aggregate_data s cs =
     foldl aggregate_elem
       (s\<lparr>gm_total_req_greedy := 0, gm_total_extra_power := 0, gm_req_no_extra := 0, gm_num_no_extra := 0,
          gm_num_greedy := 0, gm_num_extra := 0, gm_extra_power_alloc := 0\<rparr>) (greedy_list cs)"

definition read_non_computational_power :: "state_t \<times> u64" where
  "read_non_computational_power = (EAR_SUCCESS, 0)"

text \<open>
  Both stages of \<open>allocate_free_power_to_greedy_nodes\<close> are the same loop: the nodes that satisfy
  the stage's condition are given the stage's share, which is taken from the pending power and
  added to the power allocated.
\<close>

fun grant_loop :: "(greedy_bytes \<Rightarrow> i32 \<Rightarrow> bool) \<Rightarrow> (greedy_bytes \<Rightarrow> i32) \<Rightarrow> greedy_bytes list \<Rightarrow> i32 list \<Rightarrow>
    u32 \<Rightarrow> u32 \<Rightarrow> i32 list \<times> u32 \<times> u32" where
  "grant_loop cond share (g # gs) (e # es) pending allocated =
     (if cond g e
      then let e' = share g; (es', r) = grant_loop cond share gs es (pending - e') (allocated + e')
           in (e' # es', r)
      else let (es', r) = grant_loop cond share gs es pending allocated in (e # es', r))"
| "grant_loop cond share gs es pending allocated = (es, pending, allocated)"

definition stage1_cond :: "greedy_bytes \<Rightarrow> i32 \<Rightarrow> bool" where
  "stage1_cond g e = (gb_requested g \<noteq> 0 \<and> gb_extra_power g = 0)"

definition stage1_share :: "i32 \<Rightarrow> greedy_bytes \<Rightarrow> i32" where
  "stage1_share more_power g =
     (if sint more_power < 0 then ucast (gb_requested g) else min_int more_power (ucast (gb_requested g)))"

definition stage2_cond :: "greedy_bytes \<Rightarrow> i32 \<Rightarrow> bool" where
  "stage2_cond g e = (gb_requested g \<noteq> 0 \<and> e = 0)"

definition stage2_share :: "i32 \<Rightarrow> greedy_bytes \<Rightarrow> i32" where
  "stage2_share more_power g = min_int (ucast (gb_requested g)) more_power"

definition allocate_free_power_to_greedy_nodes ::
  "eargm \<Rightarrow> powercap_status \<Rightarrow> powercap_opt \<Rightarrow> u32 \<Rightarrow> eargm \<times> powercap_opt \<times> u32" where
  "allocate_free_power_to_greedy_nodes s cluster_status cluster_options total_free =
     (if gm_num_greedy s = 0 then (s, cluster_options, total_free)
      else if total_free = 0 then (s, cluster_options, total_free)
      else
        let (extra, pending, allocated) =
              (if gm_num_no_extra s > 0
               then let more_power = (if gm_req_no_extra s < total_free then - 1
                                      else total_free div gm_num_no_extra s)
                    in grant_loop stage1_cond (stage1_share more_power) (greedy_list cluster_status)
                         (po_extra_power cluster_options) total_free 0
               else (po_extra_power cluster_options, total_free, 0));
            (extra, pending, allocated) =
              (if pending \<noteq> 0
               then grant_loop stage2_cond (stage2_share (pending div gm_num_greedy s))
                      (greedy_list cluster_status) extra pending allocated
               else (extra, pending, allocated))
        in (s\<lparr>gm_must_send_pc_options := True, gm_greedy_allocated := allocated\<rparr>,
            cluster_options\<lparr>po_extra_power := extra\<rparr>, pending))"

fun reduce_round1 :: "u32 \<Rightarrow> greedy_bytes list \<Rightarrow> i32 list \<Rightarrow> u32 \<Rightarrow> i32 list \<times> u32" where
  "reduce_round1 red_node (g # gs) (e # es) min_reduction =
     (if min_reduction > 0
      then if gb_extra_power g \<noteq> 0
           then let red1 = ear_min red_node (ucast (gb_extra_power g));
                    red = ear_min red1 min_reduction;
                    (es', r) = reduce_round1 red_node gs es (min_reduction - red)
                in ((- red) # es', r)
           else let (es', r) = reduce_round1 red_node gs es min_reduction in (e # es', r)
      else (e # es, min_reduction))"
| "reduce_round1 red_node gs es min_reduction = (es, min_reduction)"

fun reduce_round2 :: "greedy_bytes list \<Rightarrow> i32 list \<Rightarrow> u32 \<Rightarrow> i32 list \<times> u32" where
  "reduce_round2 (g # gs) (e # es) min_reduction =
     (if min_reduction > 0
      then if sint (ucast (gb_extra_power g) + e) > 0
           then let red1 = ucast (gb_extra_power g) + e;
                    red = ear_min red1 min_reduction;
                    (es', r) = reduce_round2 gs es (min_reduction - red)
                in ((e + (- red)) # es', r)
           else let (es', r) = reduce_round2 gs es min_reduction in (e # es', r)
      else (e # es, min_reduction))"
| "reduce_round2 gs es min_reduction = (es, min_reduction)"

definition reduce_allocation :: "eargm \<Rightarrow> powercap_status \<Rightarrow> powercap_opt \<Rightarrow> u32 \<Rightarrow> powercap_opt" where
  "reduce_allocation s cs cluster_options min_reduction =
     (if gm_num_extra s = 0 then cluster_options
      else let red_node = min_reduction div gm_num_extra s;
               (extra, min_reduction) =
                 reduce_round1 red_node (greedy_list cs) (po_extra_power cluster_options) min_reduction;
               (extra, _) = reduce_round2 (greedy_list cs) extra min_reduction
           in cluster_options\<lparr>po_extra_power := extra\<rparr>)"

text \<open>
  \<open>powercap_reallocation\<close> returns \<^const>\<open>False\<close> where the code returns 0, to have idle power
  released first.  The null pointer of a fresh \<^verbatim>\<open>powercap_opt_t\<close> is the empty list.
\<close>

definition prepare_options :: "eargm \<Rightarrow> powercap_status \<Rightarrow> powercap_opt \<Rightarrow> powercap_opt" where
  "prepare_options s cluster_status cluster_options =
     (let n = unat (cs_num_greedy cluster_status);
          opts = (if po_greedy_nodes cluster_options = []
                  then cluster_options\<lparr>po_greedy_nodes := replicate n 0, po_extra_power := replicate n 0\<rparr>
                  else cluster_options)
      in opts\<lparr>po_num_greedy := cs_num_greedy cluster_status,
              po_cluster_perc_power :=
                ucast ((cs_total_powercap cluster_status * 100) div gm_current_cluster_powercap s),
              po_greedy_nodes := take n (cs_greedy_nodes cluster_status)\<rparr>)"

definition powercap_reallocation ::
  "eargm \<Rightarrow> powercap_status \<Rightarrow> powercap_opt \<Rightarrow> bool \<times> eargm \<times> powercap_opt" where
  "powercap_reallocation s cluster_status cluster_options =
     (let opts = prepare_options s cluster_status cluster_options;
          (st, non_computational_power) = read_non_computational_power;
          total_free = gm_current_cluster_powercap s - cs_total_powercap cluster_status;
          total_free = (if st = EAR_SUCCESS then ucast (ucast total_free - non_computational_power :: u64)
                        else total_free);
          s = s\<lparr>gm_total_free := total_free\<rparr>;
          s = (if cs_requested cluster_status \<noteq> 0 then s\<lparr>gm_must_send_pc_options := True\<rparr> else s)
      in if cs_total_powercap cluster_status + cs_requested cluster_status \<le> gm_current_cluster_powercap s
         then let s = (if cs_requested cluster_status \<noteq> 0
                       then s\<lparr>gm_total_free := gm_current_cluster_powercap s -
                                (cs_total_powercap cluster_status + cs_requested cluster_status)\<rparr>
                       else s)
              in if gm_total_req_greedy s = 0 then (True, s, opts)
                 else if gm_total_req_greedy s \<le> gm_total_free s
                 then (True,
                       s\<lparr>gm_total_free := gm_total_free s - gm_total_req_greedy s, gm_must_send_pc_options := True\<rparr>,
                       opts\<lparr>po_extra_power := map (\<lambda>g. ucast (gb_requested g)) (greedy_list cluster_status)\<rparr>)
                 else if cs_released cluster_status = 0
                 then let (s, opts, total_free) =
                            allocate_free_power_to_greedy_nodes s cluster_status
                              (opts\<lparr>po_num_greedy := cs_num_greedy cluster_status\<rparr>) (gm_total_free s)
                      in (True, s\<lparr>gm_total_free := total_free\<rparr>, opts)
                 else (False, s, opts)
         else if cs_released cluster_status = 0
         then let min_reduction = (cs_total_powercap cluster_status + cs_requested cluster_status) -
                                    gm_current_cluster_powercap s;
                  opts = reduce_allocation s cluster_status opts min_reduction
              in (True, s\<lparr>gm_total_free := 0, gm_must_send_pc_options := True\<rparr>, opts)
         else (False, s, opts))"

subsection \<open>The cluster limit and the data shared with the meta manager\<close>

definition update_extra_power :: "eargm \<Rightarrow> eargm" where
  "update_extra_power s =
     (if sint (gm_default_cluster_powercap s) < int (unat (gm_current_cluster_powercap s))
      then s\<lparr>gm_current_extra_power := ucast (gm_current_cluster_powercap s) - gm_default_cluster_powercap s\<rparr>
      else s\<lparr>gm_current_extra_power := 0\<rparr>)"

definition cluster_powercap_reset_pc :: "eargm \<Rightarrow> eargm" where
  "cluster_powercap_reset_pc s =
     s\<lparr>gm_current_cluster_powercap := ucast (gm_default_cluster_powercap s), gm_current_extra_power := 0\<rparr>"

definition cluster_powercap_set_pc :: "eargm \<Rightarrow> u32 \<Rightarrow> eargm" where
  "cluster_powercap_set_pc s limit = update_extra_power (s\<lparr>gm_current_cluster_powercap := limit\<rparr>)"

definition cluster_powercap_red_pc :: "eargm \<Rightarrow> u32 \<Rightarrow> eargm" where
  "cluster_powercap_red_pc s red =
     update_extra_power
       (if red > gm_current_cluster_powercap s then s
        else s\<lparr>gm_current_cluster_powercap := gm_current_cluster_powercap s - red\<rparr>)"

definition cluster_powercap_inc_pc :: "eargm \<Rightarrow> u32 \<Rightarrow> eargm" where
  "cluster_powercap_inc_pc s inc =
     update_extra_power (s\<lparr>gm_current_cluster_powercap := gm_current_cluster_powercap s + inc\<rparr>)"

definition write_shared_data :: "eargm \<Rightarrow> u64 \<Rightarrow> u64 \<Rightarrow> u64 \<Rightarrow> eargm" where
  "write_shared_data s current_power freeable_power requested =
     (let (status, freeable_power, requested) =
        (if requested > 0 \<and> sint (gm_default_cluster_powercap s) > int (unat (gm_current_cluster_powercap s))
         then (ucast PC_STATUS_ASK_DEF, 0,
               if gm_default_cluster_powercap s < ucast (gm_current_cluster_powercap s) + requested
               then gm_default_cluster_powercap s - ucast (gm_current_cluster_powercap s) else requested)
         else if requested \<noteq> 0 then (ucast PC_STATUS_GREEDY, 0, requested)
         else (ucast PC_STATUS_OK, freeable_power, requested))
      in s\<lparr>gm_ext_powercap_data :=
        \<lparr>sh_status = status, sh_def_power = gm_default_cluster_powercap s, sh_current_power = current_power,
         sh_current_powercap = ucast (gm_current_cluster_powercap s), sh_extra_power = gm_current_extra_power s,
         sh_requested = requested, sh_available_power = freeable_power\<rparr>\<rparr>)"

text \<open>
  The loop of \<open>cluster_get_min_power\<close>; \<^const>\<open>None\<close> is the access outside the tag table when
  neither a tag of the range nor a default tag exists.
\<close>

fun min_power_loop :: "cluster_conf \<Rightarrow> nat \<Rightarrow> (node_island \<times> node_range) list \<Rightarrow> u32 \<Rightarrow> u32 option" where
  "min_power_loop conf type [] acc = Some acc"
| "min_power_loop conf type ((island, rng) # rest) acc =
     (let tag_id = range_tag_id conf island rng
      in if tag_id < 0 then None
         else let t = cc_tags conf ! nat tag_id; n = node_range_get_num_nodes rng
              in min_power_loop conf type rest
                   (if type = ENERGY_TYPE
                    then ucast (ucast acc + tg_max_power t * word_of_int n :: u64)
                    else ucast (ucast acc + word_of_int (tg_powercap t * n) :: u64)))"

definition cluster_get_min_power :: "cluster_conf \<Rightarrow> nat \<Rightarrow> u32 option" where
  "cluster_get_min_power conf type = min_power_loop conf type (conf_ranges conf) 0"

definition cluster_powercap_init :: "eargm \<Rightarrow> cluster_conf \<Rightarrow> eargm option" where
  "cluster_powercap_init s cc =
     (case cluster_get_min_power cc POWER_TYPE of None \<Rightarrow> None
      | Some min_power \<Rightarrow>
        let s = s\<lparr>gm_max_num_nodes := word_of_int (get_num_nodes cc),
                  gm_current_cluster_powercap := ucast (gm_default_cluster_powercap s),
                  gm_min_cluster_powercap := min_power\<rparr>;
            s = (if gm_current_cluster_powercap s = - 1
                 then s\<lparr>gm_current_cluster_powercap := gm_min_cluster_powercap s\<rparr> else s)
        in Some (if gm_current_cluster_powercap s = 0 then s
                 else s\<lparr>gm_powercap_unlimited := tags_are_unlimited cc\<rparr>))"

definition cluster_power_limited :: "eargm \<Rightarrow> bool" where
  "cluster_power_limited s = (gm_current_cluster_powercap s \<noteq> 0)"

subsection \<open>Actions\<close>

definition action_output :: "string \<Rightarrow> eargm \<Rightarrow> powercap_status \<Rightarrow> gm_output" where
  "action_output cmd s cs =
     Execute_Action cmd (cs_current_power cs) (gm_current_cluster_powercap s) (cs_idle_nodes cs) (cs_total_idle_power cs)"

definition execute_powercap_lower_action :: "eargm \<Rightarrow> powercap_status \<Rightarrow> eargm \<times> gm_output list" where
  "execute_powercap_lower_action s cs =
     (if gm_powercap_lower_action s \<noteq> ''no_action''
      then (s\<lparr>gm_process_created := gm_process_created s + 1, gm_actions_executed := 0\<rparr>,
            [action_output (gm_powercap_lower_action s) s cs])
      else (s, []))"

definition execute_powercap_limit_action :: "eargm \<Rightarrow> powercap_status \<Rightarrow> eargm \<times> gm_output list" where
  "execute_powercap_limit_action s cs =
     (if gm_powercap_limit_action s \<noteq> ''no_action''
      then (s\<lparr>gm_process_created := gm_process_created s + 1, gm_actions_executed := 1\<rparr>,
            [action_output (gm_powercap_limit_action s) s cs])
      else (s, []))"

text \<open>The expression \<^verbatim>\<open>(float) (current_cluster_powercap * perc) / 100.0\<close>, a double.\<close>

definition powercap_threshold :: "eargm \<Rightarrow> u64 \<Rightarrow> rat" where
  "powercap_threshold s perc =
     to_double (to_float (rat_of_word (ucast (gm_current_cluster_powercap s) * perc)) / 100)"

definition check_powercap_actions :: "eargm \<Rightarrow> powercap_status \<Rightarrow> u32 \<Rightarrow> eargm \<times> gm_output list" where
  "check_powercap_actions s cs cluster_powercap =
     (if rat_of_word cluster_powercap \<ge> powercap_threshold s (gm_defcon_power_limit s) \<and> gm_actions_executed s = 0
      then execute_powercap_limit_action s cs
      else if rat_of_word cluster_powercap \<le> powercap_threshold s (gm_defcon_power_lower s) \<and> gm_actions_executed s \<noteq> 0
      then execute_powercap_lower_action s cs
      else (s, []))"

subsection \<open>Periods\<close>

text \<open>What \<open>ear_get_powercap_status\<close> obtained from the nodes is an argument, \<^const>\<open>None\<close> for a failure.\<close>

definition cluster_power_monitor :: "eargm \<Rightarrow> powercap_status option \<Rightarrow> eargm \<times> gm_output list" where
  "cluster_power_monitor s status =
     (case status of None \<Rightarrow> (write_shared_data s 0 0 0, [])
      | Some cs \<Rightarrow>
        let s = write_shared_data s (ucast (cs_current_power cs)) 0 0;
            (s, acts) =
              (if rat_of_word (cs_current_power cs) \<ge> powercap_threshold s (gm_defcon_power_limit s) \<and>
                  gm_actions_executed s = 0
               then execute_powercap_limit_action s cs
               else if rat_of_word (cs_current_power cs) \<le> powercap_threshold s (gm_defcon_power_lower s) \<and>
                  gm_actions_executed s \<noteq> 0
               then execute_powercap_lower_action s cs
               else (s, []))
        in (s, Report_Event CLUSTER_POWER (ucast (cs_current_power cs)) # acts))"

definition empty_powercap_opt :: powercap_opt where
  "empty_powercap_opt =
     \<lparr>po_num_greedy = 0, po_greedy_nodes = [], po_extra_power = [], po_cluster_perc_power = 0\<rparr>"

text \<open>\<open>rel_power\<close> is what \<open>ear_cluster_release_idle_power\<close> leaves in the structure, whether it
  succeeds or not.\<close>

definition cluster_hard_powercap ::
  "eargm \<Rightarrow> powercap_status option \<Rightarrow> pc_release_data \<Rightarrow> eargm \<times> gm_output list" where
  "cluster_hard_powercap s status rel_power =
     (case status of None \<Rightarrow> (write_shared_data s 0 0 0, [])
      | Some cs \<Rightarrow>
        let s = aggregate_data (s\<lparr>gm_must_send_pc_options := False\<rparr>) cs;
            (done, s, opts) = powercap_reallocation s cs empty_powercap_opt;
            (cs', s, opts, rel) =
              (if \<not> done
               then let cs' = cs\<lparr>cs_released := 0,
                                 cs_total_powercap := cs_total_powercap cs - rd_released rel_power\<rparr>;
                        (_, s, opts) = powercap_reallocation s cs' opts
                    in (cs', s, opts, [Release_Idle_Power])
               else (cs, s, opts, []));
            room = rat_of_word (gm_current_cluster_powercap s - gm_min_cluster_powercap s);
            share = to_double (rat_of_word (gm_total_free s) + to_double (rat_of_word (cs_released cs') * (1 / 2)));
            power_to_free = (trunc_word (ear_min room share) :: u32);
            power_to_request = (if gm_total_req_greedy s > gm_greedy_allocated s
                                then gm_total_req_greedy s - gm_greedy_allocated s else 0);
            s = write_shared_data s (ucast (cs_current_power cs')) (ucast power_to_free) (ucast power_to_request);
            (s, acts) = check_powercap_actions s cs' (cs_total_powercap cs')
        in (s, [Report_Event CLUSTER_POWER (ucast (cs_current_power cs))] @ rel @
               (if gm_must_send_pc_options s then [Send_Powercap_Options opts] else []) @ acts))"

definition status_of_power :: "u64 \<Rightarrow> powercap_status" where
  "status_of_power used_power =
     \<lparr>cs_total_nodes = 0, cs_idle_nodes = 0, cs_released = 0, cs_requested = 0, cs_total_idle_power = 0,
      cs_current_power = ucast used_power, cs_total_powercap = 0, cs_num_greedy = 0,
      cs_greedy_nodes = [], cs_greedy_data = []\<rparr>"

definition cluster_soft_powercap :: "eargm \<Rightarrow> u64 \<Rightarrow> eargm \<times> gm_output list" where
  "cluster_soft_powercap s cpower =
     (let event = Report_Event CLUSTER_POWER cpower;
          upper_limit = to_float (powercap_threshold s (gm_defcon_power_limit s));
          lower_limit = to_float (powercap_threshold s (gm_defcon_power_lower s));
          (st, non_computational_power) = read_non_computational_power;
          used_power = (if st = EAR_SUCCESS then cpower + non_computational_power else cpower);
          fused = to_float (rat_of_word used_power)
      in if gm_current_cluster_powercap s = POWER_CAP_UNLIMITED
         then (write_shared_data s used_power 0 0, [event])
         else
           let (s, freeable_power, requested, out) =
                 (if fused > upper_limit
                  then let num_soft_pc_nodes = (if gm_num_eargm_nodes s \<noteq> 0 then gm_num_eargm_nodes s
                                                else gm_max_num_nodes s);
                           new_limit = 4294967295;
                           out = (if num_soft_pc_nodes > 0
                                  then [Set_Powerlimit new_limit, Report_Event NODE_POWERCAP new_limit] else [])
                       in (s\<lparr>gm_risk := 1\<rparr>, 0, trunc_word (to_float (fused - upper_limit)), out)
                  else let (s, out) =
                             (if gm_risk s = 1 \<and> fused \<le> lower_limit
                              then (s\<lparr>gm_risk := 0\<rparr>, [Set_Powerlimit 1, Report_Event POWER_UNLIMITED 1])
                              else (s, []))
                       in (s, trunc_word (to_float (upper_limit - fused)) div 2, 0, out));
               s = write_shared_data s used_power freeable_power requested;
               (s, acts) = check_powercap_actions s (status_of_power used_power) (ucast used_power)
           in (s, event # out @ acts))"

text \<open>
  One turn of the thread \<open>eargm_powercap_th\<close>.  \<open>check_pending_processes\<close> only returns once the
  counter of processes is 0.
\<close>

definition eargm_powercap_th ::
  "eargm \<Rightarrow> powercap_status option \<Rightarrow> pc_release_data \<Rightarrow> u64 \<Rightarrow> eargm \<times> gm_output list" where
  "eargm_powercap_th s status rel_power cpower =
     (let s = (if gm_process_created s \<noteq> 0 then s\<lparr>gm_process_created := 0\<rparr> else s)
      in if cluster_power_limited s
         then if gm_powercap_mode s = SOFT_POWERCAP then cluster_soft_powercap s cpower
              else if gm_powercap_mode s = HARD_POWERCAP then cluster_hard_powercap s status rel_power
              else cluster_power_monitor s status
         else (s, []))"

subsection \<open>Examples\<close>

text \<open>A manager of 1000 W whose nodes hold 950 W, two of them greedy.\<close>

definition greedy_example :: "greedy_bytes list" where
  "greedy_example = [\<lparr>gb_requested = 50, gb_stress = 20, gb_extra_power = 0\<rparr>,
     \<lparr>gb_requested = 30, gb_stress = 10, gb_extra_power = 40\<rparr>]"

definition status_example :: "u32 \<Rightarrow> u32 \<Rightarrow> powercap_status" where
  "status_example total_powercap requested =
     \<lparr>cs_total_nodes = 4, cs_idle_nodes = 1, cs_released = 0, cs_requested = requested,
      cs_total_idle_power = 100, cs_current_power = 900, cs_total_powercap = total_powercap,
      cs_num_greedy = 2, cs_greedy_nodes = [10, 11], cs_greedy_data = greedy_example\<rparr>"

definition eargm_example :: eargm where
  "eargm_example =
     \<lparr>gm_powercap_mode = HARD_POWERCAP, gm_defcon_power_limit = 90, gm_defcon_power_lower = 70,
      gm_powercap_limit_action = ''suspend'', gm_powercap_lower_action = ''resume'',
      gm_default_cluster_powercap = 1000, gm_current_cluster_powercap = 1000, gm_min_cluster_powercap = 800,
      gm_powercap_unlimited = False, gm_risk = 0, gm_max_num_nodes = 4, gm_num_eargm_nodes = 4,
      gm_ext_powercap_data = \<lparr>sh_status = 0, sh_def_power = 1000, sh_current_power = 0, sh_current_powercap = 1000,
        sh_extra_power = 0, sh_requested = 0, sh_available_power = 0\<rparr>,
      gm_actions_executed = 0, gm_process_created = 0, gm_total_req_greedy = 0, gm_req_no_extra = 0,
      gm_num_no_extra = 0, gm_num_greedy = 0, gm_num_extra = 0, gm_extra_power_alloc = 0,
      gm_total_extra_power = 0, gm_greedy_allocated = 0, gm_must_send_pc_options = False,
      gm_current_extra_power = 0, gm_total_free = 0\<rparr>"

end
