(* ===== verification/Cluster_Allocation.thy ===== *)
theory Cluster_Allocation
  imports Cluster_Powercap
begin

text \<open>
  Correctness of the power distribution of \<^verbatim>\<open>global_manager/cluster_powercap.c\<close>: the totals
  that \<open>aggregate_data\<close> computes, conservation of power by the two allocation stages, exactness
  of the reduction, and the safety of a whole reallocation.
\<close>

subsection \<open>Totals\<close>


abbreviation requests :: "greedy_bytes list \<Rightarrow> nat" where
  "requests gs \<equiv> (\<Sum>g\<leftarrow>gs. unat (gb_requested g))"

abbreviation extras :: "greedy_bytes list \<Rightarrow> nat" where
  "extras gs \<equiv> (\<Sum>g\<leftarrow>gs. unat (gb_extra_power g))"

abbreviation newcomer :: "greedy_bytes \<Rightarrow> bool" where
  "newcomer g \<equiv> gb_requested g \<noteq> 0 \<and> gb_extra_power g = 0"

lemma foldl_aggregate:
  "gm_total_req_greedy (foldl aggregate_elem s gs) = gm_total_req_greedy s + of_nat (requests gs)"
  "gm_total_extra_power (foldl aggregate_elem s gs) = gm_total_extra_power s + of_nat (extras gs)"
  "gm_req_no_extra (foldl aggregate_elem s gs) = gm_req_no_extra s + of_nat (requests (filter newcomer gs))"
  "gm_num_no_extra (foldl aggregate_elem s gs) = gm_num_no_extra s + of_nat (length (filter newcomer gs))"
  "gm_num_greedy (foldl aggregate_elem s gs) = gm_num_greedy s + of_nat (length (filter (\<lambda>g. gb_requested g \<noteq> 0) gs))"
  "gm_num_extra (foldl aggregate_elem s gs) = gm_num_extra s + of_nat (length (filter (\<lambda>g. gb_extra_power g \<noteq> 0) gs))"
  by (induction gs arbitrary: s) (simp_all add: aggregate_elem_def Let_def ucast_of_nat algebra_simps)

lemma foldl_aggregate_frame:
  "gm_current_cluster_powercap (foldl aggregate_elem s gs) = gm_current_cluster_powercap s"
  "gm_greedy_allocated (foldl aggregate_elem s gs) = gm_greedy_allocated s"
  "gm_must_send_pc_options (foldl aggregate_elem s gs) = gm_must_send_pc_options s"
  "gm_default_cluster_powercap (foldl aggregate_elem s gs) = gm_default_cluster_powercap s"
  "gm_min_cluster_powercap (foldl aggregate_elem s gs) = gm_min_cluster_powercap s"
  "gm_current_extra_power (foldl aggregate_elem s gs) = gm_current_extra_power s"
  by (induction gs arbitrary: s) (simp_all add: aggregate_elem_def Let_def)

text \<open>The lists are short enough for every total to fit in 32 bits: at most \<open>2 ^ 16\<close> greedy nodes.\<close>

lemma requests_bound: "requests gs \<le> 255 * length gs"
  using unat_u8_le by (induction gs) (auto intro: add_mono)

lemma extras_bound: "extras gs \<le> 65535 * length gs"
  using unat_u16_le by (induction gs) (auto intro: add_mono)

lemma aggregate_totals:
  fixes s0 :: eargm
  assumes "gs = greedy_list cs" "length gs \<le> 2 ^ 16"
  defines "s \<equiv> aggregate_data s0 cs"
  shows "unat (gm_total_req_greedy s) = requests gs"
    and "unat (gm_total_extra_power s) = extras gs"
    and "unat (gm_req_no_extra s) = requests (filter newcomer gs)"
    and "unat (gm_num_no_extra s) = length (filter newcomer gs)"
    and "unat (gm_num_greedy s) = length (filter (\<lambda>g. gb_requested g \<noteq> 0) gs)"
    and "unat (gm_num_extra s) = length (filter (\<lambda>g. gb_extra_power g \<noteq> 0) gs)"
proof -
  have L: "length (filter P gs) \<le> 65536" for P
    by (rule order_trans [OF length_filter_le]) (use assms(2) in simp)
  have "requests (filter newcomer gs) < 2 ^ 32" "requests gs < 2 ^ 32" "extras gs < 2 ^ 32"
    "length (filter P gs) < 2 ^ 32" for P
    using assms(2) requests_bound [of gs] requests_bound [of "filter newcomer gs"] extras_bound [of gs]
      L [of newcomer] L [of P] by simp_all
  then show "unat (gm_total_req_greedy s) = requests gs" "unat (gm_total_extra_power s) = extras gs"
    "unat (gm_req_no_extra s) = requests (filter newcomer gs)"
    "unat (gm_num_no_extra s) = length (filter newcomer gs)"
    "unat (gm_num_greedy s) = length (filter (\<lambda>g. gb_requested g \<noteq> 0) gs)"
    "unat (gm_num_extra s) = length (filter (\<lambda>g. gb_extra_power g \<noteq> 0) gs)"
    by (simp_all add: s_def aggregate_data_def foldl_aggregate unat_of_nat_less flip: assms(1))
qed

subsection \<open>One allocation stage\<close>

definition granted :: "(greedy_bytes \<Rightarrow> i32 \<Rightarrow> bool) \<Rightarrow> (greedy_bytes \<Rightarrow> i32) \<Rightarrow> greedy_bytes list \<Rightarrow> i32 list \<Rightarrow> nat" where
  "granted cond shr gs es = (\<Sum>(g, e)\<leftarrow>zip gs es. if cond g e then unat (shr g) else 0)"

definition granting :: "(greedy_bytes \<Rightarrow> i32 \<Rightarrow> bool) \<Rightarrow> (greedy_bytes \<Rightarrow> i32) \<Rightarrow> greedy_bytes list \<Rightarrow> i32 list \<Rightarrow> i32 list" where
  "granting cond shr gs es = map2 (\<lambda>g e. if cond g e then shr g else e) gs es"

lemma granted_simps [simp]:
  "granted cond shr [] es = 0" "granted cond shr gs [] = 0"
  "granted cond shr (g # gs) (e # es) = (if cond g e then unat (shr g) else 0) + granted cond shr gs es"
  by (cases gs; simp add: granted_def)+

lemma grant_loop_result:
  assumes "granted cond shr gs es \<le> unat pending" "unat allocated + granted cond shr gs es < 2 ^ 32"
    and "length es = length gs"
  shows "\<exists>pending' allocated'.
    grant_loop cond shr gs es pending allocated = (granting cond shr gs es, pending', allocated') \<and>
    unat pending' + granted cond shr gs es = unat pending \<and>
    unat allocated' = unat allocated + granted cond shr gs es"
  using assms
proof (induction cond shr gs es pending allocated rule: grant_loop.induct)
  case (1 cond share g gs e es pending allocated)
  show ?case
  proof (cases "cond g e")
    case True
    have "unat (pending - share g) = unat pending - unat (share g)"
      "unat (allocated + share g) = unat allocated + unat (share g)"
      using 1(3,4) True by (simp_all add: unat_dist unat_plus)
    moreover obtain pending' allocated' where
      "grant_loop cond share gs es (pending - share g) (allocated + share g) =
         (granting cond share gs es, pending', allocated')"
      "unat pending' + granted cond share gs es = unat (pending - share g)"
      "unat allocated' = unat (allocated + share g) + granted cond share gs es"
      using 1(1) [OF True refl] 1(3-5) True calculation by fastforce
    ultimately show ?thesis using 1(3) True by (simp add: granting_def)
  next
    case False
    then show ?thesis using 1(2) 1(3-5) by (auto simp: granting_def)
  qed
qed (auto simp: granting_def)

text \<open>
  What both stages promise: a share never exceeds the request of the node, nor the average
  computed for the stage; only requesting nodes are served.  A stage may need its average to
  be a valid one.
\<close>

locale grant_stage =
  fixes cond :: "greedy_bytes \<Rightarrow> i32 \<Rightarrow> bool"
    and share :: "i32 \<Rightarrow> greedy_bytes \<Rightarrow> i32"
    and valid :: "i32 \<Rightarrow> bool"
  assumes share_le_request: "valid avg \<Longrightarrow> unat (share avg g) \<le> unat (gb_requested g)"
    and share_le_average: "0 \<le> sint avg \<Longrightarrow> valid avg \<Longrightarrow> unat (share avg g) \<le> unat avg"
    and only_requesting: "cond g e \<Longrightarrow> gb_requested g \<noteq> 0"
begin

lemma granted_le_requests:
  "valid avg \<Longrightarrow> length es = length gs \<Longrightarrow> (\<And>g e. cond g e \<Longrightarrow> P g) \<Longrightarrow>
     granted cond (share avg) gs es \<le> requests (filter P gs)"
  by (induction gs es rule: list_induct2'; simp) (auto intro: add_mono share_le_request trans_le_add2)

lemma granted_le_average:
  "0 \<le> sint avg \<Longrightarrow> valid avg \<Longrightarrow> length es = length gs \<Longrightarrow> (\<And>g e. cond g e \<Longrightarrow> P g) \<Longrightarrow>
     granted cond (share avg) gs es \<le> length (filter P gs) * unat avg"
  by (induction gs es rule: list_induct2'; simp) (auto intro: add_mono share_le_average trans_le_add2)

lemma elementwise:
  "valid avg \<Longrightarrow> list_all2 (\<lambda>g e. unat e \<le> unat (gb_requested g)) gs es \<Longrightarrow>
     list_all2 (\<lambda>g e. unat e \<le> unat (gb_requested g)) gs (granting cond (share avg) gs es)"
  by (induction gs es rule: list_induct2') (auto simp: granting_def share_le_request)

end

lemma sint_requested: "sint (ucast (r :: u8) :: i32) = int (unat r)" "unat (ucast (r :: u8) :: i32) = unat r"
proof -
  show u: "unat (ucast r :: i32) = unat r" by (rule unat_ucast_up) simp
  show "sint (ucast r :: i32) = int (unat r)" using u unat_u8_le [of r] by (subst sint_small) simp_all
qed

lemma unat_min_int: "0 \<le> sint a \<Longrightarrow> 0 \<le> sint b \<Longrightarrow> unat (min_int a b) = min (unat a) (unat b)"
  using sint_nonneg [of a] sint_nonneg [of b] by (auto simp: min_int_def)

interpretation stage1: grant_stage stage1_cond stage1_share "\<lambda>_. True"
proof unfold_locales
  show "unat (stage1_share avg g) \<le> unat (gb_requested g)" for avg g
    by (cases "sint avg < 0") (simp_all add: stage1_share_def unat_min_int sint_requested)
  show "unat (stage1_share avg g) \<le> unat avg" if "0 \<le> sint avg" for avg g
    using that by (simp add: stage1_share_def unat_min_int sint_requested)
qed (simp add: stage1_cond_def)

interpretation stage2: grant_stage stage2_cond stage2_share "\<lambda>avg. 0 \<le> sint avg"
  by unfold_locales (simp_all add: stage2_share_def stage2_cond_def unat_min_int sint_requested)

lemma stage1_fits:
  assumes "unat free < 2 ^ 31" "0 < length (filter newcomer gs)" "length es = length gs"
    and "unat req = requests (filter newcomer gs)" "unat num = length (filter newcomer gs)"
  shows "granted stage1_cond (stage1_share (if req < free then - 1 else free div num)) gs es \<le> unat free"
proof (cases "req < free")
  case True
  then show ?thesis
    using stage1.granted_le_requests [where avg = "- 1" and es = es and gs = gs and P = newcomer] assms(3,4)
    by (simp add: stage1_cond_def word_less_nat_alt)
next
  case False
  have q: "unat (free div num) = unat free div length (filter newcomer gs)" by (simp add: unat_div assms(5))
  moreover have "unat free div length (filter newcomer gs) \<le> unat free" by (rule div_le_dividend)
  ultimately have "0 \<le> sint (free div num)" using assms(1) unfolding sint_nonneg_iff by linarith
  then have "granted stage1_cond (stage1_share (free div num)) gs es \<le>
      length (filter newcomer gs) * (unat free div length (filter newcomer gs))"
    using stage1.granted_le_average [where avg = "free div num" and es = es and gs = gs and P = newcomer] assms(3) q
    by (simp add: stage1_cond_def)
  also have "\<dots> \<le> unat free" by (rule times_div_less_eq_dividend)
  finally show ?thesis using False by simp
qed

lemma stage2_fits:
  assumes "unat pending < 2 ^ 31" "length es = length gs"
    and "unat num = length (filter (\<lambda>g. gb_requested g \<noteq> 0) gs)"
  shows "granted stage2_cond (stage2_share (pending div num)) gs es \<le> unat pending"
    and "0 \<le> sint (pending div num)"
proof -
  let ?n = "length (filter (\<lambda>g. gb_requested g \<noteq> 0) gs)"
  have q: "unat (pending div num) = unat pending div ?n" by (simp add: unat_div assms(3))
  moreover have "unat pending div ?n \<le> unat pending" by (rule div_le_dividend)
  ultimately show pos: "0 \<le> sint (pending div num)" using assms(1) unfolding sint_nonneg_iff by linarith
  then have "granted stage2_cond (stage2_share (pending div num)) gs es \<le> ?n * (unat pending div ?n)"
    using stage2.granted_le_average [where avg = "pending div num" and es = es and gs = gs and P = "\<lambda>g. gb_requested g \<noteq> 0"] assms(2) q
    by (simp add: stage2_cond_def)
  also have "\<dots> \<le> unat pending" by (rule times_div_less_eq_dividend)
  finally show "granted stage2_cond (stage2_share (pending div num)) gs es \<le> unat pending" .
qed

lemma sum_granting:
  "length es = length gs \<Longrightarrow> (\<And>g e. cond g e \<Longrightarrow> (g, e) \<in> set (zip gs es) \<Longrightarrow> e = 0) \<Longrightarrow>
     (\<Sum>e\<leftarrow>granting cond shr gs es. unat e) = (\<Sum>e\<leftarrow>es. unat e) + granted cond shr gs es"
  by (induction gs es rule: list_induct2') (fastforce simp: granting_def)+

subsection \<open>The two stages together\<close>

lemma granting_zeroes:
  "length es = length gs \<Longrightarrow> set es \<subseteq> {0} \<Longrightarrow> list_all2 (\<lambda>g e. unat e \<le> unat (gb_requested g)) gs es"
  by (induction gs es rule: list_induct2') auto

lemma sum_unat_zeroes: "set es \<subseteq> {0} \<Longrightarrow> (\<Sum>e\<leftarrow>es. unat e) = 0"
  by (induction es) auto

lemma stage1_result:
  assumes "gs = greedy_list cs" "length gs \<le> 2 ^ 16" "unat free < 2 ^ 31" "0 < gm_num_no_extra s"
    and "length es = length gs" "set es \<subseteq> {0}" "s = aggregate_data s0 cs"
  shows "\<exists>es' pending allocated.
    grant_loop stage1_cond (stage1_share (if gm_req_no_extra s < free then - 1 else free div gm_num_no_extra s))
      gs es free 0 = (es', pending, allocated) \<and>
    length es' = length gs \<and> list_all2 (\<lambda>g e. unat e \<le> unat (gb_requested g)) gs es' \<and>
    (\<Sum>e\<leftarrow>es'. unat e) + unat pending = unat free \<and> unat allocated = (\<Sum>e\<leftarrow>es'. unat e)"
proof -
  let ?avg = "if gm_req_no_extra s < free then - 1 else free div gm_num_no_extra s"
  note totals = aggregate_totals [OF assms(1,2), of s0, folded assms(7)]
  have fit: "granted stage1_cond (stage1_share ?avg) gs es \<le> unat free"
    using assms(3-5) totals by (intro stage1_fits) (simp_all add: word_less_nat_alt)
  moreover have "unat (0 :: u32) + granted stage1_cond (stage1_share ?avg) gs es < 2 ^ 32"
    using fit assms(3) by simp
  ultimately obtain pending allocated where
    "grant_loop stage1_cond (stage1_share ?avg) gs es free 0 = (granting stage1_cond (stage1_share ?avg) gs es, pending, allocated)"
    "unat pending + granted stage1_cond (stage1_share ?avg) gs es = unat free"
    "unat allocated = granted stage1_cond (stage1_share ?avg) gs es"
    using grant_loop_result [of stage1_cond "stage1_share ?avg" gs es free 0] assms(5) by auto
  moreover have "(\<Sum>e\<leftarrow>granting stage1_cond (stage1_share ?avg) gs es. unat e) = granted stage1_cond (stage1_share ?avg) gs es"
  proof -
    have "e = 0" if "(g, e) \<in> set (zip gs es)" for g e
      using that assms(6) by (auto dest: set_zip_rightD)
    then show ?thesis using sum_granting [OF assms(5)] sum_unat_zeroes [OF assms(6)] by (metis add_0)
  qed
  moreover have "list_all2 (\<lambda>g e. unat e \<le> unat (gb_requested g)) gs (granting stage1_cond (stage1_share ?avg) gs es)"
    using stage1.elementwise [OF TrueI granting_zeroes [OF assms(5,6)]] .
  moreover have "length (granting stage1_cond (stage1_share ?avg) gs es) = length gs"
    using assms(5) by (simp add: granting_def)
  ultimately show ?thesis by auto
qed

lemma stage2_result:
  assumes "gs = greedy_list cs" "length gs \<le> 2 ^ 16" "unat pending < 2 ^ 31"
    and "length es = length gs" "list_all2 (\<lambda>g e. unat e \<le> unat (gb_requested g)) gs es"
    and "(\<Sum>e\<leftarrow>es. unat e) + unat pending < 2 ^ 31" "unat allocated = (\<Sum>e\<leftarrow>es. unat e)"
    and "s = aggregate_data s0 cs"
  shows "\<exists>es' pending' allocated'.
    grant_loop stage2_cond (stage2_share (pending div gm_num_greedy s)) gs es pending allocated = (es', pending', allocated') \<and>
    list_all2 (\<lambda>g e. unat e \<le> unat (gb_requested g)) gs es' \<and>
    (\<Sum>e\<leftarrow>es'. unat e) + unat pending' = (\<Sum>e\<leftarrow>es. unat e) + unat pending \<and> unat allocated' = (\<Sum>e\<leftarrow>es'. unat e)"
proof -
  let ?avg = "pending div gm_num_greedy s"
  note totals = aggregate_totals [OF assms(1,2), of s0, folded assms(8)]
  note fit = stage2_fits [OF assms(3,4) totals(5)]
  obtain pending' allocated' where
    "grant_loop stage2_cond (stage2_share ?avg) gs es pending allocated = (granting stage2_cond (stage2_share ?avg) gs es, pending', allocated')"
    "unat pending' + granted stage2_cond (stage2_share ?avg) gs es = unat pending"
    "unat allocated' = unat allocated + granted stage2_cond (stage2_share ?avg) gs es"
    using grant_loop_result [of stage2_cond "stage2_share ?avg" gs es pending allocated] fit(1) assms(4,6,7) by fastforce
  moreover have "(\<Sum>e\<leftarrow>granting stage2_cond (stage2_share ?avg) gs es. unat e) =
      (\<Sum>e\<leftarrow>es. unat e) + granted stage2_cond (stage2_share ?avg) gs es"
    using assms(4) by (intro sum_granting) (simp_all add: stage2_cond_def)
  moreover have "list_all2 (\<lambda>g e. unat e \<le> unat (gb_requested g)) gs (granting stage2_cond (stage2_share ?avg) gs es)"
    using stage2.elementwise [OF fit(2) assms(5)] .
  ultimately show ?thesis using assms(7) by auto
qed

lemma allocate_spec:
  assumes "gs = greedy_list cs" "length gs \<le> 2 ^ 16" "unat free < 2 ^ 31"
    and "length (po_extra_power opts) = length gs" "set (po_extra_power opts) \<subseteq> {0}"
    and s: "gm_num_greedy s = gm_num_greedy (aggregate_data s0 cs)"
      "gm_num_no_extra s = gm_num_no_extra (aggregate_data s0 cs)"
      "gm_req_no_extra s = gm_req_no_extra (aggregate_data s0 cs)"
  shows "\<exists>s' opts' free'.
    allocate_free_power_to_greedy_nodes s cs opts free = (s', opts', free') \<and>
    (\<Sum>e\<leftarrow>po_extra_power opts'. unat e) + unat free' = unat free \<and>
    list_all2 (\<lambda>g e. unat e \<le> unat (gb_requested g)) gs (po_extra_power opts') \<and>
    (gm_num_greedy s \<noteq> 0 \<and> free \<noteq> 0 \<longrightarrow>
       unat (gm_greedy_allocated s') = (\<Sum>e\<leftarrow>po_extra_power opts'. unat e) \<and> gm_must_send_pc_options s')"
proof (cases "gm_num_greedy s = 0 \<or> free = 0")
  case True
  then show ?thesis
    using assms(4,5) by (auto simp: allocate_free_power_to_greedy_nodes_def granting_zeroes sum_unat_zeroes)
next
  case False
  obtain es pending allocated where st1:
    "(if gm_num_no_extra s > 0
      then grant_loop stage1_cond (stage1_share (if gm_req_no_extra s < free then - 1 else free div gm_num_no_extra s))
             gs (po_extra_power opts) free 0
      else (po_extra_power opts, free, 0)) = (es, pending, allocated)"
    and inv: "length es = length gs" "list_all2 (\<lambda>g e. unat e \<le> unat (gb_requested g)) gs es"
      "(\<Sum>e\<leftarrow>es. unat e) + unat pending = unat free" "unat allocated = (\<Sum>e\<leftarrow>es. unat e)"
  proof (cases "0 < gm_num_no_extra s")
    case True
    then have "0 < gm_num_no_extra (aggregate_data s0 cs)" using s by simp
    from stage1_result [OF assms(1-3) this assms(4,5) refl, folded s] obtain es pending allocated where
      "grant_loop stage1_cond (stage1_share (if gm_req_no_extra s < free then - 1 else free div gm_num_no_extra s))
         gs (po_extra_power opts) free 0 = (es, pending, allocated)"
      "length es = length gs" "list_all2 (\<lambda>g e. unat e \<le> unat (gb_requested g)) gs es"
      "(\<Sum>e\<leftarrow>es. unat e) + unat pending = unat free" "unat allocated = (\<Sum>e\<leftarrow>es. unat e)"
      by blast
    then show ?thesis by (intro that) (simp_all only: True if_True)
  next
    case no: False
    then show ?thesis
      by (intro that [of "po_extra_power opts" free 0])
        (use assms(4) granting_zeroes [OF assms(4,5)] sum_unat_zeroes [OF assms(5)] in simp_all)
  qed
  obtain es' pending' allocated' where st2:
    "(if pending \<noteq> 0 then grant_loop stage2_cond (stage2_share (pending div gm_num_greedy s)) gs es pending allocated
      else (es, pending, allocated)) = (es', pending', allocated')"
    and "list_all2 (\<lambda>g e. unat e \<le> unat (gb_requested g)) gs es'"
      "(\<Sum>e\<leftarrow>es'. unat e) + unat pending' = unat free" "unat allocated' = (\<Sum>e\<leftarrow>es'. unat e)"
  proof (cases "pending = 0")
    case True
    then show ?thesis using that inv by simp
  next
    case False
    have "unat pending < 2 ^ 31" "(\<Sum>e\<leftarrow>es. unat e) + unat pending < 2 ^ 31" using inv(3) assms(3) by linarith+
    from stage2_result [OF assms(1,2) this(1) inv(1,2) this(2) inv(4) refl, of s0, folded s]
    obtain es' pending' allocated' where
      "grant_loop stage2_cond (stage2_share (pending div gm_num_greedy s)) gs es pending allocated = (es', pending', allocated')"
      "list_all2 (\<lambda>g e. unat e \<le> unat (gb_requested g)) gs es'"
      "(\<Sum>e\<leftarrow>es'. unat e) + unat pending' = (\<Sum>e\<leftarrow>es. unat e) + unat pending" "unat allocated' = (\<Sum>e\<leftarrow>es'. unat e)"
      by blast
    then show ?thesis by (intro that) (simp_all only: False not_False_eq_True if_True inv(3))
  qed
  moreover have "allocate_free_power_to_greedy_nodes s cs opts free =
      (s\<lparr>gm_must_send_pc_options := True, gm_greedy_allocated := allocated'\<rparr>, opts\<lparr>po_extra_power := es'\<rparr>, pending')"
    using False st1 st2
    by (simp only: allocate_free_power_to_greedy_nodes_def Let_def de_Morgan_disj if_False prod.case flip: assms(1))
  ultimately show ?thesis by simp
qed

subsection \<open>Reduction of extra allocations\<close>

text \<open>A negative entry of the options takes power back; \<open>taken\<close> is how much.\<close>

abbreviation taken :: "i32 \<Rightarrow> nat" where
  "taken e \<equiv> unat (- e)"

lemma unat_ear_min: "unat (ear_min a b) = min (unat a) (unat b)"
  by (auto simp: ear_min_def word_less_nat_alt)

lemma unat_extra: "unat (ucast (gb_extra_power g) :: u32) = unat (gb_extra_power g)"
  by (rule unat_ucast_up) simp

lemma taken_zeroes:
  assumes "length es = length gs" "set es \<subseteq> {0}"
  shows "list_all2 (\<lambda>g e. taken e \<le> unat (gb_extra_power g)) gs es" and "(\<Sum>e\<leftarrow>es. taken e) = 0"
  using assms by (induction gs es rule: list_induct2') auto

lemma reduce_round1_spec:
  assumes "length es = length gs" "set es \<subseteq> {0}"
  shows "\<exists>es' r. reduce_round1 red_node gs es mr = (es', r) \<and>
    (\<Sum>e\<leftarrow>es'. taken e) + unat r = unat mr \<and>
    list_all2 (\<lambda>g e. taken e \<le> unat (gb_extra_power g)) gs es'"
  using assms
proof (induction red_node gs es mr rule: reduce_round1.induct)
  case (1 red_node g gs e es mr)
  let ?red = "ear_min (ear_min red_node (ucast (gb_extra_power g))) mr"
  have red: "unat ?red \<le> unat mr" "unat ?red \<le> unat (gb_extra_power g)"
    by (simp_all add: unat_ear_min unat_extra)
  have rest: "list_all2 (\<lambda>g e. taken e \<le> unat (gb_extra_power g)) gs es" "(\<Sum>e\<leftarrow>es. taken e) = 0"
    using 1(3,4) by (simp_all add: taken_zeroes)
  show ?case
  proof (cases "0 < mr")
    case True
    show ?thesis
    proof (cases "gb_extra_power g = 0")
      case no: True
      then show ?thesis using 1 True by fastforce
    next
      case False
      from 1(1) [OF True False refl refl] 1(3,4) obtain es' r where
        "reduce_round1 red_node gs es (mr - ?red) = (es', r)"
        "(\<Sum>e\<leftarrow>es'. taken e) + unat r = unat (mr - ?red)"
        "list_all2 (\<lambda>g e. taken e \<le> unat (gb_extra_power g)) gs es'" by auto
      then show ?thesis using True False red by (simp add: unat_dist Let_def)
    qed
  next
    case False
    then show ?thesis using 1(3,4) rest by simp
  qed
qed auto

lemma remaining_extra:
  assumes "taken e \<le> unat (gb_extra_power g)"
  shows "unat (ucast (gb_extra_power g) + e) = unat (gb_extra_power g) - taken e"
    and "0 < sint (ucast (gb_extra_power g) + e) \<longleftrightarrow> taken e < unat (gb_extra_power g)"
proof -
  have "ucast (gb_extra_power g) + e = ucast (gb_extra_power g) - (- e)" by simp
  then show u: "unat (ucast (gb_extra_power g) + e) = unat (gb_extra_power g) - taken e"
    using assms by (simp only:) (subst unat_dist; simp add: unat_extra)
  moreover have "unat (ucast (gb_extra_power g) + e) < 2 ^ 31"
    using u unat_u16_le [of "gb_extra_power g"] by simp
  ultimately show "0 < sint (ucast (gb_extra_power g) + e) \<longleftrightarrow> taken e < unat (gb_extra_power g)"
    by (simp add: sint_small)
qed

lemma reduce_round2_0 [simp]: "reduce_round2 gs es 0 = (es, 0)"
  by (cases "(gs, es, 0 :: u32)" rule: reduce_round2.cases) auto

lemma reduce_round2_spec:
  assumes "list_all2 (\<lambda>g e. taken e \<le> unat (gb_extra_power g)) gs es"
  shows "\<exists>es' r. reduce_round2 gs es mr = (es', r) \<and>
    (\<Sum>e\<leftarrow>es'. taken e) + unat r = (\<Sum>e\<leftarrow>es. taken e) + unat mr \<and>
    list_all2 (\<lambda>g e. taken e \<le> unat (gb_extra_power g)) gs es' \<and>
    (r = 0 \<or> (\<Sum>e\<leftarrow>es'. taken e) = extras gs)"
  using assms
proof (induction gs es mr rule: reduce_round2.induct)
  case (1 g gs e es mr)
  have te: "taken e \<le> unat (gb_extra_power g)" using 1(3) by simp
  let ?red = "ear_min (ucast (gb_extra_power g) + e) mr"
  have red: "unat ?red = min (unat (gb_extra_power g) - taken e) (unat mr)"
    using te by (simp add: unat_ear_min remaining_extra)
  show ?case
  proof (cases "0 < mr")
    case mr: True
    show ?thesis
    proof (cases "taken e < unat (gb_extra_power g)")
      case True
      have t: "taken (e + (- ?red)) = taken e + unat ?red"
      proof -
        have "- (e + (- ?red)) = - e + ?red" by simp
        moreover have "unat (- e) + unat ?red < 2 ^ 32"
          using red te unat_u16_le [of "gb_extra_power g"] by simp
        ultimately show ?thesis using unat_plus [of "- e" ?red] by simp
      qed
      from 1(1) [OF mr _ refl refl] 1(3) True te obtain es' r where
        "reduce_round2 gs es (mr - ?red) = (es', r)"
        "(\<Sum>e\<leftarrow>es'. taken e) + unat r = (\<Sum>e\<leftarrow>es. taken e) + unat (mr - ?red)"
        "list_all2 (\<lambda>g e. taken e \<le> unat (gb_extra_power g)) gs es'"
        "r = 0 \<or> (\<Sum>e\<leftarrow>es'. taken e) = extras gs" by (auto simp: remaining_extra)
      moreover have "reduce_round2 (g # gs) (e # es) mr = ((e + (- ?red)) # es', r)"
        using mr True te calculation(1) by (simp add: remaining_extra Let_def)
      moreover have "r = 0 \<or> taken (e + (- ?red)) = unat (gb_extra_power g)"
      proof (cases "unat mr \<le> unat (gb_extra_power g) - taken e")
        case True
        then have "?red = mr" using red by (simp add: word_unat_eq_iff)
        then show ?thesis using calculation(1) by simp
      next
        case False
        then show ?thesis using red te t by simp
      qed
      moreover have "taken (e + (- ?red)) \<le> unat (gb_extra_power g)" using t red te by simp
      moreover have "unat (mr - ?red) + unat ?red = unat mr" using red by (simp add: unat_dist)
      ultimately show ?thesis using t by (auto simp del: reduce_round2.simps)
    next
      case False
      then show ?thesis using 1(2) [OF mr] 1(3) mr te by (auto simp: remaining_extra)
    qed
  next
    case False
    then have "mr = 0" by (simp add: word_gt_0)
    then show ?thesis using 1(3) by simp
  qed
qed auto

lemma extras_no_extra: "length (filter (\<lambda>g. gb_extra_power g \<noteq> 0) gs) = 0 \<Longrightarrow> extras gs = 0"
  by (induction gs) (auto split: if_splits)

lemma reduce_allocation_spec:
  assumes "gs = greedy_list cs" "length gs \<le> 2 ^ 16"
    and "length (po_extra_power opts) = length gs" "set (po_extra_power opts) \<subseteq> {0}"
    and "gm_num_extra s = gm_num_extra (aggregate_data s0 cs)"
  shows "(\<Sum>e\<leftarrow>po_extra_power (reduce_allocation s cs opts mr). taken e) = min (unat mr) (extras gs)"
    and "list_all2 (\<lambda>g e. taken e \<le> unat (gb_extra_power g)) gs (po_extra_power (reduce_allocation s cs opts mr))"
proof -
  note zero = taken_zeroes [OF assms(3,4)]
  have "\<exists>es. po_extra_power (reduce_allocation s cs opts mr) = es \<and>
      (\<Sum>e\<leftarrow>es. taken e) = min (unat mr) (extras gs) \<and> list_all2 (\<lambda>g e. taken e \<le> unat (gb_extra_power g)) gs es"
  proof (cases "gm_num_extra s = 0")
    case True
    then have "extras gs = 0"
      using aggregate_totals(6) [OF assms(1,2), of s0] assms(5) by (intro extras_no_extra) simp
    then show ?thesis using True zero by (simp add: reduce_allocation_def del: sum_list_eq_0_iff)
  next
    case False
    obtain es r where r1: "reduce_round1 (mr div gm_num_extra s) gs (po_extra_power opts) mr = (es, r)"
      "(\<Sum>e\<leftarrow>es. taken e) + unat r = unat mr" "list_all2 (\<lambda>g e. taken e \<le> unat (gb_extra_power g)) gs es"
      using reduce_round1_spec [OF assms(3,4)] by blast
    obtain es' r' where r2: "reduce_round2 gs es r = (es', r')"
      "(\<Sum>e\<leftarrow>es'. taken e) + unat r' = (\<Sum>e\<leftarrow>es. taken e) + unat r"
      "list_all2 (\<lambda>g e. taken e \<le> unat (gb_extra_power g)) gs es'"
      "r' = 0 \<or> (\<Sum>e\<leftarrow>es'. taken e) = extras gs"
      using reduce_round2_spec [OF r1(3)] by blast
    have le: "(\<Sum>e\<leftarrow>es'. taken e) \<le> extras gs"
      using r2(3) by (induction gs es' rule: list_all2_induct) auto
    have "(\<Sum>e\<leftarrow>es'. taken e) = min (unat mr) (extras gs)"
      using r1(2) r2(2,4) le by auto
    moreover have "po_extra_power (reduce_allocation s cs opts mr) = es'"
      using False r1(1) r2(1) by (simp add: reduce_allocation_def flip: assms(1))
    ultimately show ?thesis using r2(3) by blast
  qed
  then show "(\<Sum>e\<leftarrow>po_extra_power (reduce_allocation s cs opts mr). taken e) = min (unat mr) (extras gs)"
    "list_all2 (\<lambda>g e. taken e \<le> unat (gb_extra_power g)) gs (po_extra_power (reduce_allocation s cs opts mr))"
    by blast+
qed

subsection \<open>A whole reallocation\<close>

text \<open>The options are fresh, or hold no power yet.\<close>

definition opts_ready :: "greedy_bytes list \<Rightarrow> powercap_opt \<Rightarrow> bool" where
  "opts_ready gs opts \<longleftrightarrow> po_greedy_nodes opts = [] \<or>
     length (po_extra_power opts) = length gs \<and> set (po_extra_power opts) \<subseteq> {0}"

text \<open>The counters of \<open>s\<close> are those of \<open>aggregate_data\<close> for the nodes of \<open>cs\<close>.\<close>

definition aggregated :: "eargm \<Rightarrow> powercap_status \<Rightarrow> bool" where
  "aggregated s cs \<longleftrightarrow> (let t = aggregate_data s cs in
     gm_total_req_greedy s = gm_total_req_greedy t \<and> gm_req_no_extra s = gm_req_no_extra t \<and>
     gm_num_no_extra s = gm_num_no_extra t \<and> gm_num_greedy s = gm_num_greedy t \<and> gm_num_extra s = gm_num_extra t)"

lemma aggregated_aggregate: "aggregated (aggregate_data s cs) cs"
  by (simp add: aggregated_def aggregate_data_def Let_def foldl_aggregate)

lemma aggregated_cong:
  "greedy_list cs' = greedy_list cs \<Longrightarrow> gm_total_req_greedy s' = gm_total_req_greedy s \<Longrightarrow>
   gm_req_no_extra s' = gm_req_no_extra s \<Longrightarrow> gm_num_no_extra s' = gm_num_no_extra s \<Longrightarrow>
   gm_num_greedy s' = gm_num_greedy s \<Longrightarrow> gm_num_extra s' = gm_num_extra s \<Longrightarrow>
   aggregated s cs \<Longrightarrow> aggregated s' cs'"
  by (simp add: aggregated_def aggregate_data_def Let_def foldl_aggregate)

text \<open>What a reallocation does to one node, and to the balance of the cluster.\<close>

definition fair_options :: "greedy_bytes list \<Rightarrow> powercap_opt \<Rightarrow> bool" where
  "fair_options gs opts \<longleftrightarrow> list_all2 (\<lambda>g e. - int (unat (gb_extra_power g)) \<le> sint e \<and> sint e \<le> int (unat (gb_requested g)))
     gs (po_extra_power opts)"

definition balance :: "powercap_status \<Rightarrow> powercap_opt \<Rightarrow> int" where
  "balance cs opts = int (unat (cs_total_powercap cs)) + int (unat (cs_requested cs)) + (\<Sum>e\<leftarrow>po_extra_power opts. sint e)"

lemma granted_view:
  fixes gs :: "greedy_bytes list" and es :: "i32 list"
  assumes "list_all2 (\<lambda>g e. unat e \<le> unat (gb_requested g)) gs es"
  shows "(\<Sum>e\<leftarrow>es. sint e) = int (\<Sum>e\<leftarrow>es. unat e)"
    and "list_all2 (\<lambda>g e. - int (unat (gb_extra_power g)) \<le> sint e \<and> sint e \<le> int (unat (gb_requested g))) gs es"
proof -
  have s: "sint e = int (unat e)" if "unat e \<le> unat (gb_requested g)" for g :: greedy_bytes and e :: i32
    using that unat_u8_le [of "gb_requested g"] by (intro sint_small) simp
  show "(\<Sum>e\<leftarrow>es. sint e) = int (\<Sum>e\<leftarrow>es. unat e)"
    using assms by (induction gs es rule: list_all2_induct) (auto intro: s)
  show "list_all2 (\<lambda>g e. - int (unat (gb_extra_power g)) \<le> sint e \<and> sint e \<le> int (unat (gb_requested g))) gs es"
    using assms by (rule list_all2_mono) (auto simp: s)
qed

lemma taken_view:
  fixes gs :: "greedy_bytes list"
  assumes "list_all2 (\<lambda>g e. taken e \<le> unat (gb_extra_power g)) gs es"
  shows "(\<Sum>e\<leftarrow>es. sint e) = - int (\<Sum>e\<leftarrow>es. taken e)"
    and "list_all2 (\<lambda>g e. - int (unat (gb_extra_power g)) \<le> sint e \<and> sint e \<le> int (unat (gb_requested g))) gs es"
proof -
  have s: "sint e = - int (taken e)" if "taken e \<le> unat (gb_extra_power g)" for g :: greedy_bytes and e :: i32
    using that unat_u16_le [of "gb_extra_power g"] sint_dist [of 0 "- e"] by simp
  show "(\<Sum>e\<leftarrow>es. sint e) = - int (\<Sum>e\<leftarrow>es. taken e)"
    using assms by (induction gs es rule: list_all2_induct) (auto intro: s)
  show "list_all2 (\<lambda>g e. - int (unat (gb_extra_power g)) \<le> sint e \<and> sint e \<le> int (unat (gb_requested g))) gs es"
    using assms by (rule list_all2_mono) (auto simp: s)
qed

lemma prepare_options_ready:
  assumes "unat (cs_num_greedy cs) = length gs" "opts_ready gs opts"
  shows "length (po_extra_power (prepare_options s cs opts)) = length gs"
    and "set (po_extra_power (prepare_options s cs opts)) \<subseteq> {0}"
  using assms by (auto simp: prepare_options_def opts_ready_def Let_def)

lemma unat_free:
  assumes "unat tp + unat req < 2 ^ 32" "tp + req \<le> (cur :: u32)"
  shows "unat (tp + req) = unat tp + unat req" "unat tp + unat req \<le> unat cur"
    "unat (cur - (tp + req)) = unat cur - (unat tp + unat req)"
proof -
  show s: "unat (tp + req) = unat tp + unat req" using unat_plus [of tp req] assms(1) by simp
  show le: "unat tp + unat req \<le> unat cur" using assms(2) s by (simp add: word_le_nat_alt)
  show "unat (cur - (tp + req)) = unat cur - (unat tp + unat req)" using s le by (simp add: unat_dist)
qed

lemma reallocation_unfold:
  fixes s :: eargm
  defines "cur \<equiv> gm_current_cluster_powercap s"
  assumes "tp = cs_total_powercap cs" "req = cs_requested cs" "tp + req \<le> cur"
    and "opts0 = prepare_options s cs opts"
    and "s1 = s\<lparr>gm_total_free := cur - (tp + req), gm_must_send_pc_options := req \<noteq> 0 \<or> gm_must_send_pc_options s\<rparr>"
  shows "powercap_reallocation s cs opts =
    (if gm_total_req_greedy s = 0 then (True, s1, opts0)
     else if gm_total_req_greedy s \<le> cur - (tp + req)
     then (True, s1\<lparr>gm_total_free := cur - (tp + req) - gm_total_req_greedy s, gm_must_send_pc_options := True\<rparr>,
           opts0\<lparr>po_extra_power := map (\<lambda>g. ucast (gb_requested g)) (greedy_list cs)\<rparr>)
     else if cs_released cs = 0
     then (let (s2, opts2, free) = allocate_free_power_to_greedy_nodes s1 cs
                 (opts0\<lparr>po_num_greedy := cs_num_greedy cs\<rparr>) (cur - (tp + req))
           in (True, s2\<lparr>gm_total_free := free\<rparr>, opts2))
     else (False, s1, opts0))"
  using assms
  by (cases "req = 0"; cases s; simp add: powercap_reallocation_def read_non_computational_power_def Let_def)

lemma reallocation_unfold_short:
  fixes s :: eargm
  defines "cur \<equiv> gm_current_cluster_powercap s"
  assumes "tp = cs_total_powercap cs" "req = cs_requested cs" "\<not> tp + req \<le> cur"
    and "opts0 = prepare_options s cs opts"
    and "s1 = s\<lparr>gm_total_free := cur - tp, gm_must_send_pc_options := req \<noteq> 0 \<or> gm_must_send_pc_options s\<rparr>"
  shows "powercap_reallocation s cs opts =
    (if cs_released cs = 0
     then (True, s1\<lparr>gm_total_free := 0, gm_must_send_pc_options := True\<rparr>,
           reduce_allocation s1 cs opts0 ((tp + req) - cur))
     else (False, s1, opts0))"
  using assms
  by (cases "req = 0") (simp_all add: powercap_reallocation_def read_non_computational_power_def Let_def)

text \<open>The three ways in which a reallocation ends: with enough power for the running nodes, with too
  little, or asking for idle power to be released first.\<close>

lemma reallocation_enough:
  assumes "gs = greedy_list cs" "length gs \<le> 2 ^ 16" "unat (cs_num_greedy cs) = length gs"
    and "aggregated s cs" "opts_ready gs opts"
    and "unat (cs_total_powercap cs) + unat (cs_requested cs) < 2 ^ 32" "unat (gm_current_cluster_powercap s) < 2 ^ 31"
    and "cs_total_powercap cs + cs_requested cs \<le> gm_current_cluster_powercap s"
    and "powercap_reallocation s cs opts = (True, s', opts')"
  shows "fair_options gs opts' \<and> balance cs opts' + int (unat (gm_total_free s')) = int (unat (gm_current_cluster_powercap s))"
proof -
  define free where "free = gm_current_cluster_powercap s - (cs_total_powercap cs + cs_requested cs)"
  note u = unat_free [OF assms(6,8), folded free_def]
  note ready = prepare_options_ready [OF assms(3,5), of s]
  have req: "unat (gm_total_req_greedy s) = requests gs"
    using assms(4) aggregate_totals(1) [OF assms(1,2), of s] by (simp add: aggregated_def Let_def)
  have "list_all2 (\<lambda>g e. unat e \<le> unat (gb_requested g)) gs (po_extra_power opts') \<and>
      (\<Sum>e\<leftarrow>po_extra_power opts'. unat e) + unat (gm_total_free s') = unat free"
  proof (cases "gm_total_req_greedy s = 0")
    case True
    then show ?thesis
      using assms(9) granting_zeroes [OF ready] sum_unat_zeroes [OF ready(2)]
      by (auto simp: reallocation_unfold [OF refl refl assms(8) refl refl] free_def)
  next
    case greedy: False
    show ?thesis
    proof (cases "gm_total_req_greedy s \<le> free")
      case True
      then have "opts' = (prepare_options s cs opts)\<lparr>po_extra_power := map (\<lambda>g. ucast (gb_requested g)) gs\<rparr>"
        "gm_total_free s' = free - gm_total_req_greedy s"
        using assms(1,9) greedy by (auto simp: reallocation_unfold [OF refl refl assms(8) refl refl] free_def)
      moreover have "list_all2 (\<lambda>g e. unat e \<le> unat (gb_requested g)) gs (map (\<lambda>g. ucast (gb_requested g) :: i32) gs)"
        by (simp add: list_all2_map2 list_all2_same sint_requested)
      ultimately show ?thesis
        using True req by (simp add: comp_def sint_requested unat_dist word_le_nat_alt)
    next
      case False
      have "unat free < 2 ^ 31" using u(3) assms(7) by linarith
      note alloc = allocate_spec [OF assms(1,2) this,
          of "(prepare_options s cs opts)\<lparr>po_num_greedy := cs_num_greedy cs\<rparr>"
          "s\<lparr>gm_total_free := free, gm_must_send_pc_options := cs_requested cs \<noteq> 0 \<or> gm_must_send_pc_options s\<rparr>" s]
      show ?thesis
        using alloc ready assms(4,9) greedy False
        by (auto simp: reallocation_unfold [OF refl refl assms(8) refl refl] free_def [symmetric] aggregated_def Let_def
            split: if_splits)
    qed
  qed
  then have A: "list_all2 (\<lambda>g e. unat e \<le> unat (gb_requested g)) gs (po_extra_power opts')"
    and B: "(\<Sum>e\<leftarrow>po_extra_power opts'. unat e) + unat (gm_total_free s') = unat free" by auto
  have "balance cs opts' + int (unat (gm_total_free s')) =
      int (unat (cs_total_powercap cs) + unat (cs_requested cs) + unat free)"
    by (simp add: balance_def granted_view(1) [OF A] flip: B)
  then show ?thesis using granted_view(2) [OF A] u by (simp add: fair_options_def)
qed

lemma reallocation_short:
  assumes "gs = greedy_list cs" "length gs \<le> 2 ^ 16" "unat (cs_num_greedy cs) = length gs"
    and "aggregated s cs" "opts_ready gs opts"
    and "unat (cs_total_powercap cs) + unat (cs_requested cs) < 2 ^ 32"
    and "\<not> cs_total_powercap cs + cs_requested cs \<le> gm_current_cluster_powercap s"
    and "powercap_reallocation s cs opts = (True, s', opts')"
  shows "fair_options gs opts' \<and> gm_total_free s' = 0 \<and>
    balance cs opts' = max (int (unat (gm_current_cluster_powercap s)))
      (int (unat (cs_total_powercap cs)) + int (unat (cs_requested cs)) - int (extras gs))"
proof -
  define need where "need = cs_total_powercap cs + cs_requested cs"
  have n: "unat need = unat (cs_total_powercap cs) + unat (cs_requested cs)"
    using unat_plus [of "cs_total_powercap cs" "cs_requested cs"] assms(6) by (simp add: need_def)
  have lt: "unat (gm_current_cluster_powercap s) < unat need"
    using assms(7) by (simp add: need_def word_le_nat_alt)
  define s1 where "s1 = s\<lparr>gm_total_free := gm_current_cluster_powercap s - cs_total_powercap cs,
      gm_must_send_pc_options := cs_requested cs \<noteq> 0 \<or> gm_must_send_pc_options s\<rparr>"
  have opts': "opts' = reduce_allocation s1 cs (prepare_options s cs opts) (need - gm_current_cluster_powercap s)"
    and s': "gm_total_free s' = 0"
    using assms(8) by (auto simp: reallocation_unfold_short [OF refl refl assms(7) refl refl] need_def s1_def split: if_splits)
  have "gm_num_extra s1 = gm_num_extra (aggregate_data s cs)"
    using assms(4) by (simp add: s1_def aggregated_def Let_def)
  note red = reduce_allocation_spec [OF assms(1,2) prepare_options_ready [OF assms(3,5)] this,
      of s "need - gm_current_cluster_powercap s", folded opts']
  have m: "unat (need - gm_current_cluster_powercap s) = unat need - unat (gm_current_cluster_powercap s)"
    using lt by (simp add: unat_dist)
  have "balance cs opts' = int (unat need) - int (min (unat need - unat (gm_current_cluster_powercap s)) (extras gs))"
    using red(1) by (simp add: balance_def taken_view(1) [OF red(2)] n m)
  then show ?thesis
    using taken_view(2) [OF red(2)] s' lt n by (auto simp: fair_options_def)
qed

lemma reallocation_accepted:
  assumes "gs = greedy_list cs" "length gs \<le> 2 ^ 16" "unat (cs_num_greedy cs) = length gs"
    and "aggregated s cs" "opts_ready gs opts"
    and "unat (cs_total_powercap cs) + unat (cs_requested cs) < 2 ^ 32" "unat (gm_current_cluster_powercap s) < 2 ^ 31"
    and "powercap_reallocation s cs opts = (True, s', opts')"
  shows "fair_options gs opts' \<and> balance cs opts' + int (unat (gm_total_free s')) =
    max (int (unat (gm_current_cluster_powercap s)))
      (int (unat (cs_total_powercap cs)) + int (unat (cs_requested cs)) - int (extras gs))"
proof (cases "cs_total_powercap cs + cs_requested cs \<le> gm_current_cluster_powercap s")
  case True
  then show ?thesis using reallocation_enough [OF assms(1-7) True assms(8)] unat_free(2) [OF assms(6) True] by auto
next
  case False
  then show ?thesis using reallocation_short [OF assms(1-6) False assms(8)] by auto
qed

lemma reallocation_refused:
  assumes "unat (cs_num_greedy cs) = length gs" "opts_ready gs opts" "aggregated s cs"
    and "powercap_reallocation s cs opts = (False, s', opts')"
  shows "cs_released cs \<noteq> 0 \<and> opts_ready gs opts' \<and> aggregated s' cs \<and>
    gm_current_cluster_powercap s' = gm_current_cluster_powercap s \<and> gm_greedy_allocated s' = gm_greedy_allocated s"
proof -
  have o: "opts' = prepare_options s cs opts \<and> cs_released cs \<noteq> 0 \<and>
      (\<exists>free send. s' = s\<lparr>gm_total_free := free, gm_must_send_pc_options := send\<rparr>)"
    using assms(4)
    by (cases "cs_total_powercap cs + cs_requested cs \<le> gm_current_cluster_powercap s")
      (auto simp: reallocation_unfold [OF refl refl _ refl refl] reallocation_unfold_short [OF refl refl _ refl refl]
        split: if_splits prod.splits)
  moreover from this have "aggregated s' cs" using assms(3) by (auto intro: aggregated_cong)
  ultimately show ?thesis
    using prepare_options_ready [OF assms(1,2)] by (auto simp: opts_ready_def)
qed

lemma reallocation_without_release:
  "cs_released cs = 0 \<Longrightarrow> \<exists>s' opts'. powercap_reallocation s cs opts = (True, s', opts')"
  by (cases "cs_total_powercap cs + cs_requested cs \<le> gm_current_cluster_powercap s")
    (auto simp: reallocation_unfold [OF refl refl _ refl refl] reallocation_unfold_short [OF refl refl _ refl refl]
      Let_def split: prod.splits)

subsection \<open>Properties\<close>

lemma example_facts:
  "cs_greedy_data (status_example a b) = greedy_example" "take 2 greedy_example = greedy_example" "length greedy_example = 2" "extras greedy_example = 40"
  "unat (cs_num_greedy (status_example a b)) = 2" "cs_total_powercap (status_example a b) = a"
  "cs_requested (status_example a b) = b" "cs_released (status_example a b) = 0"
  "gm_current_cluster_powercap eargm_example = 1000"
  by (simp_all add: status_example_def greedy_example_def eargm_example_def)

text \<open>C14. Distributing the free power among the greedy nodes conserves it: what the nodes receive and
  what is left add up to what was free, and no node receives more than it asked for.  Both
  stages together never hand out power twice.\<close>

theorem allocate_conserves_power:
  assumes "gs = greedy_list cs" "length gs \<le> 2 ^ 16" "unat free < 2 ^ 31"
    and "po_extra_power opts = replicate (length gs) 0"
    and "allocate_free_power_to_greedy_nodes (aggregate_data s cs) cs opts free = (s', opts', free')"
  shows "(\<Sum>e\<leftarrow>po_extra_power opts'. unat e) + unat free' = unat free \<and>
    list_all2 (\<lambda>g e. unat e \<le> unat (gb_requested g)) gs (po_extra_power opts')"
  using allocate_spec [OF assms(1-3), of opts "aggregate_data s cs" s] assms(4,5) by (auto simp: set_replicate_conv_if)

theorem allocate_conserves_power_witness:
  "(case allocate_free_power_to_greedy_nodes (aggregate_data eargm_example (status_example 950 0)) (status_example 950 0)
      (empty_powercap_opt\<lparr>po_extra_power := replicate (length greedy_example) 0\<rparr>) 60 of
    (_, opts', free') \<Rightarrow> (\<Sum>e\<leftarrow>po_extra_power opts'. unat e) + unat free' = 60)"
  using allocate_conserves_power [of greedy_example "status_example 950 0" 60
      "empty_powercap_opt\<lparr>po_extra_power := replicate (length greedy_example) 0\<rparr>" eargm_example]
  by (auto simp: example_facts split: prod.splits)

text \<open>C15. Taking extra power back is exact: the reductions add up to the amount needed, or to all the
  extra power there is when that is less, and no node loses more than its extra power.\<close>

theorem reduce_allocation_exact:
  assumes "gs = greedy_list cs" "length gs \<le> 2 ^ 16" "po_extra_power opts = replicate (length gs) 0"
  shows "(\<Sum>e\<leftarrow>po_extra_power (reduce_allocation (aggregate_data s cs) cs opts min_reduction). taken e) =
           min (unat min_reduction) (extras gs) \<and>
    list_all2 (\<lambda>g e. taken e \<le> unat (gb_extra_power g)) gs
      (po_extra_power (reduce_allocation (aggregate_data s cs) cs opts min_reduction))"
  using reduce_allocation_spec [OF assms(1,2), of opts "aggregate_data s cs" s min_reduction] assms(3)
  by (simp add: set_replicate_conv_if)

theorem reduce_allocation_exact_witness:
  "(\<Sum>e\<leftarrow>po_extra_power (reduce_allocation (aggregate_data eargm_example (status_example 950 70)) (status_example 950 70)
      (empty_powercap_opt\<lparr>po_extra_power := replicate (length greedy_example) 0\<rparr>) 20). taken e) = 20"
  using reduce_allocation_exact [of greedy_example "status_example 950 70"
      "empty_powercap_opt\<lparr>po_extra_power := replicate (length greedy_example) 0\<rparr>" eargm_example 20]
  by (simp add: example_facts)

lemma check_actions_frame:
  assumes "check_powercap_actions s cs w = (s', out)"
  shows "gm_ext_powercap_data s' = gm_ext_powercap_data s"
    and "gm_must_send_pc_options s' = gm_must_send_pc_options s"
    and "Send_Powercap_Options opts \<notin> set out"
  using assms
  by (auto simp: check_powercap_actions_def execute_powercap_limit_action_def execute_powercap_lower_action_def
      action_output_def split: if_splits)

lemma write_shared_frame:
  "gm_must_send_pc_options (write_shared_data s a b c) = gm_must_send_pc_options s"
  "gm_total_req_greedy (write_shared_data s a b c) = gm_total_req_greedy s"
  by (simp_all add: write_shared_data_def Let_def split: prod.splits)

lemma hard_powercap_sends:
  assumes "cluster_hard_powercap s (Some cs) rel = (s', out)" "Send_Powercap_Options opts \<in> set out"
  defines "sa \<equiv> aggregate_data (s\<lparr>gm_must_send_pc_options := False\<rparr>) cs"
  shows "(\<exists>s1. powercap_reallocation sa cs empty_powercap_opt = (True, s1, opts)) \<or>
    (\<exists>s1 opts1 ok s2. powercap_reallocation sa cs empty_powercap_opt = (False, s1, opts1) \<and>
       powercap_reallocation s1 (cs\<lparr>cs_released := 0, cs_total_powercap := cs_total_powercap cs - rd_released rel\<rparr>) opts1 =
         (ok, s2, opts))"
  using assms
  by (auto simp: cluster_hard_powercap_def Let_def check_actions_frame split: prod.splits if_splits)

lemma empty_ready: "opts_ready gs empty_powercap_opt"
  by (simp add: opts_ready_def empty_powercap_opt_def)

lemma aggregate_current: "gm_current_cluster_powercap (aggregate_data s cs) = gm_current_cluster_powercap s"
  by (simp add: aggregate_data_def foldl_aggregate_frame)

text \<open>C3. A reallocation that is carried out respects the cluster limit: the power already allocated,
  the default power of newly running nodes and all changes to greedy nodes add up to the limit
  minus what stays free, or, when even taking all extra power leaves the running nodes above the
  limit, to the allocated and the new default power minus all extra power.  Every node keeps
  between its base allocation and its request.\<close>

theorem powercap_reallocation_balanced:
  assumes "gs = greedy_list cs" "length gs \<le> 2 ^ 16" "unat (cs_num_greedy cs) = length gs"
    and "unat (cs_total_powercap cs) + unat (cs_requested cs) < 2 ^ 32" "unat (gm_current_cluster_powercap s) < 2 ^ 31"
    and "powercap_reallocation (aggregate_data s cs) cs empty_powercap_opt = (True, s', opts')"
  shows "fair_options gs opts' \<and> balance cs opts' + int (unat (gm_total_free s')) =
    max (int (unat (gm_current_cluster_powercap s)))
      (int (unat (cs_total_powercap cs)) + int (unat (cs_requested cs)) - int (extras gs))"
  using reallocation_accepted [OF assms(1-3) aggregated_aggregate empty_ready assms(4) _ assms(6)] assms(5)
  by (simp add: aggregate_current)

theorem powercap_reallocation_balanced_witness:
  "(case powercap_reallocation (aggregate_data eargm_example (status_example 950 70)) (status_example 950 70) empty_powercap_opt of
     (_, s', opts') \<Rightarrow> balance (status_example 950 70) opts' + int (unat (gm_total_free s')) = 1000)"
proof -
  obtain s' opts' where r: "powercap_reallocation (aggregate_data eargm_example (status_example 950 70))
      (status_example 950 70) empty_powercap_opt = (True, s', opts')"
    using reallocation_without_release [of "status_example 950 70"] by (fastforce simp: example_facts)
  show ?thesis
    using powercap_reallocation_balanced [OF _ _ _ _ _ r, of greedy_example]
    by (simp add: r example_facts)
qed

text \<open>C4. Whatever options a period of the hard powercap sends to the nodes, after releasing idle
  power or not, they keep the cluster within its limit or reduce the running nodes to their
  base allocation.\<close>

theorem hard_powercap_respects_limit:
  assumes "gs = greedy_list cs" "length gs \<le> 2 ^ 16" "unat (cs_num_greedy cs) = length gs"
    and "unat (cs_total_powercap cs) + unat (cs_requested cs) < 2 ^ 32" "unat (gm_current_cluster_powercap s) < 2 ^ 31"
    and "rd_released rel \<le> cs_total_powercap cs"
    and "cluster_hard_powercap s (Some cs) rel = (s', out)" "Send_Powercap_Options opts \<in> set out"
  shows "\<exists>cs' \<in> {cs, cs\<lparr>cs_released := 0, cs_total_powercap := cs_total_powercap cs - rd_released rel\<rparr>}.
    fair_options gs opts \<and> balance cs' opts \<le> max (int (unat (gm_current_cluster_powercap s)))
      (int (unat (cs_total_powercap cs')) + int (unat (cs_requested cs')) - int (extras gs))"
proof -
  define sa where "sa = aggregate_data (s\<lparr>gm_must_send_pc_options := False\<rparr>) cs"
  define cs' where "cs' = cs\<lparr>cs_released := 0, cs_total_powercap := cs_total_powercap cs - rd_released rel\<rparr>"
  have cur: "gm_current_cluster_powercap sa = gm_current_cluster_powercap s"
    by (simp add: sa_def aggregate_current)
  have agg: "aggregated sa cs" unfolding sa_def by (rule aggregated_aggregate)
  from hard_powercap_sends [OF assms(7,8), folded sa_def cs'_def] show ?thesis
  proof (elim disjE exE conjE)
    fix s1 assume "powercap_reallocation sa cs empty_powercap_opt = (True, s1, opts)"
    from reallocation_accepted [OF assms(1-3) agg empty_ready assms(4) _ this] assms(5) cur
    show ?thesis by auto
  next
    fix s1 opts1 ok s2
    assume r1: "powercap_reallocation sa cs empty_powercap_opt = (False, s1, opts1)"
      and r2: "powercap_reallocation s1 cs' opts1 = (ok, s2, opts)"
    have "cs_released cs' = 0" by (simp add: cs'_def)
    with r2 have r2: "powercap_reallocation s1 cs' opts1 = (True, s2, opts)"
      using reallocation_without_release [of cs' s1 opts1] by auto
    note st = reallocation_refused [OF assms(3) empty_ready agg r1]
    have "aggregated s1 cs'" using st by (auto simp: cs'_def intro: aggregated_cong)
    moreover have "unat (cs_total_powercap cs') \<le> unat (cs_total_powercap cs)"
      using assms(6) by (simp add: cs'_def unat_dist word_le_nat_alt)
    ultimately have "fair_options gs opts \<and> balance cs' opts + int (unat (gm_total_free s2)) =
        max (int (unat (gm_current_cluster_powercap s1)))
          (int (unat (cs_total_powercap cs')) + int (unat (cs_requested cs')) - int (extras gs))"
      using assms(1-5) st cur r2 by (intro reallocation_accepted) (auto simp: cs'_def)
    then show ?thesis using st cur unfolding cs'_def by auto
  qed
qed

lemma hard_powercap_sends_options:
  assumes "powercap_reallocation (aggregate_data (s\<lparr>gm_must_send_pc_options := False\<rparr>) cs) cs empty_powercap_opt = (True, s1, opts)"
    and "gm_must_send_pc_options s1"
  shows "Send_Powercap_Options opts \<in> set (snd (cluster_hard_powercap s (Some cs) rel))"
  using assms(2)
  by (auto simp: cluster_hard_powercap_def Let_def assms(1) check_powercap_actions_def write_shared_data_def
    execute_powercap_limit_action_def execute_powercap_lower_action_def split: prod.splits if_splits)

theorem hard_powercap_respects_limit_witness:
  "\<exists>opts. Send_Powercap_Options opts \<in> set (snd (cluster_hard_powercap eargm_example (Some (status_example 950 0))
      \<lparr>rd_released = 0\<rparr>)) \<and> fair_options greedy_example opts"
proof -
  let ?cs = "status_example 950 0" and ?rel = "\<lparr>rd_released = 0\<rparr>"
  obtain ok s1 opts where r: "powercap_reallocation (aggregate_data (eargm_example\<lparr>gm_must_send_pc_options := False\<rparr>) ?cs) ?cs
      empty_powercap_opt = (ok, s1, opts)"
    by (rule prod_cases3)
  have "fst (powercap_reallocation (aggregate_data (eargm_example\<lparr>gm_must_send_pc_options := False\<rparr>) ?cs) ?cs empty_powercap_opt)"
    "gm_must_send_pc_options (fst (snd (powercap_reallocation
      (aggregate_data (eargm_example\<lparr>gm_must_send_pc_options := False\<rparr>) ?cs) ?cs empty_powercap_opt)))"
    by code_simp+
  then have "Send_Powercap_Options opts \<in> set (snd (cluster_hard_powercap eargm_example (Some ?cs) ?rel))"
    using r by (intro hard_powercap_sends_options [where ?s1.0 = s1]) simp_all
  moreover from this have "fair_options greedy_example opts"
    using hard_powercap_respects_limit [of greedy_example ?cs eargm_example ?rel
      "fst (cluster_hard_powercap eargm_example (Some ?cs) ?rel)" "snd (cluster_hard_powercap eargm_example (Some ?cs) ?rel)" opts]
    by (simp add: example_facts)
  ultimately show ?thesis by blast
qed

lemma hard_powercap_shared:
  assumes "powercap_reallocation (aggregate_data (s\<lparr>gm_must_send_pc_options := False\<rparr>) cs) cs empty_powercap_opt = (True, s1, opts)"
    and "cluster_hard_powercap s (Some cs) rel = (s', out)"
  shows "\<exists>freeable. gm_ext_powercap_data s' =
    gm_ext_powercap_data (write_shared_data s1 (ucast (cs_current_power cs)) freeable
      (ucast (if gm_total_req_greedy s1 > gm_greedy_allocated s1 then gm_total_req_greedy s1 - gm_greedy_allocated s1 else 0)))"
  using assms(2) by (auto simp: cluster_hard_powercap_def Let_def assms(1) dest!: check_actions_frame(1) split: prod.splits)

text \<open>The first reallocation of a period in which all greedy requests fit.\<close>

lemma reallocation_grants_all:
  assumes "gs = greedy_list cs" "length gs \<le> 2 ^ 16" "0 < requests gs"
    and "unat (cs_total_powercap cs) + unat (cs_requested cs) + requests gs \<le> unat (gm_current_cluster_powercap s)"
  obtains s1 where "powercap_reallocation (aggregate_data s cs) cs empty_powercap_opt =
      (True, s1, (prepare_options (aggregate_data s cs) cs empty_powercap_opt)\<lparr>po_extra_power := map (\<lambda>g. ucast (gb_requested g)) gs\<rparr>)"
    and "unat (gm_total_req_greedy s1) = requests gs" "gm_greedy_allocated s1 = gm_greedy_allocated s"
      "gm_current_cluster_powercap s1 = gm_current_cluster_powercap s"
      "gm_default_cluster_powercap s1 = gm_default_cluster_powercap s" "gm_must_send_pc_options s1"
proof -
  let ?sa = "aggregate_data s cs"
  have sa: "unat (gm_total_req_greedy ?sa) = requests gs" "gm_greedy_allocated ?sa = gm_greedy_allocated s"
    "gm_current_cluster_powercap ?sa = gm_current_cluster_powercap s"
    "gm_default_cluster_powercap ?sa = gm_default_cluster_powercap s"
    using aggregate_totals(1) [OF assms(1,2)]
    by (simp_all add: aggregate_current aggregate_data_def foldl_aggregate_frame)
  have nz: "gm_total_req_greedy ?sa \<noteq> 0" using sa(1) assms(3) by (metis less_irrefl unat_0)
  have tot: "unat (cs_total_powercap cs) + unat (cs_requested cs) < 2 ^ 32"
    using assms(4) unsigned_less [of "gm_current_cluster_powercap s", where 'a = nat] by simp
  have plus: "unat (cs_total_powercap cs + cs_requested cs) = unat (cs_total_powercap cs) + unat (cs_requested cs)"
    using unat_plus [of "cs_total_powercap cs" "cs_requested cs"] tot by simp
  have le: "cs_total_powercap cs + cs_requested cs \<le> gm_current_cluster_powercap ?sa"
    using plus assms(4) sa(3) by (simp add: word_le_nat_alt)
  have fits: "gm_total_req_greedy ?sa \<le> gm_current_cluster_powercap ?sa - (cs_total_powercap cs + cs_requested cs)"
    using unat_free(3) [OF tot le] assms(4) sa by (simp add: word_le_nat_alt)
  show thesis
    by (rule that, subst reallocation_unfold [OF refl refl le refl refl], simp add: nz fits assms(1)) (simp_all add: sa)
qed

text \<open>C23. When all greedy requests fit, the period sends options that grant every greedy node exactly
  what it requested, but \<open>greedy_allocated\<close> keeps its old value, so the manager still reports the
  whole of the requests as unsatisfied to the meta manager and asks it for power that its nodes no
  longer need.\<close>

theorem granted_requests_still_reported:
  assumes "gs = greedy_list cs" "length gs \<le> 2 ^ 16" "0 < requests gs"
    and "unat (cs_total_powercap cs) + unat (cs_requested cs) + requests gs \<le> unat (gm_current_cluster_powercap s)"
    and "gm_greedy_allocated s = 0"
    and "sint (gm_default_cluster_powercap s) \<le> int (unat (gm_current_cluster_powercap s))"
    and "cluster_hard_powercap s (Some cs) rel = (s', out)"
  shows "(\<exists>opts. Send_Powercap_Options opts \<in> set out \<and>
      po_greedy_nodes opts = take (unat (cs_num_greedy cs)) (cs_greedy_nodes cs) \<and>
      map unat (po_extra_power opts) = map (\<lambda>g. unat (gb_requested g)) gs) \<and>
    unat (sh_requested (gm_ext_powercap_data s')) = requests gs \<and>
    sh_status (gm_ext_powercap_data s') = ucast PC_STATUS_GREEDY"
proof -
  define sa where "sa = aggregate_data (s\<lparr>gm_must_send_pc_options := False\<rparr>) cs"
  define opts where "opts = (prepare_options sa cs empty_powercap_opt)\<lparr>po_extra_power := map (\<lambda>g. ucast (gb_requested g)) gs\<rparr>"
  obtain s1 where r: "powercap_reallocation sa cs empty_powercap_opt = (True, s1, opts)"
    and s1: "unat (gm_total_req_greedy s1) = requests gs" "gm_greedy_allocated s1 = 0"
      "gm_current_cluster_powercap s1 = gm_current_cluster_powercap s"
      "gm_default_cluster_powercap s1 = gm_default_cluster_powercap s" "gm_must_send_pc_options s1"
    using reallocation_grants_all [OF assms(1-3), of "s\<lparr>gm_must_send_pc_options := False\<rparr>"] assms(4,5)
    by (auto simp: sa_def opts_def)
  have "Send_Powercap_Options opts \<in> set out"
    using hard_powercap_sends_options [OF r [unfolded sa_def] s1(5)] assms(7) by (metis snd_conv)
  moreover have "po_greedy_nodes opts = take (unat (cs_num_greedy cs)) (cs_greedy_nodes cs)"
    "map unat (po_extra_power opts) = map (\<lambda>g. unat (gb_requested g)) gs"
    by (simp_all add: opts_def prepare_options_def Let_def unat_ucast_up)
  moreover have u: "unat (ucast (gm_total_req_greedy s1) :: u64) = requests gs"
    using s1(1) unat_ucast_up [of "gm_total_req_greedy s1", where 'b = 64] by simp
  then have nz: "gm_total_req_greedy s1 \<noteq> 0" "(ucast (gm_total_req_greedy s1) :: u64) \<noteq> 0"
    using s1(1) assms(3) by (metis less_irrefl unat_0)+
  then obtain freeable where "gm_ext_powercap_data s' =
      gm_ext_powercap_data (write_shared_data s1 (ucast (cs_current_power cs)) freeable (ucast (gm_total_req_greedy s1)))"
    using hard_powercap_shared [OF r [unfolded sa_def] assms(7)] s1(2) by (auto simp: word_gt_0)
  then have "unat (sh_requested (gm_ext_powercap_data s')) = requests gs \<and> sh_status (gm_ext_powercap_data s') = ucast PC_STATUS_GREEDY"
    using assms(6) s1(2-4) u nz by (simp add: write_shared_data_def word_gt_0)
  ultimately show ?thesis by blast
qed

theorem granted_requests_still_reported_witness:
  "(\<exists>opts. Send_Powercap_Options opts \<in> set (snd
     (cluster_hard_powercap eargm_example (Some (status_example 900 0)) \<lparr>rd_released = 0\<rparr>)) \<and>
     map unat (po_extra_power opts) = map (\<lambda>g. unat (gb_requested g)) greedy_example) \<and>
   unat (sh_requested (gm_ext_powercap_data (fst
     (cluster_hard_powercap eargm_example (Some (status_example 900 0)) \<lparr>rd_released = 0\<rparr>)))) = 80"
  using granted_requests_still_reported [of greedy_example "status_example 900 0" eargm_example "\<lparr>rd_released = 0\<rparr>"
      "fst (cluster_hard_powercap eargm_example (Some (status_example 900 0)) \<lparr>rd_released = 0\<rparr>)"
      "snd (cluster_hard_powercap eargm_example (Some (status_example 900 0)) \<lparr>rd_released = 0\<rparr>)"]
  by (simp add: example_facts) (auto simp: greedy_example_def eargm_example_def)

end
