(* ===== verification/Cluster_Limits.thy ===== *)
theory Cluster_Limits
  imports Cluster_Allocation
begin

text \<open>
  The cluster limit, the data published for a meta manager and the actions of
  \<^verbatim>\<open>global_manager/cluster_powercap.c\<close>: a step relation over the commands and the periods with its
  invariant, the contract of the published data, exactness of the thresholds in floating point
  and the alternation of the limit and lower actions.
\<close>

subsection \<open>Definitions\<close>

text \<open>The commands of the external interface and the periods of the powercap thread, interleaved.\<close>

inductive gm_step :: "eargm \<Rightarrow> eargm \<Rightarrow> bool" where
  reset: "gm_step s (cluster_powercap_reset_pc s)"
| set_pc: "gm_step s (cluster_powercap_set_pc s limit)"
| red_pc: "gm_step s (cluster_powercap_red_pc s red)"
| inc_pc: "gm_step s (cluster_powercap_inc_pc s inc)"
| period: "gm_step s (fst (eargm_powercap_th s status rel cpower))"

inductive_cases gm_stepE: "gm_step s s'"

text \<open>The default limit is a 32-bit number of watts and the extra power is what exceeds it.\<close>

definition extra_inv :: "eargm \<Rightarrow> bool" where
  "extra_inv s \<longleftrightarrow> unat (gm_default_cluster_powercap s) < 2 ^ 32 \<and>
     unat (gm_current_extra_power s) =
       unat (gm_current_cluster_powercap s) - unat (gm_default_cluster_powercap s)"

text \<open>The same interleavings as sequences of events, with what the manager sends and executes.\<close>

datatype gm_event = Reset_Pc | Set_Pc u32 | Red_Pc u32 | Inc_Pc u32 | Period "powercap_status option" pc_release_data u64

fun gm_exec :: "eargm \<Rightarrow> gm_event \<Rightarrow> eargm \<times> gm_output list" where
  "gm_exec s Reset_Pc = (cluster_powercap_reset_pc s, [])"
| "gm_exec s (Set_Pc limit) = (cluster_powercap_set_pc s limit, [])"
| "gm_exec s (Red_Pc red) = (cluster_powercap_red_pc s red, [])"
| "gm_exec s (Inc_Pc inc) = (cluster_powercap_inc_pc s inc, [])"
| "gm_exec s (Period status rel cpower) = eargm_powercap_th s status rel cpower"

fun gm_outputs :: "eargm \<Rightarrow> gm_event list \<Rightarrow> gm_output list" where
  "gm_outputs s [] = []"
| "gm_outputs s (e # es) = (case gm_exec s e of (s', out) \<Rightarrow> out @ gm_outputs s' es)"

text \<open>The commands among the outputs that are executed.\<close>

fun commands_of :: "gm_output list \<Rightarrow> string list" where
  "commands_of [] = []"
| "commands_of (Execute_Action cmd _ _ _ _ # rest) = cmd # commands_of rest"
| "commands_of (_ # rest) = commands_of rest"

fun alternating :: "'a \<Rightarrow> 'a \<Rightarrow> 'a list \<Rightarrow> bool" where
  "alternating a b [] = True"
| "alternating a b (x # xs) = (x = a \<and> alternating b a xs)"

subsection \<open>The limit\<close>

lemma sint_default:
  assumes "unat (d :: u64) < 2 ^ 32"
  shows "sint d = int (unat d)"
proof -
  have "int (unat d) < 2 ^ 32" using assms by simp
  then have "uint d < 2 ^ 32" by (simp only: of_nat_unat)
  then have "signed_take_bit 63 (uint d) = uint d"
    by (intro signed_take_bit_int_eq_self order_trans [OF _ uint_ge_0]) simp_all
  then show ?thesis by (simp add: sint_uint of_nat_unat)
qed

abbreviation limits :: "eargm \<Rightarrow> u32 \<times> u64 \<times> u64" where
  "limits s \<equiv> (gm_current_cluster_powercap s, gm_default_cluster_powercap s, gm_current_extra_power s)"

lemma extra_inv_limits: "limits s' = limits s \<Longrightarrow> extra_inv s' = extra_inv s"
  by (simp add: extra_inv_def)

lemma extra_inv_default: "extra_inv s \<Longrightarrow> unat (gm_default_cluster_powercap s) < 2 ^ 32"
  by (simp add: extra_inv_def)

lemma update_extra_inv:
  assumes "unat (gm_default_cluster_powercap s) < 2 ^ 32"
  shows "extra_inv (update_extra_power s)"
  using assms unat_ucast_up [of "gm_current_cluster_powercap s", where 'b = 64]
  by (auto simp: extra_inv_def update_extra_power_def sint_default unat_dist)

lemma aggregate_limits: "limits (aggregate_data s cs) = limits s"
  by (simp add: aggregate_data_def foldl_aggregate_frame)

lemma allocate_limits:
  "allocate_free_power_to_greedy_nodes s cs opts free = (s', opts', free') \<Longrightarrow> limits s' = limits s"
  by (auto simp: allocate_free_power_to_greedy_nodes_def split: prod.splits if_splits)

lemma reallocation_limits:
  assumes "powercap_reallocation s cs opts = (ok, s', opts')"
  shows "limits s' = limits s"
  using assms
  by (cases "cs_total_powercap cs + cs_requested cs \<le> gm_current_cluster_powercap s")
    (auto simp: reallocation_unfold [OF refl refl _ refl refl] reallocation_unfold_short [OF refl refl _ refl refl]
      Let_def dest!: allocate_limits split: if_splits prod.splits)

lemma write_shared_limits: "limits (write_shared_data s a b c) = limits s"
  by (simp add: write_shared_data_def split: prod.splits)

lemma check_actions_limits:
  "check_powercap_actions s cs w = (s', out) \<Longrightarrow> limits s' = limits s"
  by (auto simp: check_powercap_actions_def execute_powercap_limit_action_def execute_powercap_lower_action_def
      split: if_splits)

lemma reallocation_fst: "limits (fst (snd (powercap_reallocation s cs opts))) = limits s"
  by (metis prod.collapse reallocation_limits)

lemma check_actions_fst: "limits (fst (check_powercap_actions s cs w)) = limits s"
  by (metis prod.collapse check_actions_limits)

lemmas limits_fst = reallocation_fst [simplified] check_actions_fst [simplified] write_shared_limits [simplified]
  aggregate_limits [simplified]

lemma hard_limits: "limits (fst (cluster_hard_powercap s status rel)) = limits s"
proof (cases status)
  case (Some cs)
  show ?thesis
    unfolding Some cluster_hard_powercap_def option.case Let_def case_prod_unfold fst_conv
    by (simp only: if_distrib [of fst] if_distrib [of snd] fst_conv snd_conv limits_fst prod.inject) (simp add: limits_fst)
qed (simp add: cluster_hard_powercap_def limits_fst)

lemma soft_limits: "limits (fst (cluster_soft_powercap s cpower)) = limits s"
  unfolding cluster_soft_powercap_def Let_def case_prod_unfold
  by (simp add: limits_fst if_distrib [of fst] if_distrib [of snd])

lemma monitor_limits: "limits (fst (cluster_power_monitor s status)) = limits s"
  by (cases status)
    (auto simp: cluster_power_monitor_def execute_powercap_limit_action_def execute_powercap_lower_action_def Let_def
      write_shared_limits [simplified] split: prod.splits if_splits)

lemma period_limits: "limits (fst (eargm_powercap_th s status rel cpower)) = limits s"
  by (auto simp: eargm_powercap_th_def Let_def hard_limits [simplified] soft_limits [simplified] monitor_limits [simplified])

lemma gm_step_inv: "gm_step s s' \<Longrightarrow> extra_inv s \<Longrightarrow> extra_inv s'"
proof (induction rule: gm_step.induct)
  case (reset s)
  have "unat (ucast (gm_default_cluster_powercap s) :: u32) = unat (gm_default_cluster_powercap s)"
    using reset by (simp add: extra_inv_def unsigned_ucast_eq take_bit_nat_eq_self)
  then show ?case using reset by (simp add: extra_inv_def cluster_powercap_reset_pc_def)
next
  case (period s status rel cpower)
  then show ?case by (simp add: extra_inv_limits [OF period_limits])
qed (auto simp: cluster_powercap_set_pc_def cluster_powercap_red_pc_def cluster_powercap_inc_pc_def
    dest: extra_inv_default intro!: update_extra_inv)

subsection \<open>Thresholds and actions\<close>

lemma threshold_exact:
  assumes "unat (gm_current_cluster_powercap s) * unat perc < 2 ^ 24"
  shows "powercap_threshold s perc = to_double (of_nat (unat (gm_current_cluster_powercap s) * unat perc) / 100)"
proof -
  let ?p = "ucast (gm_current_cluster_powercap s) * perc"
  have u: "unat ?p = unat (gm_current_cluster_powercap s) * unat perc"
    using assms unat_ucast_up [of "gm_current_cluster_powercap s", where 'b = 64]
    by (subst unat_times) simp_all
  show ?thesis using assms by (simp add: powercap_threshold_def rat_of_word_def u fl_of_nat del: of_nat_mult)
qed

lemma unat_lt_pow32: "unat (w :: u32) < 2 ^ 32"
  using unsigned_less [of w, where 'a = nat] by simp

abbreviation act_state :: "eargm \<Rightarrow> string \<times> string \<times> u32" where
  "act_state s \<equiv> (gm_powercap_limit_action s, gm_powercap_lower_action s, gm_actions_executed s)"

text \<open>One event executes nothing, or the action whose turn it is.\<close>

definition action_turn :: "eargm \<Rightarrow> eargm \<times> gm_output list \<Rightarrow> bool" where
  "action_turn s r \<longleftrightarrow> (case r of (s', out) \<Rightarrow>
     gm_powercap_limit_action s' = gm_powercap_limit_action s \<and> gm_powercap_lower_action s' = gm_powercap_lower_action s \<and>
     (commands_of out = [] \<and> gm_actions_executed s' = gm_actions_executed s \<or>
      gm_actions_executed s = 0 \<and> gm_actions_executed s' = 1 \<and> commands_of out = [gm_powercap_limit_action s] \<or>
      gm_actions_executed s \<noteq> 0 \<and> gm_actions_executed s' = 0 \<and> commands_of out = [gm_powercap_lower_action s]))"

lemma action_turn_cong: "act_state s = act_state s0 \<Longrightarrow> action_turn s r = action_turn s0 r"
  by (simp add: action_turn_def)

lemma commands_of_append [simp]: "commands_of (xs @ ys) = commands_of xs @ commands_of ys"
  by (induction xs rule: commands_of.induct) simp_all

lemma check_actions_turn: "action_turn s (check_powercap_actions s cs w)"
  by (simp add: action_turn_def check_powercap_actions_def execute_powercap_limit_action_def
      execute_powercap_lower_action_def action_output_def)

lemma write_shared_acts: "act_state (write_shared_data s a b c) = act_state s"
  by (simp add: write_shared_data_def split: prod.splits)

lemma aggregate_acts: "act_state (aggregate_data s cs) = act_state s"
proof -
  have "act_state (foldl aggregate_elem s gs) = act_state s" for s gs
    by (induction gs arbitrary: s) (simp_all add: aggregate_elem_def Let_def)
  then show ?thesis by (simp add: aggregate_data_def)
qed

lemma allocate_acts:
  "allocate_free_power_to_greedy_nodes s cs opts free = (s', opts', free') \<Longrightarrow> act_state s' = act_state s"
  by (auto simp: allocate_free_power_to_greedy_nodes_def split: prod.splits if_splits)

lemma reallocation_acts: "act_state (fst (snd (powercap_reallocation s cs opts))) = act_state s"
  by (cases "cs_total_powercap cs + cs_requested cs \<le> gm_current_cluster_powercap s")
    (auto simp: reallocation_unfold [OF refl refl _ refl refl] reallocation_unfold_short [OF refl refl _ refl refl]
      Let_def dest!: allocate_acts split: if_splits prod.splits)

lemma monitor_turn: "action_turn s (cluster_power_monitor s status)"
  by (cases status)
    (simp_all add: action_turn_def cluster_power_monitor_def execute_powercap_limit_action_def
      execute_powercap_lower_action_def action_output_def Let_def write_shared_acts [simplified])

lemma check_turn_cong: "act_state s1 = act_state s \<Longrightarrow> action_turn s (check_powercap_actions s1 cs w)"
  using check_actions_turn action_turn_cong by blast

lemma turn_outputs:
  "action_turn s r \<Longrightarrow> (\<And>s1 acts. commands_of (f s1 acts) = commands_of acts) \<Longrightarrow>
    action_turn s (case r of (s1, acts) \<Rightarrow> (s1, f s1 acts))"
  by (simp add: action_turn_def split: prod.splits)

lemma soft_turn: "action_turn s (cluster_soft_powercap s cpower)"
proof (cases "gm_current_cluster_powercap s = POWER_CAP_UNLIMITED")
  case True
  then show ?thesis
    by (simp add: cluster_soft_powercap_def Let_def action_turn_def write_shared_acts [simplified] split: prod.splits)
next
  case False
  then show ?thesis
    by (auto simp only: cluster_soft_powercap_def Let_def prod.case if_False read_non_computational_power_def split: if_split
      intro!: turn_outputs check_turn_cong) (simp_all add: write_shared_acts [simplified])
qed

lemma hard_turn: "action_turn s (cluster_hard_powercap s status rel)"
proof (cases status)
  case (Some cs)
  obtain ok s1 opts1 where one: "powercap_reallocation (aggregate_data (s\<lparr>gm_must_send_pc_options := False\<rparr>) cs) cs
      empty_powercap_opt = (ok, s1, opts1)" by (rule prod_cases3)
  obtain ok2 s2 opts2 where two: "powercap_reallocation s1 (cs\<lparr>cs_released := 0,
      cs_total_powercap := cs_total_powercap cs - rd_released rel\<rparr>) opts1 = (ok2, s2, opts2)" by (rule prod_cases3)
  have acts: "act_state s1 = act_state s" "act_state s2 = act_state s"
    using reallocation_acts [of "aggregate_data (s\<lparr>gm_must_send_pc_options := False\<rparr>) cs" cs empty_powercap_opt]
      reallocation_acts [of s1 "cs\<lparr>cs_released := 0, cs_total_powercap := cs_total_powercap cs - rd_released rel\<rparr>" opts1]
    by (simp_all add: one two aggregate_acts [simplified])
  show ?thesis
    by (cases ok) (simp only: Some cluster_hard_powercap_def option.case Let_def one two prod.case if_True if_False simp_thms,
      rule turn_outputs, rule check_turn_cong, simp_all add: acts [simplified] write_shared_acts [simplified])+
qed (simp add: action_turn_def cluster_hard_powercap_def write_shared_acts [simplified])

lemma period_turn: "action_turn s (eargm_powercap_th s status rel cpower)"
proof -
  define s0 where "s0 = (if gm_process_created s \<noteq> 0 then s\<lparr>gm_process_created := 0\<rparr> else s)"
  have "act_state s0 = act_state s" by (simp add: s0_def)
  then have "action_turn s r = action_turn s0 r" for r by (intro action_turn_cong) simp
  moreover have "action_turn s0 (s0, [])" by (simp add: action_turn_def)
  ultimately show ?thesis
    by (simp add: eargm_powercap_th_def s0_def [symmetric] Let_def soft_turn hard_turn monitor_turn)
qed

lemma gm_exec_turn: "action_turn s (gm_exec s e)"
  by (cases e) (simp_all only: gm_exec.simps period_turn,
    simp_all add: action_turn_def cluster_powercap_reset_pc_def cluster_powercap_set_pc_def cluster_powercap_red_pc_def
      cluster_powercap_inc_pc_def update_extra_power_def)

lemma actions_alternate:
  "if gm_actions_executed s = 0
   then alternating (gm_powercap_limit_action s) (gm_powercap_lower_action s) (commands_of (gm_outputs s es))
   else alternating (gm_powercap_lower_action s) (gm_powercap_limit_action s) (commands_of (gm_outputs s es))"
proof (induction es arbitrary: s)
  case (Cons e es)
  obtain s' out where r: "gm_exec s e = (s', out)" by force
  have "action_turn s (s', out)" using gm_exec_turn [of s e] r by simp
  then show ?case using Cons.IH [of s'] r by (auto simp: action_turn_def split: if_splits)
qed simp

subsection \<open>Start\<close>

lemma automatic_marker: "(ucast (- 1 :: u64) :: u32) = - 1" "unat (- 1 :: u32) = 2 ^ 32 - 1"
  by (rule bit_word_eqI, simp add: bit_simps) (simp add: unsigned_minus_1_eq_mask mask_eq_exp_minus_1)

lemma init_limits:
  assumes "cluster_powercap_init s cc = Some s0" "gm_current_extra_power s = 0"
  shows "gm_default_cluster_powercap s0 = gm_default_cluster_powercap s"
    and "gm_default_cluster_powercap s = - 1 \<Longrightarrow> gm_current_cluster_powercap s0 = gm_min_cluster_powercap s0"
    and "unat (gm_default_cluster_powercap s) < 2 ^ 32 - 1 \<Longrightarrow> extra_inv s0"
proof -
  obtain min_power where m: "cluster_get_min_power cc POWER_TYPE = Some min_power"
    using assms(1) by (auto simp: cluster_powercap_init_def split: option.splits)
  show "gm_default_cluster_powercap s0 = gm_default_cluster_powercap s"
    and "gm_default_cluster_powercap s = - 1 \<Longrightarrow> gm_current_cluster_powercap s0 = gm_min_cluster_powercap s0"
    using assms(1) by (auto simp: cluster_powercap_init_def m Let_def automatic_marker(1) split: if_splits)
  assume d: "unat (gm_default_cluster_powercap s) < 2 ^ 32 - 1"
  then have u: "unat (ucast (gm_default_cluster_powercap s) :: u32) = unat (gm_default_cluster_powercap s)"
    by (simp add: unsigned_ucast_eq take_bit_nat_eq_self)
  then have "(ucast (gm_default_cluster_powercap s) :: u32) \<noteq> - 1"
    using d automatic_marker(2) by auto
  then show "extra_inv s0"
    using assms d u by (auto simp: cluster_powercap_init_def m Let_def extra_inv_def split: if_splits)
qed

lemma gm_steps_inv: "gm_step\<^sup>*\<^sup>* s s' \<Longrightarrow> extra_inv s \<Longrightarrow> extra_inv s'"
  by (induction rule: rtranclp_induct) (auto intro: gm_step_inv)

lemma gm_step_default: "gm_step s s' \<Longrightarrow> gm_default_cluster_powercap s' = gm_default_cluster_powercap s"
  by (induction rule: gm_step.induct)
    (simp_all add: cluster_powercap_reset_pc_def cluster_powercap_set_pc_def cluster_powercap_red_pc_def
      cluster_powercap_inc_pc_def update_extra_power_def period_limits [simplified])

lemma gm_steps_default: "gm_step\<^sup>*\<^sup>* s s' \<Longrightarrow> gm_default_cluster_powercap s' = gm_default_cluster_powercap s"
  by (induction rule: rtranclp_induct) (auto dest: gm_step_default)

lemma init_example: "\<exists>s0. cluster_powercap_init (eargm_example\<lparr>gm_default_cluster_powercap := d\<rparr>) conf_example = Some s0"
proof -
  have "cluster_get_min_power conf_example POWER_TYPE \<noteq> None" by code_simp
  then show ?thesis by (auto simp: cluster_powercap_init_def Let_def)
qed

subsection \<open>Properties\<close>

text \<open>C19. From the start of a global manager with a configured limit, the extra power is at every
  moment what the current limit exceeds the default by, whatever commands and periods happened
  before, and the default is the configured one.\<close>

theorem extra_power_reachable:
  assumes "cluster_powercap_init s cc = Some s0" "gm_current_extra_power s = 0"
    and "unat (gm_default_cluster_powercap s) < 2 ^ 32 - 1" and "gm_step\<^sup>*\<^sup>* s0 s'"
  shows "gm_default_cluster_powercap s' = gm_default_cluster_powercap s \<and>
    unat (gm_current_extra_power s') = unat (gm_current_cluster_powercap s') - unat (gm_default_cluster_powercap s')"
  using gm_steps_inv [OF assms(4) init_limits(3) [OF assms(1-3)]] gm_steps_default [OF assms(4)] init_limits(1) [OF assms(1,2)]
  by (simp add: extra_inv_def)

theorem extra_power_reachable_witness:
  "\<exists>s0. cluster_powercap_init eargm_example conf_example = Some s0 \<and>
     unat (gm_current_extra_power (cluster_powercap_inc_pc s0 200)) =
       unat (gm_current_cluster_powercap (cluster_powercap_inc_pc s0 200)) - 1000"
proof -
  have "gm_default_cluster_powercap eargm_example = 1000" "gm_current_extra_power eargm_example = 0"
    by (simp_all add: eargm_example_def)
  moreover from this obtain s0 where "cluster_powercap_init eargm_example conf_example = Some s0"
    using init_example [of 1000] by (auto simp: eargm_example_def)
  ultimately show ?thesis
    using extra_power_reachable [of eargm_example conf_example s0, OF _ _ _ r_into_rtranclp [of gm_step], OF _ _ _ inc_pc, of 200]
    by simp
qed

text \<open>A manager whose limit is computed from its nodes keeps the marker -1 as its default.  It
  starts with the limit of its nodes, but after any commands and periods a reset sets the limit
  to 4294967295 watts, and setting a limit gives an extra power of one watt more than the
  whole limit.\<close>

theorem automatic_limit_lost:
  assumes "cluster_powercap_init s cc = Some s0" "gm_current_extra_power s = 0"
    and "gm_default_cluster_powercap s = - 1" and "gm_step\<^sup>*\<^sup>* s0 s'"
  shows "gm_current_cluster_powercap s0 = gm_min_cluster_powercap s0 \<and>
    unat (gm_current_cluster_powercap (cluster_powercap_reset_pc s')) = 2 ^ 32 - 1 \<and>
    unat (gm_current_extra_power (cluster_powercap_set_pc s' limit)) = unat limit + 1"
proof -
  have d: "gm_default_cluster_powercap s' = - 1"
    using gm_steps_default [OF assms(4)] init_limits(1) [OF assms(1,2)] assms(3) by simp
  have "unat (ucast limit + 1 :: u64) = unat limit + 1"
    using unat_ucast_up [of limit, where 'b = 64] unat_lt_pow32 [of limit] by (subst unat_plus) simp_all
  then show ?thesis
    using init_limits(2) [OF assms(1-3)]
    by (simp add: cluster_powercap_reset_pc_def cluster_powercap_set_pc_def update_extra_power_def d automatic_marker)
qed

text \<open>For a cluster whose limit times the percentage is below \<open>2 ^ 24\<close> the floating-point thresholds
  are the exact percentages: the limit action runs at or above \<open>defcon_power_limit\<close> percent of
  the limit, the lower action at or below \<open>defcon_power_lower\<close> percent.\<close>

theorem actions_at_exact_percentages:
  assumes "unat (gm_current_cluster_powercap s) * unat (gm_defcon_power_limit s) < 2 ^ 24"
    and "unat (gm_current_cluster_powercap s) * unat (gm_defcon_power_lower s) < 2 ^ 24"
  shows "check_powercap_actions s cs w =
    (if unat (gm_current_cluster_powercap s) * unat (gm_defcon_power_limit s) \<le> 100 * unat w \<and> gm_actions_executed s = 0
     then execute_powercap_limit_action s cs
     else if 100 * unat w \<le> unat (gm_current_cluster_powercap s) * unat (gm_defcon_power_lower s) \<and> gm_actions_executed s \<noteq> 0
     then execute_powercap_lower_action s cs
     else (s, []))"
  unfolding check_powercap_actions_def threshold_exact [OF assms(1)] threshold_exact [OF assms(2)] rat_of_word_def
  by (simp only: percent_le_iff [OF unat_lt_pow32] percent_ge_iff [OF unat_lt_pow32])

text \<open>C20. Over any sequence of commands and periods, in every mode of the manager, the limit action
  and the lower action alternate, beginning with the limit action: the cluster is never suspended
  twice nor resumed without a suspension, also when the limit changes in between.\<close>

theorem limit_and_lower_actions_alternate:
  assumes "gm_actions_executed s = 0"
  shows "alternating (gm_powercap_limit_action s) (gm_powercap_lower_action s) (commands_of (gm_outputs s es))"
  using actions_alternate [of s es] assms by simp

definition events_example :: "gm_event list" where
  "events_example = [Period (Some (status_example 950 0)) \<lparr>rd_released = 0\<rparr> 0, Inc_Pc 100,
     Period (Some (status_example 600 0)) \<lparr>rd_released = 0\<rparr> 0, Reset_Pc, Period None \<lparr>rd_released = 0\<rparr> 0]"

theorem limit_and_lower_actions_alternate_witness:
  "alternating ''suspend'' ''resume'' (commands_of (gm_outputs eargm_example events_example))"
proof -
  have "gm_actions_executed eargm_example = 0" "gm_powercap_limit_action eargm_example = ''suspend''"
    "gm_powercap_lower_action eargm_example = ''resume''" by (simp_all add: eargm_example_def)
  then show ?thesis using limit_and_lower_actions_alternate [of eargm_example events_example] by simp
qed

end
