(* ===== verification/Meta_Eargm.thy ===== *)
theory Meta_Eargm
  imports Cluster_Limits
begin

text \<open>
  The hierarchy of global managers: what one manager answers to its meta manager
  (\<^verbatim>\<open>global_manager/eargm_ext_rm.c\<close>), how the meta manager moves power between the managers
  below it (\<^verbatim>\<open>global_manager/meta_eargm.c\<close>) and the commands it sends them
  (\<^verbatim>\<open>global_manager/eargm_rapi.c\<close>).  The static variables of \<^verbatim>\<open>meta_eargm.c\<close> are the record
  \<open>meta\<close>; the status array is a list, updated in place as in the code.
\<close>

subsection \<open>Data\<close>

abbreviation (input) NO_COMMAND :: i32 where "NO_COMMAND \<equiv> 100000"
abbreviation (input) EARGM_NEW_JOB :: u32 where "EARGM_NEW_JOB \<equiv> 801"
abbreviation (input) EARGM_END_JOB :: u32 where "EARGM_END_JOB \<equiv> 802"
abbreviation (input) EARGM_STATUS :: u32 where "EARGM_STATUS \<equiv> 803"
abbreviation (input) EARGM_INC_PC :: i32 where "EARGM_INC_PC \<equiv> 804"
abbreviation (input) EARGM_RED_PC :: i32 where "EARGM_RED_PC \<equiv> 805"
abbreviation (input) EARGM_SET_PC :: u32 where "EARGM_SET_PC \<equiv> 806"
abbreviation (input) EARGM_RESET_PC :: i32 where "EARGM_RESET_PC \<equiv> 807"

record eargm_status =
  es_id :: i32
  es_status :: u8
  es_def_power :: u64
  es_current_power :: u64
  es_current_powercap :: u64
  es_requested :: u64
  es_freeable_power :: u64
  es_extra_power :: u64
  es_energy :: u64

record eargm_table =
  et_ids :: "i32 list"
  et_eargm_ips :: "i32 list"
  et_eargm_ports :: "i32 list"
  et_actions :: "i32 list"
  et_action_values :: "u32 list"

record meta =
  me_default_powercap :: u64
  me_current_free_power :: u64
  me_total_power :: u64
  me_total_req :: u64
  me_total_req_no_extra :: u64
  me_total_req_ask_def :: u64
  me_total_freeable :: u64
  me_total_extra :: u64
  me_total_powercap :: u64
  me_num_ask_def :: u32
  me_num_greedy :: u32
  me_num_greedy_no_extra :: u32

subsection \<open>Serving one manager\<close>

text \<open>\<open>eargm_return_status\<close>: the published data as the answer to a status request.\<close>

definition eargm_return_status :: "u32 \<Rightarrow> shared_powercap_data \<Rightarrow> eargm_status" where
  "eargm_return_status eargm_id ext_powercap_data =
     \<lparr>es_id = eargm_id, es_status = ucast (sh_status ext_powercap_data),
      es_def_power = sh_def_power ext_powercap_data, es_current_power = sh_current_power ext_powercap_data,
      es_current_powercap = sh_current_powercap ext_powercap_data, es_requested = sh_requested ext_powercap_data,
      es_freeable_power = sh_available_power ext_powercap_data, es_extra_power = sh_extra_power ext_powercap_data,
      es_energy = 0\<rparr>"

datatype eargm_reply = Answer | Answer_Status eargm_status

text \<open>
  \<open>process_remote_requests\<close> on the command read from the client: the request code and its
  \<open>num_nodes\<close> and \<open>pc_change\<close>.  The state has the number of nodes in use beside the manager.
\<close>

definition process_remote_requests ::
  "u32 \<Rightarrow> u32 \<times> eargm \<Rightarrow> u32 \<Rightarrow> u32 \<Rightarrow> u32 \<Rightarrow> (u32 \<times> eargm) \<times> eargm_reply list" where
  "process_remote_requests eargm_id st req num_nodes pc_change =
     (case st of (total_nodes, s) \<Rightarrow>
        if req = EARGM_NEW_JOB then ((total_nodes + num_nodes, s), [Answer])
        else if req = EARGM_END_JOB then ((total_nodes - num_nodes, s), [Answer])
        else if req = EARGM_STATUS
        then (st, [Answer, Answer_Status (eargm_return_status eargm_id (gm_ext_powercap_data s))])
        else if req = EARGM_INC_PC then ((total_nodes, cluster_powercap_inc_pc s pc_change), [Answer])
        else if req = EARGM_RED_PC then ((total_nodes, cluster_powercap_red_pc s pc_change), [Answer])
        else if req = EARGM_RESET_PC then ((total_nodes, cluster_powercap_reset_pc s), [Answer])
        else if req = EARGM_SET_PC then ((total_nodes, cluster_powercap_set_pc s pc_change), [Answer])
        else (st, [Answer]))"

subsection \<open>The meta manager\<close>

text \<open>
  \<open>eargm_table_init\<close>: the inner loop leaves the data of the last definition whose identifier is
  that of the \<open>i\<close>-th subordinate, and each match adds the power of definition number \<open>i\<close>.
\<close>

definition table_init_match ::
  "(string \<Rightarrow> i32) \<Rightarrow> eargm_def list \<Rightarrow> nat \<Rightarrow> i32 \<Rightarrow> (i32 \<times> i32 \<times> i32) \<times> u64 \<Rightarrow> eargm_def \<Rightarrow> (i32 \<times> i32 \<times> i32) \<times> u64" where
  "table_init_match get_ip eargms i sub acc d =
     (if ed_id d = sub then ((ed_id d, get_ip (ed_node d), ed_port d), snd acc + ed_power (eargms ! i)) else acc)"

definition table_init_step ::
  "(string \<Rightarrow> i32) \<Rightarrow> eargm_def list \<Rightarrow> eargm_table \<times> u64 \<Rightarrow> nat \<times> i32 \<Rightarrow> eargm_table \<times> u64" where
  "table_init_step get_ip eargms st isub =
     (case st of (t, default_powercap) \<Rightarrow> case isub of (i, sub) \<Rightarrow>
      case foldl (table_init_match get_ip eargms i sub) ((0, 0, 0), default_powercap) eargms of
        ((ident, ip, port), default_powercap) \<Rightarrow>
          (t\<lparr>et_ids := et_ids t @ [ident], et_eargm_ips := et_eargm_ips t @ [ip],
             et_eargm_ports := et_eargm_ports t @ [port], et_actions := et_actions t @ [0],
             et_action_values := et_action_values t @ [0]\<rparr>, default_powercap))"

definition eargm_table_init ::
  "(string \<Rightarrow> i32) \<Rightarrow> meta \<Rightarrow> eargm_def list \<Rightarrow> nat \<Rightarrow> eargm_table \<times> meta" where
  "eargm_table_init get_ip m eargms egm_idx =
     (case foldl (table_init_step get_ip eargms)
        (\<lparr>et_ids = [], et_eargm_ips = [], et_eargm_ports = [], et_actions = [], et_action_values = []\<rparr>, me_default_powercap m)
        (enumerate 0 (ed_subs (eargms ! egm_idx))) of
      (t, d) \<Rightarrow> (t, m\<lparr>me_default_powercap := d\<rparr>))"

definition meta_aggregate_elem :: "meta \<Rightarrow> eargm_status \<Rightarrow> meta" where
  "meta_aggregate_elem m st =
     (let m = m\<lparr>me_total_power := me_total_power m + es_current_power st,
                me_total_powercap := me_total_powercap m + es_current_powercap st,
                me_total_freeable := me_total_freeable m + es_freeable_power st,
                me_total_extra := me_total_extra m + es_extra_power st\<rparr>
      in if es_status st = ucast PC_STATUS_ASK_DEF
         then m\<lparr>me_num_ask_def := me_num_ask_def m + 1, me_total_req_ask_def := me_total_req_ask_def m + es_requested st\<rparr>
         else if es_status st = ucast PC_STATUS_GREEDY
         then if es_extra_power st = 0
              then m\<lparr>me_num_greedy_no_extra := me_num_greedy_no_extra m + 1,
                     me_total_req_no_extra := me_total_req_no_extra m + es_requested st\<rparr>
              else m\<lparr>me_num_greedy := me_num_greedy m + 1, me_total_req := me_total_req m + es_requested st\<rparr>
         else m)"

definition meta_aggregate_data :: "meta \<Rightarrow> eargm_status list \<Rightarrow> meta" where
  "meta_aggregate_data m status =
     (let m = foldl meta_aggregate_elem
                (m\<lparr>me_total_power := 0, me_total_req := 0, me_total_freeable := 0, me_total_extra := 0,
                   me_total_req_no_extra := 0, me_total_powercap := 0, me_total_req_ask_def := 0,
                   me_num_ask_def := 0, me_num_greedy := 0, me_num_greedy_no_extra := 0\<rparr>) status
      in if me_default_powercap m < me_total_powercap m then m\<lparr>me_current_free_power := 0\<rparr>
         else m\<lparr>me_current_free_power := me_default_powercap m - me_total_powercap m\<rparr>)"

fun position_loop :: "nat \<Rightarrow> i32 list \<Rightarrow> u32 \<Rightarrow> nat option" where
  "position_loop i [] ident = None"
| "position_loop i (x # xs) ident = (if x = ident then Some i else position_loop (i + 1) xs ident)"

definition get_eargm_position :: "eargm_table \<Rightarrow> u32 \<Rightarrow> nat option" where
  "get_eargm_position egm_table ident = position_loop 0 (et_ids egm_table) ident"

text \<open>The two assignments every operation makes to an entry of the table.\<close>

definition table_add :: "eargm_table \<Rightarrow> nat \<Rightarrow> i32 \<Rightarrow> u64 \<Rightarrow> eargm_table" where
  "table_add t k act v =
     t\<lparr>et_actions := (et_actions t)[k := act],
       et_action_values := (et_action_values t)[k := ucast (ucast (et_action_values t ! k) + v :: u64)]\<rparr>"

fun assign_ask_def :: "eargm_status list \<Rightarrow> eargm_table \<Rightarrow> eargm_table" where
  "assign_ask_def [] t = t"
| "assign_ask_def (st # rest) t =
     assign_ask_def rest
       (if es_status st = ucast PC_STATUS_ASK_DEF
        then case get_eargm_position t (es_id st) of None \<Rightarrow> t
             | Some egm_id \<Rightarrow> table_add t egm_id EARGM_INC_PC (es_requested st)
        else t)"

fun reduce_freeable_power ::
  "eargm_status list \<Rightarrow> eargm_table \<Rightarrow> u64 \<Rightarrow> u64 \<Rightarrow> eargm_status list \<times> eargm_table \<times> u64 \<times> u64" where
  "reduce_freeable_power [] t pending freeable = ([], t, pending, freeable)"
| "reduce_freeable_power (st # rest) t pending freeable =
     (if pending = 0 then (st # rest, t, pending, freeable)
      else
        let (st', t', pending', freeable') =
          (if es_freeable_power st \<noteq> 0
           then case get_eargm_position t (es_id st) of None \<Rightarrow> (st, t, pending, freeable)
                | Some egm_id \<Rightarrow>
                  let tmp_var = ear_min pending (es_freeable_power st)
                  in (st\<lparr>es_freeable_power := es_freeable_power st - tmp_var\<rparr>,
                      table_add t egm_id EARGM_RED_PC tmp_var, pending - tmp_var, freeable - tmp_var)
           else (st, t, pending, freeable));
            (rest', r) = reduce_freeable_power rest t' pending' freeable'
        in (st' # rest', r))"

fun reduce_extra_power :: "eargm_status list \<Rightarrow> eargm_table \<Rightarrow> u64 \<Rightarrow> eargm_status list \<times> eargm_table \<times> u64" where
  "reduce_extra_power [] t pending = ([], t, pending)"
| "reduce_extra_power (st # rest) t pending =
     (if pending = 0 then (st # rest, t, pending)
      else
        let (st', t', pending') =
          (if es_extra_power st \<noteq> 0
           then case get_eargm_position t (es_id st) of None \<Rightarrow> (st, t, pending)
                | Some egm_id \<Rightarrow>
                  let tmp_var = ear_min pending (es_extra_power st)
                  in (st\<lparr>es_extra_power := es_extra_power st - tmp_var\<rparr>,
                      table_add t egm_id EARGM_RED_PC tmp_var, pending - tmp_var)
           else (st, t, pending));
            (rest', r) = reduce_extra_power rest t' pending'
        in (st' # rest', r))"

fun assign_extra_power ::
  "eargm_status list \<Rightarrow> eargm_table \<Rightarrow> u64 \<Rightarrow> u64 \<Rightarrow> bool \<Rightarrow> eargm_status list \<times> eargm_table \<times> u64 \<times> u64" where
  "assign_extra_power [] t free_power pending has_extra = ([], t, free_power, pending)"
| "assign_extra_power (st # rest) t free_power pending has_extra =
     (if free_power = 0 then (st # rest, t, free_power, pending)
      else
        let (st', t', free_power', pending') =
          (if es_status st = ucast PC_STATUS_GREEDY \<and> \<not> (es_extra_power st > 0 \<and> \<not> has_extra) \<and>
              \<not> (es_extra_power st = 0 \<and> has_extra)
           then case get_eargm_position t (es_id st) of None \<Rightarrow> (st, t, free_power, pending)
                | Some egm_id \<Rightarrow>
                  let tmp_var = ear_min free_power (es_requested st)
                  in (st\<lparr>es_requested := es_requested st - tmp_var\<rparr>,
                      table_add t egm_id EARGM_INC_PC tmp_var, free_power - tmp_var, pending - tmp_var)
           else (st, t, free_power, pending));
            (rest', r) = assign_extra_power rest t' free_power' pending' has_extra
        in (st' # rest', r))"

text \<open>
  The three parts of \<open>meta_reallocate_power\<close>.  The first component of a result says that the
  function returns there.
\<close>

definition serve_ask_def ::
  "meta \<Rightarrow> eargm_status list \<Rightarrow> eargm_table \<Rightarrow> bool \<times> meta \<times> eargm_status list \<times> eargm_table" where
  "serve_ask_def m status t =
     (if me_num_ask_def m > 0
      then let t = assign_ask_def status t
           in if me_current_free_power m \<ge> me_total_req_ask_def m
              then (False, m\<lparr>me_current_free_power := me_current_free_power m - me_total_req_ask_def m\<rparr>, status, t)
              else let pending = me_total_req_ask_def m - me_current_free_power m;
                       (status, t, pending, freeable) =
                         (if me_total_freeable m \<noteq> 0
                          then reduce_freeable_power status t pending (me_total_freeable m)
                          else (status, t, pending, me_total_freeable m));
                       m = m\<lparr>me_total_freeable := freeable\<rparr>
                   in if pending \<noteq> 0
                      then let (status, t, pending) = reduce_extra_power status t pending in (True, m, status, t)
                      else (False, m, status, t)
      else (False, m, status, t))"

text \<open>
  Both greedy parts first spend the free power and then move power from the managers that can
  free some; the last component of the result says that power was moved.
\<close>

definition greedy_block :: "bool \<Rightarrow> u64 \<Rightarrow> u64 \<Rightarrow> u64 \<Rightarrow> eargm_status list \<Rightarrow> eargm_table \<Rightarrow>
    eargm_status list \<times> eargm_table \<times> u64 \<times> u64 \<times> u64 \<times> bool" where
  "greedy_block has_extra free req freeable status t =
     (let (status, t, free, req) =
            (if free \<noteq> 0 then assign_extra_power status t free req has_extra else (status, t, free, req))
      in if req > 0 \<and> freeable \<noteq> 0
         then let pending = ear_min freeable req;
                  (status, t, _, freeable) = reduce_freeable_power status t pending freeable;
                  (status, t, _, req) = assign_extra_power status t pending req has_extra
              in (status, t, free, req, freeable, True)
         else (status, t, free, req, freeable, False))"

definition serve_greedy_no_extra ::
  "meta \<Rightarrow> eargm_status list \<Rightarrow> eargm_table \<Rightarrow> bool \<times> meta \<times> eargm_status list \<times> eargm_table" where
  "serve_greedy_no_extra m status t =
     (if me_num_greedy_no_extra m \<noteq> 0
      then case greedy_block False (me_current_free_power m) (me_total_req_no_extra m) (me_total_freeable m) status t of
             (status, t, free, req, freeable, moved) \<Rightarrow>
               (moved \<and> freeable = 0,
                m\<lparr>me_current_free_power := free, me_total_req_no_extra := req, me_total_freeable := freeable\<rparr>, status, t)
      else (False, m, status, t))"

definition serve_greedy ::
  "meta \<Rightarrow> eargm_status list \<Rightarrow> eargm_table \<Rightarrow> meta \<times> eargm_status list \<times> eargm_table" where
  "serve_greedy m status t =
     (if me_num_greedy m \<noteq> 0
      then case greedy_block True (me_current_free_power m) (me_total_req m) (me_total_freeable m) status t of
             (status, t, free, req, freeable, moved) \<Rightarrow>
               (m\<lparr>me_current_free_power := free, me_total_req := req, me_total_freeable := freeable\<rparr>, status, t)
      else (m, status, t))"

definition meta_reallocate_power ::
  "meta \<Rightarrow> eargm_status list \<Rightarrow> eargm_table \<Rightarrow> meta \<times> eargm_status list \<times> eargm_table" where
  "meta_reallocate_power m status t =
     (case serve_ask_def (meta_aggregate_data m status) status t of (ret, m, status, t) \<Rightarrow>
        if ret then (m, status, t)
        else case serve_greedy_no_extra m status t of (ret, m, status, t) \<Rightarrow>
          if ret then (m, status, t) else serve_greedy m status t)"

definition reset_actions :: "eargm_table \<Rightarrow> eargm_table" where
  "reset_actions t = t\<lparr>et_actions := map (\<lambda>_. NO_COMMAND) (et_ids t), et_action_values := map (\<lambda>_. 0) (et_ids t)\<rparr>"

text \<open>
  \<open>eargm_send_table_commands\<close>: the commands sent, each with the address and port of its manager;
  an entry of the table with no command, an unknown one or no connection sends nothing.
\<close>

datatype eargm_command = Inc_Powercap u32 | Red_Powercap u32 | Reset_Powercap

fun send_table_loop ::
  "(i32 \<Rightarrow> i32 \<Rightarrow> bool) \<Rightarrow> (i32 \<times> i32 \<times> i32 \<times> u32) list \<Rightarrow> (i32 \<times> i32 \<times> eargm_command) list" where
  "send_table_loop connects [] = []"
| "send_table_loop connects ((ip, port, act, v) # rest) =
     (if act = NO_COMMAND then send_table_loop connects rest
      else if \<not> connects ip port then send_table_loop connects rest
      else if act = EARGM_INC_PC then (ip, port, Inc_Powercap v) # send_table_loop connects rest
      else if act = EARGM_RED_PC then (ip, port, Red_Powercap v) # send_table_loop connects rest
      else if act = EARGM_RESET_PC then (ip, port, Reset_Powercap) # send_table_loop connects rest
      else send_table_loop connects rest)"

definition eargm_send_table_commands ::
  "(i32 \<Rightarrow> i32 \<Rightarrow> bool) \<Rightarrow> eargm_table \<Rightarrow> (i32 \<times> i32 \<times> eargm_command) list" where
  "eargm_send_table_commands connects t =
     send_table_loop connects (zip (et_eargm_ips t) (zip (et_eargm_ports t) (zip (et_actions t) (et_action_values t))))"

text \<open>One turn of the thread \<open>meta_eargm\<close> on the statuses that were received.\<close>

definition meta_eargm_turn ::
  "(i32 \<Rightarrow> i32 \<Rightarrow> bool) \<Rightarrow> meta \<times> eargm_table \<Rightarrow> eargm_status list \<Rightarrow>
     (meta \<times> eargm_table) \<times> (i32 \<times> i32 \<times> eargm_command) list" where
  "meta_eargm_turn connects mt status =
     (case mt of (m, t) \<Rightarrow>
        if status = [] then (mt, [])
        else case meta_reallocate_power m status (reset_actions t) of
          (m, status, t) \<Rightarrow> ((m, t), eargm_send_table_commands connects t))"

end
