(* ===== verification/Meta_Allocation.thy ===== *)
theory Meta_Allocation
  imports Meta_Eargm
begin

text \<open>
  Correctness of the meta manager: the table of commands it builds moves power between the
  managers without creating any, given what each manager promises about its report.
\<close>

subsection \<open>Definitions\<close>

text \<open>
  What a report promises.  Only a manager that asks for nothing offers power; a manager that asks
  for its default is below it and asks for no more than the difference; the extra power is what
  the limit exceeds the default by.
\<close>

definition report_ok :: "eargm_status \<Rightarrow> bool" where
  "report_ok st \<longleftrightarrow>
     (es_status st = ucast PC_STATUS_OK \<or> es_status st = ucast PC_STATUS_ASK_DEF \<or> es_status st = ucast PC_STATUS_GREEDY) \<and>
     (es_status st \<noteq> ucast PC_STATUS_OK \<longrightarrow> es_freeable_power st = 0) \<and>
     (es_status st = ucast PC_STATUS_ASK_DEF \<longrightarrow>
        unat (es_current_powercap st) + unat (es_requested st) \<le> unat (es_def_power st)) \<and>
     unat (es_extra_power st) = unat (es_current_powercap st) - unat (es_def_power st)"

text \<open>The change of the total power that a table of commands asks for.\<close>

definition entry_change :: "i32 \<times> u32 \<Rightarrow> int" where
  "entry_change av =
     (case av of (act, v) \<Rightarrow> if act = EARGM_INC_PC then int (unat v) else if act = EARGM_RED_PC then - int (unat v) else 0)"

definition net :: "eargm_table \<Rightarrow> int" where
  "net t = (\<Sum>av\<leftarrow>zip (et_actions t) (et_action_values t). entry_change av)"

definition moved :: "eargm_table \<Rightarrow> nat" where
  "moved t = (\<Sum>v\<leftarrow>et_action_values t. unat v)"

text \<open>Entries of managers in \<open>Q\<close> only grow, the others only shrink.\<close>

definition table_inv :: "i32 set \<Rightarrow> eargm_table \<Rightarrow> bool" where
  "table_inv Q t \<longleftrightarrow>
     length (et_actions t) = length (et_ids t) \<and> length (et_action_values t) = length (et_ids t) \<and>
     (\<forall>k < length (et_ids t).
        (et_actions t ! k = EARGM_INC_PC \<longrightarrow> et_ids t ! k \<in> Q) \<and>
        (et_actions t ! k = EARGM_RED_PC \<longrightarrow> et_ids t ! k \<notin> Q) \<and>
        (et_actions t ! k \<noteq> EARGM_INC_PC \<and> et_actions t ! k \<noteq> EARGM_RED_PC \<longrightarrow> et_action_values t ! k = 0))"

subsection \<open>Entries of the table\<close>

lemma position_loop_Some:
  "position_loop i xs x = Some k \<Longrightarrow> i \<le> k \<and> k - i < length xs \<and> xs ! (k - i) = x"
  by (induction i xs x rule: position_loop.induct) (fastforce simp: nth_Cons' split: if_splits)+

lemma position_loop_None: "position_loop i xs x = None \<longleftrightarrow> x \<notin> set xs"
  by (induction i xs x rule: position_loop.induct) auto

lemma get_position:
  assumes "x \<in> set (et_ids t)"
  obtains k where "get_eargm_position t x = Some k" "k < length (et_ids t)" "et_ids t ! k = x"
  using assms position_loop_None [of 0 "et_ids t" x] position_loop_Some [of 0 "et_ids t" x]
  by (cases "position_loop 0 (et_ids t) x") (auto simp: get_eargm_position_def)

lemma sum_list_map_update:
  "k < length xs \<Longrightarrow> (\<Sum>x\<leftarrow>xs[k := y]. f x) + f (xs ! k) = (\<Sum>x\<leftarrow>xs. f x) + (f y :: 'a::comm_monoid_add)"
  by (induction xs arbitrary: k) (auto simp: nth_Cons' algebra_simps split: nat.splits)

lemma member_le_sum: "k < length xs \<Longrightarrow> unat (xs ! k) \<le> (\<Sum>v\<leftarrow>xs. unat v)"
  by (induction xs arbitrary: k) (auto simp: nth_Cons' trans_le_add2)

lemma table_add_facts:
  assumes inv: "table_inv Q t" and k: "k < length (et_ids t)" and room: "moved t + unat v < 2 ^ 32"
    and act: "act = EARGM_INC_PC \<and> et_ids t ! k \<in> Q \<or> act = EARGM_RED_PC \<and> et_ids t ! k \<notin> Q"
  shows "table_inv Q (table_add t k act v)" and "moved (table_add t k act v) = moved t + unat v"
    and "net (table_add t k act v) = net t + (if act = EARGM_INC_PC then int (unat v) else - int (unat v))"
    and "et_ids (table_add t k act v) = et_ids t"
proof -
  let ?w = "ucast (ucast (et_action_values t ! k) + v :: u64) :: u32"
  have len: "k < length (et_actions t)" "k < length (et_action_values t)"
    using inv k by (simp_all add: table_inv_def)
  have le: "unat (et_action_values t ! k) \<le> moved t" unfolding moved_def using len(2) by (rule member_le_sum)
  have up: "unat (ucast (et_action_values t ! k) :: u64) = unat (et_action_values t ! k)" by (rule unat_ucast_up) simp
  then have "unat (ucast (et_action_values t ! k) + v :: u64) = unat (et_action_values t ! k) + unat v"
    using le room by (subst unat_plus) simp_all
  then have w: "unat ?w = unat (et_action_values t ! k) + unat v"
    using le room by (simp add: unsigned_ucast_eq take_bit_nat_eq_self)
  show "table_inv Q (table_add t k act v)"
    using inv act k by (auto simp: table_inv_def table_add_def nth_list_update)
  show "moved (table_add t k act v) = moved t + unat v"
    using sum_list_map_update [OF len(2), of unat ?w] w by (simp add: moved_def table_add_def)
  have "zip ((et_actions t)[k := act]) ((et_action_values t)[k := ?w]) =
      (zip (et_actions t) (et_action_values t))[k := (act, ?w)]"
    by (simp add: zip_update)
  moreover have "entry_change (zip (et_actions t) (et_action_values t) ! k) =
      (if act = EARGM_INC_PC then int (unat (et_action_values t ! k)) else - int (unat (et_action_values t ! k)))"
    using inv k act len by (auto simp: table_inv_def entry_change_def)
  moreover have "entry_change (act, ?w) = (if act = EARGM_INC_PC then int (unat ?w) else - int (unat ?w))"
    using act by (auto simp: entry_change_def)
  ultimately show "net (table_add t k act v) = net t + (if act = EARGM_INC_PC then int (unat v) else - int (unat v))"
    using sum_list_map_update [of k "zip (et_actions t) (et_action_values t)" entry_change "(act, ?w)"] len w
    by (simp add: net_def table_add_def split: if_splits)
  show "et_ids (table_add t k act v) = et_ids t" by (simp add: table_add_def)
qed

subsection \<open>The loops over the reports\<close>

abbreviation freeables :: "eargm_status list \<Rightarrow> nat" where
  "freeables sts \<equiv> (\<Sum>st\<leftarrow>sts. unat (es_freeable_power st))"

abbreviation spares :: "eargm_status list \<Rightarrow> nat" where
  "spares sts \<equiv> (\<Sum>st\<leftarrow>sts. unat (es_extra_power st))"

abbreviation ask_defs :: "eargm_status list \<Rightarrow> nat" where
  "ask_defs sts \<equiv> (\<Sum>st\<leftarrow>filter (\<lambda>st. es_status st = ucast PC_STATUS_ASK_DEF) sts. unat (es_requested st))"

lemma assign_ask_def_spec:
  assumes "table_inv Q t" "es_id ` set sts \<subseteq> set (et_ids t)" "moved t + ask_defs sts < 2 ^ 32"
    and "\<forall>st \<in> set sts. es_status st = ucast PC_STATUS_ASK_DEF \<longrightarrow> es_id st \<in> Q"
  shows "table_inv Q (assign_ask_def sts t) \<and> net (assign_ask_def sts t) = net t + int (ask_defs sts) \<and>
    moved (assign_ask_def sts t) = moved t + ask_defs sts \<and> et_ids (assign_ask_def sts t) = et_ids t"
  using assms
proof (induction sts arbitrary: t)
  case (Cons st sts)
  show ?case
  proof (cases "es_status st = ucast PC_STATUS_ASK_DEF")
    case True
    obtain k where k: "get_eargm_position t (es_id st) = Some k" "k < length (et_ids t)" "et_ids t ! k = es_id st"
      using Cons.prems(2) by (auto elim: get_position)
    note facts = table_add_facts [OF Cons.prems(1) k(2), of "es_requested st" EARGM_INC_PC]
    show ?thesis using Cons.IH [of "table_add t k EARGM_INC_PC (es_requested st)"] Cons.prems True k facts by simp
  next
    case False
    then show ?thesis using Cons by simp
  qed
qed simp

text \<open>
  The other three loops have one shape: walk over the reports while the pool is not empty, move
  power between the pool and every eligible manager, and note it in the table.
\<close>

locale table_loop =
  fixes loop :: "eargm_status list \<Rightarrow> eargm_table \<Rightarrow> u64 \<Rightarrow> eargm_status list \<times> eargm_table \<times> u64"
    and eligible :: "eargm_status \<Rightarrow> bool"
    and amount :: "eargm_status \<Rightarrow> u64"
    and upd :: "eargm_status \<Rightarrow> u64 \<Rightarrow> eargm_status"
    and act :: i32
  assumes loop_Nil: "loop [] t p = ([], t, p)"
    and loop_Cons: "loop (st # rest) t p =
      (if p = 0 then (st # rest, t, p)
       else case (if eligible st
                  then case get_eargm_position t (es_id st) of None \<Rightarrow> (st, t, p)
                       | Some k \<Rightarrow> let x = ear_min p (amount st) in (upd st x, table_add t k act x, p - x)
                  else (st, t, p)) of
              (st', t', p') \<Rightarrow> case loop rest t' p' of (rest', r) \<Rightarrow> (st' # rest', r))"
    and action: "act = EARGM_INC_PC \<or> act = EARGM_RED_PC"
    and keeps_id: "es_id (upd st x) = es_id st"
    and keeps_rest: "x \<le> amount st \<Longrightarrow> eligible st \<Longrightarrow>
      (if eligible (upd st x) then unat (amount (upd st x)) else 0) = unat (amount st) - unat x"
begin

abbreviation can :: "eargm_status \<Rightarrow> nat" where
  "can st \<equiv> if eligible st then unat (amount st) else 0"

lemma loop_spec:
  assumes "table_inv Q t" "es_id ` set sts \<subseteq> set (et_ids t)" "moved t + unat p < 2 ^ 32"
    and "\<forall>st \<in> set sts. eligible st \<longrightarrow> (act = EARGM_INC_PC \<longleftrightarrow> es_id st \<in> Q)"
    and "loop sts t p = (sts', t', p')"
  shows "table_inv Q t' \<and> et_ids t' = et_ids t \<and> unat p' = unat p - (\<Sum>st\<leftarrow>sts. can st) \<and>
    net t' = net t + (if act = EARGM_INC_PC then int (unat p) - int (unat p') else int (unat p') - int (unat p)) \<and>
    moved t' + unat p' = moved t + unat p \<and>
    (\<Sum>st\<leftarrow>sts'. can st) + unat p = (\<Sum>st\<leftarrow>sts. can st) + unat p' \<and>
    list_all2 (\<lambda>st st'. st' = st \<or> eligible st \<and> (\<exists>x \<le> amount st. st' = upd st x)) sts sts'"
  using assms
proof (induction sts arbitrary: t p sts' t' p')
  case Nil
  then show ?case by (simp add: loop_Nil)
next
  case (Cons st rest)
  consider (stop) "p = 0" | (skip) "p \<noteq> 0" "\<not> eligible st" | (move) "p \<noteq> 0" "eligible st" by blast
  then show ?case
  proof cases
    case stop
    then show ?thesis using Cons.prems by (auto simp: loop_Cons intro: list.rel_refl)
  next
    case skip
    obtain rest' t1 p1 where r: "loop rest t p = (rest', t1, p1)" by (metis prod_cases3)
    then show ?thesis using Cons.IH [OF Cons.prems(1) _ Cons.prems(3) _ r] Cons.prems(2,4,5) skip by (auto simp: loop_Cons)
  next
    case move
    obtain k where k: "get_eargm_position t (es_id st) = Some k" "k < length (et_ids t)" "et_ids t ! k = es_id st"
      using Cons.prems(2) by (auto elim: get_position)
    define x where "x = ear_min p (amount st)"
    have x: "unat x = min (unat p) (unat (amount st))" "x \<le> amount st" "unat (p - x) = unat p - unat x"
      by (simp_all add: x_def unat_ear_min word_le_nat_alt unat_dist)
    have room: "moved t + unat x < 2 ^ 32" using Cons.prems(3) x(1) by linarith
    have "act = EARGM_INC_PC \<and> et_ids t ! k \<in> Q \<or> act = EARGM_RED_PC \<and> et_ids t ! k \<notin> Q"
      using Cons.prems(4) move(2) k(3) action by auto
    note facts = table_add_facts [OF Cons.prems(1) k(2) room this]
    obtain rest' t1 p1 where r: "loop rest (table_add t k act x) (p - x) = (rest', t1, p1)" by (metis prod_cases3)
    then have out: "sts' = upd st x # rest'" "t' = t1" "p' = p1"
      using Cons.prems(5) move k by (auto simp: loop_Cons x_def [symmetric])
    have "es_id ` set rest \<subseteq> set (et_ids (table_add t k act x))" using Cons.prems(2) facts(4) by simp
    moreover have "moved (table_add t k act x) + unat (p - x) < 2 ^ 32" using facts(2) x(1,3) Cons.prems(3) by linarith
    moreover have "\<forall>st \<in> set rest. eligible st \<longrightarrow> (act = EARGM_INC_PC \<longleftrightarrow> es_id st \<in> Q)" using Cons.prems(4) by simp
    ultimately have ih: "table_inv Q t1" "et_ids t1 = et_ids (table_add t k act x)"
      "unat p1 = unat (p - x) - (\<Sum>st\<leftarrow>rest. can st)"
      "net t1 = net (table_add t k act x) +
         (if act = EARGM_INC_PC then int (unat (p - x)) - int (unat p1) else int (unat p1) - int (unat (p - x)))"
      "moved t1 + unat p1 = moved (table_add t k act x) + unat (p - x)"
      "(\<Sum>st\<leftarrow>rest'. can st) + unat (p - x) = (\<Sum>st\<leftarrow>rest. can st) + unat p1"
      "list_all2 (\<lambda>st st'. st' = st \<or> eligible st \<and> (\<exists>x \<le> amount st. st' = upd st x)) rest rest'"
      using Cons.IH [OF facts(1) _ _ _ r] by blast+
    have c: "can st = unat (amount st)" "can (upd st x) = unat (amount st) - unat x"
      using move(2) keeps_rest [OF x(2) move(2)] by simp_all
    have xp: "unat x \<le> unat p" "unat x \<le> unat (amount st)" using x(1) by simp_all
    show ?thesis unfolding out
    proof (intro conjI)
      show "unat p1 = unat p - (\<Sum>st\<leftarrow>st # rest. can st)" using ih(3) x(1,3) c by (simp add: min_def)
      show "net t1 = net t + (if act = EARGM_INC_PC then int (unat p) - int (unat p1) else int (unat p1) - int (unat p))"
        using ih(4) facts(3) x(3) xp by (simp split: if_splits)
      show "moved t1 + unat p1 = moved t + unat p" using ih(5) facts(2) x(3) xp by linarith
      show "(\<Sum>st\<leftarrow>upd st x # rest'. can st) + unat p = (\<Sum>st\<leftarrow>st # rest. can st) + unat p1"
        using ih(6) c x(3) xp by simp
      show "list_all2 (\<lambda>st st'. st' = st \<or> eligible st \<and> (\<exists>x \<le> amount st. st' = upd st x)) (st # rest) (upd st x # rest')"
        using ih(7) move(2) x(2) by auto
    qed (use ih facts in simp_all)
  qed
qed

end

definition reduce_freeable :: "eargm_status list \<Rightarrow> eargm_table \<Rightarrow> u64 \<Rightarrow> eargm_status list \<times> eargm_table \<times> u64" where
  "reduce_freeable sts t p = (case reduce_freeable_power sts t p 0 of (sts', t', p', _) \<Rightarrow> (sts', t', p'))"

lemma reduce_freeable_power_eq:
  "reduce_freeable_power sts t p f = (case reduce_freeable sts t p of (sts', t', p') \<Rightarrow> (sts', t', p', f - (p - p')))"
proof -
  have "\<exists>sts' t' p'. \<forall>f. reduce_freeable_power sts t p f = (sts', t', p', f - (p - p'))"
  proof (induction sts arbitrary: t p)
    case (Cons st rest)
    define q where "q = (if es_freeable_power st \<noteq> 0
        then case get_eargm_position t (es_id st) of None \<Rightarrow> (st, t, 0)
             | Some k \<Rightarrow> let x = ear_min p (es_freeable_power st)
                 in (st\<lparr>es_freeable_power := es_freeable_power st - x\<rparr>, table_add t k EARGM_RED_PC x, x)
        else (st, t, 0))"
    obtain st1 t1 x where q: "q = (st1, t1, x)" by (cases q)
    obtain rest' t2 p2 where r: "\<forall>f. reduce_freeable_power rest t1 (p - x) f = (rest', t2, p2, f - (p - x - p2))"
      using Cons by blast
    have "reduce_freeable_power (st # rest) t p f = (st1 # rest', t2, p2, f - (p - p2))" if "p \<noteq> 0" for f
      using q r that by (auto simp: q_def Let_def algebra_simps split: if_splits option.splits)
    then show ?case by (cases "p = 0") auto
  qed simp
  then obtain sts' t' p' where "\<forall>f. reduce_freeable_power sts t p f = (sts', t', p', f - (p - p'))" by blast
  then show ?thesis by (simp add: reduce_freeable_def)
qed

interpretation free_loop: table_loop reduce_freeable "\<lambda>st. es_freeable_power st \<noteq> 0" es_freeable_power
  "\<lambda>st x. st\<lparr>es_freeable_power := es_freeable_power st - x\<rparr>" EARGM_RED_PC
proof unfold_locales
  show "reduce_freeable [] t p = ([], t, p)" for t p by (simp add: reduce_freeable_def)
  show "reduce_freeable (st # rest) t p =
      (if p = 0 then (st # rest, t, p)
       else case (if es_freeable_power st \<noteq> 0
                  then case get_eargm_position t (es_id st) of None \<Rightarrow> (st, t, p)
                       | Some k \<Rightarrow> let x = ear_min p (es_freeable_power st)
                           in (st\<lparr>es_freeable_power := es_freeable_power st - x\<rparr>, table_add t k EARGM_RED_PC x, p - x)
                  else (st, t, p)) of
              (st', t', p') \<Rightarrow> case reduce_freeable rest t' p' of (rest', r) \<Rightarrow> (st' # rest', r))" for st rest t p
    by (subst reduce_freeable_def)
      (auto simp: reduce_freeable_power_eq [of rest] Let_def split: prod.splits option.splits)
qed (simp_all add: unat_dist word_le_nat_alt unat_eq_0)

interpretation extra_loop: table_loop reduce_extra_power "\<lambda>st. es_extra_power st \<noteq> 0" es_extra_power
  "\<lambda>st x. st\<lparr>es_extra_power := es_extra_power st - x\<rparr>" EARGM_RED_PC
  by unfold_locales (auto simp: Let_def unat_dist word_le_nat_alt split: prod.splits option.splits)

definition assign_extra :: "bool \<Rightarrow> eargm_status list \<Rightarrow> eargm_table \<Rightarrow> u64 \<Rightarrow> eargm_status list \<times> eargm_table \<times> u64" where
  "assign_extra has_extra sts t p = (case assign_extra_power sts t p 0 has_extra of (sts', t', p', _) \<Rightarrow> (sts', t', p'))"

abbreviation greedy_kind :: "bool \<Rightarrow> eargm_status \<Rightarrow> bool" where
  "greedy_kind has_extra st \<equiv> es_status st = ucast PC_STATUS_GREEDY \<and> (es_extra_power st \<noteq> 0) = has_extra"

lemma greedy_kind_iff:
  "es_status st = ucast PC_STATUS_GREEDY \<and> \<not> (es_extra_power st > 0 \<and> \<not> has_extra) \<and> \<not> (es_extra_power st = 0 \<and> has_extra)
     \<longleftrightarrow> greedy_kind has_extra st"
  by (auto simp: word_gt_0)

lemma assign_extra_power_eq:
  "assign_extra_power sts t p r has_extra =
     (case assign_extra has_extra sts t p of (sts', t', p') \<Rightarrow> (sts', t', p', r - (p - p')))"
proof -
  have "\<exists>sts' t' p'. \<forall>r. assign_extra_power sts t p r has_extra = (sts', t', p', r - (p - p'))"
  proof (induction sts arbitrary: t p)
    case (Cons st rest)
    define q where "q = (if greedy_kind has_extra st
        then case get_eargm_position t (es_id st) of None \<Rightarrow> (st, t, 0)
             | Some k \<Rightarrow> let x = ear_min p (es_requested st)
                 in (st\<lparr>es_requested := es_requested st - x\<rparr>, table_add t k EARGM_INC_PC x, x)
        else (st, t, 0))"
    obtain st1 t1 x where q: "q = (st1, t1, x)" by (cases q)
    obtain rest' t2 p2 where r: "\<forall>r. assign_extra_power rest t1 (p - x) r has_extra = (rest', t2, p2, r - (p - x - p2))"
      using Cons by blast
    have "assign_extra_power (st # rest) t p r has_extra = (st1 # rest', t2, p2, r - (p - p2))" if "p \<noteq> 0" for r
      using q r that unfolding assign_extra_power.simps greedy_kind_iff
      by (auto simp: q_def Let_def algebra_simps split: if_splits option.splits)
    then show ?case by (cases "p = 0") auto
  qed simp
  then obtain sts' t' p' where "\<forall>r. assign_extra_power sts t p r has_extra = (sts', t', p', r - (p - p'))" by blast
  then show ?thesis by (simp add: assign_extra_def)
qed

interpretation assign_loop: table_loop "assign_extra has_extra" "greedy_kind has_extra" es_requested
  "\<lambda>st x. st\<lparr>es_requested := es_requested st - x\<rparr>" EARGM_INC_PC for has_extra
proof unfold_locales
  show "assign_extra has_extra [] t p = ([], t, p)" for t p by (simp add: assign_extra_def)
  show "assign_extra has_extra (st # rest) t p =
      (if p = 0 then (st # rest, t, p)
       else case (if greedy_kind has_extra st
                  then case get_eargm_position t (es_id st) of None \<Rightarrow> (st, t, p)
                       | Some k \<Rightarrow> let x = ear_min p (es_requested st)
                           in (st\<lparr>es_requested := es_requested st - x\<rparr>, table_add t k EARGM_INC_PC x, p - x)
                  else (st, t, p)) of
              (st', t', p') \<Rightarrow> case assign_extra has_extra rest t' p' of (rest', r) \<Rightarrow> (st' # rest', r))" for st rest t p
    unfolding assign_extra_def [of has_extra "st # rest"] assign_extra_power.simps greedy_kind_iff
    by (auto simp: assign_extra_power_eq [of rest] Let_def split: prod.splits option.splits)
qed (simp_all add: unat_dist word_le_nat_alt)

subsection \<open>The parts of a round\<close>

text \<open>
  The managers of \<open>Q\<close> free nothing; with \<open>greedy\<close>, the greedy managers are among them.
\<close>

definition supply_ok :: "bool \<Rightarrow> i32 set \<Rightarrow> eargm_status list \<Rightarrow> bool" where
  "supply_ok greedy Q sts \<longleftrightarrow> (\<forall>st \<in> set sts. (es_freeable_power st \<noteq> 0 \<longrightarrow> es_id st \<notin> Q) \<and>
     (greedy \<and> es_status st = ucast PC_STATUS_GREEDY \<longrightarrow> es_id st \<in> Q))"

definition meta_inv :: "bool \<Rightarrow> i32 set \<Rightarrow> u64 \<Rightarrow> eargm_status list \<Rightarrow> eargm_table \<Rightarrow> bool" where
  "meta_inv greedy Q freeable sts t \<longleftrightarrow> table_inv Q t \<and> es_id ` set sts \<subseteq> set (et_ids t) \<and> supply_ok greedy Q sts \<and>
     unat freeable = freeables sts"

lemma supply_ok_rel:
  assumes "list_all2 R sts sts'" "supply_ok greedy Q sts"
    and "\<And>st st'. R st st' \<Longrightarrow> es_id st' = es_id st \<and> es_status st' = es_status st \<and>
      (es_freeable_power st' \<noteq> 0 \<longrightarrow> es_freeable_power st \<noteq> 0)"
  shows "supply_ok greedy Q sts'" and "es_id ` set sts' = es_id ` set sts"
proof -
  have "map es_id sts' = map es_id sts \<and> (\<forall>st' \<in> set sts'. \<exists>st \<in> set sts. R st st')"
    using assms(1,3) by (induction sts sts' rule: list_all2_induct) auto
  then show "supply_ok greedy Q sts'" "es_id ` set sts' = es_id ` set sts"
    using assms(2,3) by (fastforce simp: supply_ok_def, metis list.set_map)
qed

lemma red_not_inc: "(EARGM_RED_PC = EARGM_INC_PC) = False"
  by simp

lemma freeable_step:
  assumes "meta_inv greedy Q f sts t" "moved t + unat p < 2 ^ 32" "reduce_freeable_power sts t p f = (sts', t', p', f')"
  shows "meta_inv greedy Q f' sts' t'" "unat p' = unat p - freeables sts" "net t' = net t - (int (unat p) - int (unat p'))"
    "moved t' + unat p' = moved t + unat p" "freeables sts' + unat p = freeables sts + unat p'" "et_ids t' = et_ids t"
    "map es_extra_power sts' = map es_extra_power sts" "map es_id sts' = map es_id sts" "map es_status sts' = map es_status sts"
proof -
  have r: "reduce_freeable sts t p = (sts', t', p')" and f': "f' = f - (p - p')"
    using assms(3) by (auto simp: reduce_freeable_power_eq split: prod.splits)
  have sum: "(\<Sum>st\<leftarrow>xs. if es_freeable_power st \<noteq> 0 then unat (es_freeable_power st) else 0) = freeables xs" for xs
    by (rule arg_cong [where f = sum_list]) auto
  have a: "table_inv Q t" "es_id ` set sts \<subseteq> set (et_ids t)"
    "\<forall>st \<in> set sts. es_freeable_power st \<noteq> 0 \<longrightarrow> (EARGM_RED_PC = EARGM_INC_PC \<longleftrightarrow> es_id st \<in> Q)"
    using assms(1) by (auto simp: meta_inv_def supply_ok_def)
  note spec = free_loop.loop_spec [OF a(1,2) assms(2) a(3) r, unfolded sum red_not_inc if_False]
  have s: "table_inv Q t'" "et_ids t' = et_ids t" "unat p' = unat p - freeables sts"
    "net t' = net t + (int (unat p') - int (unat p))" "moved t' + unat p' = moved t + unat p"
    "freeables sts' + unat p = freeables sts + unat p'"
    "list_all2 (\<lambda>st st'. st' = st \<or> es_freeable_power st \<noteq> 0 \<and>
       (\<exists>x \<le> es_freeable_power st. st' = st\<lparr>es_freeable_power := es_freeable_power st - x\<rparr>)) sts sts'"
    using spec by blast+
  have "unat f' = unat f - (unat p - unat p')"
    using f' s(3,6) assms(1) by (simp add: meta_inv_def unat_dist)
  then have "unat f' = freeables sts'" using s(3,6) assms(1) by (simp add: meta_inv_def)
  moreover have "supply_ok greedy Q sts" using assms(1) by (simp add: meta_inv_def)
  then have "supply_ok greedy Q sts'" "es_id ` set sts' = es_id ` set sts"
    by (rule supply_ok_rel [OF s(7)]; elim disjE conjE exE; simp)+
  ultimately show "meta_inv greedy Q f' sts' t'" using s(1,2) a(2) by (simp only: meta_inv_def)
  show "unat p' = unat p - freeables sts" "net t' = net t - (int (unat p) - int (unat p'))"
    "moved t' + unat p' = moved t + unat p" "freeables sts' + unat p = freeables sts + unat p'"
    using s(3-6) by linarith+
  show "et_ids t' = et_ids t" by (rule s(2))
  show "map es_extra_power sts' = map es_extra_power sts" "map es_id sts' = map es_id sts"
    "map es_status sts' = map es_status sts"
    using s(7) by (induction sts sts' rule: list_all2_induct) auto
qed

lemma assign_step:
  assumes "meta_inv True Q f sts t" "moved t + unat p < 2 ^ 32" "assign_extra_power sts t p r has_extra = (sts', t', p', r')"
  shows "meta_inv True Q f sts' t'" "unat p' \<le> unat p" "net t' = net t + (int (unat p) - int (unat p'))"
    "moved t' + unat p' = moved t + unat p" "freeables sts' = freeables sts" "et_ids t' = et_ids t"
proof -
  have r: "assign_extra has_extra sts t p = (sts', t', p')"
    using assms(3) by (auto simp: assign_extra_power_eq split: prod.splits)
  have a: "table_inv Q t" "es_id ` set sts \<subseteq> set (et_ids t)"
    "\<forall>st \<in> set sts. greedy_kind has_extra st \<longrightarrow> (EARGM_INC_PC = EARGM_INC_PC \<longleftrightarrow> es_id st \<in> Q)"
    using assms(1) by (auto simp: meta_inv_def supply_ok_def)
  note spec = assign_loop.loop_spec [OF a(1,2) assms(2) a(3) r, unfolded simp_thms if_True]
  have s: "table_inv Q t'" "et_ids t' = et_ids t"
    "unat p' = unat p - (\<Sum>st\<leftarrow>sts. if greedy_kind has_extra st then unat (es_requested st) else 0)"
    "net t' = net t + (int (unat p) - int (unat p'))" "moved t' + unat p' = moved t + unat p"
    "list_all2 (\<lambda>st st'. st' = st \<or> greedy_kind has_extra st \<and>
       (\<exists>x \<le> es_requested st. st' = st\<lparr>es_requested := es_requested st - x\<rparr>)) sts sts'"
    using spec by blast+
  have fr: "freeables sts' = freeables sts"
    using s(6) by (induction sts sts' rule: list_all2_induct) auto
  have "supply_ok True Q sts" using assms(1) by (simp add: meta_inv_def)
  then have "supply_ok True Q sts'" "es_id ` set sts' = es_id ` set sts"
    by (rule supply_ok_rel [OF s(6)]; elim disjE conjE exE; simp)+
  then show "meta_inv True Q f sts' t'" using s(1,2) a(2) fr assms(1) by (simp only: meta_inv_def)
  show "unat p' \<le> unat p" "net t' = net t + (int (unat p) - int (unat p'))"
    "moved t' + unat p' = moved t + unat p"
    using s(3-5) by linarith+
  show "freeables sts' = freeables sts" "et_ids t' = et_ids t" by (rule fr, rule s(2))
qed

lemma greedy_block_spec:
  assumes "meta_inv True Q freeable sts t" "moved t + unat free + 2 * freeables sts < 2 ^ 32"
    and "greedy_block has_extra free req freeable sts t = (sts', t', free', req', freeable', mv)"
  shows "meta_inv True Q freeable' sts' t' \<and> net t' + int (unat free') \<le> net t + int (unat free) \<and>
    moved t' + unat free' + 2 * freeables sts' \<le> moved t + unat free + 2 * freeables sts"
proof -
  obtain sts1 t1 free1 req1 where first:
    "(if free \<noteq> 0 then assign_extra_power sts t free req has_extra else (sts, t, free, req)) = (sts1, t1, free1, req1)"
    by (rule prod_cases4)
  have one: "meta_inv True Q freeable sts1 t1" "net t1 + int (unat free1) = net t + int (unat free)"
    "moved t1 + unat free1 = moved t + unat free" "freeables sts1 = freeables sts"
  proof -
    have m: "moved t + unat free < 2 ^ 32" using assms(2) by simp
    have "meta_inv True Q freeable sts1 t1 \<and> net t1 + int (unat free1) = net t + int (unat free) \<and>
      moved t1 + unat free1 = moved t + unat free \<and> freeables sts1 = freeables sts"
    proof (cases "free = 0")
      case True
      then have "sts1 = sts" "t1 = t" "free1 = free" using first by simp_all
      then show ?thesis using assms(1) by simp
    next
      case False
      then have "assign_extra_power sts t free req has_extra = (sts1, t1, free1, req1)" using first by simp
      note st = assign_step [OF assms(1) m this]
      have "net t1 + int (unat free1) = net t + int (unat free)" using st(2,3) by linarith
      then show ?thesis using st by blast
    qed
    then show "meta_inv True Q freeable sts1 t1" "net t1 + int (unat free1) = net t + int (unat free)"
      "moved t1 + unat free1 = moved t + unat free" "freeables sts1 = freeables sts" by blast+
  qed
  show ?thesis
  proof (cases "req1 > 0 \<and> freeable \<noteq> 0")
    case False
    have "sts' = sts1" "t' = t1" "free' = free1" "freeable' = freeable"
      using assms(3) by (simp_all only: greedy_block_def first Let_def prod.case False if_False prod.inject)
    moreover have "net t1 + int (unat free1) \<le> net t + int (unat free)" "moved t1 + unat free1 + 2 * freeables sts1 \<le>
        moved t + unat free + 2 * freeables sts" using one(2-4) by linarith+
    ultimately show ?thesis using one(1) by blast
  next
    case True
    define pending where "pending = ear_min freeable req1"
    have pend: "unat pending \<le> freeables sts1"
      using one(1) by (simp add: pending_def unat_ear_min meta_inv_def)
    obtain sts2 t2 p2 f2 where red: "reduce_freeable_power sts1 t1 pending freeable = (sts2, t2, p2, f2)"
      by (rule prod_cases4)
    have "moved t1 + unat pending < 2 ^ 32" using assms(2) one(3,4) pend by linarith
    note two = freeable_step [OF one(1) this red]
    obtain sts3 t3 p3 r3 where asg: "assign_extra_power sts2 t2 pending req1 has_extra = (sts3, t3, p3, r3)"
      by (rule prod_cases4)
    have "moved t2 + unat pending < 2 ^ 32" using assms(2) one(3,4) two pend by linarith
    note three = assign_step [OF two(1) this asg]
    have out: "sts' = sts3" "t' = t3" "free' = free1" "freeable' = f2"
      using assms(3) first True red asg by (simp_all add: greedy_block_def Let_def pending_def)
    have "net t3 + int (unat free1) \<le> net t + int (unat free)" using one two three pend by linarith
    moreover have "moved t3 + unat free1 + 2 * freeables sts3 \<le> moved t + unat free + 2 * freeables sts"
      using one two three pend by linarith
    ultimately show ?thesis using three(1) by (simp add: out)
  qed
qed

subsection \<open>Totals\<close>

abbreviation caps :: "eargm_status list \<Rightarrow> nat" where
  "caps sts \<equiv> (\<Sum>st\<leftarrow>sts. unat (es_current_powercap st))"

abbreviation defaults :: "eargm_status list \<Rightarrow> nat" where
  "defaults sts \<equiv> (\<Sum>st\<leftarrow>sts. unat (es_def_power st))"

abbreviation asking :: "eargm_status \<Rightarrow> bool" where
  "asking st \<equiv> es_status st = ucast PC_STATUS_ASK_DEF"

lemma of_nat_unat_same: "of_nat (unat w) = (w :: 'a::len word)"
  by (simp add: of_nat_unat)

lemma meta_aggregate_elem_fields:
  "me_total_powercap (meta_aggregate_elem m st) = me_total_powercap m + es_current_powercap st"
  "me_total_freeable (meta_aggregate_elem m st) = me_total_freeable m + es_freeable_power st"
  "me_total_req_ask_def (meta_aggregate_elem m st) = me_total_req_ask_def m + (if asking st then es_requested st else 0)"
  "me_num_ask_def (meta_aggregate_elem m st) = me_num_ask_def m + (if asking st then 1 else 0)"
  "me_default_powercap (meta_aggregate_elem m st) = me_default_powercap m"
  by (simp_all add: meta_aggregate_elem_def Let_def)

lemma foldl_meta_aggregate:
  "me_total_powercap (foldl meta_aggregate_elem m sts) = me_total_powercap m + of_nat (caps sts)"
  "me_total_freeable (foldl meta_aggregate_elem m sts) = me_total_freeable m + of_nat (freeables sts)"
  "me_total_req_ask_def (foldl meta_aggregate_elem m sts) = me_total_req_ask_def m + of_nat (ask_defs sts)"
  "me_num_ask_def (foldl meta_aggregate_elem m sts) = me_num_ask_def m + of_nat (length (filter asking sts))"
  "me_default_powercap (foldl meta_aggregate_elem m sts) = me_default_powercap m"
  by (induction sts arbitrary: m) (simp_all add: meta_aggregate_elem_fields of_nat_unat_same add.assoc)

text \<open>The round is over a moderate number of managers and watts, so that no total overflows.\<close>

definition moderate :: "meta \<Rightarrow> eargm_status list \<Rightarrow> bool" where
  "moderate m sts \<longleftrightarrow> length sts < 2 ^ 28 \<and> unat (me_default_powercap m) < 2 ^ 28 \<and> caps sts < 2 ^ 28 \<and>
     freeables sts < 2 ^ 28 \<and> ask_defs sts < 2 ^ 28 \<and> spares sts < 2 ^ 28"

lemma meta_totals:
  assumes "moderate m sts"
  defines "a \<equiv> meta_aggregate_data m sts"
  shows "unat (me_current_free_power a) = unat (me_default_powercap m) - caps sts"
    and "unat (me_total_freeable a) = freeables sts"
    and "unat (me_total_req_ask_def a) = ask_defs sts"
    and "0 < me_num_ask_def a \<longleftrightarrow> filter asking sts \<noteq> []"
proof -
  have "length (filter asking sts) < 2 ^ 28"
    using assms(1) by (simp add: moderate_def le_less_trans [OF length_filter_le])
  then have n: "unat (of_nat (length (filter asking sts)) :: u32) = length (filter asking sts)"
    by (intro unat_of_nat_less) simp
  have c: "unat (of_nat (caps sts) :: u64) = caps sts" "unat (of_nat (freeables sts) :: u64) = freeables sts"
    "unat (of_nat (ask_defs sts) :: u64) = ask_defs sts"
    using assms(1) by (simp_all add: moderate_def unat_of_nat_less)
  show "unat (me_current_free_power a) = unat (me_default_powercap m) - caps sts"
    "unat (me_total_freeable a) = freeables sts" "unat (me_total_req_ask_def a) = ask_defs sts"
    using c by (auto simp: a_def meta_aggregate_data_def Let_def foldl_meta_aggregate unat_dist word_less_nat_alt not_less)
  have "me_num_ask_def a = of_nat (length (filter asking sts))"
    by (simp add: a_def meta_aggregate_data_def Let_def foldl_meta_aggregate)
  then show "0 < me_num_ask_def a \<longleftrightarrow> filter asking sts \<noteq> []"
    using n by (simp add: word_less_nat_alt)
qed

subsection \<open>A whole round\<close>

definition reports_ok :: "eargm_status list \<Rightarrow> eargm_table \<Rightarrow> bool" where
  "reports_ok sts t \<longleftrightarrow> list_all report_ok sts \<and> distinct (map es_id sts) \<and> es_id ` set sts \<subseteq> set (et_ids t)"

definition requesters :: "eargm_status list \<Rightarrow> i32 set" where
  "requesters sts = es_id ` {st \<in> set sts. es_status st \<noteq> ucast PC_STATUS_OK}"

definition askers :: "eargm_status list \<Rightarrow> i32 set" where
  "askers sts = es_id ` {st \<in> set sts. asking st}"

lemma same_report: "distinct (map es_id sts) \<Longrightarrow> st \<in> set sts \<Longrightarrow> st' \<in> set sts \<Longrightarrow> es_id st = es_id st' \<Longrightarrow> st = st'"
  by (auto simp: distinct_map inj_on_def)

lemma reports_supply:
  assumes "reports_ok sts t"
  shows "supply_ok True (requesters sts) sts" and "supply_ok False (askers sts) sts"
    and "\<forall>st \<in> set sts. asking st \<longrightarrow> es_id st \<in> requesters sts \<and> es_id st \<in> askers sts"
    and "\<forall>st \<in> set sts. es_extra_power st \<noteq> 0 \<longrightarrow> es_id st \<notin> askers sts"
proof -
  have d: "distinct (map es_id sts)" and ok: "\<And>st. st \<in> set sts \<Longrightarrow> report_ok st"
    using assms by (auto simp: reports_ok_def list_all_iff)
  have free: "es_status st = ucast PC_STATUS_OK" if "st \<in> set sts" "es_freeable_power st \<noteq> 0" for st
    using ok [OF that(1)] that(2) by (auto simp: report_ok_def)
  have spare: "\<not> asking st" if "st \<in> set sts" "es_extra_power st \<noteq> 0" for st
    using ok [OF that(1)] that(2) by (auto simp: report_ok_def unat_eq_0)
  show "supply_ok True (requesters sts) sts" "supply_ok False (askers sts) sts"
    using free same_report [OF d] by (fastforce simp: supply_ok_def requesters_def askers_def)+
  show "\<forall>st \<in> set sts. asking st \<longrightarrow> es_id st \<in> requesters sts \<and> es_id st \<in> askers sts"
    by (auto simp: requesters_def askers_def)
  show "\<forall>st \<in> set sts. es_extra_power st \<noteq> 0 \<longrightarrow> es_id st \<notin> askers sts"
    using spare same_report [OF d] by (fastforce simp: askers_def)
qed

lemma reset_facts:
  "table_inv Q (reset_actions t)" "net (reset_actions t) = 0" "moved (reset_actions t) = 0"
  "et_ids (reset_actions t) = et_ids t"
proof -
  have "(\<Sum>av\<leftarrow>zip (map (\<lambda>_. NO_COMMAND) xs) (map (\<lambda>_. 0) xs). entry_change av) = 0" for xs :: "i32 list"
    by (induction xs) (auto simp: entry_change_def)
  then show "net (reset_actions t) = 0" by (simp add: net_def reset_actions_def)
  show "moved (reset_actions t) = 0" by (simp add: moved_def reset_actions_def comp_def)
qed (simp_all add: table_inv_def reset_actions_def)

text \<open>Why the shortage of power for default allocations is always covered: the managers below their
  default lack at most what is free and what the others have in excess.\<close>

lemma ask_defs_covered:
  assumes "list_all report_ok sts" "defaults sts \<le> d"
  shows "ask_defs sts \<le> (d - caps sts) + spares sts"
proof -
  have "int (ask_defs sts) \<le> int (defaults sts) - int (caps sts) + int (spares sts)"
    using assms(1) by (induction sts) (auto simp: report_ok_def)
  then show ?thesis using assms(2) by linarith
qed

lemma assigned:
  assumes "reports_ok sts t" "moderate m sts" "Q = requesters sts \<or> Q = askers sts"
  shows "table_inv Q (assign_ask_def sts (reset_actions t))" and "net (assign_ask_def sts (reset_actions t)) = int (ask_defs sts)"
    and "moved (assign_ask_def sts (reset_actions t)) = ask_defs sts" and "et_ids (assign_ask_def sts (reset_actions t)) = et_ids t"
proof -
  have "es_id ` set sts \<subseteq> set (et_ids (reset_actions t))" "moved (reset_actions t) + ask_defs sts < 2 ^ 32"
    using assms(1,2) by (simp_all add: reports_ok_def moderate_def reset_facts)
  moreover have "\<forall>st \<in> set sts. asking st \<longrightarrow> es_id st \<in> Q"
    using reports_supply(3) [OF assms(1)] assms(3) by blast
  ultimately have "table_inv Q (assign_ask_def sts (reset_actions t)) \<and>
    net (assign_ask_def sts (reset_actions t)) = net (reset_actions t) + int (ask_defs sts) \<and>
    moved (assign_ask_def sts (reset_actions t)) = moved (reset_actions t) + ask_defs sts \<and>
    et_ids (assign_ask_def sts (reset_actions t)) = et_ids (reset_actions t)"
    by (intro assign_ask_def_spec [OF reset_facts(1)]) simp_all
  then show "table_inv Q (assign_ask_def sts (reset_actions t))" "net (assign_ask_def sts (reset_actions t)) = int (ask_defs sts)"
    "moved (assign_ask_def sts (reset_actions t)) = ask_defs sts" "et_ids (assign_ask_def sts (reset_actions t)) = et_ids t"
    by (simp_all add: reset_facts)
qed

lemma map_eq_member:
  "map f xs' = map f xs \<Longrightarrow> map g xs' = map g xs \<Longrightarrow> \<forall>x \<in> set xs'. \<exists>y \<in> set xs. g x = g y \<and> f x = f y"
  by (metis in_set_conv_nth length_map nth_map)

lemma short_freeable:
  assumes "reports_ok sts t" "moderate m sts" "(greedy, Q) = (True, requesters sts) \<or> (greedy, Q) = (False, askers sts)"
    and "unat pending \<le> ask_defs sts" "unat freeable = freeables sts"
    and "(if freeable \<noteq> 0 then reduce_freeable_power sts (assign_ask_def sts (reset_actions t)) pending freeable
          else (sts, assign_ask_def sts (reset_actions t), pending, freeable)) = (sts', t', pending', freeable')"
  shows "meta_inv greedy Q freeable' sts' t'" "unat pending' = unat pending - freeables sts"
    "net t' = int (ask_defs sts) - (int (unat pending) - int (unat pending'))"
    "moved t' + unat pending' = ask_defs sts + unat pending" "freeables sts' + unat pending = freeables sts + unat pending'"
    "et_ids t' = et_ids t" "spares sts' = spares sts" "es_id ` set sts' = es_id ` set sts"
    "\<forall>st \<in> set sts'. es_extra_power st \<noteq> 0 \<longrightarrow> es_id st \<notin> askers sts"
proof -
  have "Q = requesters sts \<or> Q = askers sts" using assms(3) by auto
  note asg = assigned [OF assms(1,2) this]
  have inv: "meta_inv greedy Q freeable sts (assign_ask_def sts (reset_actions t))"
    using asg(1,4) assms(1,3,5) reports_supply(1,2) [OF assms(1)] by (auto simp: meta_inv_def reports_ok_def)
  have room: "moved (assign_ask_def sts (reset_actions t)) + unat pending < 2 ^ 32"
    using asg(3) assms(2,4) by (simp add: moderate_def)
  have "meta_inv greedy Q freeable' sts' t' \<and> unat pending' = unat pending - freeables sts \<and>
    net t' = int (ask_defs sts) - (int (unat pending) - int (unat pending')) \<and>
    moved t' + unat pending' = ask_defs sts + unat pending \<and> freeables sts' + unat pending = freeables sts + unat pending' \<and>
    et_ids t' = et_ids t \<and> map es_extra_power sts' = map es_extra_power sts \<and> map es_id sts' = map es_id sts"
  proof (cases "freeable = 0")
    case True
    then have "freeables sts = 0" using assms(5) by simp
    moreover have "sts' = sts" "t' = assign_ask_def sts (reset_actions t)" "pending' = pending" "freeable' = freeable"
      using True assms(6) by auto
    ultimately show ?thesis using inv asg by (simp del: sum_list_eq_0_iff)
  next
    case False
    then have "reduce_freeable_power sts (assign_ask_def sts (reset_actions t)) pending freeable = (sts', t', pending', freeable')"
      using assms(6) by simp
    from freeable_step [OF inv room this] asg show ?thesis by simp
  qed
  then have r: "map es_extra_power sts' = map es_extra_power sts" "map es_id sts' = map es_id sts"
    and "meta_inv greedy Q freeable' sts' t'" "unat pending' = unat pending - freeables sts"
    "net t' = int (ask_defs sts) - (int (unat pending) - int (unat pending'))"
    "moved t' + unat pending' = ask_defs sts + unat pending" "freeables sts' + unat pending = freeables sts + unat pending'"
    "et_ids t' = et_ids t" by blast+
  then show "meta_inv greedy Q freeable' sts' t'" "unat pending' = unat pending - freeables sts"
    "net t' = int (ask_defs sts) - (int (unat pending) - int (unat pending'))"
    "moved t' + unat pending' = ask_defs sts + unat pending" "freeables sts' + unat pending = freeables sts + unat pending'"
    "et_ids t' = et_ids t" by blast+
  have "spares sts' = sum_list (map unat (map es_extra_power sts'))" by (simp add: comp_def)
  also have "\<dots> = spares sts" by (simp only: r) (simp add: comp_def)
  finally show "spares sts' = spares sts" .
  show "es_id ` set sts' = es_id ` set sts" using r(2) by (metis list.set_map)
  have "\<forall>x \<in> set sts'. \<exists>y \<in> set sts. es_id x = es_id y \<and> es_extra_power x = es_extra_power y"
    using r by (rule map_eq_member)
  then show "\<forall>st \<in> set sts'. es_extra_power st \<noteq> 0 \<longrightarrow> es_id st \<notin> askers sts"
    using reports_supply(4) [OF assms(1)] by metis
qed

lemma moderateD:
  assumes "moderate m sts"
  shows "unat (me_default_powercap m) < 2 ^ 28" "freeables sts < 2 ^ 28" "ask_defs sts < 2 ^ 28"
  using assms by (simp_all add: moderate_def)

lemma room_double: "a = b + c \<Longrightarrow> c \<le> b \<Longrightarrow> b < 2 ^ 28 \<Longrightarrow> a < (2 :: nat) ^ 32"
  by simp

lemma no_asker: "filter asking sts = [] \<Longrightarrow> ask_defs sts = 0 \<and> assign_ask_def sts t = t"
  by (induction sts arbitrary: t) (auto split: if_splits)

lemma short_covered:
  assumes "reports_ok sts t" "moderate m sts" "defaults sts \<le> unat (me_default_powercap m)"
    and "unat pending = ask_defs sts - (unat (me_default_powercap m) - caps sts)" "unat freeable = freeables sts"
    and "(if freeable \<noteq> 0 then reduce_freeable_power sts (assign_ask_def sts (reset_actions t)) pending freeable
          else (sts, assign_ask_def sts (reset_actions t), pending, freeable)) = (sts1, t1, pending1, freeable1)"
    and "reduce_extra_power sts1 t1 pending1 = (sts2, t2, pending2)"
  shows "pending2 = 0" and "net t2 = int (ask_defs sts) - int (unat pending)"
proof -
  have p: "unat pending \<le> ask_defs sts" unfolding assms(4) by (rule diff_le_self)
  note sf = short_freeable [OF assms(1,2) disjI2 [OF refl] p assms(5,6)]
  have a: "table_inv (askers sts) t1" "es_id ` set sts1 \<subseteq> set (et_ids t1)"
    using sf(1) by (simp_all add: meta_inv_def)
  have room: "moved t1 + unat pending1 < 2 ^ 32"
    by (rule room_double [OF sf(4) p moderateD(3) [OF assms(2)]])
  have e: "\<forall>st \<in> set sts1. es_extra_power st \<noteq> 0 \<longrightarrow> (EARGM_RED_PC = EARGM_INC_PC \<longleftrightarrow> es_id st \<in> askers sts)"
    using sf(9) by simp
  have sum: "(\<Sum>st\<leftarrow>xs. if es_extra_power st \<noteq> 0 then unat (es_extra_power st) else 0) = spares xs" for xs
    by (rule arg_cong [where f = sum_list]) auto
  note spec = extra_loop.loop_spec [OF a room e assms(7), unfolded sum red_not_inc if_False]
  have s: "unat pending2 = unat pending1 - spares sts1" "net t2 = net t1 + (int (unat pending2) - int (unat pending1))"
    using spec by blast+
  have "ask_defs sts \<le> (unat (me_default_powercap m) - caps sts) + spares sts"
    using assms(1,3) by (intro ask_defs_covered) (simp_all add: reports_ok_def)
  then have z: "unat pending2 = 0" using s(1) sf(2,7) assms(4) by linarith
  then show "pending2 = 0" by (simp add: unat_eq_0)
  show "net t2 = int (ask_defs sts) - int (unat pending)" using z s(2) sf(3) by linarith
qed

lemma serve_ask_def_enough:
  assumes "reports_ok sts t" "moderate m sts"
    and "serve_ask_def (meta_aggregate_data m sts) sts (reset_actions t) = (ret, m1, sts1, t1)"
    and "ask_defs sts \<le> unat (me_default_powercap m) - caps sts"
  shows "ret = False" "net t1 = int (ask_defs sts)" "moved t1 = ask_defs sts" "sts1 = sts"
    and "unat (me_current_free_power m1) = unat (me_default_powercap m) - caps sts - ask_defs sts"
    and "meta_inv True (requesters sts) (me_total_freeable m1) sts t1"
proof -
  let ?a = "meta_aggregate_data m sts" and ?t = "assign_ask_def sts (reset_actions t)"
  note tot = meta_totals [OF assms(2)]
  note asg = assigned [OF assms(1,2) disjI1 [OF refl]]
  have enough: "me_total_req_ask_def ?a \<le> me_current_free_power ?a"
    unfolding word_le_nat_alt tot by (rule assms(4))
  have sub: "unat (me_current_free_power ?a - me_total_req_ask_def ?a) = unat (me_default_powercap m) - caps sts - ask_defs sts"
    by (subst unat_sub [OF enough]) (simp only: tot)
  have o: "ret = False \<and> sts1 = sts \<and> t1 = ?t \<and> me_total_freeable m1 = me_total_freeable ?a \<and>
    unat (me_current_free_power m1) = unat (me_default_powercap m) - caps sts - ask_defs sts"
  proof (cases "filter asking sts = []")
    case True
    then have "\<not> 0 < me_num_ask_def ?a" by (simp only: tot(4) simp_thms)
    then have "ret = False \<and> ?a = m1 \<and> sts1 = sts \<and> t1 = reset_actions t"
      using assms(3) by (auto simp: serve_ask_def_def)
    then show ?thesis using no_asker [OF True] tot(1) by (metis diff_zero)
  next
    case False
    then have "0 < me_num_ask_def ?a" by (simp only: tot(4) simp_thms)
    then have "ret = False" "sts1 = sts" "t1 = ?t" "me_total_freeable m1 = me_total_freeable ?a"
      "me_current_free_power m1 = me_current_free_power ?a - me_total_req_ask_def ?a"
      using assms(3) enough by (auto simp: serve_ask_def_def Let_def)
    then show ?thesis using sub by metis
  qed
  then show "ret = False" "sts1 = sts" "unat (me_current_free_power m1) = unat (me_default_powercap m) - caps sts - ask_defs sts"
    by blast+
  show "net t1 = int (ask_defs sts)" "moved t1 = ask_defs sts" using o asg(2,3) by metis+
  show "meta_inv True (requesters sts) (me_total_freeable m1) sts t1"
    using o assms(1) reports_supply(1) [OF assms(1)] tot(2) asg(1,4) by (metis meta_inv_def reports_ok_def)
qed

lemma serve_ask_def_short:
  assumes "reports_ok sts t" "moderate m sts" "defaults sts \<le> unat (me_default_powercap m)"
    and "serve_ask_def (meta_aggregate_data m sts) sts (reset_actions t) = (ret, m1, sts1, t1)"
    and "unat (me_default_powercap m) - caps sts < ask_defs sts"
  shows "net t1 = int (unat (me_default_powercap m) - caps sts)"
    and "ret = False \<Longrightarrow> meta_inv True (requesters sts) (me_total_freeable m1) sts1 t1 \<and>
      unat (me_current_free_power m1) = unat (me_default_powercap m) - caps sts \<and>
      moved t1 \<le> 2 * ask_defs sts \<and> freeables sts1 \<le> freeables sts \<and>
      ask_defs sts \<le> unat (me_default_powercap m) - caps sts + freeables sts"
proof -
  let ?a = "meta_aggregate_data m sts" and ?t = "assign_ask_def sts (reset_actions t)"
  define free where "free = unat (me_default_powercap m) - caps sts"
  note tot = meta_totals [OF assms(2)]
  define pending where "pending = me_total_req_ask_def ?a - me_current_free_power ?a"
  have short: "\<not> me_total_req_ask_def ?a \<le> me_current_free_power ?a" "me_current_free_power ?a \<le> me_total_req_ask_def ?a"
    unfolding word_le_nat_alt tot using assms(5) by linarith+
  have p: "unat pending = ask_defs sts - free"
    unfolding pending_def free_def by (subst unat_sub [OF short(2)]) (simp only: tot)
  have "filter asking sts \<noteq> []" using no_asker [of sts] assms(5) by force
  then have asks: "0 < me_num_ask_def ?a" by (simp only: tot(4) simp_thms)
  obtain sts' t' p' f' where sf: "(if me_total_freeable ?a \<noteq> 0 then reduce_freeable_power sts ?t pending (me_total_freeable ?a)
        else (sts, ?t, pending, me_total_freeable ?a)) = (sts', t', p', f')" by (rule prod_cases4)
  obtain sts2 t2 p2 where ex: "reduce_extra_power sts' t' p' = (sts2, t2, p2)" by (metis prod_cases3)
  have le: "unat pending \<le> ask_defs sts" unfolding p by (rule diff_le_self)
  note fs = short_freeable [OF assms(1,2) disjI1 [OF refl] le tot(2) sf]
  note cov = short_covered [OF assms(1-3) p [unfolded free_def] tot(2) sf ex]
  have out: "(ret, m1, sts1, t1) =
      (if p' \<noteq> 0 then (True, ?a\<lparr>me_total_freeable := f'\<rparr>, sts2, t2) else (False, ?a\<lparr>me_total_freeable := f'\<rparr>, sts', t'))"
    using assms(4) asks short(1) sf ex
    by (simp only: serve_ask_def_def Let_def pending_def [symmetric] if_True if_False prod.case simp_thms)
  have free: "free < ask_defs sts" unfolding free_def by (rule assms(5))
  have z: "net t' = int free \<and> ask_defs sts \<le> free + freeables sts" if "p' = 0"
  proof -
    have "unat p' = 0" using that by simp
    then show ?thesis using fs(2,3) p free by linarith
  qed
  have "net t2 = int free" using cov(2) p free by linarith
  then show "net t1 = int (unat (me_default_powercap m) - caps sts)"
    using out z unfolding free_def by (cases "p' = 0") simp_all
  show "meta_inv True (requesters sts) (me_total_freeable m1) sts1 t1 \<and>
      unat (me_current_free_power m1) = unat (me_default_powercap m) - caps sts \<and>
      moved t1 \<le> 2 * ask_defs sts \<and> freeables sts1 \<le> freeables sts \<and>
      ask_defs sts \<le> unat (me_default_powercap m) - caps sts + freeables sts" if "ret = False"
  proof -
    have p0: "p' = 0" using out that by (auto split: if_splits)
    then have o: "m1 = ?a\<lparr>me_total_freeable := f'\<rparr>" "sts1 = sts'" "t1 = t'" using out by simp_all
    have "moved t' \<le> 2 * ask_defs sts" "freeables sts' \<le> freeables sts" using fs(4,5) le p0 by simp_all
    then show ?thesis unfolding o using fs(1) tot(1) conjunct2 [OF z [OF p0]] by (simp add: free_def)
  qed
qed

subsection \<open>Properties\<close>

lemma serve_greedy_no_extra_spec:
  assumes "meta_inv True Q (me_total_freeable m) sts t"
    and "moved t + unat (me_current_free_power m) + 2 * freeables sts < 2 ^ 32"
    and "serve_greedy_no_extra m sts t = (ret, m', sts', t')"
  shows "meta_inv True Q (me_total_freeable m') sts' t' \<and>
      net t' + int (unat (me_current_free_power m')) \<le> net t + int (unat (me_current_free_power m)) \<and>
      moved t' + unat (me_current_free_power m') + 2 * freeables sts' \<le> moved t + unat (me_current_free_power m) + 2 * freeables sts"
proof (cases "me_num_greedy_no_extra m = 0")
  case True
  then have "m' = m" "sts' = sts" "t' = t" using assms(3) by (auto simp: serve_greedy_no_extra_def)
  then show ?thesis using assms(1) by blast
next
  case False
  obtain sts3 t3 free3 req3 f3 mv where g: "greedy_block False (me_current_free_power m) (me_total_req_no_extra m)
      (me_total_freeable m) sts t = (sts3, t3, free3, req3, f3, mv)"
    by (rule prod_cases6)
  then have "t' = t3" "sts' = sts3" "me_current_free_power m' = free3" "me_total_freeable m' = f3"
    using assms(3) False by (auto simp: serve_greedy_no_extra_def)
  then show ?thesis using greedy_block_spec [OF assms(1,2) g] by blast
qed

lemma serve_greedy_spec:
  assumes "meta_inv True Q (me_total_freeable m) sts t"
    and "moved t + unat (me_current_free_power m) + 2 * freeables sts < 2 ^ 32"
    and "serve_greedy m sts t = (m', sts', t')"
  shows "net t' \<le> net t + int (unat (me_current_free_power m))"
proof (cases "me_num_greedy m = 0")
  case True
  then show ?thesis using assms(3) by (auto simp: serve_greedy_def)
next
  case False
  obtain sts3 t3 free3 req3 f3 mv where g: "greedy_block True (me_current_free_power m) (me_total_req m)
      (me_total_freeable m) sts t = (sts3, t3, free3, req3, f3, mv)"
    by (rule prod_cases6)
  have "t' = t3" using assms(3) False g by (auto simp: serve_greedy_def)
  moreover have "net t3 + int (unat free3) \<le> net t + int (unat (me_current_free_power m))"
    using greedy_block_spec [OF assms(1,2) g] by blast
  ultimately show ?thesis by simp
qed

lemma greedy_parts:
  assumes "meta_inv True Q (me_total_freeable m) sts t"
    and "moved t + unat (me_current_free_power m) + 2 * freeables sts < 2 ^ 32"
    and "(case serve_greedy_no_extra m sts t of (ret, m, status, t) \<Rightarrow>
          if ret then (m, status, t) else serve_greedy m status t) = (m', sts', t')"
  shows "net t' \<le> net t + int (unat (me_current_free_power m))"
proof -
  obtain ret m2 sts2 t2 where one: "serve_greedy_no_extra m sts t = (ret, m2, sts2, t2)" by (rule prod_cases4)
  note two = serve_greedy_no_extra_spec [OF assms(1,2) one]
  have room: "moved t2 + unat (me_current_free_power m2) + 2 * freeables sts2 < 2 ^ 32"
    using conjunct2 [OF conjunct2 [OF two]] assms(2) by (rule le_less_trans)
  have "net t' \<le> net t2 + int (unat (me_current_free_power m2))"
  proof (cases ret)
    case True
    then show ?thesis using assms(3) one by simp
  next
    case False
    then have "serve_greedy m2 sts2 t2 = (m', sts', t')" using assms(3) one by simp
    then show ?thesis using serve_greedy_spec [OF conjunct1 [OF two] room] by blast
  qed
  then show ?thesis using conjunct1 [OF conjunct2 [OF two]] by linarith
qed

lemma room_sum:
  "free < 2 ^ 28 \<Longrightarrow> a < 2 ^ 28 \<Longrightarrow> f < 2 ^ 28 \<Longrightarrow> a \<le> free \<Longrightarrow> a + (free - a) + 2 * f < (2 :: nat) ^ 32"
  by simp

lemma room_short:
  "mv \<le> 2 * a \<Longrightarrow> fr = free \<Longrightarrow> f' \<le> f \<Longrightarrow> free < 2 ^ 28 \<Longrightarrow> a < 2 ^ 28 \<Longrightarrow> f < 2 ^ 28 \<Longrightarrow>
    mv + fr + 2 * f' < (2 :: nat) ^ 32"
  by simp

lemma meta_round_bound:
  assumes "reports_ok sts t" "moderate m sts" "defaults sts \<le> unat (me_default_powercap m)"
    and "meta_reallocate_power m sts (reset_actions t) = (m', sts', t')"
  defines "free \<equiv> unat (me_default_powercap m) - caps sts"
  shows "ask_defs sts \<le> free \<or> free + freeables sts < ask_defs sts \<Longrightarrow> net t' \<le> int free"
    and "net t' \<le> 2 * int free"
proof -
  obtain ret m1 sts1 t1 where ask: "serve_ask_def (meta_aggregate_data m sts) sts (reset_actions t) = (ret, m1, sts1, t1)"
    by (rule prod_cases4)
  have rest: "(if ret then (m1, sts1, t1) else
      case serve_greedy_no_extra m1 sts1 t1 of (ret, m, status, t) \<Rightarrow>
        if ret then (m, status, t) else serve_greedy m status t) = (m', sts', t')"
    using assms(4) ask by (simp only: meta_reallocate_power_def prod.case)
  have lim: "free < 2 ^ 28" "ask_defs sts < 2 ^ 28" "freeables sts < 2 ^ 28"
    using moderateD [OF assms(2)] by (auto simp only: free_def less_imp_diff_less)
  have enough: "net t' \<le> int free" if le: "ask_defs sts \<le> free"
  proof -
    note e = serve_ask_def_enough [OF assms(1,2) ask le [unfolded free_def], folded free_def]
    have "moved t1 + unat (me_current_free_power m1) + 2 * freeables sts1 < 2 ^ 32"
      unfolding e(3-5) using lim le by (rule room_sum)
    moreover have "meta_inv True (requesters sts) (me_total_freeable m1) sts1 t1" using e(4,6) by simp
    moreover have "(case serve_greedy_no_extra m1 sts1 t1 of (ret, m, status, t) \<Rightarrow>
        if ret then (m, status, t) else serve_greedy m status t) = (m', sts', t')"
      using rest unfolding e(1) if_False .
    ultimately have "net t' \<le> net t1 + int (unat (me_current_free_power m1))" by (intro greedy_parts)
    then show ?thesis using e(2,5) le by linarith
  qed
  have short: "net t' = int free \<or> ask_defs sts \<le> free + freeables sts \<and> net t' \<le> 2 * int free" if lt: "free < ask_defs sts"
  proof (cases ret)
    case True
    then show ?thesis using serve_ask_def_short(1) [OF assms(1-3) ask lt [unfolded free_def]] rest by (simp add: free_def)
  next
    case False
    note e = serve_ask_def_short [OF assms(1-3) ask lt [unfolded free_def], folded free_def]
    from False have r: "ret = False" by simp
    have "moved t1 + unat (me_current_free_power m1) + 2 * freeables sts1 < 2 ^ 32"
      using e(2) [OF r] by (intro room_short [OF _ _ _ lim]) blast+
    moreover have "(case serve_greedy_no_extra m1 sts1 t1 of (ret, m, status, t) \<Rightarrow>
        if ret then (m, status, t) else serve_greedy m status t) = (m', sts', t')"
      using rest unfolding r if_False .
    ultimately have "net t' \<le> net t1 + int (unat (me_current_free_power m1))"
      using e(2) [OF r] by (intro greedy_parts) blast+
    moreover have "unat (me_current_free_power m1) = free" "ask_defs sts \<le> free + freeables sts" using e(2) [OF r] by blast+
    ultimately show ?thesis using e(1) by linarith
  qed
  show "net t' \<le> int free" if "ask_defs sts \<le> free \<or> free + freeables sts < ask_defs sts"
    using that enough short by linarith
  show "net t' \<le> 2 * int free" using enough short by linarith
qed

subsection \<open>What the greedy managers receive\<close>

text \<open>
  The power the greedy managers ask for, those without power above their default (\<open>False\<close>) and
  those with some (\<open>True\<close>).
\<close>

abbreviation greedy_reqs :: "bool \<Rightarrow> eargm_status list \<Rightarrow> nat" where
  "greedy_reqs has_extra sts \<equiv> (\<Sum>st\<leftarrow>sts. if greedy_kind has_extra st then unat (es_requested st) else 0)"

lemma assign_exact:
  assumes "meta_inv True Q f sts t" "moved t + unat p < 2 ^ 32" "assign_extra_power sts t p r has_extra = (sts', t', p', r')"
    and "unat r = greedy_reqs has_extra sts"
  shows "unat p' = unat p - greedy_reqs has_extra sts" "unat r' = greedy_reqs has_extra sts'"
    "unat r' = unat r - unat p" "greedy_reqs (\<not> has_extra) sts' = greedy_reqs (\<not> has_extra) sts"
proof -
  have r: "assign_extra has_extra sts t p = (sts', t', p')" and r': "r' = r - (p - p')"
    using assms(3) by (auto simp: assign_extra_power_eq split: prod.splits)
  have a: "table_inv Q t" "es_id ` set sts \<subseteq> set (et_ids t)"
    "\<forall>st \<in> set sts. greedy_kind has_extra st \<longrightarrow> (EARGM_INC_PC = EARGM_INC_PC \<longleftrightarrow> es_id st \<in> Q)"
    using assms(1) by (auto simp: meta_inv_def supply_ok_def)
  note spec = assign_loop.loop_spec [OF a(1,2) assms(2) a(3) r]
  have s: "unat p' = unat p - greedy_reqs has_extra sts" "greedy_reqs has_extra sts' + unat p = greedy_reqs has_extra sts + unat p'"
    "list_all2 (\<lambda>st st'. st' = st \<or> greedy_kind has_extra st \<and>
       (\<exists>x \<le> es_requested st. st' = st\<lparr>es_requested := es_requested st - x\<rparr>)) sts sts'"
    using spec by blast+
  show "unat p' = unat p - greedy_reqs has_extra sts" by (rule s(1))
  have d: "unat (p - p') = unat p - unat p'" using s(1) by (simp add: unat_dist)
  have "unat r' = unat r - unat (p - p')" unfolding r' using d s(1) assms(4) by (simp add: unat_dist)
  then show "unat r' = greedy_reqs has_extra sts'" "unat r' = unat r - unat p" using d s(1,2) assms(4) by linarith+
  show "greedy_reqs (\<not> has_extra) sts' = greedy_reqs (\<not> has_extra) sts"
    using s(3) by (induction sts sts' rule: list_all2_induct) auto
qed

lemma freeable_keeps_requests:
  assumes "meta_inv greedy Q f sts t" "moved t + unat p < 2 ^ 32" "reduce_freeable_power sts t p f = (sts', t', p', f')"
  shows "greedy_reqs has_extra sts' = greedy_reqs has_extra sts"
proof -
  have r: "reduce_freeable sts t p = (sts', t', p')"
    using assms(3) by (auto simp: reduce_freeable_power_eq split: prod.splits)
  have a: "table_inv Q t" "es_id ` set sts \<subseteq> set (et_ids t)"
    "\<forall>st \<in> set sts. es_freeable_power st \<noteq> 0 \<longrightarrow> (EARGM_RED_PC = EARGM_INC_PC \<longleftrightarrow> es_id st \<in> Q)"
    using assms(1) by (auto simp: meta_inv_def supply_ok_def)
  have "list_all2 (\<lambda>st st'. st' = st \<or> es_freeable_power st \<noteq> 0 \<and>
       (\<exists>x \<le> es_freeable_power st. st' = st\<lparr>es_freeable_power := es_freeable_power st - x\<rparr>)) sts sts'"
    using free_loop.loop_spec [OF a(1,2) assms(2) a(3) r] by blast
  then show ?thesis by (induction sts sts' rule: list_all2_induct) auto
qed

lemma spend_free:
  assumes "meta_inv True Q freeable sts t" "moved t + unat free < 2 ^ 32" "unat req = greedy_reqs has_extra sts"
    and "(if free \<noteq> 0 then assign_extra_power sts t free req has_extra else (sts, t, free, req)) = (sts1, t1, free1, req1)"
  shows "meta_inv True Q freeable sts1 t1" "net t1 + int (unat free1) = net t + int (unat free)"
    "moved t1 + unat free1 = moved t + unat free" "freeables sts1 = freeables sts"
    "unat free1 = unat free - greedy_reqs has_extra sts" "unat req1 = greedy_reqs has_extra sts1"
    "unat req1 = greedy_reqs has_extra sts - unat free" "greedy_reqs (\<not> has_extra) sts1 = greedy_reqs (\<not> has_extra) sts"
proof -
  consider "free = 0" "sts1 = sts" "t1 = t" "free1 = free" "req1 = req"
    | "assign_extra_power sts t free req has_extra = (sts1, t1, free1, req1)"
    using assms(4) by (cases "free = 0") simp_all
  then have "meta_inv True Q freeable sts1 t1 \<and> net t1 + int (unat free1) = net t + int (unat free) \<and>
    moved t1 + unat free1 = moved t + unat free \<and> freeables sts1 = freeables sts \<and>
    unat free1 = unat free - unat req \<and> unat req1 = greedy_reqs has_extra sts1 \<and>
    unat req1 = unat req - unat free \<and> greedy_reqs (\<not> has_extra) sts1 = greedy_reqs (\<not> has_extra) sts"
  proof cases
    case 1
    have z: "unat free = 0" using 1(1) by (simp only: unat_0)
    show ?thesis unfolding 1(2-5) z using assms(1,3) by simp
  next
    case 2
    note st = assign_step [OF assms(1) assms(2) 2] and ex = assign_exact [OF assms(1) assms(2) 2 assms(3)]
    have "net t1 + int (unat free1) = net t + int (unat free)" using st(2,3) by linarith
    then show ?thesis using st(1,4,5) ex(1) [folded assms(3)] ex(2-4) by blast
  qed
  then show "meta_inv True Q freeable sts1 t1" "net t1 + int (unat free1) = net t + int (unat free)"
    "moved t1 + unat free1 = moved t + unat free" "freeables sts1 = freeables sts"
    "unat free1 = unat free - greedy_reqs has_extra sts" "unat req1 = greedy_reqs has_extra sts1"
    "unat req1 = greedy_reqs has_extra sts - unat free" "greedy_reqs (\<not> has_extra) sts1 = greedy_reqs (\<not> has_extra) sts"
    unfolding assms(3) by blast+
qed

lemma greedy_block_exact:
  assumes "meta_inv True Q freeable sts t" "moved t + unat free + 2 * freeables sts < 2 ^ 32"
    and "greedy_block has_extra free req freeable sts t = (sts', t', free', req', freeable', mv)"
    and "unat req = greedy_reqs has_extra sts"
  shows "unat free' = unat free - greedy_reqs has_extra sts \<and>
    net t' = net t + int (min (unat free) (greedy_reqs has_extra sts)) \<and>
    greedy_reqs (\<not> has_extra) sts' = greedy_reqs (\<not> has_extra) sts \<and> (mv \<longrightarrow> unat free < greedy_reqs has_extra sts)"
proof -
  obtain sts1 t1 free1 req1 where first:
    "(if free \<noteq> 0 then assign_extra_power sts t free req has_extra else (sts, t, free, req)) = (sts1, t1, free1, req1)"
    by (rule prod_cases4)
  have "moved t + unat free < 2 ^ 32" using assms(2) by linarith
  note one = spend_free [OF assms(1) this assms(4) first]
  show ?thesis
  proof (cases "req1 > 0 \<and> freeable \<noteq> 0")
    case False
    have "sts' = sts1" "t' = t1" "free' = free1" "\<not> mv"
      using assms(3) by (simp_all only: greedy_block_def first Let_def prod.case False if_False prod.inject simp_thms)
    moreover have "net t1 = net t + int (min (unat free) (greedy_reqs has_extra sts))" using one(2,5) by linarith
    ultimately show ?thesis using one(5,8) by blast
  next
    case True
    define pending where "pending = ear_min freeable req1"
    have pend: "unat pending \<le> freeables sts1" "unat pending \<le> greedy_reqs has_extra sts1"
      unfolding one(6) [symmetric] using one(1) by (simp_all add: pending_def unat_ear_min meta_inv_def)
    obtain sts2 t2 p2 f2 where red: "reduce_freeable_power sts1 t1 pending freeable = (sts2, t2, p2, f2)"
      by (rule prod_cases4)
    have room: "moved t1 + unat pending < 2 ^ 32" using assms(2) one(3,4) pend(1) by linarith
    note two = freeable_step [OF one(1) room red]
      and keep = freeable_keeps_requests [OF one(1) room red]
    obtain sts3 t3 p3 r3 where asg: "assign_extra_power sts2 t2 pending req1 has_extra = (sts3, t3, p3, r3)"
      by (rule prod_cases4)
    have room3: "moved t2 + unat pending < 2 ^ 32" using assms(2) one(3,4) two(4) pend(1) by linarith
    have req: "unat req1 = greedy_reqs has_extra sts2" using one(6) keep [of has_extra] by presburger
    note three = assign_step [OF two(1) room3 asg] and ex = assign_exact [OF two(1) room3 asg req]
    have out: "sts' = sts3" "t' = t3" "free' = free1" "mv"
      using assms(3) first True red asg by (simp_all add: greedy_block_def Let_def pending_def)
    have "0 < unat req1" using True by (simp add: word_less_nat_alt)
    then have lt: "unat free < greedy_reqs has_extra sts" using one(7) by linarith
    have "unat p2 = 0" "unat p3 = 0" using two(2) ex(1) pend keep [of has_extra] by linarith+
    then have "net t3 = net t + int (min (unat free) (greedy_reqs has_extra sts))" using one(2,5) two(3) three(3) by linarith
    moreover have "greedy_reqs (\<not> has_extra) sts3 = greedy_reqs (\<not> has_extra) sts" using ex(4) keep [of "\<not> has_extra"] one(8) by presburger
    ultimately show ?thesis unfolding out(1-3) using one(5) lt by blast
  qed
qed

lemma greedy_fields:
  "me_total_req_no_extra (foldl meta_aggregate_elem m sts) = me_total_req_no_extra m + of_nat (greedy_reqs False sts)"
  "me_total_req (foldl meta_aggregate_elem m sts) = me_total_req m + of_nat (greedy_reqs True sts)"
  "me_num_greedy_no_extra (foldl meta_aggregate_elem m sts) =
     me_num_greedy_no_extra m + of_nat (length (filter (greedy_kind False) sts))"
  "me_num_greedy (foldl meta_aggregate_elem m sts) = me_num_greedy m + of_nat (length (filter (greedy_kind True) sts))"
  by (induction sts arbitrary: m)
    (simp_all add: meta_aggregate_elem_def Let_def of_nat_unat_same add.assoc)

lemma greedy_totals:
  assumes "moderate m sts" "greedy_reqs False sts < 2 ^ 28" "greedy_reqs True sts < 2 ^ 28"
  defines "a \<equiv> meta_aggregate_data m sts"
  shows "unat (me_total_req_no_extra a) = greedy_reqs False sts" "unat (me_total_req a) = greedy_reqs True sts"
    and "me_num_greedy_no_extra a = 0 \<Longrightarrow> greedy_reqs False sts = 0" "me_num_greedy a = 0 \<Longrightarrow> greedy_reqs True sts = 0"
proof -
  have none: "greedy_reqs b sts = 0" if "of_nat (length (filter (greedy_kind b) sts)) = (0 :: u32)" for b
  proof -
    have "length (filter (greedy_kind b) sts) < 2 ^ 28"
      using assms(1) by (simp add: moderate_def le_less_trans [OF length_filter_le])
    then have "unat (of_nat (length (filter (greedy_kind b) sts)) :: u32) = length (filter (greedy_kind b) sts)"
      by (intro unat_of_nat_less) simp
    then have "filter (greedy_kind b) sts = []" using that by simp
    then show ?thesis by (auto simp: filter_empty_conv)
  qed
  have c: "unat (of_nat (greedy_reqs b sts) :: u64) = greedy_reqs b sts" for b
    using assms(2,3) by (cases b) (simp_all add: unat_of_nat_less)
  have f: "me_total_req_no_extra a = of_nat (greedy_reqs False sts)" "me_total_req a = of_nat (greedy_reqs True sts)"
    "me_num_greedy_no_extra a = of_nat (length (filter (greedy_kind False) sts))"
    "me_num_greedy a = of_nat (length (filter (greedy_kind True) sts))"
    by (simp_all add: a_def meta_aggregate_data_def Let_def greedy_fields)
  show "unat (me_total_req_no_extra a) = greedy_reqs False sts" "unat (me_total_req a) = greedy_reqs True sts"
    unfolding f by (rule c)+
  show "greedy_reqs False sts = 0" if "me_num_greedy_no_extra a = 0" using that unfolding f(3) by (rule none)
  show "greedy_reqs True sts = 0" if "me_num_greedy a = 0" using that unfolding f(4) by (rule none)
qed

text \<open>The totals the two greedy parts work with are those of the reports.\<close>

definition greedy_inv :: "meta \<Rightarrow> eargm_status list \<Rightarrow> bool" where
  "greedy_inv m sts \<longleftrightarrow> unat (me_total_req_no_extra m) = greedy_reqs False sts \<and> unat (me_total_req m) = greedy_reqs True sts \<and>
     (me_num_greedy_no_extra m = 0 \<longrightarrow> greedy_reqs False sts = 0) \<and> (me_num_greedy m = 0 \<longrightarrow> greedy_reqs True sts = 0)"

lemma serve_greedy_no_extra_exact:
  assumes "meta_inv True Q (me_total_freeable m) sts t" "greedy_inv m sts"
    and "moved t + unat (me_current_free_power m) + 2 * freeables sts < 2 ^ 32"
    and "serve_greedy_no_extra m sts t = (ret, m', sts', t')"
  shows "unat (me_current_free_power m') = unat (me_current_free_power m) - greedy_reqs False sts \<and>
    net t' = net t + int (min (unat (me_current_free_power m)) (greedy_reqs False sts)) \<and>
    greedy_reqs True sts' = greedy_reqs True sts \<and> (ret \<longrightarrow> unat (me_current_free_power m) < greedy_reqs False sts) \<and>
    me_total_req m' = me_total_req m \<and> me_num_greedy m' = me_num_greedy m"
proof (cases "me_num_greedy_no_extra m = 0")
  case True
  then have "m' = m" "sts' = sts" "t' = t" "\<not> ret" using assms(4) by (auto simp: serve_greedy_no_extra_def)
  moreover have "greedy_reqs False sts = 0" using assms(2) True by (simp only: greedy_inv_def)
  ultimately show ?thesis by (simp del: sum_list_eq_0_iff)
next
  case False
  obtain sts3 t3 free3 req3 f3 mv where g: "greedy_block False (me_current_free_power m) (me_total_req_no_extra m)
      (me_total_freeable m) sts t = (sts3, t3, free3, req3, f3, mv)" by (rule prod_cases6)
  have "unat (me_total_req_no_extra m) = greedy_reqs False sts" using assms(2) by (simp only: greedy_inv_def)
  note ex = greedy_block_exact [OF assms(1,3) g this, unfolded not_False_eq_True]
  have "t' = t3" "sts' = sts3" "me_current_free_power m' = free3" "ret \<longrightarrow> mv" "me_total_req m' = me_total_req m"
    "me_num_greedy m' = me_num_greedy m"
    using assms(4) False g by (auto simp: serve_greedy_no_extra_def)
  then show ?thesis using ex by blast
qed

lemma serve_greedy_exact:
  assumes "meta_inv True Q (me_total_freeable m) sts t"
    and "moved t + unat (me_current_free_power m) + 2 * freeables sts < 2 ^ 32"
    and "unat (me_total_req m) = greedy_reqs True sts" "me_num_greedy m = 0 \<Longrightarrow> greedy_reqs True sts = 0"
    and "serve_greedy m sts t = (m', sts', t')"
  shows "net t' = net t + int (min (unat (me_current_free_power m)) (greedy_reqs True sts))"
proof (cases "me_num_greedy m = 0")
  case True
  then have "t' = t" using assms(5) by (auto simp: serve_greedy_def)
  then show ?thesis unfolding assms(4) [OF True] by simp
next
  case False
  obtain sts3 t3 free3 req3 f3 mv where g: "greedy_block True (me_current_free_power m) (me_total_req m)
    (me_total_freeable m) sts t = (sts3, t3, free3, req3, f3, mv)" by (rule prod_cases6)
  have "t' = t3" using assms(5) False g by (auto simp: serve_greedy_def)
  then show ?thesis using greedy_block_exact [OF assms(1,2) g assms(3)] by blast
qed

lemma greedy_parts_exact:
  assumes "meta_inv True Q (me_total_freeable m) sts t" "greedy_inv m sts"
    and "moved t + unat (me_current_free_power m) + 2 * freeables sts < 2 ^ 32"
    and "(case serve_greedy_no_extra m sts t of (ret, m, status, t) \<Rightarrow>
          if ret then (m, status, t) else serve_greedy m status t) = (m', sts', t')"
  shows "net t' = net t + int (min (unat (me_current_free_power m)) (greedy_reqs False sts + greedy_reqs True sts))"
proof -
  obtain ret m2 sts2 t2 where one: "serve_greedy_no_extra m sts t = (ret, m2, sts2, t2)" by (rule prod_cases4)
  note two = serve_greedy_no_extra_spec [OF assms(1,3) one]
  have room: "moved t2 + unat (me_current_free_power m2) + 2 * freeables sts2 < 2 ^ 32"
    using conjunct2 [OF conjunct2 [OF two]] assms(3) by (rule le_less_trans)
  have first: "unat (me_current_free_power m2) = unat (me_current_free_power m) - greedy_reqs False sts"
    "net t2 = net t + int (min (unat (me_current_free_power m)) (greedy_reqs False sts))"
    "greedy_reqs True sts2 = greedy_reqs True sts" "ret \<Longrightarrow> unat (me_current_free_power m) < greedy_reqs False sts"
    "me_total_req m2 = me_total_req m" "me_num_greedy m2 = me_num_greedy m"
    using serve_greedy_no_extra_exact [OF assms(1-3) one] by blast+
  show ?thesis
  proof (cases ret)
    case True
    then have "t' = t2" using assms(4) one by simp
    then have "net t' = net t2" by (rule arg_cong)
    then show ?thesis using first(2) first(4) [OF True] by linarith
  next
    case False
    then have sg: "serve_greedy m2 sts2 t2 = (m', sts', t')" using assms(4) one by simp
    have req: "unat (me_total_req m2) = greedy_reqs True sts2" "me_num_greedy m2 = 0 \<Longrightarrow> greedy_reqs True sts2 = 0"
      unfolding first(3,5,6) using assms(2) by (simp_all only: greedy_inv_def)
    show ?thesis using serve_greedy_exact [OF conjunct1 [OF two] room req sg] first(1-3) by linarith
  qed
qed

lemma ask_def_keeps_greedy:
  assumes "reports_ok sts t" "moderate m sts" "greedy_reqs False sts < 2 ^ 28" "greedy_reqs True sts < 2 ^ 28"
    and "serve_ask_def (meta_aggregate_data m sts) sts (reset_actions t) = (ret, m1, sts1, t1)"
    and "unat (me_default_powercap m) - caps sts < ask_defs sts"
    and "ask_defs sts \<le> unat (me_default_powercap m) - caps sts + freeables sts"
  shows "ret = False" "greedy_inv m1 sts1" "greedy_reqs b sts1 = greedy_reqs b sts"
proof -
  let ?a = "meta_aggregate_data m sts" and ?t = "assign_ask_def sts (reset_actions t)"
  note tot = meta_totals [OF assms(2)] and gr = greedy_totals [OF assms(2-4)]
  define pending where "pending = me_total_req_ask_def ?a - me_current_free_power ?a"
  have short: "\<not> me_total_req_ask_def ?a \<le> me_current_free_power ?a" "me_current_free_power ?a \<le> me_total_req_ask_def ?a"
    unfolding word_le_nat_alt tot using assms(6) by linarith+
  have p: "unat pending = ask_defs sts - (unat (me_default_powercap m) - caps sts)"
    unfolding pending_def by (subst unat_sub [OF short(2)]) (simp only: tot)
  then have le: "unat pending \<le> ask_defs sts" "unat pending \<le> freeables sts" "0 < unat pending"
    using assms(6,7) by linarith+
  have asks: "0 < me_num_ask_def ?a" unfolding tot(4) using no_asker [of sts] assms(6) by force
  have "0 < unat (me_total_freeable ?a)" unfolding tot(2) using le(2,3) by linarith
  then have fr: "me_total_freeable ?a \<noteq> 0" by (metis unat_0 less_numeral_extra(3))
  obtain sts' t' p' f' where red: "reduce_freeable_power sts ?t pending (me_total_freeable ?a) = (sts', t', p', f')"
    by (rule prod_cases4)
  have sf: "(if me_total_freeable ?a \<noteq> 0 then reduce_freeable_power sts ?t pending (me_total_freeable ?a)
        else (sts, ?t, pending, me_total_freeable ?a)) = (sts', t', p', f')" using red fr by simp
  have "unat p' = 0" using short_freeable(2) [OF assms(1,2) disjI1 [OF refl] le(1) tot(2) sf] le(2) by linarith
  then have "p' = 0" by (simp add: unat_eq_0)
  then have o: "ret = False" "m1 = ?a\<lparr>me_total_freeable := f'\<rparr>" "sts1 = sts'"
    using assms(5) asks short(1) red fr by (simp_all add: serve_ask_def_def Let_def pending_def [symmetric])
  have inv: "meta_inv True (requesters sts) (me_total_freeable ?a) sts ?t"
    using assigned(1,4) [OF assms(1,2) disjI1 [OF refl]] assms(1) tot(2) reports_supply(1) [OF assms(1)]
    by (auto simp: meta_inv_def reports_ok_def)
  have "moved ?t + unat pending < 2 ^ 32"
    using assigned(3) [OF assms(1,2) disjI1 [OF refl]] moderateD(3) [OF assms(2)] le(1) by simp
  note keep = freeable_keeps_requests [OF inv this red]
  show "ret = False" by (rule o(1))
  show "greedy_reqs b sts1 = greedy_reqs b sts" unfolding o(3) by (rule keep)
  show "greedy_inv m1 sts1" unfolding o(2,3) greedy_inv_def keep using gr by simp
qed

lemma short_round:
  assumes "reports_ok sts t" "moderate m sts" "defaults sts \<le> unat (me_default_powercap m)"
    and "greedy_reqs False sts < 2 ^ 28" "greedy_reqs True sts < 2 ^ 28"
    and "unat (me_default_powercap m) - caps sts < ask_defs sts"
    and "ask_defs sts \<le> unat (me_default_powercap m) - caps sts + freeables sts"
    and "meta_reallocate_power m sts (reset_actions t) = (m', sts', t')"
  defines "free \<equiv> unat (me_default_powercap m) - caps sts"
  shows "net t' = int free + int (min free (greedy_reqs False sts + greedy_reqs True sts))"
proof -
  obtain ret m1 sts1 t1 where ask: "serve_ask_def (meta_aggregate_data m sts) sts (reset_actions t) = (ret, m1, sts1, t1)"
    by (rule prod_cases4)
  note k = ask_def_keeps_greedy [OF assms(1,2,4,5) ask assms(6,7)]
  note e = serve_ask_def_short [OF assms(1-3) ask assms(6), folded free_def]
  have lim: "free < 2 ^ 28" "ask_defs sts < 2 ^ 28" "freeables sts < 2 ^ 28"
    using moderateD [OF assms(2)] by (auto simp only: free_def less_imp_diff_less)
  have room: "moved t1 + unat (me_current_free_power m1) + 2 * freeables sts1 < 2 ^ 32"
    using e(2) [OF k(1)] by (intro room_short [OF _ _ _ lim]) blast+
  have rest: "(case serve_greedy_no_extra m1 sts1 t1 of (ret, m, status, t) \<Rightarrow>
      if ret then (m, status, t) else serve_greedy m status t) = (m', sts', t')"
    using assms(8) ask k(1) by (simp only: meta_reallocate_power_def prod.case if_False)
  have "net t' = net t1 + int (min (unat (me_current_free_power m1)) (greedy_reqs False sts1 + greedy_reqs True sts1))"
    by (rule greedy_parts_exact [OF conjunct1 [OF e(2) [OF k(1)]] k(2) room rest])
  moreover have "unat (me_current_free_power m1) = free" using e(2) [OF k(1)] by blast
  ultimately show ?thesis unfolding k(3) e(1) by simp
qed

subsection \<open>Claims\<close>

text \<open>
  Three managers below a meta manager: one that can free power, one below its default that asks
  for the difference, and a greedy one.
\<close>

definition report_of :: "i32 \<Rightarrow> u8 \<Rightarrow> u64 \<Rightarrow> u64 \<Rightarrow> u64 \<Rightarrow> u64 \<Rightarrow> eargm_status" where
  "report_of i status def cap req free =
     \<lparr>es_id = i, es_status = status, es_def_power = def, es_current_power = cap, es_current_powercap = cap,
      es_requested = req, es_freeable_power = free, es_extra_power = (if def < cap then cap - def else 0), es_energy = 0\<rparr>"

definition meta_example :: "u64 \<Rightarrow> meta" where
  "meta_example def =
     \<lparr>me_default_powercap = def, me_current_free_power = 0, me_total_power = 0, me_total_req = 0,
      me_total_req_no_extra = 0, me_total_req_ask_def = 0, me_total_freeable = 0, me_total_extra = 0,
      me_total_powercap = 0, me_num_ask_def = 0, me_num_greedy = 0, me_num_greedy_no_extra = 0\<rparr>"

definition table_example :: eargm_table where
  "table_example =
     \<lparr>et_ids = [1, 2, 3], et_eargm_ips = [10, 11, 12], et_eargm_ports = [50001, 50001, 50001],
      et_actions = [0, 0, 0], et_action_values = [0, 0, 0]\<rparr>"

definition reports_example :: "u64 \<Rightarrow> u64 \<Rightarrow> u64 \<Rightarrow> eargm_status list" where
  "reports_example free lack extra =
     [report_of 1 (ucast PC_STATUS_OK) 100 100 0 free,
      report_of 2 (ucast PC_STATUS_ASK_DEF) 100 (100 - lack) lack 0,
      report_of 3 (ucast PC_STATUS_GREEDY) 100 (100 + extra) 25 0]"

lemmas report_example_defs = reports_example_def report_of_def meta_example_def table_example_def
  reports_ok_def report_ok_def moderate_def

text \<open>
  C2. A round of the meta manager moves power without creating any in two of its three cases: when
  the power that no manager has covers what the managers below their default ask for, and when even
  with the power the others can free it does not, the increments of the table minus its reductions
  are at most the power that was free before the round.  The case between the two does create
  power; how much is shown below.
\<close>

theorem meta_round_conserves_power:
  assumes "reports_ok sts t" "moderate m sts" "defaults sts \<le> unat (me_default_powercap m)"
    and "ask_defs sts \<le> unat (me_default_powercap m) - caps sts \<or>
      unat (me_default_powercap m) - caps sts + freeables sts < ask_defs sts"
    and "meta_reallocate_power m sts (reset_actions t) = (m', sts', t')"
  shows "net t' \<le> int (unat (me_default_powercap m) - caps sts)"
  by (rule meta_round_bound(1) [OF assms(1-3,5,4)])

lemma meta_round_conserves_power_witness:
  "reports_ok (reports_example 30 20 0) table_example \<and>
   net (snd (snd (meta_reallocate_power (meta_example 300) (reports_example 30 20 0) (reset_actions table_example)))) \<le> 20"
proof -
  let ?m = "meta_example 300" and ?sts = "reports_example 30 20 0"
  obtain m1 sts1 t1 where r: "meta_reallocate_power ?m ?sts (reset_actions table_example) = (m1, sts1, t1)"
    by (rule prod_cases3)
  have ok: "reports_ok ?sts table_example" by (simp add: report_example_defs)
  moreover have "moderate ?m ?sts" by (simp add: report_example_defs)
  moreover have "defaults ?sts \<le> unat (me_default_powercap ?m)" by (simp add: report_example_defs)
  moreover have "ask_defs ?sts \<le> unat (me_default_powercap ?m) - caps ?sts \<or>
      unat (me_default_powercap ?m) - caps ?sts + freeables ?sts < ask_defs ?sts"
    by (simp add: report_example_defs)
  moreover have f: "unat (me_default_powercap ?m) - caps ?sts = 20" by (simp add: report_example_defs)
  ultimately have "net t1 \<le> int (unat (me_default_powercap ?m) - caps ?sts)" using r by (intro meta_round_conserves_power)
  then show ?thesis unfolding f r using ok by simp
qed



text \<open>
  C22. The other case spends the free power twice: when the free power does not cover what the
  managers below their default ask for but together with the power the others can free it does,
  the shortage is taken from the others, and the free power that was counted for it is then still
  there for the greedy managers.  The table hands out exactly the free power and, once more, as much
  of it as the greedy managers ask for.
\<close>

theorem free_power_spent_twice:
  assumes "reports_ok sts t" "moderate m sts" "defaults sts \<le> unat (me_default_powercap m)"
    and "greedy_reqs False sts < 2 ^ 28" "greedy_reqs True sts < 2 ^ 28"
    and "unat (me_default_powercap m) - caps sts < ask_defs sts"
    and "ask_defs sts \<le> unat (me_default_powercap m) - caps sts + freeables sts"
    and "meta_reallocate_power m sts (reset_actions t) = (m', sts', t')"
  shows "net t' = int (unat (me_default_powercap m) - caps sts) +
    int (min (unat (me_default_powercap m) - caps sts) (greedy_reqs False sts + greedy_reqs True sts))"
  by (rule short_round [OF assms])

lemma free_power_spent_twice_witness:
  "unat (me_default_powercap (meta_example 305)) - caps (reports_example 5 15 10) = 10 \<and>
   net (snd (snd (meta_reallocate_power (meta_example 305) (reports_example 5 15 10) (reset_actions table_example)))) = 20"
proof -
  let ?m = "meta_example 305" and ?sts = "reports_example 5 15 10"
  obtain m1 sts1 t1 where r: "meta_reallocate_power ?m ?sts (reset_actions table_example) = (m1, sts1, t1)"
    by (rule prod_cases3)
  have f: "unat (me_default_powercap ?m) - caps ?sts = 10" and g: "greedy_reqs False ?sts = 0" "greedy_reqs True ?sts = 25"
    by (simp_all add: report_example_defs)
  have "reports_ok ?sts table_example" "moderate ?m ?sts" "defaults ?sts \<le> unat (me_default_powercap ?m)"
    "unat (me_default_powercap ?m) - caps ?sts < ask_defs ?sts"
    "ask_defs ?sts \<le> unat (me_default_powercap ?m) - caps ?sts + freeables ?sts"
    by (simp_all add: report_example_defs)
  moreover have "greedy_reqs False ?sts < 2 ^ 28" "greedy_reqs True ?sts < 2 ^ 28" unfolding g by simp_all
  ultimately have "net t1 = int (unat (me_default_powercap ?m) - caps ?sts) +
      int (min (unat (me_default_powercap ?m) - caps ?sts) (greedy_reqs False ?sts + greedy_reqs True ?sts))"
    using r by (intro free_power_spent_twice)
  then show ?thesis unfolding f g r by simp
qed

end
