(* ===== verification/Access_Control.thy ===== *)
theory Access_Control
  imports Cluster_Conf
begin

text \<open>
  Who may use what (\<^verbatim>\<open>common/types/configuration/cluster_conf.c\<close>): authorised users, groups and
  accounts, administrators, energy tags and the type of a user, which decides the policies and
  frequencies of a job.  The user database of the operating system is the parameter \<open>user_db\<close>:
  whether the allocations and look-ups succeed and the names of the groups they return.
\<close>

subsection \<open>Definitions\<close>

abbreviation (input) NORMAL :: nat where "NORMAL \<equiv> 0"
abbreviation (input) AUTHORIZED :: nat where "AUTHORIZED \<equiv> 1"
abbreviation (input) ENERGY_TAG :: nat where "ENERGY_TAG \<equiv> 2"

datatype pw_result = Pw_Found | Pw_Missing | Pw_Error

text \<open>
  \<open>ud_getgrouplist\<close> is the result of the calls of \<^verbatim>\<open>getgrouplist\<close> after the look-up of a user, with
  \<^const>\<open>None\<close> where both calls or the reallocation between them fail; the elements are the results
  of \<^verbatim>\<open>getgrgid\<close>.  For a user without an entry the code passes an uninitialised structure to
  \<^verbatim>\<open>getgrouplist\<close>, so nothing is assumed about the result.
\<close>

record user_db =
  ud_malloc_buf :: bool
  ud_getpwnam_r :: "string \<Rightarrow> pw_result"
  ud_malloc_groups :: bool
  ud_getgrouplist :: "string \<Rightarrow> string option list option"

text \<open>The loops over a list of names, with and without the name that stands for everybody.\<close>

fun listed :: "string \<Rightarrow> string list \<Rightarrow> bool" where
  "listed s [] = False"
| "listed s (x # xs) = (if s = x then True else if x = ''all'' then True else listed s xs)"

fun named :: "string \<Rightarrow> string list \<Rightarrow> bool" where
  "named s [] = False"
| "named s (x # xs) = (if s = x then True else named s xs)"

fun groups_loop :: "string list \<Rightarrow> string option list \<Rightarrow> bool" where
  "groups_loop auth [] = False"
| "groups_loop auth (None # groups) = groups_loop auth groups"
| "groups_loop auth (Some gr_name # groups) = (if listed gr_name auth then True else groups_loop auth groups)"

definition is_authorized_usr_grp_acc ::
  "user_db \<Rightarrow> cluster_conf \<Rightarrow> string option \<Rightarrow> string option \<Rightarrow> string option \<Rightarrow> int" where
  "is_authorized_usr_grp_acc db my_conf user grp acc =
     (let by_user =
        (case user of None \<Rightarrow> Some False
         | Some u \<Rightarrow>
             if \<not> ud_malloc_buf db then None
             else if ud_getpwnam_r db u = Pw_Error then None
             else if \<not> ud_malloc_groups db then None
             else (case ud_getgrouplist db u of None \<Rightarrow> None
                   | Some groups \<Rightarrow> Some (if groups_loop (cc_auth_groups my_conf) groups then True
                                           else listed u (cc_auth_users my_conf))))
      in case by_user of None \<Rightarrow> EAR_ERROR
         | Some found \<Rightarrow>
             if found then 1
             else if (case grp of None \<Rightarrow> False | Some g \<Rightarrow> listed g (cc_auth_groups my_conf)) then 1
             else if (case acc of None \<Rightarrow> False | Some a \<Rightarrow> listed a (cc_auth_accounts my_conf)) then 1
             else 0)"

definition is_admin_usr :: "cluster_conf \<Rightarrow> string option \<Rightarrow> int" where
  "is_admin_usr my_conf user =
     (case user of None \<Rightarrow> EAR_ERROR | Some u \<Rightarrow> if named u (cc_admin_users my_conf) then 1 else 0)"

definition can_use_energy_tag ::
  "string option \<Rightarrow> string option \<Rightarrow> string option \<Rightarrow> energy_tag \<Rightarrow> energy_tag option" where
  "can_use_energy_tag user grp acc my_tag =
     (if (case user of None \<Rightarrow> False | Some u \<Rightarrow> listed u (en_users my_tag)) then Some my_tag
      else if (case grp of None \<Rightarrow> False | Some g \<Rightarrow> named g (en_groups my_tag)) then Some my_tag
      else if (case acc of None \<Rightarrow> False | Some a \<Rightarrow> named a (en_accounts my_tag)) then Some my_tag
      else None)"

definition energy_tag_exists :: "cluster_conf \<Rightarrow> string option \<Rightarrow> energy_tag option" where
  "energy_tag_exists my_conf etag =
     (case etag of None \<Rightarrow> None | Some e \<Rightarrow> find (\<lambda>t. e = en_tag t) (cc_e_tags my_conf))"

definition is_energy_tag_privileged ::
  "cluster_conf \<Rightarrow> string option \<Rightarrow> string option \<Rightarrow> string option \<Rightarrow> string option \<Rightarrow> energy_tag option" where
  "is_energy_tag_privileged my_conf user grp acc etag =
     (case etag of None \<Rightarrow> None
      | Some e \<Rightarrow> (case find (\<lambda>t. e = en_tag t) (cc_e_tags my_conf) of None \<Rightarrow> None
                   | Some my_tag \<Rightarrow> can_use_energy_tag user grp acc my_tag))"

definition get_user_type ::
  "user_db \<Rightarrow> cluster_conf \<Rightarrow> string option \<Rightarrow> string option \<Rightarrow> string option \<Rightarrow> string option \<Rightarrow> nat \<times> energy_tag option" where
  "get_user_type db my_conf etag user grp acc =
     (let flag = is_authorized_usr_grp_acc db my_conf user grp acc;
          flag = (if flag = 0 then let flag = is_admin_usr my_conf user in if flag < 0 then 0 else flag else flag)
      in if flag \<noteq> 0
         then (if etag \<noteq> None
               then (case energy_tag_exists my_conf etag of
                       Some is_tag \<Rightarrow> (ENERGY_TAG, Some is_tag) | None \<Rightarrow> (AUTHORIZED, None))
               else (AUTHORIZED, None))
         else (case is_energy_tag_privileged my_conf user grp acc etag of
                 Some is_tag \<Rightarrow> (ENERGY_TAG, Some is_tag) | None \<Rightarrow> (NORMAL, None)))"

text \<open>The intention: who the configuration names, and whether the look-ups worked.\<close>

definition lookups_ok :: "user_db \<Rightarrow> string option \<Rightarrow> bool" where
  "lookups_ok db user \<longleftrightarrow> (case user of None \<Rightarrow> True
     | Some u \<Rightarrow> ud_malloc_buf db \<and> ud_getpwnam_r db u \<noteq> Pw_Error \<and> ud_malloc_groups db \<and> ud_getgrouplist db u \<noteq> None)"

definition names_of_user :: "user_db \<Rightarrow> string option \<Rightarrow> string set" where
  "names_of_user db user =
     (case user of None \<Rightarrow> {} | Some u \<Rightarrow> (case ud_getgrouplist db u of None \<Rightarrow> {} | Some gs \<Rightarrow> {g. Some g \<in> set gs}))"

definition admitted :: "string set \<Rightarrow> string list \<Rightarrow> bool" where
  "admitted names xs \<longleftrightarrow> names \<noteq> {} \<and> (''all'' \<in> set xs \<or> names \<inter> set xs \<noteq> {})"

definition privileged :: "user_db \<Rightarrow> cluster_conf \<Rightarrow> string option \<Rightarrow> string option \<Rightarrow> string option \<Rightarrow> bool" where
  "privileged db conf user grp acc \<longleftrightarrow>
     admitted (names_of_user db user \<union> set_option grp) (cc_auth_groups conf) \<or>
     admitted (set_option user) (cc_auth_users conf) \<or> admitted (set_option acc) (cc_auth_accounts conf) \<or>
     set_option user \<inter> set (cc_admin_users conf) \<noteq> {}"

definition tag_user :: "string option \<Rightarrow> string option \<Rightarrow> string option \<Rightarrow> energy_tag \<Rightarrow> bool" where
  "tag_user user grp acc t \<longleftrightarrow> admitted (set_option user) (en_users t) \<or>
     set_option grp \<inter> set (en_groups t) \<noteq> {} \<or> set_option acc \<inter> set (en_accounts t) \<noteq> {}"

definition user_db_example :: user_db where
  "user_db_example = \<lparr>ud_malloc_buf = True, ud_getpwnam_r = (\<lambda>_. Pw_Found), ud_malloc_groups = True,
     ud_getgrouplist = (\<lambda>_. Some [Some ''users'', None])\<rparr>"

subsection \<open>The loops\<close>

lemma admitted_empty [simp]: "\<not> admitted {} xs"
  by (simp add: admitted_def)

lemma listed_iff: "listed s xs \<longleftrightarrow> admitted {s} xs"
  by (induction xs) (auto simp: admitted_def)

lemma named_iff: "named s xs \<longleftrightarrow> s \<in> set xs"
  by (induction xs) auto

lemma groups_loop_iff: "groups_loop auth groups \<longleftrightarrow> admitted {g. Some g \<in> set groups} auth"
  by (induction auth groups rule: groups_loop.induct) (auto simp: listed_iff admitted_def)

lemmas access_iffs = listed_iff named_iff groups_loop_iff

lemma admitted_Un: "admitted (A \<union> B) xs \<longleftrightarrow> admitted A xs \<or> admitted B xs"
  by (auto simp: admitted_def)

lemma authorized_iff:
  assumes "lookups_ok db user"
  shows "is_authorized_usr_grp_acc db conf user grp acc \<noteq> 0 \<or> is_admin_usr conf user > 0 \<longleftrightarrow>
    privileged db conf user grp acc"
proof -
  have by_grp: "(case grp of None \<Rightarrow> False | Some g \<Rightarrow> listed g (cc_auth_groups conf)) = admitted (set_option grp) (cc_auth_groups conf)"
    and by_acc: "(case acc of None \<Rightarrow> False | Some a \<Rightarrow> listed a (cc_auth_accounts conf)) = admitted (set_option acc) (cc_auth_accounts conf)"
    by (simp_all add: access_iffs split: option.split)
  show ?thesis
  proof (cases user)
    case None
    then show ?thesis
      by (simp add: is_authorized_usr_grp_acc_def is_admin_usr_def privileged_def names_of_user_def by_grp by_acc)
  next
    case (Some u)
    then obtain gs where "ud_getgrouplist db u = Some gs" using assms by (auto simp: lookups_ok_def)
    then show ?thesis using assms Some
      by (simp add: is_authorized_usr_grp_acc_def is_admin_usr_def privileged_def lookups_ok_def names_of_user_def
        access_iffs admitted_Un by_grp by_acc)
  qed
qed

lemma user_flag_iff:
  "(if flag = 0 then let flag = is_admin_usr conf user in if flag < 0 then 0 else flag else flag) \<noteq> 0 \<longleftrightarrow>
     flag \<noteq> 0 \<or> is_admin_usr conf user > 0"
  by (auto simp: Let_def)

lemma can_use_energy_tag_iff: "can_use_energy_tag user grp acc t = (if tag_user user grp acc t then Some t else None)"
  by (auto simp: can_use_energy_tag_def tag_user_def access_iffs split: option.splits)

lemma get_user_type_eq:
  assumes "lookups_ok db user"
  shows "get_user_type db conf etag user grp acc =
    (if privileged db conf user grp acc
     then (case energy_tag_exists conf etag of Some t \<Rightarrow> (ENERGY_TAG, Some t) | None \<Rightarrow> (AUTHORIZED, None))
     else (case energy_tag_exists conf etag of
             Some t \<Rightarrow> if tag_user user grp acc t then (ENERGY_TAG, Some t) else (NORMAL, None)
           | None \<Rightarrow> (NORMAL, None)))"
  unfolding get_user_type_def Let_def [of "is_authorized_usr_grp_acc _ _ _ _ _"] Let_def [of "if _ then _ else _"]
    user_flag_iff authorized_iff [OF assms]
  by (simp add: energy_tag_exists_def is_energy_tag_privileged_def can_use_energy_tag_iff split: option.split)

subsection \<open>Properties\<close>

text \<open>
  C24. While the look-ups of the operating system work, the type of a user is what the configuration
  says: privileged users and administrators are authorised, or run under the energy tag they ask
  for when it exists; anybody else gets an energy tag only when the tag names the user, the group
  or the account, and is a normal user otherwise.
\<close>

theorem get_user_type_spec:
  assumes "lookups_ok db user"
  shows "get_user_type db conf etag user grp acc =
    (if privileged db conf user grp acc
     then (case energy_tag_exists conf etag of Some t \<Rightarrow> (ENERGY_TAG, Some t) | None \<Rightarrow> (AUTHORIZED, None))
     else (case energy_tag_exists conf etag of
             Some t \<Rightarrow> if tag_user user grp acc t then (ENERGY_TAG, Some t) else (NORMAL, None)
           | None \<Rightarrow> (NORMAL, None)))"
  by (rule get_user_type_eq [OF assms])

lemma get_user_type_spec_witness:
  "get_user_type user_db_example conf_example (Some ''memory'') (Some ''ana'') (Some ''users'') None =
     (ENERGY_TAG, Some (hd (cc_e_tags conf_example))) \<and>
   get_user_type user_db_example conf_example (Some ''memory'') (Some ''eve'') (Some ''users'') None = (NORMAL, None)"
  using get_user_type_spec [of user_db_example "Some ''ana''" conf_example "Some ''memory''" "Some ''users''" None]
    get_user_type_spec [of user_db_example "Some ''eve''" conf_example "Some ''memory''" "Some ''users''" None]
  by (simp add: lookups_ok_def user_db_example_def privileged_def names_of_user_def admitted_def tag_user_def
    energy_tag_exists_def conf_example_def)

text \<open>
  C28. When a look-up fails, everybody is privileged: the error value of
  \<open>is_authorized_usr_grp_acc\<close> is not zero, so \<open>get_user_type\<close> treats it as an authorisation and
  never returns a normal user.
\<close>

theorem failed_lookup_authorizes:
  assumes "\<not> lookups_ok db user"
  shows "get_user_type db conf etag user grp acc =
    (case energy_tag_exists conf etag of Some t \<Rightarrow> (ENERGY_TAG, Some t) | None \<Rightarrow> (AUTHORIZED, None))"
proof -
  have "is_authorized_usr_grp_acc db conf user grp acc = EAR_ERROR"
    using assms by (auto simp: is_authorized_usr_grp_acc_def lookups_ok_def split: option.split)
  then show ?thesis by (simp add: get_user_type_def energy_tag_exists_def split: option.split)
qed

lemma failed_lookup_authorizes_witness:
  "get_user_type (user_db_example\<lparr>ud_getpwnam_r := (\<lambda>_. Pw_Error)\<rparr>) conf_example None (Some ''eve'') None None =
     (AUTHORIZED, None)"
  using failed_lookup_authorizes [of "user_db_example\<lparr>ud_getpwnam_r := (\<lambda>_. Pw_Error)\<rparr>" "Some ''eve''" conf_example None]
  by (simp add: lookups_ok_def energy_tag_exists_def)

end
