(* ===== verification/Node_Settings.thy ===== *)
theory Node_Settings
  imports Cluster_Conf "HOL-Library.Monad_Syntax" "HOL-Library.Signed_Division"
begin

text \<open>
  The settings of one node (\<^verbatim>\<open>get_my_node_conf\<close> of \<^verbatim>\<open>common/types/configuration/cluster_conf.c\<close>):
  its island and database servers, the values of its tag, its list of policies, the default
  policy and its powercap, with the look-ups of policies of \<^verbatim>\<open>policy_conf.c\<close> and \<^verbatim>\<open>node_conf.c\<close> and of
  global managers.  A read outside an array, where the code has no defined behaviour, is the
  value \<^const>\<open>None\<close>.
\<close>

subsection \<open>Data\<close>

record my_node_conf =
  mn_cpus :: u32
  mn_island :: u32
  mn_max_pstate :: u64
  mn_db_ip :: string
  mn_db_sec_ip :: string
  mn_coef_file :: string
  mn_energy_plugin :: string
  mn_energy_model :: string
  mn_idle_governor :: string
  mn_powercap_plugin :: string
  mn_powercap_node_plugin :: string
  mn_powercap_gpu_plugin :: string
  mn_policies :: "policy_conf list"
  mn_min_sig_power :: u64
  mn_max_sig_power :: u64
  mn_max_error_power :: u64
  mn_max_temp :: u64
  mn_max_avx512_freq :: u64
  mn_max_avx2_freq :: u64
  mn_max_powercap :: int
  mn_powercap :: int
  mn_powercap_type :: nat
  mn_gpu_def_freq :: u64
  mn_cpu_max_pstate :: int
  mn_imc_max_pstate :: int
  mn_idle_pstate :: int
  mn_imc_max_freq :: u64
  mn_imc_min_freq :: u64
  mn_use_log :: u32
  mn_tag :: string

definition empty_node_conf :: my_node_conf where
  "empty_node_conf =
     \<lparr>mn_cpus = 0, mn_island = 0, mn_max_pstate = 0, mn_db_ip = '''', mn_db_sec_ip = '''', mn_coef_file = '''',
      mn_energy_plugin = '''', mn_energy_model = '''', mn_idle_governor = '''', mn_powercap_plugin = '''',
      mn_powercap_node_plugin = '''', mn_powercap_gpu_plugin = '''', mn_policies = [], mn_min_sig_power = 0,
      mn_max_sig_power = 0, mn_max_error_power = 0, mn_max_temp = 0, mn_max_avx512_freq = 0, mn_max_avx2_freq = 0,
      mn_max_powercap = 0, mn_powercap = 0, mn_powercap_type = 0, mn_gpu_def_freq = 0, mn_cpu_max_pstate = 0,
      mn_imc_max_pstate = 0, mn_idle_pstate = 0, mn_imc_max_freq = 0, mn_imc_min_freq = 0, mn_use_log = 0, mn_tag = ''''\<rparr>"

definition nth_opt :: "'a list \<Rightarrow> int \<Rightarrow> 'a option" where
  "nth_opt xs i = (if 0 \<le> i \<and> i < int (length xs) then Some (xs ! nat i) else None)"

subsection \<open>Policies\<close>

fun policy_index :: "int \<Rightarrow> policy_conf list \<Rightarrow> string \<Rightarrow> int" where
  "policy_index i [] my_policy = EAR_ERROR"
| "policy_index i (p # ps) my_policy = (if my_policy = pl_name p then i else policy_index (i + 1) ps my_policy)"

definition policy_name_to_id :: "string \<Rightarrow> cluster_conf option \<Rightarrow> int" where
  "policy_name_to_id my_policy conf =
     (case conf of None \<Rightarrow> EAR_ERROR | Some c \<Rightarrow> policy_index 0 (cc_power_policies c) my_policy)"

definition policy_id_to_name :: "u32 \<Rightarrow> cluster_conf \<Rightarrow> int \<times> string" where
  "policy_id_to_name policy_id conf =
     (case find (\<lambda>p. pl_policy p = policy_id) (cc_power_policies conf) of
        Some p \<Rightarrow> (EAR_SUCCESS, pl_name p) | None \<Rightarrow> (EAR_ERROR, ''UNKNOWN''))"

definition is_valid_policy :: "u32 \<Rightarrow> cluster_conf \<Rightarrow> bool" where
  "is_valid_policy p_id conf = list_ex (\<lambda>p. pl_policy p = p_id) (cc_power_policies conf)"

definition get_default_policies :: "cluster_conf \<Rightarrow> int \<Rightarrow> policy_conf list" where
  "get_default_policies conf tag_id =
     (let uses_def_tag = \<not> tag_id < 0
      in filter (\<lambda>p. if uses_def_tag then tg_id (cc_tags conf ! nat tag_id) = pl_tag p \<or> length (pl_tag p) < 1
                     else length (pl_tag p) < 1) (cc_power_policies conf))"

definition policy_name_to_nodeid :: "string \<Rightarrow> my_node_conf \<Rightarrow> int" where
  "policy_name_to_nodeid my_policy conf =
     (case find (\<lambda>p. my_policy = pl_name p) (mn_policies conf) of
        Some p \<Rightarrow> sint (pl_policy p) | None \<Rightarrow> EAR_ERROR)"

definition get_my_policy_conf :: "my_node_conf \<Rightarrow> u32 \<Rightarrow> policy_conf option" where
  "get_my_policy_conf my_node p_id = find (\<lambda>p. \<not> pl_policy p \<noteq> p_id) (mn_policies my_node)"

text \<open>
  The policies of the node's tag replace the default ones of the same name or are added behind
  them; the index of the default policy follows its policy.
\<close>

fun merge_policies :: "string \<Rightarrow> nat \<Rightarrow> policy_conf list \<Rightarrow> nat \<times> policy_conf list \<Rightarrow> nat \<times> policy_conf list" where
  "merge_policies tag i [] acc = acc"
| "merge_policies tag i (p # ps) (default_policy, policies) =
     merge_policies tag (i + 1) ps
       (if tag = pl_tag p
        then (let j = policy_index 0 policies (pl_name p)
              in if j \<ge> 0 then (if i = default_policy then nat j else default_policy, policies[nat j := p])
                 else (default_policy, policies @ [p]))
        else (default_policy, policies))"

fun default_policy_loop :: "policy_conf list \<Rightarrow> policy_conf list \<Rightarrow> nat list \<Rightarrow> nat \<Rightarrow> nat option" where
  "default_policy_loop power_policies policies [] default_policy = Some default_policy"
| "default_policy_loop power_policies policies (i # is) default_policy =
     do {
       d \<leftarrow> nth_opt power_policies (int default_policy);
       p \<leftarrow> nth_opt policies (int i);
       default_policy_loop power_policies policies is
         (if pl_name d = pl_name p then unat (pl_policy p) else default_policy)
     }"

subsection \<open>The settings of a node\<close>

fun eargm_index :: "int \<Rightarrow> eargm_def list \<Rightarrow> int \<Rightarrow> int" where
  "eargm_index i [] eargm_id = - 1"
| "eargm_index i (e # es) eargm_id = (if sint (ed_id e) = eargm_id then i else eargm_index (i + 1) es eargm_id)"

definition get_eargm_idx :: "cluster_conf \<Rightarrow> int \<Rightarrow> int" where
  "get_eargm_idx conf eargm_id = eargm_index 0 (cc_eargms conf) eargm_id"

text \<open>The first island with a range for the node: its index and the index of the range.\<close>

fun node_island_loop :: "nat \<Rightarrow> node_island list \<Rightarrow> string \<Rightarrow> (nat \<times> nat) option" where
  "node_island_loop i [] nodename = None"
| "node_island_loop i (island # islands) nodename =
     (let range_id = nodeconf_get_island_range_for_node island nodename
      in if range_id \<ge> 0 then Some (i, nat range_id) else node_island_loop (i + 1) islands nodename)"

definition set_island_values :: "cluster_conf \<Rightarrow> node_island \<Rightarrow> node_range \<Rightarrow> my_node_conf \<Rightarrow> my_node_conf option" where
  "set_island_values my_conf island rng n =
     (let n = n\<lparr>mn_island := is_id island,
                mn_db_ip := (if nr_db_ip rng < int (length (is_db_ips island)) \<and> nr_db_ip rng \<ge> 0
                             then is_db_ips island ! nat (nr_db_ip rng)
                             else if is_db_ips island \<noteq> [] then is_db_ips island ! 0 else ''''),
                mn_use_log := cc_use_log my_conf\<rparr>
      in if nr_sec_ip rng \<ge> 0 \<and> is_backup_ips island \<noteq> []
         then do { ip \<leftarrow> nth_opt (is_backup_ips island) (nr_sec_ip rng); Some (n\<lparr>mn_db_sec_ip := ip\<rparr>) }
         else Some n)"

text \<open>The values of the tag; the powers stand for the floating-point numbers they are converted to.\<close>

definition set_tag_values :: "tag \<Rightarrow> my_node_conf \<Rightarrow> my_node_conf" where
  "set_tag_values t n = n\<lparr>mn_max_sig_power := tg_max_power t, mn_min_sig_power := tg_min_power t,
     mn_max_error_power := tg_error_power t, mn_max_temp := tg_max_temp t, mn_powercap := tg_powercap t,
     mn_max_powercap := tg_max_powercap t, mn_max_avx512_freq := tg_max_avx512_freq t,
     mn_max_avx2_freq := tg_max_avx2_freq t, mn_powercap_type := tg_powercap_type t,
     mn_gpu_def_freq := tg_gpu_def_freq t, mn_cpu_max_pstate := tg_cpu_max_pstate t,
     mn_imc_max_pstate := tg_imc_max_pstate t, mn_idle_pstate := tg_idle_pstate t,
     mn_imc_max_freq := tg_imc_max_freq t, mn_imc_min_freq := tg_imc_min_freq t, mn_tag := tg_id t,
     mn_energy_plugin := (if length (tg_energy_plugin t) > 0 then tg_energy_plugin t else mn_energy_plugin n),
     mn_energy_model := (if length (tg_energy_model t) > 0 then tg_energy_model t else mn_energy_model n),
     mn_idle_governor := tg_idle_governor t, mn_powercap_plugin := tg_powercap_plugin t,
     mn_powercap_node_plugin := tg_powercap_node_plugin t, mn_powercap_gpu_plugin := tg_powercap_gpu_plugin t,
     mn_coef_file := (if length (tg_coeffs t) > 0 then tg_coeffs t else ''coeffs.default'')\<rparr>"

text \<open>The automatic computation of the powercap.\<close>

definition auto_powercap :: "cluster_conf \<Rightarrow> int \<Rightarrow> int" where
  "auto_powercap my_conf eargm_id =
     (let eargm_idx = get_eargm_idx my_conf eargm_id
      in if eargm_idx > 0
         then let num_nodes = get_num_nodes_in_eargm my_conf eargm_id;
                  power = sint (ed_power (cc_eargms my_conf ! nat eargm_idx))
              in if num_nodes < 1 then POWER_CAP_UNLIMITED_INT
                 else if power = 0 then POWER_CAP_UNLIMITED_INT
                 else if power = 1 then POWER_CAP_UNLIMITED_INT
                 else if power = - 1 then POWER_CAP_UNLIMITED_INT
                 else power sdiv num_nodes
         else POWER_CAP_UNLIMITED_INT)"

text \<open>The default policy and the policies of the node with the given tag.\<close>

definition select_policies :: "cluster_conf \<Rightarrow> int \<Rightarrow> int \<Rightarrow> policy_conf list \<Rightarrow> (nat \<times> policy_conf list) option" where
  "select_policies my_conf def_tag_id tag_id policies =
     (let p = (if tag_id \<ge> 0 \<and> length (tg_default_policy (cc_tags my_conf ! nat tag_id)) > 0
               then policy_index 0 (cc_power_policies my_conf) (tg_default_policy (cc_tags my_conf ! nat tag_id))
               else EAR_ERROR);
          default_policy = (if p \<ge> 0 then nat p else cc_default_policy my_conf);
          (default_policy, policies) =
            (if tag_id \<ge> 0 \<and> tag_id \<noteq> def_tag_id
             then merge_policies (tg_id (cc_tags my_conf ! nat tag_id)) 0 (cc_power_policies my_conf)
                    (default_policy, policies)
             else (default_policy, policies))
      in do {
           default_policy \<leftarrow> default_policy_loop (cc_power_policies my_conf) policies
             [0..<length (cc_power_policies my_conf)] default_policy;
           Some (default_policy, policies)
         })"

definition get_my_node_conf :: "cluster_conf \<Rightarrow> string \<Rightarrow> (cluster_conf \<times> my_node_conf option) option" where
  "get_my_node_conf my_conf nodename =
     (if cc_islands my_conf = [] then Some (my_conf, None)
      else
        let def_tag_id = get_default_tag_id my_conf;
            n = empty_node_conf\<lparr>mn_policies := get_default_policies my_conf def_tag_id,
                                mn_max_pstate := cc_max_pstate my_conf\<rparr>;
            n = foldl (\<lambda>n node. if range_conf_contains_node node nodename
                                 then n\<lparr>mn_cpus := nc_cpus node, mn_coef_file := nc_coef_file node\<rparr> else n)
                  n (cc_nodes my_conf)
        in case node_island_loop 0 (cc_islands my_conf) nodename of
             None \<Rightarrow> Some (my_conf, None)
           | Some (island_idx, range_id) \<Rightarrow>
             let island = cc_islands my_conf ! island_idx; rng = is_ranges island ! range_id;
                 tag_id = range_tag_loop my_conf island (nr_specific_tags rng);
                 tag_id = (if tag_id < 0 then def_tag_id else tag_id)
             in do {
               n \<leftarrow> set_island_values my_conf island rng n;
               let n = n\<lparr>mn_energy_plugin := cc_obj_ener my_conf, mn_energy_model := cc_obj_power_model my_conf\<rparr>;
               let n = (if tag_id \<ge> 0 then set_tag_values (cc_tags my_conf ! nat tag_id) n else n);
               (default_policy, policies) \<leftarrow> select_policies my_conf def_tag_id tag_id (mn_policies n);
               let my_conf' = my_conf\<lparr>cc_default_policy := default_policy\<rparr>;
               let n = n\<lparr>mn_policies := policies,
                         mn_powercap := (if mn_powercap n = POWER_CAP_AUTO_CONFIG_INT
                                         then auto_powercap my_conf (nr_eargm_id rng) else mn_powercap n)\<rparr>;
               Some (my_conf', Some n)
             })"

definition get_node_island :: "cluster_conf \<Rightarrow> string \<Rightarrow> (cluster_conf \<times> int) option" where
  "get_node_island conf hostname =
     map_option (\<lambda>(conf', node). (conf', case node of None \<Rightarrow> EAR_ERROR | Some n \<Rightarrow> uint (mn_island n)))
       (get_my_node_conf conf hostname)"

subsection \<open>Other look-ups\<close>

text \<open>
  \<open>get_node_server_mirror\<close>: bit 0 of the result says that the host is a database server of some
  range, bit 1 that it is a mirror; \<open>mirror_of\<close> is the server it mirrors.
\<close>

definition is_host :: "string \<Rightarrow> string \<Rightarrow> bool" where
  "is_host p hostname =
     (let a = takeWhile (\<lambda>c. c \<noteq> CHR ''.'') hostname
      in take (length hostname) p = hostname \<or> take (length a) p = a)"

fun server_mirror_loop ::
  "string \<Rightarrow> (node_island \<times> node_range) list \<Rightarrow> bool \<times> bool \<times> string \<Rightarrow> (bool \<times> bool \<times> string) option" where
  "server_mirror_loop hostname [] st = Some st"
| "server_mirror_loop hostname ((is, rng) # rest) (found_server, found_mirror, mirror_of) =
     (if found_server \<and> found_mirror then Some (found_server, found_mirror, mirror_of)
      else if is_db_ips is = [] then server_mirror_loop hostname rest (found_server, found_mirror, mirror_of)
      else do {
        p \<leftarrow> nth_opt (is_db_ips is) (nr_db_ip rng);
        let found_server = (found_server \<or> is_host p hostname);
        (found_mirror, mirror_of) \<leftarrow>
          (if \<not> found_mirror \<and> nr_sec_ip rng \<ge> 0
           then do {
             b \<leftarrow> nth_opt (is_backup_ips is) (nr_sec_ip rng);
             Some (if is_host b hostname then (True, p) else (found_mirror, mirror_of))
           }
           else Some (found_mirror, mirror_of));
        server_mirror_loop hostname rest (found_server, found_mirror, mirror_of)
      })"

definition get_node_server_mirror :: "cluster_conf \<Rightarrow> string \<Rightarrow> string \<Rightarrow> (nat \<times> string) option" where
  "get_node_server_mirror conf hostname mirror_of =
     map_option (\<lambda>(found_server, found_mirror, mirror_of).
         ((if found_server then 1 else 0) + (if found_mirror then 2 else 0), mirror_of))
       (server_mirror_loop hostname (conf_ranges conf) (False, False, mirror_of))"

text \<open>The functions \<^verbatim>\<open>tolower\<close>, \<^verbatim>\<open>strcasecmp\<close> and \<^verbatim>\<open>atoi\<close> of the C library on ASCII text.\<close>

definition tolower :: "char \<Rightarrow> char" where
  "tolower c = (if 65 \<le> (of_char c :: nat) \<and> (of_char c :: nat) \<le> 90 then char_of ((of_char c :: nat) + 32) else c)"

definition strtolow :: "string \<Rightarrow> string" where
  "strtolow s = map tolower s"

fun atoi_digits :: "int \<Rightarrow> string \<Rightarrow> int" where
  "atoi_digits acc [] = acc"
| "atoi_digits acc (c # cs) =
     (if 48 \<le> (of_char c :: nat) \<and> (of_char c :: nat) \<le> 57 then atoi_digits (10 * acc + int (of_char c) - 48) cs else acc)"

definition atoi :: "string \<Rightarrow> int" where
  "atoi s =
     (case dropWhile (\<lambda>c. c = CHR '' '' \<or> (9 \<le> (of_char c :: nat) \<and> (of_char c :: nat) \<le> 13)) s of
        [] \<Rightarrow> 0
      | c # cs \<Rightarrow> if c = CHR ''-'' then - atoi_digits 0 cs
                   else if c = CHR ''+'' then atoi_digits 0 cs else atoi_digits 0 (c # cs))"

text \<open>\<open>get_eargm_conf\<close>; the first argument is the value of the variable \<^verbatim>\<open>EARGMID\<close> of the environment.\<close>

definition get_eargm_conf :: "string option \<Rightarrow> cluster_conf \<Rightarrow> string \<Rightarrow> eargm_def option" where
  "get_eargm_conf idx conf host =
     (let curr = (case idx of None \<Rightarrow> None | Some s \<Rightarrow> find (\<lambda>e. sint (ed_id e) = atoi s) (cc_eargms conf))
      in case curr of Some e \<Rightarrow> Some e
         | None \<Rightarrow> find (\<lambda>e. strtolow (ed_node e) = strtolow host) (cc_eargms conf))"

text \<open>\<open>get_short_policy\<close>: the short name and the policy name, which the function turns into lower case.\<close>

definition get_short_policy :: "string \<Rightarrow> cluster_conf \<Rightarrow> string \<times> string" where
  "get_short_policy policy conf =
     (let pol = policy_name_to_id policy (Some conf); policy = strtolow policy
      in (if policy = ''min_energy_to_solution'' \<or> policy = ''min_energy'' then ''ME''
          else if policy = ''min_time_to_solution'' \<or> policy = ''min_time'' then ''MT''
          else if policy = ''monitoring_only'' \<or> policy = ''monitoring'' then ''MO''
          else if policy = ''min_time_energy'' then ''MTE''
          else if take (length ''load_balance'') policy = ''load_balance'' then ''LB''
          else if pol = EAR_ERROR then ''NP''
          else policy, policy))"

definition validate_configuration :: "cluster_conf \<Rightarrow> int" where
  "validate_configuration conf =
     (if length (cc_power_policies conf) < 1 then EAR_ERROR
      else if length (cc_islands conf) < 1 then EAR_ERROR
      else if list_ex (\<lambda>is. length (is_db_ips is) < 1 \<or> length (is_backup_ips is) < 1) (cc_islands conf) then EAR_ERROR
      else if list_ex (\<lambda>e. length (en_users e) < 1 \<and> length (en_groups e) < 1 \<and> length (en_accounts e) < 1)
                (cc_e_tags conf) then EAR_ERROR
      else EAR_SUCCESS)"

text \<open>
  The reference for the policies of a node: the last policy of that name under the node's tag, or
  else the default one.
\<close>

definition node_policy :: "string \<Rightarrow> policy_conf list \<Rightarrow> policy_conf list \<Rightarrow> string \<Rightarrow> policy_conf option" where
  "node_policy tag power_policies policies name =
     (case find (\<lambda>p. pl_tag p = tag \<and> pl_name p = name) (rev power_policies) of
        Some p \<Rightarrow> Some p | None \<Rightarrow> find (\<lambda>p. pl_name p = name) policies)"

definition policy_example :: "u32 \<Rightarrow> string \<Rightarrow> string \<Rightarrow> u32 \<Rightarrow> policy_conf" where
  "policy_example i name tag pstate =
     \<lparr>pl_policy = i, pl_name = name, pl_tag = tag, pl_settings = [0], pl_def_freq = 0, pl_p_state = pstate,
      pl_is_available = True\<rparr>"

definition policies_example :: cluster_conf where
  "policies_example = conf_example\<lparr>cc_power_policies :=
     [policy_example 0 ''monitoring'' '''' 1, policy_example 1 ''min_time'' '''' 4, policy_example 2 ''min_time'' ''gpu'' 2]\<rparr>"

subsection \<open>Policies of a node\<close>

lemma policy_index_ge: "0 \<le> i \<Longrightarrow> policy_index i ps name = EAR_ERROR \<or> i \<le> policy_index i ps name"
  by (induction i ps name rule: policy_index.induct) auto

lemma policy_index_error: "0 \<le> i \<Longrightarrow> policy_index i ps name = EAR_ERROR \<longleftrightarrow> name \<notin> pl_name ` set ps"
  by (induction i ps name rule: policy_index.induct) auto

lemma policy_index_bound: "0 \<le> i \<Longrightarrow> policy_index i ps name < i + int (length ps)"
  by (induction i ps name rule: policy_index.induct) auto

lemma find_replaced:
  assumes "0 \<le> i" "policy_index i ps (pl_name p) \<noteq> EAR_ERROR"
  shows "find (\<lambda>q. pl_name q = n) (ps[nat (policy_index i ps (pl_name p) - i) := p]) =
    (if n = pl_name p then Some p else find (\<lambda>q. pl_name q = n) ps)"
  using assms
proof (induction i ps "pl_name p" rule: policy_index.induct)
  case (2 i q ps)
  show ?case
  proof (cases "pl_name p = pl_name q")
    case False
    then have "i + 1 \<le> policy_index (i + 1) ps (pl_name p)" using policy_index_ge [of "i + 1" ps "pl_name p"] 2 by auto
    then have "nat (policy_index (i + 1) ps (pl_name p) - i) = Suc (nat (policy_index (i + 1) ps (pl_name p) - (i + 1)))"
      by simp
    then show ?thesis using 2 False by auto
  qed auto
qed simp

lemma find_append: "find P (xs @ ys) = (case find P xs of None \<Rightarrow> find P ys | Some x \<Rightarrow> Some x)"
  by (induction xs) auto

lemma merge_policies_find:
  "find (\<lambda>q. pl_name q = name) (snd (merge_policies tag i pps (dp, ps))) = node_policy tag pps ps name"
proof (induction pps arbitrary: i dp ps)
  case Nil
  then show ?case by (simp add: node_policy_def)
next
  case (Cons p pps)
  let ?j = "policy_index 0 ps (pl_name p)"
  consider (other) "tag \<noteq> pl_tag p" | (new) "tag = pl_tag p" "?j = EAR_ERROR" | (old) "tag = pl_tag p" "?j \<noteq> EAR_ERROR" by blast
  then show ?case
  proof cases
    case other
    then show ?thesis by (simp add: Cons.IH node_policy_def find_append split: option.split)
  next
    case new
    then have "find (\<lambda>q. pl_name q = pl_name p) ps = None"
      using policy_index_error [of 0 ps "pl_name p"] by (simp add: find_None_iff image_iff) metis
    note none = this
    have "merge_policies tag i (p # pps) (dp, ps) = merge_policies tag (i + 1) pps (dp, ps @ [p])" using new by simp
    then have "find (\<lambda>q. pl_name q = name) (snd (merge_policies tag i (p # pps) (dp, ps))) = node_policy tag pps (ps @ [p]) name"
      by (simp only: Cons.IH)
    also have "\<dots> = node_policy tag (p # pps) ps name"
      using none new(1) by (auto simp: node_policy_def find_append split: option.split)
    finally show ?thesis .
  next
    case old
    then have "0 \<le> ?j" using policy_index_ge [of 0 ps "pl_name p"] by auto
    then have "snd (merge_policies tag i (p # pps) (dp, ps)) =
        snd (merge_policies tag (i + 1) pps (if i = dp then nat ?j else dp, ps[nat ?j := p]))"
      using old(1) by (simp add: Let_def)
    then have "find (\<lambda>q. pl_name q = name) (snd (merge_policies tag i (p # pps) (dp, ps))) =
        node_policy tag pps (ps[nat ?j := p]) name"
      by (simp add: Cons.IH)
    also have "\<dots> = node_policy tag (p # pps) ps name"
      using old find_replaced [of 0 ps p name] by (simp add: node_policy_def find_append split: option.split)
    finally show ?thesis .
  qed
qed

lemma merge_policies_length:
  "length (snd (merge_policies tag i pps (dp, ps))) \<le> length ps + length (filter (\<lambda>p. pl_tag p = tag) pps)"
proof (induction pps arbitrary: i dp ps)
  case (Cons p pps)
  have IH: "length (snd (merge_policies tag i' pps (dp', ps'))) \<le> length ps' + length (filter (\<lambda>p. pl_tag p = tag) pps)"
    for i' dp' ps' by (rule Cons.IH)
  show ?case
    using IH [of "i + 1" _ "ps[nat (policy_index 0 ps (pl_name p)) := p]"] IH [of "i + 1" dp "ps @ [p]"] IH [of "i + 1" dp ps]
    by (simp add: Let_def le_SucI)
qed simp

lemma default_policy_loop_None:
  assumes "i \<in> set is" "length policies \<le> i"
  shows "default_policy_loop pps policies is d = None"
  using assms(1)
proof (induction "is" arbitrary: d)
  case (Cons k ks)
  show ?case
  proof (cases "k = i")
    case True
    then have "nth_opt policies (int k) = None" using assms(2) by (simp add: nth_opt_def)
    then show ?thesis by (simp add: Option.bind_eq_None_conv)
  next
    case False
    then show ?thesis using Cons by (simp add: Option.bind_eq_None_conv)
  qed
qed simp

lemma default_policies_length:
  "get_default_policies conf t = filter (\<lambda>p. (0 \<le> t \<and> pl_tag p = tg_id (cc_tags conf ! nat t)) \<or> pl_tag p = '''') (cc_power_policies conf)"
  by (auto simp: get_default_policies_def Let_def intro!: filter_cong)

lemma length_filter_less: "x \<in> set xs \<Longrightarrow> \<not> P x \<Longrightarrow> length (filter P xs) < length xs"
  by (induction xs) (auto simp: le_imp_less_Suc)

lemma length_filter_disj:
  "(\<And>x. x \<in> set xs \<Longrightarrow> \<not> (P x \<and> Q x)) \<Longrightarrow>
     length (filter P xs) + length (filter Q xs) = length (filter (\<lambda>x. P x \<or> Q x) xs)"
  by (induction xs) auto

subsection \<open>Properties\<close>

text \<open>
  The policies of a node whose tag is not the default one are the default policies with those of
  its tag taking precedence: for every name the node has the last policy of that name under its
  tag, and otherwise the default policy of that name.
\<close>

theorem tag_policies_take_precedence:
  "find (\<lambda>p. pl_name p = name)
     (snd (merge_policies tag 0 (cc_power_policies conf) (dp, get_default_policies conf t))) =
   node_policy tag (cc_power_policies conf) (get_default_policies conf t) name"
  by (rule merge_policies_find)

text \<open>
  The automatic powercap shares the power of the node's global manager: with a valid limit, the
  powercaps of all nodes of the manager together are at most its limit, and the remainder is less
  than one watt per node.
\<close>

theorem auto_powercap_share:
  assumes "0 < get_eargm_idx conf e" "1 \<le> get_num_nodes_in_eargm conf e"
    and "pw = sint (ed_power (cc_eargms conf ! nat (get_eargm_idx conf e)))" "1 < pw"
  shows "get_num_nodes_in_eargm conf e * auto_powercap conf e \<le> pw \<and>
    pw < get_num_nodes_in_eargm conf e * (auto_powercap conf e + 1)"
proof -
  let ?n = "get_num_nodes_in_eargm conf e"
  have "auto_powercap conf e = pw div ?n"
    using assms by (simp add: auto_powercap_def Let_def signed_divide_int_def)
  moreover have "?n * (pw div ?n) = pw - pw mod ?n" by (rule minus_mod_eq_mult_div [symmetric])
  moreover have "0 \<le> pw mod ?n" "pw mod ?n < ?n" using assms(2) by simp_all
  ultimately show ?thesis by (simp add: distrib_left)
qed

lemma node_policies_shorter:
  assumes "p \<in> set (cc_power_policies conf)" "pl_tag p \<noteq> ''''"
    and "0 \<le> d \<Longrightarrow> tg_id (cc_tags conf ! nat d) \<noteq> pl_tag p"
  shows "length (get_default_policies conf d) < length (cc_power_policies conf)"
    and "tg \<noteq> pl_tag p \<Longrightarrow> tg \<noteq> '''' \<Longrightarrow> (0 \<le> d \<Longrightarrow> tg_id (cc_tags conf ! nat d) \<noteq> tg) \<Longrightarrow>
      length (snd (merge_policies tg 0 (cc_power_policies conf) (dp, get_default_policies conf d))) < length (cc_power_policies conf)"
proof -
  let ?pps = "cc_power_policies conf"
  show "length (get_default_policies conf d) < length ?pps"
    using assms by (auto simp: default_policies_length intro!: length_filter_less)
  assume t: "tg \<noteq> pl_tag p" "tg \<noteq> ''''" "0 \<le> d \<Longrightarrow> tg_id (cc_tags conf ! nat d) \<noteq> tg"
  have "length (snd (merge_policies tg 0 ?pps (dp, get_default_policies conf d)))
      \<le> length (get_default_policies conf d) + length (filter (\<lambda>p. pl_tag p = tg) ?pps)"
    by (rule merge_policies_length)
  also have "\<dots> = length (filter (\<lambda>q. ((0 \<le> d \<and> pl_tag q = tg_id (cc_tags conf ! nat d)) \<or> pl_tag q = '''') \<or> pl_tag q = tg) ?pps)"
    unfolding default_policies_length using t by (intro length_filter_disj) auto
  also have "\<dots> < length ?pps" using assms t by (intro length_filter_less [of p]) auto
  finally show "length (snd (merge_policies tg 0 ?pps (dp, get_default_policies conf d))) < length ?pps" .
qed

lemma foldl_mn_policies:
  "mn_policies (foldl (\<lambda>n node. if c node then n\<lparr>mn_cpus := f node, mn_coef_file := g node\<rparr> else n) n nodes) = mn_policies n"
  by (induction nodes arbitrary: n) auto

lemma set_values_policies:
  "set_island_values conf island rng n = Some n' \<Longrightarrow> mn_policies n' = mn_policies n"
  "mn_policies (set_tag_values t n) = mn_policies n"
  by (auto simp: set_island_values_def set_tag_values_def Let_def bind_eq_Some_conv split: if_splits)

text \<open>
  The nodes of the first global manager of the configuration never get their share: its index is
  zero, which the test for a valid manager rejects, so they are left without a limit.
\<close>

theorem first_manager_shares_nothing:
  assumes "cc_eargms conf = e # es"
  shows "auto_powercap conf (sint (ed_id e)) = POWER_CAP_UNLIMITED_INT"
  using assms by (simp add: auto_powercap_def get_eargm_idx_def)

text \<open>
  Looking for the default policy, \<open>get_my_node_conf\<close> reads as many policies of the node as the
  cluster has: whenever the configuration has a policy for a tag that is neither the default one
  nor the node's, the node has fewer policies and the loop reads past the end of its array.
\<close>

theorem foreign_policy_read_past_end:
  assumes "node_island_loop 0 (cc_islands conf) nodename = Some (i, r)"
    and "tag_id = range_tag_id conf (cc_islands conf ! i) (is_ranges (cc_islands conf ! i) ! r)"
    and "p \<in> set (cc_power_policies conf)" "pl_tag p \<noteq> ''''"
    and "0 \<le> get_default_tag_id conf \<longrightarrow> tg_id (cc_tags conf ! nat (get_default_tag_id conf)) \<noteq> pl_tag p"
    and "0 \<le> tag_id \<longrightarrow> tg_id (cc_tags conf ! nat tag_id) \<noteq> pl_tag p \<and> tg_id (cc_tags conf ! nat tag_id) \<noteq> '''' \<and>
      (tag_id \<noteq> get_default_tag_id conf \<and> 0 \<le> get_default_tag_id conf \<longrightarrow>
        tg_id (cc_tags conf ! nat (get_default_tag_id conf)) \<noteq> tg_id (cc_tags conf ! nat tag_id))"
  shows "get_my_node_conf conf nodename = None"
proof -
  let ?d = "get_default_tag_id conf" and ?pps = "cc_power_policies conf"
  have tag: "(if range_tag_loop conf (cc_islands conf ! i) (nr_specific_tags (is_ranges (cc_islands conf ! i) ! r)) < 0 then ?d
      else range_tag_loop conf (cc_islands conf ! i) (nr_specific_tags (is_ranges (cc_islands conf ! i) ! r))) = tag_id"
    using assms(2) by (simp add: range_tag_id_def Let_def)
  have loop: "default_policy_loop ?pps policies [0..<length ?pps] d = None" if "length policies < length ?pps" for policies d
    using that by (intro default_policy_loop_None [of "length policies"]) auto
  have none: "select_policies conf ?d tag_id (get_default_policies conf ?d) = None"
    using assms(5,6) node_policies_shorter [OF assms(3,4), of ?d]
    by (auto simp: select_policies_def Let_def loop case_prod_unfold)
  define n0 where "n0 = foldl (\<lambda>n node. if range_conf_contains_node node nodename
      then n\<lparr>mn_cpus := nc_cpus node, mn_coef_file := nc_coef_file node\<rparr> else n)
    (empty_node_conf\<lparr>mn_policies := get_default_policies conf ?d, mn_max_pstate := cc_max_pstate conf\<rparr>) (cc_nodes conf)"
  have n0: "mn_policies n0 = get_default_policies conf ?d" by (simp add: n0_def foldl_mn_policies)
  have ne: "cc_islands conf \<noteq> []" using assms(1) by auto
  show ?thesis
  proof (cases "set_island_values conf (cc_islands conf ! i) (is_ranges (cc_islands conf ! i) ! r) n0")
    case None
    then show ?thesis using ne assms(1) by (simp add: get_my_node_conf_def Let_def n0_def [symmetric])
  next
    case (Some n1)
    then have "mn_policies n1 = get_default_policies conf ?d" using set_values_policies(1) n0 by metis
    then have "mn_policies (if tag_id \<ge> 0 then set_tag_values t (n1\<lparr>mn_energy_plugin := x, mn_energy_model := y\<rparr>)
        else n1\<lparr>mn_energy_plugin := x, mn_energy_model := y\<rparr>) = get_default_policies conf ?d" for t x y
      by (simp add: set_values_policies)
    then show ?thesis using ne assms(1) Some none
      by (simp only: get_my_node_conf_def Let_def n0_def [symmetric] tag if_False option.case prod.case bind.bind_lunit bind.bind_lzero)
  qed
qed

end
