(* ===== verification/Frequency.thy ===== *)
theory Frequency
  imports C_Float
begin

text \<open>
  CPU frequencies and P-states: the tables of \<^verbatim>\<open>metrics/common/pstate.c\<close>, the default API of
  \<^verbatim>\<open>management/cpufreq/archs/default.c\<close> on top of a driver, and the interface
  \<^verbatim>\<open>management/cpufreq/frequency.c\<close> that daemon and library use.  Frequencies are 64-bit numbers of
  KHz, a table is the list of its frequencies in the order of the P-states, and the driver's
  answers are arguments.
\<close>

subsection \<open>P-state tables\<close>

record pstate =
  ps_idx :: u32
  ps_khz :: u64

definition pstate_pstofreq :: "pstate list \<Rightarrow> nat \<Rightarrow> u64 option" where
  "pstate_pstofreq ps_list idx = (if idx \<ge> length ps_list then None else Some (ps_khz (ps_list ! idx)))"

definition pstate_freqtops :: "pstate list \<Rightarrow> u64 \<Rightarrow> pstate option" where
  "pstate_freqtops ps_list khz = find (\<lambda>p. ps_khz p = khz) ps_list"

text \<open>\<open>pstate_freqtops_upper\<close> on a table that is not empty; it stores a P-state in every case.\<close>

fun upper_loop :: "pstate list \<Rightarrow> u64 \<Rightarrow> nat list \<Rightarrow> int \<times> pstate" where
  "upper_loop ps_list khz [] = (EAR_ERROR, ps_list ! (length ps_list - 1))"
| "upper_loop ps_list khz (i # is) =
     (if ps_khz (ps_list ! i) < khz then (EAR_SUCCESS, ps_list ! (i - 1)) else upper_loop ps_list khz is)"

definition pstate_freqtops_upper :: "pstate list \<Rightarrow> u64 \<Rightarrow> int \<times> pstate" where
  "pstate_freqtops_upper ps_list khz =
     (if ps_khz (ps_list ! 0) < khz then (EAR_ERROR, ps_list ! 0) else upper_loop ps_list khz [1..<length ps_list])"

definition pstate_freqtoidx_nearest :: "pstate list \<Rightarrow> u64 \<Rightarrow> u32 \<Rightarrow> bool \<Rightarrow> u32" where
  "pstate_freqtoidx_nearest ps_list khz idx_ret mode_upper =
     (let idx_ret = (if mode_upper \<and> ps_khz (ps_list ! 0) \<le> khz then 0 else idx_ret);
          idx_ret = foldl (\<lambda>idx_ret i.
            (let idx_ret = (if mode_upper \<and> ps_khz (ps_list ! i) \<le> khz then of_nat i - 1 else idx_ret);
                 idx_ret = (if \<not> mode_upper \<and> ps_khz (ps_list ! i) < khz then of_nat i else idx_ret)
             in if ps_khz (ps_list ! i) = khz then of_nat i else idx_ret)) idx_ret [0..<length ps_list];
          idx_ret = of_nat (length ps_list) - 1
      in idx_ret)"

text \<open>The average over the CPUs of a mask and their number; no mask bit set gives zero.\<close>

definition pstate_freqtoavg :: "(nat \<Rightarrow> bool) \<Rightarrow> u64 list \<Rightarrow> u64 \<times> u64" where
  "pstate_freqtoavg msk freq_list =
     (let (total_freq, total_cpus) =
        foldl (\<lambda>(total_freq, total_cpus) c.
            if msk c then (total_freq + freq_list ! c, total_cpus + 1) else (total_freq, total_cpus))
          (0, 0) [0..<length freq_list]
      in (if total_cpus > 0 then total_freq div total_cpus else 0, total_cpus))"

subsection \<open>The default API\<close>

text \<open>The static variables of \<^verbatim>\<open>default.c\<close>; the nominal P-state is 1 when boost is enabled, else 0.\<close>

record cpufreq =
  cf_freqs_available :: "u64 list"
  cf_boost_enabled :: bool

definition pstate_nominal :: "cpufreq \<Rightarrow> nat" where
  "pstate_nominal c = (if cf_boost_enabled c then 1 else 0)"

function index_loop :: "u64 list \<Rightarrow> nat \<Rightarrow> u64 \<Rightarrow> bool \<Rightarrow> nat \<Rightarrow> nat option" where
  "index_loop fa nominal freq_khz closest pst =
     (if pst < length fa
      then if freq_khz = fa ! pst then Some pst
           else if closest \<and> freq_khz > fa ! pst
           then Some (if pst > nominal
                      then let aux_1 = fa ! (pst - 1) - freq_khz; aux_0 = freq_khz - fa ! pst
                           in pst - (if aux_1 < aux_0 then 1 else 0)
                      else pst)
           else index_loop fa nominal freq_khz closest (pst + 1)
      else if closest then Some (length fa - 1) else None)"
  by auto
termination by (relation "measure (\<lambda>(fa, _, _, _, pst). length fa - pst)") auto

declare index_loop.simps [simp del]

definition static_get_index :: "cpufreq \<Rightarrow> u64 \<Rightarrow> bool \<Rightarrow> nat option" where
  "static_get_index c freq_khz closest =
     (if freq_khz = 0 then None
      else if cf_boost_enabled c \<and> cf_freqs_available c ! 0 = freq_khz then Some 0
      else if closest \<and> freq_khz > cf_freqs_available c ! pstate_nominal c then Some (pstate_nominal c)
      else index_loop (cf_freqs_available c) (pstate_nominal c) freq_khz closest (pstate_nominal c))"

definition mgt_cpufreq_default_get_available_list :: "cpufreq \<Rightarrow> pstate list" where
  "mgt_cpufreq_default_get_available_list c =
     map (\<lambda>i. \<lparr>ps_idx = of_nat i, ps_khz = cf_freqs_available c ! i\<rparr>) [0..<length (cf_freqs_available c)]"

text \<open>The current P-states from the frequencies that the driver reads, if it can.\<close>

definition mgt_cpufreq_default_get_current_list :: "cpufreq \<Rightarrow> u64 list option \<Rightarrow> pstate list option" where
  "mgt_cpufreq_default_get_current_list c current_list =
     map_option (map (\<lambda>f. case static_get_index c f False of
         Some pst \<Rightarrow> \<lparr>ps_idx = of_nat pst, ps_khz = cf_freqs_available c ! pst\<rparr>
       | None \<Rightarrow> \<lparr>ps_idx = 0, ps_khz = cf_freqs_available c ! 0\<rparr>)) current_list"

subsection \<open>The frequency interface\<close>

text \<open>
  The state is whether the interface is initialised, with the API below it.  The frequencies
  that the driver reads now are the argument \<open>current\<close>; what is written to the driver is part of the
  result, one P-state per CPU with \<^const>\<open>None\<close> where the code writes \<^verbatim>\<open>ps_nothing\<close>.
\<close>

record freq_api =
  fq_init :: bool
  fq_api :: cpufreq
  fq_cpu_count :: nat

abbreviation available :: "freq_api \<Rightarrow> u64 list" where
  "available q \<equiv> cf_freqs_available (fq_api q)"

definition frequency_get_num_pstates :: "freq_api \<Rightarrow> nat" where
  "frequency_get_num_pstates q = (if \<not> fq_init q then 0 else length (available q))"

definition frequency_get_cpu_freq :: "freq_api \<Rightarrow> u64 list option \<Rightarrow> nat \<Rightarrow> u64" where
  "frequency_get_cpu_freq q current cpu =
     (if \<not> fq_init q then 0
      else if cpu \<ge> fq_cpu_count q then 0
      else case mgt_cpufreq_default_get_current_list (fq_api q) current of None \<Rightarrow> 0
           | Some ps \<Rightarrow> ps_khz (ps ! cpu))"

definition frequency_get_cpufreq_list :: "freq_api \<Rightarrow> u64 list option \<Rightarrow> nat \<Rightarrow> u64 list" where
  "frequency_get_cpufreq_list q current cpu_count =
     (if cpu_count > fq_cpu_count q then replicate cpu_count 0
      else case mgt_cpufreq_default_get_current_list (fq_api q) current of None \<Rightarrow> replicate cpu_count 0
           | Some ps \<Rightarrow> map (\<lambda>i. ps_khz (ps ! i)) [0..<cpu_count])"

definition frequency_get_nominal_freq :: "freq_api \<Rightarrow> u64" where
  "frequency_get_nominal_freq q = (if \<not> fq_init q then 0 else available q ! pstate_nominal (fq_api q))"

definition frequency_get_nominal_pstate :: "freq_api \<Rightarrow> nat" where
  "frequency_get_nominal_pstate q = (if \<not> fq_init q then 0 else pstate_nominal (fq_api q))"

definition frequency_get_freq_rank_list :: "freq_api \<Rightarrow> u64 list option" where
  "frequency_get_freq_rank_list q = (if \<not> fq_init q then None else Some (available q))"

definition frequency_set_all_cpus :: "freq_api \<Rightarrow> bool \<Rightarrow> u64 \<Rightarrow> u64 \<times> nat option list option" where
  "frequency_set_all_cpus q written freq_khz =
     (if \<not> fq_init q then (0, None)
      else case static_get_index (fq_api q) freq_khz False of None \<Rightarrow> (0, None)
           | Some i \<Rightarrow> if written then (freq_khz, Some (replicate (fq_cpu_count q) (Some i))) else (0, None))"

definition frequency_set_with_mask :: "freq_api \<Rightarrow> u64 \<Rightarrow> (nat \<Rightarrow> bool) \<Rightarrow> u64 \<Rightarrow> u64 \<times> nat option list option" where
  "frequency_set_with_mask q current_khz msk freq_khz =
     (if \<not> fq_init q then (0, None)
      else case static_get_index (fq_api q) freq_khz False of None \<Rightarrow> (current_khz, None)
           | Some i \<Rightarrow> (freq_khz, Some (map (\<lambda>cpu. if msk cpu then Some i else None) [0..<fq_cpu_count q])))"

definition frequency_set_with_list :: "freq_api \<Rightarrow> bool \<Rightarrow> u64 list option \<Rightarrow> u64 \<times> nat option list option" where
  "frequency_set_with_list q written freqs =
     (case freqs of None \<Rightarrow> (0, None)
      | Some fs \<Rightarrow>
        let pstate_list = map (\<lambda>cpu. if fs ! cpu = 0 then None else static_get_index (fq_api q) (fs ! cpu) False)
                            [0..<fq_cpu_count q]
        in if written then (fs ! (fq_cpu_count q - 1), Some pstate_list) else (0, None))"

definition frequency_pstate_to_freq :: "freq_api \<Rightarrow> nat \<Rightarrow> u64" where
  "frequency_pstate_to_freq q pstate_index =
     (if \<not> fq_init q then 0
      else if pstate_index \<ge> length (available q) then available q ! pstate_nominal (fq_api q)
      else available q ! pstate_index)"

definition frequency_freq_to_pstate :: "freq_api \<Rightarrow> u64 \<Rightarrow> nat" where
  "frequency_freq_to_pstate q freq_khz =
     (if \<not> fq_init q then 0
      else case static_get_index (fq_api q) freq_khz False of None \<Rightarrow> length (available q) | Some i \<Rightarrow> i)"

definition frequency_pstate_to_freq_list :: "freq_api \<Rightarrow> nat \<Rightarrow> u64 list \<Rightarrow> u64" where
  "frequency_pstate_to_freq_list q pstate_index freqs =
     (if pstate_index \<ge> length freqs then freqs ! pstate_nominal (fq_api q) else freqs ! pstate_index)"

fun freq_list_loop :: "nat \<Rightarrow> u64 \<Rightarrow> u64 list \<Rightarrow> nat" where
  "freq_list_loop i freq_khz [] = i"
| "freq_list_loop i freq_khz (f # fs) = (if f = freq_khz then (i + 1) - 1 else freq_list_loop (i + 1) freq_khz fs)"

definition frequency_freq_to_pstate_list :: "u64 \<Rightarrow> u64 list \<Rightarrow> nat" where
  "frequency_freq_to_pstate_list freq_khz freqs = freq_list_loop 0 freq_khz freqs"

definition frequency_is_valid_frequency :: "freq_api \<Rightarrow> u64 \<Rightarrow> bool" where
  "frequency_is_valid_frequency q freq_khz = (fq_init q \<and> static_get_index (fq_api q) freq_khz False \<noteq> None)"

definition frequency_is_valid_pstate :: "freq_api \<Rightarrow> nat \<Rightarrow> bool" where
  "frequency_is_valid_pstate q pst = (fq_init q \<and> pst < length (available q))"

definition frequency_closest_pstate :: "freq_api \<Rightarrow> u64 \<Rightarrow> nat" where
  "frequency_closest_pstate q freq_khz =
     (if \<not> fq_init q then 1
      else if freq_khz < available q ! (length (available q) - 1) then pstate_nominal (fq_api q)
      else case static_get_index (fq_api q) freq_khz True of None \<Rightarrow> pstate_nominal (fq_api q) | Some i \<Rightarrow> i)"

definition frequency_closest_frequency :: "freq_api \<Rightarrow> u64 \<Rightarrow> u64" where
  "frequency_closest_frequency q freq_khz =
     (if \<not> fq_init q then 0
      else case static_get_index (fq_api q) freq_khz True of
             None \<Rightarrow> available q ! (length (available q) - 1) | Some i \<Rightarrow> available q ! i)"

text \<open>The argument is first rounded to a multiple of 100 MHz, in floating point.\<close>

definition frequency_closest_high_freq :: "freq_api \<Rightarrow> u64 \<Rightarrow> nat \<Rightarrow> u64" where
  "frequency_closest_high_freq q freq_khz pstate_min =
     (let ff = of_int \<lfloor>to_float (to_double (to_float (rat_of_word freq_khz) / 100000)) + 1 / 2\<rfloor>;
          newf = trunc_word (to_double (to_double (ff / 10) * 1000000))
      in if newf > available q ! pstate_min then available q ! pstate_min else frequency_closest_frequency q newf)"

text \<open>A table of the driver: descending frequencies, none of them zero, with a nominal one.\<close>

definition wf_table :: "cpufreq \<Rightarrow> bool" where
  "wf_table c \<longleftrightarrow> sorted_wrt (>) (cf_freqs_available c) \<and> 0 \<notin> set (cf_freqs_available c) \<and>
     pstate_nominal c < length (cf_freqs_available c)"

definition khz_dist :: "u64 \<Rightarrow> u64 \<Rightarrow> int" where
  "khz_dist f g = \<bar>int (unat f) - int (unat g)\<bar>"

definition cpufreq_example :: cpufreq where
  "cpufreq_example = \<lparr>cf_freqs_available = [2401000, 2400000, 2200000, 2000000, 1800000], cf_boost_enabled = True\<rparr>"

subsection \<open>Searching a table\<close>

lemma descending_nth: "sorted_wrt (>) fa \<Longrightarrow> i < j \<Longrightarrow> j < length fa \<Longrightarrow> unat (fa ! j) < unat ((fa :: u64 list) ! i)"
  by (simp add: sorted_wrt_iff_nth_less word_less_nat_alt)

lemma descending_nth_le: "sorted_wrt (>) fa \<Longrightarrow> i \<le> j \<Longrightarrow> j < length fa \<Longrightarrow> unat (fa ! j) \<le> unat ((fa :: u64 list) ! i)"
  using descending_nth [of fa i j] by (cases "i = j") auto

lemma index_loop_exact:
  assumes "sorted_wrt (>) fa" "pst \<le> i" "i < length fa"
  shows "index_loop fa nominal (fa ! i) closest pst = Some i"
  using assms(2)
proof (induction "i - pst" arbitrary: pst)
  case 0
  then show ?case using assms(3) by (simp add: index_loop.simps)
next
  case (Suc n)
  then have "pst < i" by simp
  then have "fa ! i < fa ! pst" using descending_nth [OF assms(1) _ assms(3), of pst] by (simp add: word_less_nat_alt)
  then show ?case using Suc assms(3) \<open>pst < i\<close> by (subst index_loop.simps) auto
qed

lemma index_loop_closest:
  assumes "sorted_wrt (>) fa" "nominal \<le> pst" "nominal < length fa"
    and "\<forall>k. nominal \<le> k \<and> k < pst \<and> k < length fa \<longrightarrow> unat f < unat (fa ! k)"
  shows "\<exists>i < length fa. index_loop fa nominal f True pst = Some i \<and>
    (\<forall>j. nominal \<le> j \<and> j < length fa \<longrightarrow> khz_dist f (fa ! i) \<le> khz_dist f (fa ! j))"
  using assms(2,4)
proof (induction "length fa - pst" arbitrary: pst rule: less_induct)
  case less
  note desc = descending_nth_le [OF assms(1)]
  show ?case
  proof (cases "pst < length fa")
    case False
    have "khz_dist f (fa ! (length fa - 1)) \<le> khz_dist f (fa ! j)" if "nominal \<le> j" "j < length fa" for j
    proof -
      have "unat (fa ! (length fa - 1)) \<le> unat (fa ! j)" using that by (intro desc) simp_all
      moreover have "unat f < unat (fa ! (length fa - 1))" using that False by (intro less.prems(2) [rule_format]) linarith
      ultimately show ?thesis by (simp add: khz_dist_def)
    qed
    then show ?thesis using False assms(3) by (subst index_loop.simps) auto
  next
    case True
    consider (eq) "f = fa ! pst" | (gt) "unat (fa ! pst) < unat f" | (lt) "unat f < unat (fa ! pst)"
      by (metis linorder_neqE_nat word_unat_eq_iff)
    then show ?thesis
    proof cases
      case eq
      then show ?thesis using True by (intro exI [of _ pst]) (simp add: index_loop.simps khz_dist_def)
    next
      case lt
      then have "\<forall>k. nominal \<le> k \<and> k < pst + 1 \<and> k < length fa \<longrightarrow> unat f < unat (fa ! k)"
        using less.prems(2) by (auto simp: less_Suc_eq)
      then show ?thesis using less.hyps [of "pst + 1"] less.prems(1) True lt
        by (subst index_loop.simps) (auto simp: word_less_nat_alt)
    next
      case gt
      have low: "khz_dist f (fa ! pst) \<le> khz_dist f (fa ! j)" if "pst \<le> j" "j < length fa" for j
        using desc [of pst j] that gt by (simp add: khz_dist_def)
      have high: "khz_dist f (fa ! (pst - 1)) \<le> khz_dist f (fa ! j)" if "nominal \<le> j" "j < pst" for j
      proof -
        have "unat (fa ! (pst - 1)) \<le> unat (fa ! j)" using that True by (intro desc) simp_all
        moreover have "unat f < unat (fa ! (pst - 1))" using that True by (intro less.prems(2) [rule_format]) linarith
        ultimately show ?thesis by (simp add: khz_dist_def)
      qed
      show ?thesis
      proof (cases "pst > nominal")
        case False
        then show ?thesis using low less.prems(1) True gt
          by (intro exI [of _ pst]) (auto simp: index_loop.simps word_less_nat_alt)
      next
        case above: True
        have prev: "unat f < unat (fa ! (pst - 1))" using above True by (intro less.prems(2) [rule_format]) linarith
        have aux: "(fa ! (pst - 1) - f < f - fa ! pst) = (khz_dist f (fa ! (pst - 1)) < khz_dist f (fa ! pst))"
          using prev gt by (simp add: word_less_nat_alt unat_dist khz_dist_def) linarith
        let ?i = "pst - (if khz_dist f (fa ! (pst - 1)) < khz_dist f (fa ! pst) then 1 else 0)"
        have "index_loop fa nominal f True pst = Some ?i"
          using above True gt aux by (subst index_loop.simps) (auto simp: word_less_nat_alt)
        moreover have "khz_dist f (fa ! ?i) \<le> khz_dist f (fa ! j)" if "nominal \<le> j" "j < length fa" for j
          using low [of j] high [of j] that by (cases "pst \<le> j") auto
        ultimately show ?thesis using True by (intro exI [of _ ?i]) auto
      qed
    qed
  qed
qed

lemma upper_loop_spec:
  assumes "sorted_wrt (\<lambda>a b. ps_khz a > ps_khz b) ps" "1 \<le> k" "k \<le> length ps" "khz \<le> ps_khz (ps ! (k - 1))"
  shows "upper_loop ps khz [k..<length ps] =
    (if ps_khz (last ps) < khz
     then (EAR_SUCCESS, ps ! (GREATEST i. i < length ps \<and> khz \<le> ps_khz (ps ! i))) else (EAR_ERROR, last ps))"
  using assms(2-4)
proof (induction "length ps - k" arbitrary: k)
  case 0
  then have "k = length ps" "ps \<noteq> []" by auto
  then show ?case using 0 by (simp add: last_conv_nth)
next
  case (Suc n)
  then have k: "k < length ps" by simp
  then have up: "[k..<length ps] = k # [Suc k..<length ps]" by (rule upt_conv_Cons)
  have desc: "ps_khz (ps ! j) < ps_khz (ps ! i)" if "i < j" "j < length ps" for i j
    using assms(1) that by (simp add: sorted_wrt_iff_nth_less)
  show ?case
  proof (cases "ps_khz (ps ! k) < khz")
    case True
    have "(GREATEST i. i < length ps \<and> khz \<le> ps_khz (ps ! i)) = k - 1"
    proof (rule Greatest_equality)
      show "k - 1 < length ps \<and> khz \<le> ps_khz (ps ! (k - 1))" using Suc.prems k by simp
      show "i \<le> k - 1" if "i < length ps \<and> khz \<le> ps_khz (ps ! i)" for i
      proof -
        have "\<not> k < i" "i \<noteq> k" using that True desc [of k i] by auto
        then show ?thesis by linarith
      qed
    qed
    moreover have "ps_khz (last ps) < khz"
    proof -
      have "last ps = ps ! (length ps - 1)" using k by (intro last_conv_nth) auto
      moreover have "ps_khz (ps ! (length ps - 1)) \<le> ps_khz (ps ! k)"
        using desc [of k "length ps - 1"] k by (cases "k = length ps - 1") (simp_all add: order.strict_implies_order)
      ultimately show ?thesis using True by simp
    qed
    ultimately show ?thesis using True by (simp add: up)
  next
    case False
    then have "upper_loop ps khz [Suc k..<length ps] =
        (if ps_khz (last ps) < khz
         then (EAR_SUCCESS, ps ! (GREATEST i. i < length ps \<and> khz \<le> ps_khz (ps ! i))) else (EAR_ERROR, last ps))"
      using Suc.hyps(2) k by (intro Suc.hyps(1)) auto
    then show ?thesis using False by (simp add: up)
  qed
qed

subsection \<open>Frequencies of the table\<close>

lemma static_get_index_nth:
  assumes "wf_table c" "i < length (cf_freqs_available c)"
  shows "static_get_index c (cf_freqs_available c ! i) closest = Some i"
proof (cases "cf_boost_enabled c \<and> i = 0")
  case True
  then show ?thesis using assms by (auto simp: static_get_index_def wf_table_def in_set_conv_nth)
next
  case False
  let ?fa = "cf_freqs_available c"
  have d: "sorted_wrt (>) ?fa" and z: "?fa ! i \<noteq> 0" and n: "pstate_nominal c < length ?fa"
    using assms by (auto simp: wf_table_def in_set_conv_nth)
  have le: "pstate_nominal c \<le> i" using False by (auto simp: pstate_nominal_def)
  then have "\<not> ?fa ! i > ?fa ! pstate_nominal c"
    using descending_nth_le [OF d le assms(2)] by (simp add: word_less_nat_alt)
  moreover have "cf_boost_enabled c \<Longrightarrow> ?fa ! 0 \<noteq> ?fa ! i"
    using False descending_nth [OF d, of 0 i] assms(2) by auto
  ultimately show ?thesis using z index_loop_exact [OF d le assms(2)] by (auto simp: static_get_index_def)
qed

lemma index_loop_sound:
  "index_loop fa nominal f False pst = Some i \<Longrightarrow> i < length fa \<and> fa ! i = f"
proof (induction "length fa - pst" arbitrary: pst)
  case 0
  then show ?case by (subst (asm) index_loop.simps) simp
next
  case (Suc n)
  have "n = length fa - (pst + 1)" using Suc.hyps(2) by simp
  then show ?case using Suc.prems Suc.hyps(1) [of "pst + 1"]
    by (subst (asm) index_loop.simps) (auto split: if_splits)
qed

lemma static_get_index_sound:
  assumes "wf_table c" "static_get_index c f False = Some i"
  shows "i < length (cf_freqs_available c)" and "cf_freqs_available c ! i = f"
  using assms index_loop_sound [of "cf_freqs_available c" _ f]
  by (auto simp: static_get_index_def wf_table_def split: if_splits)

lemma pstate_to_freq_nth:
  "fq_init q \<Longrightarrow> i < length (available q) \<Longrightarrow> frequency_pstate_to_freq q i = available q ! i"
  by (simp add: frequency_pstate_to_freq_def)

lemma freq_to_pstate_nth:
  "wf_table (fq_api q) \<Longrightarrow> fq_init q \<Longrightarrow> i < length (available q) \<Longrightarrow>
   frequency_freq_to_pstate q (available q ! i) = i"
  by (simp add: frequency_freq_to_pstate_def static_get_index_nth)

lemma pstate_to_freq_antimono:
  assumes "wf_table (fq_api q)" "fq_init q" "i \<le> j" "j < length (available q)"
  shows "frequency_pstate_to_freq q j \<le> frequency_pstate_to_freq q i"
  using assms descending_nth_le [of "available q" i j]
  by (simp add: pstate_to_freq_nth word_le_nat_alt wf_table_def)

text \<open>The current frequencies are frequencies of the table, whatever the driver reads.\<close>

lemma cpufreq_list_in_table:
  assumes "wf_table (fq_api q)" "n \<le> fq_cpu_count q" "n \<le> length fs" "i < n"
  shows "frequency_get_cpufreq_list q (Some fs) n ! i \<in> set (available q)"
proof -
  have "0 < length (available q)" using assms(1) by (auto simp: wf_table_def)
  moreover have "available q ! k \<in> set (available q)" if "static_get_index (fq_api q) (fs ! i) False = Some k" for k
    using static_get_index_sound(1) [OF assms(1) that] by simp
  ultimately show ?thesis using assms(2-)
    by (auto simp: frequency_get_cpufreq_list_def mgt_cpufreq_default_get_current_list_def split: option.split)
qed

subsection \<open>Properties\<close>

text \<open>
  C27. P-states and frequencies are converted back and forth without loss: every P-state of a
  descending table is the P-state of its frequency, the boost one included.
\<close>

theorem pstate_freq_roundtrip:
  assumes "wf_table (fq_api q)" "fq_init q" "i < length (available q)"
  shows "frequency_freq_to_pstate q (frequency_pstate_to_freq q i) = i"
  using assms by (simp add: pstate_to_freq_nth freq_to_pstate_nth)

lemma pstate_freq_roundtrip_witness:
  "frequency_freq_to_pstate \<lparr>fq_init = True, fq_api = cpufreq_example, fq_cpu_count = 4\<rparr> 2000000 = 3"
  using pstate_freq_roundtrip [of "\<lparr>fq_init = True, fq_api = cpufreq_example, fq_cpu_count = 4\<rparr>" 3]
  by (simp add: wf_table_def cpufreq_example_def pstate_nominal_def frequency_pstate_to_freq_def)

lemma index_loop_ge:
  "index_loop fa nominal f closest pst = Some i \<Longrightarrow> nominal \<le> pst \<Longrightarrow> nominal < length fa \<Longrightarrow> nominal \<le> i"
proof (induction "length fa - pst" arbitrary: pst rule: less_induct)
  case less
  show ?case
    using less.prems(1) less.hyps [of "pst + 1"] less.prems(2,3)
    unfolding index_loop.simps [of fa nominal f closest pst] by (auto simp: Let_def split: if_splits)
qed

text \<open>
  C26. The closest P-state is the nearest one among those from the nominal P-state downwards: no
  such P-state has a frequency nearer to the one asked for.  The boost P-state is only chosen for
  exactly its own frequency, even when it is nearer than the nominal one.
\<close>

theorem closest_index_is_nearest:
  assumes "wf_table c" "f \<noteq> 0"
  shows "\<exists>i < length (cf_freqs_available c). static_get_index c f True = Some i \<and>
    (if cf_boost_enabled c \<and> cf_freqs_available c ! 0 = f then i = 0 else pstate_nominal c \<le> i) \<and>
    (\<forall>j. pstate_nominal c \<le> j \<and> j < length (cf_freqs_available c) \<longrightarrow>
       khz_dist f (cf_freqs_available c ! i) \<le> khz_dist f (cf_freqs_available c ! j))"
proof -
  let ?fa = "cf_freqs_available c" and ?n = "pstate_nominal c"
  have d: "sorted_wrt (>) ?fa" and n: "?n < length ?fa" using assms(1) by (simp_all add: wf_table_def)
  consider (boost) "cf_boost_enabled c \<and> ?fa ! 0 = f" | (above) "\<not> (cf_boost_enabled c \<and> ?fa ! 0 = f)" "f > ?fa ! ?n"
    | (search) "\<not> (cf_boost_enabled c \<and> ?fa ! 0 = f)" "\<not> f > ?fa ! ?n" by blast
  then show ?thesis
  proof cases
    case boost
    then show ?thesis using assms(2) n by (intro exI [of _ 0]) (auto simp: static_get_index_def khz_dist_def)
  next
    case above
    then show ?thesis using assms(2) n descending_nth_le [OF d]
      by (intro exI [of _ ?n]) (fastforce simp: static_get_index_def khz_dist_def word_less_nat_alt)
  next
    case search
    obtain i where "i < length ?fa" "index_loop ?fa ?n f True ?n = Some i"
      "\<forall>j. ?n \<le> j \<and> j < length ?fa \<longrightarrow> khz_dist f (?fa ! i) \<le> khz_dist f (?fa ! j)"
      using index_loop_closest [OF d order_refl n, of f] by auto
    moreover from this have "?n \<le> i" using index_loop_ge [OF _ order_refl n] by blast
    ultimately show ?thesis using search assms(2) by (intro exI [of _ i]) (auto simp: static_get_index_def)
  qed
qed

lemma closest_index_is_nearest_witness:
  "static_get_index cpufreq_example 2090000 True = Some 3 \<and>
   (\<exists>i < 5. static_get_index cpufreq_example 2090000 True = Some i \<and>
     khz_dist 2090000 (cf_freqs_available cpufreq_example ! i) \<le> khz_dist 2090000 2200000)"
proof -
  have "wf_table cpufreq_example" by (simp add: wf_table_def cpufreq_example_def pstate_nominal_def)
  from closest_index_is_nearest [OF this, of 2090000]
  show ?thesis by (auto simp: cpufreq_example_def pstate_nominal_def static_get_index_def index_loop.simps)
qed

text \<open>
  Rounding up to a table: between its ends, \<open>pstate_freqtops_upper\<close> returns the P-state with the
  lowest frequency that is not below the one asked for.  Above the first and at or below the
  last frequency it returns that end of the table with an error, also when the last frequency is
  the one asked for.
\<close>

theorem pstate_freqtops_upper_spec:
  assumes "sorted_wrt (\<lambda>a b. ps_khz a > ps_khz b) ps" "ps \<noteq> []"
  shows "pstate_freqtops_upper ps khz =
    (if ps_khz (hd ps) < khz then (EAR_ERROR, hd ps)
     else if ps_khz (last ps) < khz then (EAR_SUCCESS, ps ! (GREATEST i. i < length ps \<and> khz \<le> ps_khz (ps ! i)))
     else (EAR_ERROR, last ps))"
proof (cases "ps_khz (hd ps) < khz")
  case True
  then show ?thesis using assms(2) by (simp add: pstate_freqtops_upper_def hd_conv_nth)
next
  case False
  then have "upper_loop ps khz [1..<length ps] =
      (if ps_khz (last ps) < khz
       then (EAR_SUCCESS, ps ! (GREATEST i. i < length ps \<and> khz \<le> ps_khz (ps ! i))) else (EAR_ERROR, last ps))"
    using assms(2) by (intro upper_loop_spec [OF assms(1)]) (auto simp: hd_conv_nth Suc_le_eq)
  then show ?thesis using assms(2) False by (simp add: pstate_freqtops_upper_def hd_conv_nth)
qed

text \<open>
  The search for the nearest P-state has no effect: whatever the loop stores, the last
  assignment overwrites it, so the function always answers with the slowest P-state.
\<close>

theorem nearest_pstate_is_always_last:
  "pstate_freqtoidx_nearest ps khz idx mode = of_nat (length ps) - 1"
  by (simp add: pstate_freqtoidx_nearest_def)

end
