(* ===== verification/Job_Policy.thy ===== *)
theory Job_Policy
  imports Access_Control Node_Settings Frequency
begin

text \<open>
  The policy and the frequency of a new job (\<^verbatim>\<open>configure_context\<close> and the part of
  \<^verbatim>\<open>powermon_new_job\<close> of \<^verbatim>\<open>daemon/power_monitor.c\<close> that uses it).  The four policy structures that
  the daemon keeps are the record \<open>policy_contexts\<close>; the pointer that \<^verbatim>\<open>configure_context\<close> returns is
  a reference to one of them, and a null pointer that the code dereferences is the value
  \<^const>\<open>None\<close>.
\<close>

subsection \<open>Definitions\<close>

abbreviation (input) MONITORING_ONLY :: u32 where "MONITORING_ONLY \<equiv> 2"

record policy_contexts =
  px_default_policy :: policy_conf
  px_per_job :: policy_conf
  px_energy_tag :: policy_conf
  px_authorized :: policy_conf

datatype policy_ref = Default_Policy | Per_Job | Energy_Tag | Authorized

fun policy_at :: "policy_ref \<Rightarrow> policy_contexts \<Rightarrow> policy_conf" where
  "policy_at Default_Policy c = px_default_policy c"
| "policy_at Per_Job c = px_per_job c"
| "policy_at Energy_Tag c = px_energy_tag c"
| "policy_at Authorized c = px_authorized c"

fun set_p_state :: "policy_ref \<Rightarrow> u32 \<Rightarrow> policy_contexts \<Rightarrow> policy_contexts" where
  "set_p_state Default_Policy p c = c\<lparr>px_default_policy := (px_default_policy c)\<lparr>pl_p_state := p\<rparr>\<rparr>"
| "set_p_state Per_Job p c = c\<lparr>px_per_job := (px_per_job c)\<lparr>pl_p_state := p\<rparr>\<rparr>"
| "set_p_state Energy_Tag p c = c\<lparr>px_energy_tag := (px_energy_tag c)\<lparr>pl_p_state := p\<rparr>\<rparr>"
| "set_p_state Authorized p c = c\<lparr>px_authorized := (px_authorized c)\<lparr>pl_p_state := p\<rparr>\<rparr>"

text \<open>The fields of \<^verbatim>\<open>application_t\<close> and its \<^verbatim>\<open>job_t\<close> that name a job and decide its configuration.\<close>

record application =
  ap_id :: u64
  ap_step_id :: u64
  ap_user_id :: string
  ap_group_id :: string
  ap_user_acc :: string
  ap_energy_tag :: string
  ap_policy :: string
  ap_def_f :: u64
  ap_th :: rat
  ap_is_learning :: bool
  ap_is_mpi :: bool

text \<open>What the daemon knows when a job starts: both configurations, the frequencies and their current values.\<close>

record job_env =
  je_conf :: cluster_conf
  je_node :: my_node_conf
  je_freq :: freq_api
  je_current :: "u64 list option"

definition monitoring_id :: "my_node_conf \<Rightarrow> u32" where
  "monitoring_id node =
     (let mo_pid = policy_name_to_nodeid ''monitoring'' node
      in if mo_pid \<noteq> EAR_ERROR then word_of_int mo_pid else MONITORING_ONLY)"

definition monitoring_context :: "my_node_conf \<Rightarrow> u32 \<Rightarrow> policy_conf \<Rightarrow> policy_conf" where
  "monitoring_context node pstate p =
     p\<lparr>pl_policy := monitoring_id node, pl_p_state := pstate, pl_settings := (pl_settings p)[0 := 0]\<rparr>"

definition configure_normal :: "job_env \<Rightarrow> application \<Rightarrow> policy_contexts \<Rightarrow> (policy_contexts \<times> policy_ref) option" where
  "configure_normal env app c =
     (let p_id = policy_name_to_nodeid (ap_policy app) (je_node env);
          default_conf = get_my_policy_conf (je_node env) (of_nat (cc_default_policy (je_conf env)))
      in if p_id \<noteq> EAR_ERROR
         then do {
           my_policy \<leftarrow> get_my_policy_conf (je_node env) (word_of_int p_id);
           my_policy \<leftarrow> (if \<not> pl_is_available my_policy then default_conf else Some my_policy);
           Some (c\<lparr>px_per_job := my_policy\<rparr>, Per_Job)
         }
         else Some (case default_conf of
             None \<Rightarrow> c\<lparr>px_authorized := monitoring_context (je_node env) 1 (px_authorized c)\<rparr>
           | Some my_policy \<Rightarrow> c\<lparr>px_authorized := my_policy\<rparr>, Authorized))"

definition configure_authorized :: "job_env \<Rightarrow> application \<Rightarrow> policy_contexts \<Rightarrow> (policy_contexts \<times> policy_ref) option" where
  "configure_authorized env app c =
     (if ap_is_learning app
      then let pstate = (if ap_def_f app \<noteq> 0 \<and> frequency_is_valid_frequency (je_freq env) (ap_def_f app)
                         then of_nat (frequency_closest_pstate (je_freq env) (ap_def_f app)) else 1)
           in Some (c\<lparr>px_authorized := monitoring_context (je_node env) pstate (px_authorized c)\<rparr>, Authorized)
      else let p_id = policy_name_to_nodeid (ap_policy app) (je_node env)
           in if p_id \<noteq> EAR_ERROR
              then do {
                my_policy \<leftarrow> get_my_policy_conf (je_node env) (word_of_int p_id);
                let pstate = (if ap_def_f app \<noteq> 0 \<and> frequency_is_valid_frequency (je_freq env) (ap_def_f app)
                              then of_nat (frequency_closest_pstate (je_freq env) (ap_def_f app))
                              else pl_p_state my_policy);
                let th = (if ap_th app > 0 then ap_th app else pl_settings my_policy ! 0);
                Some (c\<lparr>px_authorized := (px_authorized c)\<lparr>pl_policy := word_of_int p_id, pl_p_state := pstate,
                          pl_settings := (pl_settings (px_authorized c))[0 := th], pl_name := pl_name my_policy\<rparr>\<rparr>, Authorized)
              }
              else Some (case get_my_policy_conf (je_node env) (of_nat (cc_default_policy (je_conf env))) of
                  None \<Rightarrow> c\<lparr>px_authorized := monitoring_context (je_node env) 1 (px_authorized c)\<rparr>
                | Some my_policy \<Rightarrow> c\<lparr>px_authorized := my_policy\<rparr>, Authorized))"

definition configure_energy_tag :: "job_env \<Rightarrow> energy_tag option \<Rightarrow> policy_contexts \<Rightarrow> (policy_contexts \<times> policy_ref) option" where
  "configure_energy_tag env my_tag c =
     do {
       let mo_pid = policy_name_to_nodeid ''monitoring'' (je_node env);
       let c = (if mo_pid \<noteq> EAR_ERROR
                then c\<lparr>px_authorized := (px_authorized c)\<lparr>pl_policy := word_of_int mo_pid\<rparr>\<rparr>
                else c\<lparr>px_energy_tag := (px_energy_tag c)\<lparr>pl_policy := MONITORING_ONLY\<rparr>\<rparr>);
       t \<leftarrow> my_tag;
       Some (c\<lparr>px_energy_tag := (px_energy_tag c)\<lparr>pl_p_state := en_p_state t,
                 pl_settings := (pl_settings (px_energy_tag c))[0 := 0]\<rparr>\<rparr>, Energy_Tag)
     }"

text \<open>
  \<open>configure_context\<close> on an application that is not null: the structures, the application, the
  frequency to force (zero for none) and the policy of the job.
\<close>

definition configure_context ::
  "job_env \<Rightarrow> nat \<Rightarrow> energy_tag option \<Rightarrow> application \<Rightarrow> policy_contexts \<Rightarrow>
   (policy_contexts \<times> application \<times> u64 \<times> policy_ref) option" where
  "configure_context env user_type my_tag app c =
     do {
       let app = (if user_type = NORMAL \<or> user_type = ENERGY_TAG then app\<lparr>ap_is_learning := False\<rparr> else app);
       (c, ref) \<leftarrow> (if user_type = NORMAL then configure_normal env app c
                    else if user_type = AUTHORIZED then configure_authorized env app c
                    else if user_type = ENERGY_TAG then configure_energy_tag env my_tag c
                    else None);
       let (c, policy_freq) =
         (if \<not> ap_is_mpi app \<and> \<not> cc_force_frequencies (je_conf env)
          then (set_p_state ref (of_nat (frequency_closest_pstate (je_freq env)
                  (frequency_get_cpu_freq (je_freq env) (je_current env) 0))) c, 0)
          else (c, frequency_pstate_to_freq (je_freq env) (unat (pl_p_state (policy_at ref c)))));
       Some (c, app\<lparr>ap_is_mpi := False\<rparr>, policy_freq, ref)
     }"

text \<open>
  The settings that a job shares with the daemon.  The copies of the library and installation
  sections of the configuration are left out: no definition below reads them.
\<close>

record job_settings =
  js_id :: u32
  js_user_type :: nat
  js_learning :: bool
  js_lib_enabled :: bool
  js_policy :: u32
  js_max_freq :: u64
  js_def_freq :: u64
  js_def_p_state :: u32
  js_settings :: "rat list"
  js_policy_name :: string
  js_min_sig_power :: u64
  js_max_sig_power :: u64
  js_max_power_cap :: int
  js_max_avx512_freq :: u64
  js_max_avx2_freq :: u64
  js_island :: u32
  js_tag :: string
  js_cpu_max_pstate :: int
  js_imc_max_pstate :: int

definition create_ID :: "u64 \<Rightarrow> u64 \<Rightarrow> u32" where
  "create_ID jid sid = ucast (jid * 100 + sid)"

definition new_job_settings ::
  "user_db \<Rightarrow> job_env \<Rightarrow> application \<Rightarrow> job_settings \<Rightarrow> policy_contexts \<Rightarrow>
   (job_settings \<times> policy_contexts \<times> application \<times> u64) option" where
  "new_job_settings db env app settings c =
     (case get_user_type db (je_conf env) (Some (ap_energy_tag app)) (Some (ap_user_id app)) (Some (ap_group_id app))
             (Some (ap_user_acc app)) of
        (user_type, my_tag) \<Rightarrow>
          do {
            (c, app', policy_freq, ref) \<leftarrow> configure_context env user_type my_tag app c;
            let p = policy_at ref c;
            let def_freq = frequency_pstate_to_freq (je_freq env) (unat (pl_p_state p));
            Some (settings\<lparr>js_id := create_ID (ap_id app) (ap_step_id app), js_user_type := user_type,
                    js_learning := (user_type = AUTHORIZED \<and> ap_is_learning app'),
                    js_lib_enabled := (user_type \<noteq> ENERGY_TAG), js_policy := pl_policy p, js_policy_name := pl_name p,
                    js_def_p_state := pl_p_state p, js_def_freq := def_freq, js_island := mn_island (je_node env),
                    js_cpu_max_pstate := mn_cpu_max_pstate (je_node env),
                    js_imc_max_pstate := mn_imc_max_pstate (je_node env), js_tag := mn_tag (je_node env),
                    js_settings := pl_settings p\<rparr>,
                  c, app'\<lparr>ap_def_f := def_freq\<rparr>, policy_freq)
          })"

definition app_example :: application where
  "app_example = \<lparr>ap_id = 7, ap_step_id = 0, ap_user_id = ''eve'', ap_group_id = ''users'', ap_user_acc = '''', ap_energy_tag = '''',
     ap_policy = ''min_time'', ap_def_f = 2400000, ap_th = 1 / 2, ap_is_learning = True, ap_is_mpi = True\<rparr>"

definition settings_example :: job_settings where
  "settings_example = \<lparr>js_id = 0, js_user_type = NORMAL, js_learning = False, js_lib_enabled = True, js_policy = 0,
     js_max_freq = 2400000, js_def_freq = 2400000, js_def_p_state = 1, js_settings = [0], js_policy_name = ''monitoring'',
     js_min_sig_power = 50, js_max_sig_power = 1000, js_max_power_cap = 0, js_max_avx512_freq = 0, js_max_avx2_freq = 0,
     js_island = 0, js_tag = [], js_cpu_max_pstate = 0, js_imc_max_pstate = 0\<rparr>"

definition env_example :: job_env where
  "env_example = \<lparr>je_conf = conf_example, je_node = empty_node_conf\<lparr>mn_policies :=
       [policy_example 0 ''monitoring'' '''' 3, (policy_example 1 ''min_time'' '''' 1)\<lparr>pl_is_available := False\<rparr>]\<rparr>,
     je_freq = \<lparr>fq_init = True, fq_api = cpufreq_example, fq_cpu_count = 4\<rparr>, je_current = Some [2000000, 2000000, 2000000, 2000000]\<rparr>"

definition contexts_example :: policy_contexts where
  "contexts_example = \<lparr>px_default_policy = policy_example 9 '''' '''' 1, px_per_job = policy_example 9 '''' '''' 1,
     px_energy_tag = policy_example 9 '''' '''' 1, px_authorized = policy_example 9 '''' '''' 1\<rparr>"

subsection \<open>Properties\<close>

abbreviation user_of :: "application \<Rightarrow> string option" where "user_of app \<equiv> Some (ap_user_id app)"

definition unprivileged :: "user_db \<Rightarrow> cluster_conf \<Rightarrow> application \<Rightarrow> bool" where
  "unprivileged db conf app \<longleftrightarrow> lookups_ok db (user_of app) \<and>
     \<not> privileged db conf (user_of app) (Some (ap_group_id app)) (Some (ap_user_acc app)) \<and>
     (case energy_tag_exists conf (Some (ap_energy_tag app)) of None \<Rightarrow> True
      | Some t \<Rightarrow> \<not> tag_user (user_of app) (Some (ap_group_id app)) (Some (ap_user_acc app)) t)"

lemma unprivileged_normal:
  assumes "unprivileged db conf app"
  shows "get_user_type db conf (Some (ap_energy_tag app)) (user_of app) (Some (ap_group_id app)) (Some (ap_user_acc app)) =
    (NORMAL, None)"
  using assms by (auto simp: unprivileged_def get_user_type_eq split: option.splits)

lemma find_SomeD: "find P xs = Some x \<Longrightarrow> x \<in> set xs \<and> P x"
  by (induction xs) (auto split: if_splits)

lemma configure_normal_policy:
  assumes "configure_normal env app c = Some (c', ref)"
    and "get_my_policy_conf (je_node env) (of_nat (cc_default_policy (je_conf env))) = Some d"
  shows "policy_at ref c' \<in> set (mn_policies (je_node env)) \<and> (pl_is_available (policy_at ref c') \<or> policy_at ref c' = d)"
  using assms
  by (auto simp: configure_normal_def Let_def bind_eq_Some_conv get_my_policy_conf_def dest!: find_SomeD split: if_splits)

lemma policy_at_set_p_state: "policy_at ref (set_p_state ref p c) = (policy_at ref c)\<lparr>pl_p_state := p\<rparr>"
  by (cases ref) simp_all

lemma configure_normal_untouched:
  "configure_normal env (app\<lparr>ap_is_learning := l\<rparr>) c = configure_normal env app c"
  "configure_normal env (app\<lparr>ap_def_f := f\<rparr>) c = configure_normal env app c"
  "configure_normal env (app\<lparr>ap_th := th\<rparr>) c = configure_normal env app c"
  by (simp_all add: configure_normal_def)

lemmas normal_job_defs = new_job_settings_def configure_context_def configure_normal_untouched Let_def bind_eq_Some_conv

lemma normal_job_independent:
  assumes "unprivileged db (je_conf env) app"
  shows "map_option (\<lambda>(s, c, app, f). (s, c, f)) (new_job_settings db env (app\<lparr>ap_is_learning := l, ap_def_f := def_f, ap_th := th\<rparr>) s\<^sub>0 c) =
    map_option (\<lambda>(s, c, app, f). (s, c, f)) (new_job_settings db env app s\<^sub>0 c)"
  using unprivileged_normal [OF assms]
  by (cases "configure_normal env app c")
    (simp_all add: new_job_settings_def configure_context_def configure_normal_untouched Let_def split: prod.splits)

lemma normal_job_policy:
  assumes "unprivileged db (je_conf env) app" "new_job_settings db env app s\<^sub>0 c = Some (s, c', app', f)"
  shows "\<exists>c1 ref. configure_normal env app c = Some (c1, ref) \<and> js_policy s = pl_policy (policy_at ref c1) \<and>
    js_policy_name s = pl_name (policy_at ref c1) \<and> js_settings s = pl_settings (policy_at ref c1)"
  using assms(2) unprivileged_normal [OF assms(1)]
  by (cases "configure_normal env app c")
    (auto simp: normal_job_defs policy_at_set_p_state split: if_splits)

text \<open>C25. A job of an unprivileged user does not choose its frequency, its threshold or the learning
phase: the settings it receives do not depend on what it asked for them, the learning phase is off,
and its policy is one the node offers to every user or the default policy of the cluster.\<close>

theorem unprivileged_job_confined:
  assumes user: "unprivileged db (je_conf env) app"
    and d: "get_my_policy_conf (je_node env) (of_nat (cc_default_policy (je_conf env))) = Some d"
    and job: "new_job_settings db env app s\<^sub>0 c = Some (s, c', app', f)"
  shows "(\<exists>app''. new_job_settings db env (app\<lparr>ap_is_learning := l, ap_def_f := def_f, ap_th := th\<rparr>) s\<^sub>0 c = Some (s, c', app'', f)) \<and>
    js_user_type s = NORMAL \<and> \<not> js_learning s \<and> js_lib_enabled s \<and>
    (\<exists>p \<in> set (mn_policies (je_node env)). (pl_is_available p \<or> p = d) \<and>
      js_policy s = pl_policy p \<and> js_policy_name s = pl_name p \<and> js_settings s = pl_settings p)"
proof (intro conjI)
  show "(\<exists>app''. new_job_settings db env (app\<lparr>ap_is_learning := l, ap_def_f := def_f, ap_th := th\<rparr>) s\<^sub>0 c = Some (s, c', app'', f))"
    using normal_job_independent [OF user, of th def_f l s\<^sub>0 c] job by auto
  have "js_user_type s = NORMAL \<and> \<not> js_learning s \<and> js_lib_enabled s"
    using job unprivileged_normal [OF user] by (auto simp: new_job_settings_def bind_eq_Some_conv Let_def)
  then show "js_user_type s = NORMAL" "\<not> js_learning s" "js_lib_enabled s" by simp_all
  obtain c1 ref where n: "configure_normal env app c = Some (c1, ref)"
    and s: "js_policy s = pl_policy (policy_at ref c1)" "js_policy_name s = pl_name (policy_at ref c1)"
      "js_settings s = pl_settings (policy_at ref c1)"
    using normal_job_policy [OF user job] by blast
  show "\<exists>p \<in> set (mn_policies (je_node env)). (pl_is_available p \<or> p = d) \<and>
      js_policy s = pl_policy p \<and> js_policy_name s = pl_name p \<and> js_settings s = pl_settings p"
    using configure_normal_policy [OF n d] s by blast
qed

lemma unprivileged_job_confined_witness:
  "\<exists>s c' app' f. new_job_settings user_db_example env_example app_example settings_example contexts_example = Some (s, c', app', f) \<and>
     js_policy_name s = ''monitoring'' \<and> \<not> js_learning s \<and>
     (\<exists>app''. new_job_settings user_db_example env_example
       (app_example\<lparr>ap_is_learning := False, ap_def_f := 1000000, ap_th := 0\<rparr>) settings_example contexts_example =
         Some (s, c', app'', f))"
proof -
  have user: "unprivileged user_db_example (je_conf env_example) app_example"
    by (simp add: unprivileged_def lookups_ok_def user_db_example_def privileged_def names_of_user_def admitted_def
        tag_user_def energy_tag_exists_def conf_example_def env_example_def app_example_def)
  have d: "get_my_policy_conf (je_node env_example) (of_nat (cc_default_policy (je_conf env_example))) =
      Some (policy_example 0 ''monitoring'' [] 3)"
    by (simp add: get_my_policy_conf_def env_example_def conf_example_def policy_example_def)
  obtain s c' app' f where job: "new_job_settings user_db_example env_example app_example settings_example contexts_example =
      Some (s, c', app', f)"
    and name: "js_policy_name s = ''monitoring''"
    using unprivileged_normal [OF user]
    by (auto simp: normal_job_defs configure_normal_def get_my_policy_conf_def env_example_def conf_example_def
        app_example_def policy_example_def policy_name_to_nodeid_def)
  show ?thesis
    using unprivileged_job_confined [OF user d job, where l = False and def_f = 1000000 and th = 0] job name by blast
qed

text \<open>C29. On a node that has the monitoring policy, a job with an energy tag does not get it: the identifier
is written to the policy of authorised users, and the job keeps the identifier of an earlier configuration.\<close>

theorem energy_tag_policy_misplaced:
  assumes "policy_name_to_nodeid ''monitoring'' (je_node env) = pid" "pid \<noteq> EAR_ERROR"
    and "configure_context env ENERGY_TAG (Some t) app c = Some (c', app', f, ref)"
  shows "pl_policy (policy_at ref c') = pl_policy (px_energy_tag c) \<and> pl_policy (px_authorized c') = word_of_int pid"
  using assms by (auto simp: configure_context_def configure_energy_tag_def Let_def split: if_splits)

lemma energy_tag_policy_misplaced_witness:
  "\<exists>c' app' f ref. configure_context env_example ENERGY_TAG (Some (hd (cc_e_tags conf_example))) app_example contexts_example =
      Some (c', app', f, ref) \<and> pl_policy (policy_at ref c') = 9 \<and> pl_policy (px_authorized c') = 0"
proof -
  have p: "policy_name_to_nodeid ''monitoring'' (je_node env_example) = 0"
    by (simp add: env_example_def policy_example_def policy_name_to_nodeid_def)
  obtain c' app' f ref where
    "configure_context env_example ENERGY_TAG (Some (hd (cc_e_tags conf_example))) app_example contexts_example =
      Some (c', app', f, ref)"
    by (auto simp: configure_context_def configure_energy_tag_def Let_def app_example_def)
  then show ?thesis
    using energy_tag_policy_misplaced [OF p] by (fastforce simp: contexts_example_def policy_example_def)
qed

end
