(* ===== verification/Job_Contexts.thy ===== *)
theory Job_Contexts
  imports Job_Policy
begin

text \<open>
  The jobs of a node (\<^verbatim>\<open>daemon/power_monitor.c\<close>): the list of jobs with their number of
  contexts, the array of contexts with one entry per job step, and the handlers that the remote
  interface calls when a job, a task or the library starts and ends.  Both arrays are lists whose
  length is the size of the array, so the bounds of the loops are the lengths of the lists.  The
  calls to the power capping, to the hardware and to the file system are collected in order in
  the field \<open>pm_calls\<close>.  A dereference of a null pointer is the value \<^const>\<open>None\<close>.
\<close>

subsection \<open>State\<close>

abbreviation (input) APP_DEFAULT :: nat where "APP_DEFAULT \<equiv> 0"
abbreviation (input) APP_FINISHED :: nat where "APP_FINISHED \<equiv> 1"
abbreviation (input) INTERACT_STEP :: u64 where "INTERACT_STEP \<equiv> - 6"

definition MAX_CPUS_SUPPORTED :: nat where "MAX_CPUS_SUPPORTED = 512"
definition MAX_NESTED_LEVELS :: nat where "MAX_NESTED_LEVELS = 16384"

record job_context =
  jc_id :: u64
  jc_num_ctx :: u32
  jc_num_cpus :: u32

record powermon_app =
  pa_app :: application
  pa_master_pid :: int
  pa_job_created :: bool
  pa_is_job :: bool
  pa_state :: nat
  pa_plug_num_cpus :: nat
  pa_plug_mask :: "nat set"
  pa_earl_num_cpus :: nat
  pa_local_ids :: u32
  pa_governor :: string
  pa_current_freq :: u64
  pa_policy_freq :: u64
  pa_sig_reported :: bool
  pa_settings :: "job_settings option"
  pa_force_rescheduling :: bool
  pa_node_mask :: "nat set"
  pa_exclusive :: bool

text \<open>What the daemon asks of its other parts, of the hardware and of the file system.\<close>

datatype power_call =
    Create_Job_Area u32
  | Idle_To_Run
  | Set_Mode_Auto
  | Powercap_New_Job
  | Set_Default_Init u64
  | Set_App_Req_Freq
  | Report_App application
  | Powercap_End_Job
  | Run_To_Idle
  | Set_Default_End bool
  | Nodemgr_Clean_Job u64 u64
  | Clean_Job_Area u32
  | Service_Close u64 u64
  | Set_Userspace "nat set"
  | Set_Cpus "nat option list"
  | Save_Conf

record powermon =
  pm_jobs :: "job_context list"
  pm_apps :: "powermon_app option list"
  pm_joblist :: "u32 list"
  pm_max_context_created :: nat
  pm_num_contexts :: int
  pm_env :: job_env
  pm_contexts :: policy_contexts
  pm_calls :: "power_call list"

definition call :: "power_call \<Rightarrow> powermon \<Rightarrow> powermon" where
  "call e s = s\<lparr>pm_calls := pm_calls s @ [e]\<rparr>"

definition set_app :: "nat \<Rightarrow> powermon_app \<Rightarrow> powermon \<Rightarrow> powermon" where
  "set_app i a s = s\<lparr>pm_apps := (pm_apps s)[i := Some a]\<rparr>"

subsection \<open>Jobs in the node\<close>

text \<open>The loops \<^verbatim>\<open>while ((i < MAX) && !P(list[i])) i++\<close>.\<close>

fun search :: "('a \<Rightarrow> bool) \<Rightarrow> 'a list \<Rightarrow> nat" where
  "search P [] = 0"
| "search P (x # xs) = (if P x then 0 else Suc (search P xs))"

definition init_jobs_in_node :: "job_context list" where
  "init_jobs_in_node = replicate MAX_CPUS_SUPPORTED \<lparr>jc_id = 0, jc_num_ctx = 0, jc_num_cpus = 0\<rparr>"

definition is_job_in_node :: "u64 \<Rightarrow> job_context list \<Rightarrow> nat option" where
  "is_job_in_node jid jobs =
     (let i = search (\<lambda>j. jc_id j = jid) jobs in if i < length jobs then Some i else None)"

definition add_job_in_node :: "u64 \<Rightarrow> job_context list \<Rightarrow> job_context list" where
  "add_job_in_node jid jobs =
     (let i = search (\<lambda>j. jc_id j = jid) jobs
      in if i < length jobs then jobs[i := (jobs ! i)\<lparr>jc_num_ctx := jc_num_ctx (jobs ! i) + 1\<rparr>]
         else let i = search (\<lambda>j. jc_id j = 0) jobs
              in if i = length jobs then jobs else jobs[i := (jobs ! i)\<lparr>jc_id := jid, jc_num_ctx := 1\<rparr>])"

definition del_job_in_node :: "u64 \<Rightarrow> job_context list \<Rightarrow> job_context list" where
  "del_job_in_node jid jobs =
     (let i = search (\<lambda>j. jc_id j = jid) jobs
      in if i < length jobs
         then let j = (jobs ! i)\<lparr>jc_num_ctx := jc_num_ctx (jobs ! i) - 1\<rparr>
              in jobs[i := (if jc_num_ctx j = 0 then j\<lparr>jc_id := 0\<rparr> else j)]
         else jobs)"

definition clean_cpus_in_jobs :: "job_context list \<Rightarrow> job_context list" where
  "clean_cpus_in_jobs jobs = map (\<lambda>j. j\<lparr>jc_num_cpus := 0\<rparr>) jobs"

definition num_jobs_in_node :: "job_context list \<Rightarrow> nat" where
  "num_jobs_in_node jobs = foldl (\<lambda>total j. if jc_id j \<noteq> 0 then total + 1 else total) 0 jobs"

subsection \<open>Contexts\<close>

text \<open>The results of the allocations and of the shared areas that a new context needs.\<close>

record shared_areas =
  sa_calloc :: bool
  sa_lock :: bool
  sa_jobmon_path :: bool
  sa_jobmon :: bool
  sa_settings :: bool
  sa_resched :: bool
  sa_app_mgt :: bool
  sa_pc_app :: bool

definition zero_application :: application where
  "zero_application = \<lparr>ap_id = 0, ap_step_id = 0, ap_user_id = '''', ap_group_id = '''', ap_user_acc = '''',
     ap_energy_tag = '''', ap_policy = '''', ap_def_f = 0, ap_th = 0, ap_is_learning = False, ap_is_mpi = False\<rparr>"

definition zero_settings :: job_settings where
  "zero_settings = \<lparr>js_id = 0, js_user_type = NORMAL, js_learning = False, js_lib_enabled = False, js_policy = 0,
     js_max_freq = 0, js_def_freq = 0, js_def_p_state = 0, js_settings = [], js_policy_name = '''',
     js_min_sig_power = 0, js_max_sig_power = 0, js_max_power_cap = 0, js_max_avx512_freq = 0, js_max_avx2_freq = 0,
     js_island = 0, js_tag = '''', js_cpu_max_pstate = 0, js_imc_max_pstate = 0\<rparr>"

definition zero_powermon_app :: powermon_app where
  "zero_powermon_app = \<lparr>pa_app = zero_application, pa_master_pid = 0, pa_job_created = False, pa_is_job = False,
     pa_state = APP_DEFAULT, pa_plug_num_cpus = 0, pa_plug_mask = {}, pa_earl_num_cpus = 0, pa_local_ids = 0,
     pa_governor = '''', pa_current_freq = 0, pa_policy_freq = 0, pa_sig_reported = False, pa_settings = None,
     pa_force_rescheduling = False, pa_node_mask = {}, pa_exclusive = False\<rparr>"

definition init_contexts :: "job_env \<Rightarrow> policy_contexts \<Rightarrow> powermon" where
  "init_contexts env c =
     \<lparr>pm_jobs = init_jobs_in_node, pm_apps = replicate MAX_NESTED_LEVELS None, pm_joblist = replicate MAX_NESTED_LEVELS 0,
      pm_max_context_created = 0, pm_num_contexts = 0, pm_env = env, pm_contexts = c, pm_calls = []\<rparr>"

definition reset_shared_memory :: "job_env \<Rightarrow> powermon_app \<Rightarrow> powermon_app option" where
  "reset_shared_memory env a =
     do {
       settings \<leftarrow> pa_settings a;
       my_policy \<leftarrow> get_my_policy_conf (je_node env) (of_nat (cc_default_policy (je_conf env)));
       Some (a\<lparr>pa_force_rescheduling := False,
               pa_settings := Some (settings\<lparr>js_user_type := NORMAL, js_learning := False, js_lib_enabled := True,
                 js_policy := of_nat (cc_default_policy (je_conf env)),
                 js_def_freq := frequency_pstate_to_freq (je_freq env) (unat (pl_p_state my_policy)),
                 js_def_p_state := pl_p_state my_policy,
                 js_max_freq := frequency_pstate_to_freq (je_freq env) (unat (mn_max_pstate (je_node env))),
                 js_policy_name := take 64 (pl_name my_policy), js_settings := pl_settings my_policy,
                 js_min_sig_power := mn_min_sig_power (je_node env), js_max_sig_power := mn_max_sig_power (je_node env),
                 js_max_power_cap := mn_powercap (je_node env),
                 js_max_avx512_freq := mn_max_avx512_freq (je_node env),
                 js_max_avx2_freq := mn_max_avx2_freq (je_node env)\<rparr>)\<rparr>)
     }"

definition powermon_create_idle_context :: "shared_areas \<Rightarrow> powermon \<Rightarrow> (state_t \<times> powermon) option" where
  "powermon_create_idle_context sa s =
     (if \<not> sa_calloc sa then Some (EAR_ERROR, s\<lparr>pm_apps := (pm_apps s)[0 := None]\<rparr>)
      else let s = call (Create_Job_Area 0) (set_app 0 zero_powermon_app s);
               s = s\<lparr>pm_max_context_created := 0, pm_num_contexts := 1,
                     pm_joblist := (pm_joblist s)[0 := create_ID 0 0]\<rparr>
           in if \<not> sa_jobmon_path sa \<or> \<not> sa_jobmon sa then Some (EAR_ERROR, s)
              else if \<not> sa_settings sa \<or> \<not> sa_resched sa then None
              else do {
                a \<leftarrow> reset_shared_memory (pm_env s) (zero_powermon_app\<lparr>pa_settings := Some zero_settings\<rparr>);
                if \<not> sa_pc_app sa then None else Some (EAR_SUCCESS, set_app 0 a s)
              })"

definition find_empty_context :: "powermon \<Rightarrow> int" where
  "find_empty_context s =
     (if pm_num_contexts s = int (length (pm_apps s)) then - 1
      else let i = search (\<lambda>a. a = None) (pm_apps s) in if i < length (pm_apps s) then int i else - 1)"

definition new_context :: "u64 \<Rightarrow> u64 \<Rightarrow> shared_areas \<Rightarrow> powermon \<Rightarrow> (state_t \<times> int \<times> powermon) option" where
  "new_context jid sid sa s =
     (if pm_num_contexts s = int (length (pm_apps s)) then Some (EAR_ERROR, - 1, s)
      else let pos = find_empty_context s
      in if pos < 0 then Some (EAR_ERROR, - 1, s)
      else if \<not> sa_calloc sa then Some (EAR_ERROR, - 1, s)
      else let cc = nat pos
      in if \<not> sa_lock sa then Some (EAR_ERROR, pos, set_app cc zero_powermon_app s)
      else let app = zero_application\<lparr>ap_id := jid, ap_step_id := sid\<rparr>;
               a = zero_powermon_app\<lparr>pa_app := app\<rparr>;
               s = set_app cc a s;
               s = s\<lparr>pm_max_context_created := (if cc > pm_max_context_created s then cc else pm_max_context_created s),
                     pm_jobs := add_job_in_node jid (pm_jobs s),
                     pm_joblist := (pm_joblist s)[cc := create_ID jid sid]\<rparr>
      in if \<not> sa_jobmon_path sa \<or> \<not> sa_jobmon sa \<or> \<not> sa_settings sa then Some (EAR_ERROR, pos, s)
      else do {
        let s = set_app cc (a\<lparr>pa_settings := Some zero_settings\<rparr>) s;
        idle \<leftarrow> pm_apps s ! 0;
        settings \<leftarrow> pa_settings idle;
        let a = a\<lparr>pa_settings := Some settings\<rparr>;
        let s = set_app cc a s;
        if \<not> sa_resched sa \<or> \<not> sa_app_mgt sa \<or> \<not> sa_pc_app sa then Some (EAR_ERROR, pos, s)
        else
          let a = a\<lparr>pa_exclusive := (num_jobs_in_node (pm_jobs s) = 1)\<rparr>
          in Some (EAR_SUCCESS, pos, (set_app cc a s)\<lparr>pm_num_contexts := pm_num_contexts s + 1\<rparr>)
      })"

text \<open>The loops over the contexts up to the last one, as loops over the list of their indices.\<close>

fun mark_by_pid_loop ::
  "(int \<Rightarrow> bool) \<Rightarrow> (nat \<Rightarrow> bool) \<Rightarrow> nat list \<Rightarrow> powermon_app option list \<Rightarrow> nat \<Rightarrow> nat \<times> powermon_app option list" where
  "mark_by_pid_loop alive lock [] apps found = (found, apps)"
| "mark_by_pid_loop alive lock (i # is) apps found =
     (case apps ! i of None \<Rightarrow> mark_by_pid_loop alive lock is apps found
      | Some a \<Rightarrow>
          if pa_master_pid a = 0 \<or> alive (pa_master_pid a) then mark_by_pid_loop alive lock is apps found
          else if \<not> lock i then (found, apps)
          else mark_by_pid_loop alive lock is (apps[i := Some (a\<lparr>pa_state := APP_FINISHED\<rparr>)]) (found + 1))"

definition mark_contexts_to_finish_by_pid :: "(int \<Rightarrow> bool) \<Rightarrow> (nat \<Rightarrow> bool) \<Rightarrow> powermon \<Rightarrow> nat \<times> powermon" where
  "mark_contexts_to_finish_by_pid alive lock s =
     (let (found, apps) = mark_by_pid_loop alive lock [0..<Suc (pm_max_context_created s)] (pm_apps s) 0
      in (found, s\<lparr>pm_apps := apps\<rparr>))"

fun mark_by_jobid_loop ::
  "u64 \<Rightarrow> (nat \<Rightarrow> bool) \<Rightarrow> nat list \<Rightarrow> powermon_app option list \<Rightarrow> nat \<Rightarrow> nat \<times> powermon_app option list" where
  "mark_by_jobid_loop jid lock [] apps found = (found, apps)"
| "mark_by_jobid_loop jid lock (i # is) apps found =
     (case apps ! i of None \<Rightarrow> mark_by_jobid_loop jid lock is apps found
      | Some a \<Rightarrow>
          if \<not> lock i then (found, apps)
          else if ap_id (pa_app a) = jid
          then mark_by_jobid_loop jid lock is (apps[i := Some (a\<lparr>pa_state := APP_FINISHED\<rparr>)]) (found + 1)
          else mark_by_jobid_loop jid lock is apps found)"

definition mark_contexts_to_finish_by_jobid ::
  "u64 \<Rightarrow> (nat \<Rightarrow> bool) \<Rightarrow> u64 \<Rightarrow> u64 \<Rightarrow> powermon \<Rightarrow> nat \<times> powermon" where
  "mark_contexts_to_finish_by_jobid batch_step lock jid step_id s =
     (if step_id \<noteq> batch_step \<and> step_id \<noteq> INTERACT_STEP then (0, s)
      else let (found, apps) = mark_by_jobid_loop jid lock [0..<Suc (pm_max_context_created s)] (pm_apps s) 0
           in (found, s\<lparr>pm_apps := apps\<rparr>))"

definition is_context_of :: "u64 \<Rightarrow> u64 \<Rightarrow> powermon_app option \<Rightarrow> bool" where
  "is_context_of jid sid a \<longleftrightarrow>
     (case a of None \<Rightarrow> False | Some a \<Rightarrow> ap_id (pa_app a) = jid \<and> ap_step_id (pa_app a) = sid)"

definition find_context_for_job :: "u64 \<Rightarrow> u64 \<Rightarrow> powermon \<Rightarrow> int" where
  "find_context_for_job jid sid s =
     (let apps = take (Suc (pm_max_context_created s)) (pm_apps s);
          i = search (is_context_of jid sid) apps
      in if i < length apps then int i else - 1)"

fun new_max_loop :: "nat list \<Rightarrow> powermon_app option list \<Rightarrow> nat \<Rightarrow> nat" where
  "new_max_loop [] apps new_max = new_max"
| "new_max_loop (i # is) apps new_max =
     new_max_loop is apps (if apps ! i \<noteq> None \<and> i > new_max then i else new_max)"

definition end_context :: "(nat \<Rightarrow> bool) \<Rightarrow> nat \<Rightarrow> bool \<Rightarrow> powermon \<Rightarrow> powermon" where
  "end_context lock cc get_lock s =
     (case pm_apps s ! cc of None \<Rightarrow> s
      | Some a \<Rightarrow>
          if get_lock \<and> \<not> lock cc then s
          else let apps = (pm_apps s)[cc := None]
               in s\<lparr>pm_joblist := (pm_joblist s)[cc := 0], pm_jobs := del_job_in_node (ap_id (pa_app a)) (pm_jobs s),
                    pm_num_contexts := pm_num_contexts s - 1, pm_apps := apps,
                    pm_max_context_created :=
                      (if cc = pm_max_context_created s then new_max_loop [0..<Suc cc] apps 0
                       else pm_max_context_created s)\<rparr>)"

text \<open>The loops that end contexts test the last context again in every round.\<close>

fun clean_loop :: "(nat \<Rightarrow> bool) \<Rightarrow> (u64 \<Rightarrow> bool) \<Rightarrow> nat list \<Rightarrow> powermon \<Rightarrow> powermon" where
  "clean_loop lock P [] s = s"
| "clean_loop lock P (i # is) s =
     (if i > pm_max_context_created s then s
      else clean_loop lock P is
        (case pm_apps s ! i of None \<Rightarrow> s
         | Some a \<Rightarrow> if P (ap_id (pa_app a)) then end_context lock i True s else s))"

definition clean_job_contexts :: "(nat \<Rightarrow> bool) \<Rightarrow> u64 \<Rightarrow> powermon \<Rightarrow> powermon" where
  "clean_job_contexts lock jid s = clean_loop lock (\<lambda>i. i = jid) [0..<Suc (pm_max_context_created s)] s"

definition clean_contexts_diff_than :: "(nat \<Rightarrow> bool) \<Rightarrow> u64 \<Rightarrow> powermon \<Rightarrow> powermon" where
  "clean_contexts_diff_than lock jid s = clean_loop lock (\<lambda>i. i \<noteq> jid) [0..<Suc (pm_max_context_created s)] s"

definition select_last_context :: "powermon \<Rightarrow> int" where
  "select_last_context s =
     (let i = search (\<lambda>a. a \<noteq> None) (pm_apps s) in if i < length (pm_apps s) then int i else - 1)"

definition powermon_is_idle :: "powermon \<Rightarrow> bool" where
  "powermon_is_idle s =
     (let created = filter (\<lambda>a. a \<noteq> None) (take (Suc (pm_max_context_created s)) (pm_apps s));
          finished = filter (\<lambda>a. pa_state (the a) = APP_FINISHED) created
      in pm_max_context_created s = 0 \<or> length finished = length created)"

fun new_configuration_loop :: "nat list \<Rightarrow> powermon \<Rightarrow> powermon option" where
  "new_configuration_loop [] s = Some s"
| "new_configuration_loop (i # is) s =
     (case pm_apps s ! i of None \<Rightarrow> new_configuration_loop is s
      | Some a \<Rightarrow> do {
          a \<leftarrow> reset_shared_memory (pm_env s) a;
          new_configuration_loop is
            (set_app i (if ap_is_mpi (pa_app a) then a\<lparr>pa_force_rescheduling := True\<rparr> else a) s)
        })"

definition powermon_new_configuration :: "powermon \<Rightarrow> powermon option" where
  "powermon_new_configuration s = new_configuration_loop [0..<Suc (pm_max_context_created s)] s"

subsection \<open>Start and end of jobs\<close>

definition new_job_app ::
  "u64 \<Rightarrow> bool \<Rightarrow> bool \<Rightarrow> job_settings \<Rightarrow> u64 \<Rightarrow> application \<Rightarrow> powermon_app \<Rightarrow> powermon_app" where
  "new_job_app current_freq is_job from_mpi settings policy_freq app a =
     a\<lparr>pa_current_freq := current_freq, pa_is_job := is_job, pa_policy_freq := policy_freq, pa_settings := Some settings,
       pa_force_rescheduling := False, pa_node_mask := {}, pa_job_created := \<not> from_mpi, pa_app := app,
       pa_sig_reported := False\<rparr>"

definition powermon_new_job ::
  "user_db \<Rightarrow> (nat \<Rightarrow> bool) \<Rightarrow> shared_areas \<Rightarrow> application \<Rightarrow> bool \<Rightarrow> bool \<Rightarrow> powermon \<Rightarrow> powermon option" where
  "powermon_new_job db lock sa app from_mpi is_job s =
     do {
       let s = call (Create_Job_Area (create_ID (ap_id app) (ap_step_id app))) s;
       let s = (if powermon_is_idle s then call Idle_To_Run s else s);
       let s = call Powercap_New_Job (call Set_Mode_Auto s);
       (r, cc, s) \<leftarrow> new_context (ap_id app) (ap_step_id app) sa s;
       if r \<noteq> EAR_SUCCESS \<or> \<not> lock (nat cc) then Some s
       else do {
         a \<leftarrow> pm_apps s ! nat cc;
         let alone = (case is_job_in_node (ap_id app) (pm_jobs s) of None \<Rightarrow> False
                      | Some i \<Rightarrow> jc_num_ctx (pm_jobs s ! i) = 1);
         old \<leftarrow> pa_settings a;
         (settings, c, app, policy_freq) \<leftarrow> new_job_settings db (pm_env s) app old (pm_contexts s);
         let s = call Set_App_Req_Freq (call (Set_Default_Init policy_freq) (s\<lparr>pm_contexts := c\<rparr>));
         Some (set_app (nat cc)
           (new_job_app (frequency_get_cpu_freq (je_freq (pm_env s)) (je_current (pm_env s)) 0) (is_job \<or> alone)
              from_mpi settings policy_freq app a) s)
       }
     }"

definition powermon_end_job :: "(nat \<Rightarrow> bool) \<Rightarrow> u64 \<Rightarrow> u64 \<Rightarrow> powermon \<Rightarrow> powermon" where
  "powermon_end_job lock jid sid s =
     (let curr_ctx = find_context_for_job jid sid s
      in if curr_ctx < 0 then s
         else case pm_apps s ! nat curr_ctx of None \<Rightarrow> s
         | Some summary \<Rightarrow>
             if \<not> lock (nat curr_ctx) then s
             else let
               s = call (Report_App (if pa_sig_reported summary then pa_app summary
                                     else (pa_app summary)\<lparr>ap_is_mpi := False\<rparr>)) s;
               s = end_context lock (nat curr_ctx) False (call Powercap_End_Job s);
               s = (if pa_state summary = APP_FINISHED then s
                    else if powermon_is_idle s then call (Set_Default_End True) (call Run_To_Idle s)
                    else call (Set_Default_End False) s);
               s = call (Nodemgr_Clean_Job jid sid) s;
               s = (if create_ID jid sid = 0 then s else call (Clean_Job_Area (create_ID jid sid)) s)
             in call (Service_Close jid sid) s)"

fun finish_loop :: "(nat \<Rightarrow> bool) \<Rightarrow> nat list \<Rightarrow> powermon \<Rightarrow> powermon" where
  "finish_loop lock [] s = s"
| "finish_loop lock (i # is) s =
     (if i > pm_max_context_created s then s
      else finish_loop lock is
        (case pm_apps s ! i of None \<Rightarrow> s
         | Some a \<Rightarrow>
             if pa_state a = APP_FINISHED then powermon_end_job lock (ap_id (pa_app a)) (ap_step_id (pa_app a)) s
             else s))"

definition finish_pending_contexts :: "(nat \<Rightarrow> bool) \<Rightarrow> powermon \<Rightarrow> powermon" where
  "finish_pending_contexts lock s = finish_loop lock [0..<Suc (pm_max_context_created s)] s"

text \<open>The connections of the library: the first of a step creates its context when the scheduler did not.\<close>

definition powermon_mpi_init ::
  "user_db \<Rightarrow> (nat \<Rightarrow> bool) \<Rightarrow> shared_areas \<Rightarrow> application \<Rightarrow> powermon \<Rightarrow> powermon option" where
  "powermon_mpi_init db lock sa app s =
     do {
       s \<leftarrow> (if find_context_for_job (ap_id app) (ap_step_id app) s < 0
             then powermon_new_job db lock sa app True False s else Some s);
       let cc = find_context_for_job (ap_id app) (ap_step_id app) s;
       if cc < 0 then Some s
       else case pm_apps s ! nat cc of None \<Rightarrow> Some s
       | Some a \<Rightarrow>
           if \<not> lock (nat cc) then Some s
           else let a = a\<lparr>pa_local_ids := pa_local_ids a + 1\<rparr>
                in Some (set_app (nat cc)
                     (if pa_local_ids a > 1 then a else a\<lparr>pa_app := (pa_app a)\<lparr>ap_is_mpi := True\<rparr>\<rparr>) s)
     }"

definition powermon_mpi_finalize :: "(nat \<Rightarrow> bool) \<Rightarrow> u64 \<Rightarrow> u64 \<Rightarrow> powermon \<Rightarrow> powermon" where
  "powermon_mpi_finalize lock jid sid s =
     (let cc = find_context_for_job jid sid s
      in if cc < 0 then s
         else case pm_apps s ! nat cc of None \<Rightarrow> s
         | Some a \<Rightarrow>
             if \<not> lock (nat cc) then s
             else let a = a\<lparr>pa_local_ids := pa_local_ids a - 1\<rparr>;
                      s = set_app (nat cc) a s
                  in if pa_local_ids a > 0 then s
                     else let s = call Set_Mode_Auto s
                          in if pa_job_created a then s
                             else powermon_end_job lock (ap_id (pa_app a)) (ap_step_id (pa_app a)) s)"

definition powermon_mpi_signature :: "application \<Rightarrow> powermon \<Rightarrow> powermon" where
  "powermon_mpi_signature app s =
     (let cc = find_context_for_job (ap_id app) (ap_step_id app) s
      in if cc < 0 then s
         else case pm_apps s ! nat cc of None \<Rightarrow> s
         | Some a \<Rightarrow>
             call Save_Conf (set_app (nat cc)
               (a\<lparr>pa_app := (pa_app a)\<lparr>ap_def_f := ap_def_f app, ap_th := ap_th app, ap_policy := ap_policy app\<rparr>,
                  pa_sig_reported := True\<rparr>) s))"

subsection \<open>Tasks\<close>

record new_task_req =
  nt_jid :: u64
  nt_sid :: u64
  nt_pid :: int
  nt_mask :: "nat set"

text \<open>
  The governor of the first processor of the mask; the list of governors is missing when it cannot
  be read.
\<close>

definition store_current_task_governor :: "nat \<Rightarrow> string list option \<Rightarrow> nat set \<Rightarrow> string" where
  "store_current_task_governor devs_count governors msk =
     (case governors of None \<Rightarrow> ''unknown''
      | Some names \<Rightarrow>
          let i = search (\<lambda>i. i \<in> msk) [0..<devs_count] in if i < devs_count then names ! i else ''unknown'')"

definition fill_cpufreq_list :: "nat set \<Rightarrow> nat \<Rightarrow> nat \<Rightarrow> nat option list" where
  "fill_cpufreq_list msk n_cpus pstate = map (\<lambda>i. if i \<in> msk then Some pstate else None) [0..<n_cpus]"

definition powermon_new_task ::
  "string list option \<Rightarrow> bool \<Rightarrow> (nat \<Rightarrow> bool) \<Rightarrow> new_task_req \<Rightarrow> powermon \<Rightarrow> powermon option" where
  "powermon_new_task governors userspace lock newtask s =
     (let cc = find_context_for_job (nt_jid newtask) (nt_sid newtask) s;
          q = je_freq (pm_env s)
      in if cc < 0 then Some s
         else case pm_apps s ! nat cc of None \<Rightarrow> None
         | Some a \<Rightarrow>
             if \<not> lock (nat cc) then Some s
             else let plug_mask = pa_plug_mask a \<union> nt_mask newtask;
                      a = a\<lparr>pa_master_pid := (if pa_master_pid a = 0 then nt_pid newtask else pa_master_pid a),
                            pa_plug_mask := plug_mask, pa_plug_num_cpus := card plug_mask\<rparr>
                  in if pa_policy_freq a = 0 then Some (set_app (nat cc) a s)
                     else do {
                       let a = a\<lparr>pa_governor := store_current_task_governor (fq_cpu_count q) governors (nt_mask newtask)\<rparr>;
                       let s = (if userspace then call (Set_Userspace (nt_mask newtask)) s else s);
                       app_pstate \<leftarrow> static_get_index (fq_api q) (pa_policy_freq a) True;
                       Some (set_app (nat cc) a
                         (call (Set_Cpus (fill_cpufreq_list (nt_mask newtask) (fq_cpu_count q) app_pstate)) s))
                     })"

subsection \<open>Commands of the remote interface\<close>

definition handle_new_job ::
  "user_db \<Rightarrow> (int \<Rightarrow> bool) \<Rightarrow> (nat \<Rightarrow> nat \<Rightarrow> bool) \<Rightarrow> shared_areas \<Rightarrow> application \<Rightarrow> bool \<Rightarrow> powermon \<Rightarrow> powermon option" where
  "handle_new_job db alive lock sa app is_list s =
     (let (num_contexts, s) = mark_contexts_to_finish_by_pid alive (lock 0) s;
          s = (if num_contexts \<noteq> 0 then finish_pending_contexts (lock 1) s else s)
      in powermon_new_job db (lock 2) sa app False is_list s)"

definition handle_end_job :: "u64 \<Rightarrow> (nat \<Rightarrow> nat \<Rightarrow> bool) \<Rightarrow> u64 \<Rightarrow> u64 \<Rightarrow> powermon \<Rightarrow> powermon" where
  "handle_end_job batch_step lock jid sid s =
     (let s = powermon_end_job (lock 0) jid sid s;
          (num_contexts, s) = mark_contexts_to_finish_by_jobid batch_step (lock 1) jid sid s
      in if num_contexts \<noteq> 0 then finish_pending_contexts (lock 2) s else s)"

definition set_node :: "my_node_conf \<Rightarrow> powermon \<Rightarrow> powermon" where
  "set_node n s = s\<lparr>pm_env := (pm_env s)\<lparr>je_node := n\<rparr>\<rparr>"

definition update_policy :: "u32 \<Rightarrow> (policy_conf \<Rightarrow> policy_conf) \<Rightarrow> powermon \<Rightarrow> powermon" where
  "update_policy p_id f s =
     (let node = je_node (pm_env s);
          i = search (\<lambda>p. pl_policy p = p_id) (mn_policies node)
      in if i < length (mn_policies node)
         then set_node (node\<lparr>mn_policies := (mn_policies node)[i := f (mn_policies node ! i)]\<rparr>) s
         else s)"

definition powermon_inc_th :: "u32 \<Rightarrow> rat \<Rightarrow> powermon \<Rightarrow> powermon" where
  "powermon_inc_th p_id th s =
     update_policy p_id (\<lambda>p. let t = pl_settings p ! 0 + th
                              in if t > 0 \<and> t \<le> 1 then p\<lparr>pl_settings := (pl_settings p)[0 := t]\<rparr> else p) s"

definition powermon_set_th :: "u32 \<Rightarrow> rat \<Rightarrow> powermon \<Rightarrow> powermon" where
  "powermon_set_th p_id th s = update_policy p_id (\<lambda>p. p\<lparr>pl_settings := (pl_settings p)[0 := th]\<rparr>) s"

definition powermon_new_max_freq :: "u64 \<Rightarrow> powermon \<Rightarrow> powermon" where
  "powermon_new_max_freq maxf s =
     call Save_Conf (set_node ((je_node (pm_env s))
       \<lparr>mn_max_pstate := of_nat (frequency_closest_pstate (je_freq (pm_env s)) maxf)\<rparr>) s)"

fun force_frequency_loop :: "(powermon_app \<Rightarrow> bool) \<Rightarrow> u64 \<Rightarrow> powermon_app option list \<Rightarrow> powermon \<Rightarrow> powermon" where
  "force_frequency_loop P f [] s = s"
| "force_frequency_loop P f (None # apps) s = force_frequency_loop P f apps s"
| "force_frequency_loop P f (Some a # apps) s =
     force_frequency_loop P f apps
       (if \<not> ap_is_mpi (pa_app a) \<and> cc_force_frequencies (je_conf (pm_env s)) \<and> P a
        then (case snd (frequency_set_with_mask (je_freq (pm_env s)) 0 (\<lambda>i. i \<in> pa_node_mask a) f) of
                None \<Rightarrow> s | Some l \<Rightarrow> call (Set_Cpus l) s)
        else s)"

abbreviation created_apps :: "powermon \<Rightarrow> powermon_app option list" where
  "created_apps s \<equiv> take (Suc (pm_max_context_created s)) (pm_apps s)"

definition powermon_new_def_freq :: "u64 \<Rightarrow> u32 \<Rightarrow> u64 \<Rightarrow> powermon \<Rightarrow> powermon option" where
  "powermon_new_def_freq current_node_freq p_id def_f s =
     (let ps = frequency_closest_pstate (je_freq (pm_env s)) def_f;
          node = je_node (pm_env s);
          s = force_frequency_loop (\<lambda>a. word_of_int (policy_name_to_nodeid (ap_policy (pa_app a)) node) = p_id \<and>
                def_f < current_node_freq) def_f (created_apps s) s
      in if is_valid_policy p_id (je_conf (pm_env s))
         then if unat p_id < length (mn_policies node)
              then Some (call Save_Conf (set_node (node\<lparr>mn_policies := (mn_policies node)
                     [unat p_id := (mn_policies node ! unat p_id)\<lparr>pl_p_state := of_nat ps\<rparr>]\<rparr>) s))
              else None
         else Some (call Save_Conf s))"

definition powermon_set_freq :: "u64 \<Rightarrow> powermon \<Rightarrow> powermon" where
  "powermon_set_freq freq s =
     (let ps = frequency_closest_pstate (je_freq (pm_env s)) freq;
          s = force_frequency_loop (\<lambda>_. True) freq (created_apps s) s;
          node = je_node (pm_env s)
      in call Save_Conf (set_node (node\<lparr>mn_max_pstate := of_nat ps,
           mn_policies := map (\<lambda>p. p\<lparr>pl_p_state := of_nat ps\<rparr>) (mn_policies node)\<rparr>) s))"

end
