(* ===== verification/Job_Lifecycle.thy ===== *)
theory Job_Lifecycle
  imports Job_Contexts "HOL-Library.Multiset"
begin

text \<open>
  The correctness of the context table.  Abstractly a node runs a multiset of job steps; the table
  of contexts, the list of jobs with their counters, the shared list of identifiers, the number of
  contexts and the last context are the implementation, related to the multiset by the invariant
  \<open>pm_inv\<close>.
\<close>

subsection \<open>Searching\<close>

lemma search_less: "search P xs < length xs \<longleftrightarrow> (\<exists>x \<in> set xs. P x)"
  by (induction xs) auto

lemma search_le: "search P xs \<le> length xs"
  by (induction xs) auto

lemma search_eq_length: "search P xs = length xs \<longleftrightarrow> (\<forall>x \<in> set xs. \<not> P x)"
  using search_less [of P xs] search_le [of P xs] by (metis le_neq_implies_less less_irrefl)

lemma search_nth: "search P xs < length xs \<Longrightarrow> P (xs ! search P xs)"
  by (induction xs) auto

lemma search_before: "i < search P xs \<Longrightarrow> \<not> P (xs ! i)"
  by (induction xs arbitrary: i) (auto simp: nth_Cons' split: if_splits)

lemma search_eqI:
  assumes "i < length xs" "P (xs ! i)" "\<And>j. j < i \<Longrightarrow> \<not> P (xs ! j)"
  shows "search P xs = i"
proof (rule linorder_cases [of "search P xs" i])
  assume "search P xs < i"
  with assms show ?thesis using search_nth [of P xs] by auto
next
  assume "i < search P xs"
  then show ?thesis using search_before assms(2) by blast
qed simp

subsection \<open>The list of jobs\<close>

text \<open>
  The list of jobs represents a multiset of job identifiers: every identifier of the multiset has one
  entry, which counts its occurrences.
\<close>

definition jobs_inv :: "job_context list \<Rightarrow> u64 multiset \<Rightarrow> bool" where
  "jobs_inv jobs ids \<longleftrightarrow> 0 \<notin># ids \<and> size ids < 2 ^ 32 \<and>
     distinct (filter (\<lambda>i. i \<noteq> 0) (map jc_id jobs)) \<and>
     (\<forall>j \<in> set jobs. jc_id j \<noteq> 0 \<longrightarrow> jc_id j \<in># ids \<and> unat (jc_num_ctx j) = count ids (jc_id j)) \<and>
     set_mset ids \<subseteq> jc_id ` set jobs"

definition has_room :: "u64 \<Rightarrow> job_context list \<Rightarrow> bool" where
  "has_room jid jobs \<longleftrightarrow> (\<exists>j \<in> set jobs. jc_id j = jid \<or> jc_id j = 0)"

lemma jobs_invD:
  assumes "jobs_inv jobs ids" "i < length jobs" "jc_id (jobs ! i) \<noteq> 0"
  shows "jc_id (jobs ! i) \<in># ids" "unat (jc_num_ctx (jobs ! i)) = count ids (jc_id (jobs ! i))"
  using assms by (auto simp: jobs_inv_def)

lemma distinct_nonzero:
  "distinct (filter (\<lambda>i. i \<noteq> (0::'a::zero)) xs) \<longleftrightarrow>
   (\<forall>i < length xs. \<forall>j < length xs. xs ! i = xs ! j \<and> xs ! i \<noteq> 0 \<longrightarrow> i = j)"
proof (induction xs)
  case (Cons x xs)
  have "x \<noteq> 0 \<Longrightarrow> (x \<notin> set xs) = (\<forall>j < length xs. x \<noteq> xs ! j)" by (metis in_set_conv_nth)
  with Cons show ?case by (force simp: All_less_Suc2 nth_Cons')
qed simp

lemma jobs_inv_iff:
  "jobs_inv jobs ids \<longleftrightarrow> 0 \<notin># ids \<and> size ids < 2 ^ 32 \<and>
     (\<forall>i < length jobs. \<forall>j < length jobs. jc_id (jobs ! i) = jc_id (jobs ! j) \<and> jc_id (jobs ! i) \<noteq> 0 \<longrightarrow> i = j) \<and>
     (\<forall>i < length jobs. jc_id (jobs ! i) \<noteq> 0 \<longrightarrow>
        jc_id (jobs ! i) \<in># ids \<and> unat (jc_num_ctx (jobs ! i)) = count ids (jc_id (jobs ! i))) \<and>
     (\<forall>x \<in># ids. \<exists>i < length jobs. jc_id (jobs ! i) = x)"
proof -
  have "set_mset ids \<subseteq> jc_id ` set jobs \<longleftrightarrow> (\<forall>x \<in># ids. \<exists>i < length jobs. jc_id (jobs ! i) = x)"
    by (force simp: in_set_conv_nth image_iff subset_iff)
  then show ?thesis
    unfolding jobs_inv_def distinct_nonzero by (simp add: all_set_conv_all_nth)
qed

lemma jobs_inv_replace:
  assumes inv: "jobs_inv jobs ids" and i: "i < length jobs" and size: "size ids' < 2 ^ 32" "0 \<notin># ids'"
    and new: "jc_id j' \<noteq> 0 \<Longrightarrow> jc_id j' \<in># ids' \<and> unat (jc_num_ctx j') = count ids' (jc_id j') \<and>
      (\<forall>k < length jobs. k \<noteq> i \<longrightarrow> jc_id (jobs ! k) \<noteq> jc_id j')"
    and old: "jc_id (jobs ! i) \<noteq> jc_id j' \<Longrightarrow> jc_id (jobs ! i) \<notin># ids'"
    and rest: "\<And>y. y \<noteq> jc_id j' \<Longrightarrow> y \<noteq> jc_id (jobs ! i) \<Longrightarrow> y \<noteq> 0 \<Longrightarrow> count ids' y = count ids y"
  shows "jobs_inv (jobs[i := j']) ids'"
proof -
  have mem: "(y \<in># ids') = (y \<in># ids)" if "y \<noteq> jc_id j'" "y \<noteq> jc_id (jobs ! i)" "y \<noteq> 0" for y
    using rest [OF that] by (metis count_eq_zero_iff)
  have inj: "j = k" if "j < length jobs" "k < length jobs" "jc_id (jobs ! j) = jc_id (jobs ! k)" "jc_id (jobs ! j) \<noteq> 0" for j k
    using inv that unfolding jobs_inv_iff by blast
  have "jc_id (jobs ! k) \<in># ids' \<and> unat (jc_num_ctx (jobs ! k)) = count ids' (jc_id (jobs ! k))"
    if k: "k < length jobs" "k \<noteq> i" "jc_id (jobs ! k) \<noteq> 0" for k
  proof -
    have "jc_id (jobs ! k) \<noteq> jc_id (jobs ! i)" using inj k i by metis
    moreover have "jc_id (jobs ! k) \<noteq> jc_id j'" using new k by metis
    ultimately show ?thesis using jobs_invD [OF inv k(1,3)] mem rest k(3) by simp
  qed
  moreover have "\<exists>k < length jobs. jc_id (jobs[i := j'] ! k) = y" if y: "y \<in># ids'" for y
  proof (cases "y = jc_id j'")
    case True
    then show ?thesis using i by (intro exI [of _ i]) simp
  next
    case False
    then have "y \<noteq> jc_id (jobs ! i)" using old y by metis
    moreover obtain k where "k < length jobs" "jc_id (jobs ! k) = y"
      using inv mem [OF False] y calculation size(2) unfolding jobs_inv_iff by metis
    ultimately have "k < length jobs \<and> jc_id (jobs[i := j'] ! k) = y" by (cases "k = i") auto
    then show ?thesis by blast
  qed
  moreover have "jc_id (jobs ! k) \<noteq> jc_id j'" if "k < length jobs" "k \<noteq> i" "jc_id j' \<noteq> 0" for k
    using new that by metis
  ultimately show ?thesis
    unfolding jobs_inv_iff using size new inj i by (simp add: nth_list_update) metis
qed

lemma add_job_in_node_correct:
  assumes inv: "jobs_inv jobs ids" and x: "x \<noteq> 0" and room: "has_room x jobs" and size: "size ids + 1 < 2 ^ 32"
  shows "jobs_inv (add_job_in_node x jobs) (add_mset x ids)"
proof (cases "search (\<lambda>j. jc_id j = x) jobs < length jobs")
  case True
  let ?i = "search (\<lambda>j. jc_id j = x) jobs"
  have i: "jc_id (jobs ! ?i) = x" using search_nth [OF True] by simp
  have n: "unat (jc_num_ctx (jobs ! ?i)) = count ids x" using jobs_invD [OF inv True] i x by simp
  have "count ids x + 1 < 2 ^ 32" using size count_le_size [of ids x] by simp
  then have "unat (jc_num_ctx (jobs ! ?i) + 1) = count ids x + 1" using n by (simp add: unat_word_ariths)
  moreover have "\<forall>k < length jobs. k \<noteq> ?i \<longrightarrow> jc_id (jobs ! k) \<noteq> x" using inv True i x unfolding jobs_inv_iff by metis
  moreover have "0 \<notin># add_mset x ids" using inv x by (simp add: jobs_inv_def)
  ultimately have "jobs_inv (jobs[?i := (jobs ! ?i)\<lparr>jc_num_ctx := jc_num_ctx (jobs ! ?i) + 1\<rparr>]) (add_mset x ids)"
    using inv True i size by (intro jobs_inv_replace) simp_all
  then show ?thesis using True by (simp add: add_job_in_node_def Let_def)
next
  case False
  let ?i = "search (\<lambda>j. jc_id j = 0) jobs"
  have new: "\<forall>i < length jobs. jc_id (jobs ! i) \<noteq> x" using False by (auto simp: search_less)
  have i: "?i < length jobs" using room False by (auto simp: search_less has_room_def)
  have z: "jc_id (jobs ! ?i) = 0" using search_nth [OF i] by simp
  have "x \<notin># ids" using inv new by (auto simp: jobs_inv_iff)
  moreover have "0 \<notin># add_mset x ids" using inv x by (simp add: jobs_inv_def)
  ultimately have "jobs_inv (jobs[?i := (jobs ! ?i)\<lparr>jc_id := x, jc_num_ctx := 1\<rparr>]) (add_mset x ids)"
    using inv i z size new by (intro jobs_inv_replace) (simp_all add: not_in_iff)
  then show ?thesis using False i by (simp add: add_job_in_node_def Let_def)
qed

lemma del_job_in_node_correct:
  assumes inv: "jobs_inv jobs ids" and x: "x \<in># ids"
  shows "jobs_inv (del_job_in_node x jobs) (ids - {#x#})"
proof -
  let ?i = "search (\<lambda>j. jc_id j = x) jobs"
  have i: "?i < length jobs" using inv x by (auto simp: search_less jobs_inv_def)
  have id: "jc_id (jobs ! ?i) = x" using search_nth [OF i] by simp
  have nz: "x \<noteq> 0" using inv x by (auto simp: jobs_inv_def)
  have n: "unat (jc_num_ctx (jobs ! ?i)) = count ids x" using jobs_invD [OF inv i] id nz by simp
  then have m: "unat (jc_num_ctx (jobs ! ?i) - 1) = count ids x - 1"
    using x by (simp add: unat_sub word_le_nat_alt Suc_leI)
  have size: "size (ids - {#x#}) < 2 ^ 32" "0 \<notin># ids - {#x#}"
    using inv x by (auto simp: jobs_inv_def size_Diff_singleton dest: in_diffD)
  have uniq: "\<forall>k < length jobs. k \<noteq> ?i \<longrightarrow> jc_id (jobs ! k) \<noteq> x" using inv i id nz unfolding jobs_inv_iff by metis
  define j where "j = (jobs ! ?i)\<lparr>jc_num_ctx := jc_num_ctx (jobs ! ?i) - 1\<rparr>"
  have zero: "jc_num_ctx j = 0 \<longleftrightarrow> x \<notin># ids - {#x#}"
    using m by (simp add: j_def not_in_iff unat_eq_zero [symmetric])
  have "jobs_inv (jobs[?i := (if jc_num_ctx j = 0 then j\<lparr>jc_id := 0\<rparr> else j)]) (ids - {#x#})"
    using inv i size id nz m uniq zero by (intro jobs_inv_replace) (auto simp: j_def)
  then show ?thesis using i unfolding del_job_in_node_def Let_def j_def [symmetric] by simp
qed

subsection \<open>Steps of a table\<close>

definition steps :: "'k option list \<Rightarrow> 'k multiset" where
  "steps ks = image_mset the (filter_mset (\<lambda>k. k \<noteq> None) (mset ks))"

definition jobs_of :: "'i \<Rightarrow> ('i \<times> 's) option list \<Rightarrow> 'i multiset" where
  "jobs_of idle ks = image_mset fst (filter_mset (\<lambda>k. fst k \<noteq> idle) (steps ks))"

lemma steps_new: "i < length ks \<Longrightarrow> ks ! i = None \<Longrightarrow> steps (ks[i := Some k]) = add_mset k (steps ks)"
  by (simp add: steps_def mset_update)

lemma steps_end:
  assumes "i < length ks" "ks ! i = Some k"
  shows "steps (ks[i := None]) = steps ks - {#k#}"
proof -
  have "Some k \<in># mset ks" using assms by (metis nth_mem set_mset_mset)
  then obtain N where N: "mset ks = add_mset (Some k) N" by (metis multi_member_split)
  then show ?thesis using assms by (simp add: steps_def mset_update)
qed

lemma in_steps: "k \<in># steps ks \<longleftrightarrow> Some k \<in> set ks"
  by (force simp: steps_def)

lemma all_steps: "(\<forall>k \<in># steps ks. P k) \<longleftrightarrow> (\<forall>i < length ks. \<forall>k. ks ! i = Some k \<longrightarrow> P k)"
  by (simp add: in_steps Ball_def) (metis in_set_conv_nth)

lemma size_steps_eq: "size (steps ks) = length (filter (\<lambda>k. k \<noteq> None) ks)"
  by (simp add: steps_def flip: mset_filter)

lemma size_steps: "size (steps ks) \<le> length ks"
  by (metis size_filter_mset_lesseq size_image_mset size_mset steps_def)

lemma size_steps_less:
  assumes "i < length ks" "ks ! i = None"
  shows "size (steps ks) < length ks"
  using size_steps [of "ks[i := Some undefined]"] steps_new [OF assms] by simp

lemma size_jobs_of: "size (jobs_of idle ks) \<le> size (steps ks)"
  by (simp add: jobs_of_def size_filter_mset_lesseq)

text \<open>
  What the context table asks of the list of jobs: that it represents a multiset of identifiers, to which
  it adds and from which it removes one.
\<close>

locale job_table =
  fixes represents :: "'t \<Rightarrow> 'i multiset \<Rightarrow> bool"
    and add del :: "'i \<Rightarrow> 't \<Rightarrow> 't"
    and room :: "'i \<Rightarrow> 't \<Rightarrow> bool"
    and idle :: 'i
    and bound :: nat
  assumes add: "represents t M \<Longrightarrow> x \<noteq> idle \<Longrightarrow> room x t \<Longrightarrow> size M + 1 < bound \<Longrightarrow>
      represents (add x t) (add_mset x M)"
    and del: "represents t M \<Longrightarrow> x \<in># M \<Longrightarrow> represents (del x t) (M - {#x#})"
begin

lemma new_step:
  assumes "represents t (jobs_of idle ks)" "i < length ks" "ks ! i = None" "fst k \<noteq> idle" "room (fst k) t"
    "length ks < bound"
  shows "represents (add (fst k) t) (jobs_of idle (ks[i := Some k]))"
proof -
  have "size (jobs_of idle ks) + 1 < bound"
    using size_steps_less [OF assms(2,3)] size_jobs_of [of idle ks] assms(6) by linarith
  then show ?thesis
    using add [OF assms(1,4,5)] assms(4) by (simp add: jobs_of_def steps_new [OF assms(2,3)])
qed

lemma end_step:
  assumes "represents t (jobs_of idle ks)" "i < length ks" "ks ! i = Some k" "fst k \<noteq> idle"
  shows "represents (del (fst k) t) (jobs_of idle (ks[i := None]))"
proof -
  have k: "k \<in># steps ks" using assms(2,3) by (metis in_steps nth_mem)
  then have "fst k \<in># jobs_of idle ks" using assms(4) by (auto simp: jobs_of_def)
  moreover obtain N where N: "steps ks = add_mset k N" using k by (metis multi_member_split)
  have "jobs_of idle (ks[i := None]) = jobs_of idle ks - {#fst k#}"
    using assms(4) by (simp add: jobs_of_def steps_end [OF assms(2,3)] N)
  ultimately show ?thesis using del [OF assms(1)] by simp
qed

end

interpretation jobs: job_table jobs_inv add_job_in_node del_job_in_node has_room 0 "2 ^ 32"
  by unfold_locales (use add_job_in_node_correct del_job_in_node_correct in auto)

subsection \<open>The context table\<close>

definition key :: "powermon_app \<Rightarrow> u64 \<times> u64" where
  "key a = (ap_id (pa_app a), ap_step_id (pa_app a))"

definition keys :: "powermon \<Rightarrow> (u64 \<times> u64) option list" where
  "keys s = map (map_option key) (pm_apps s)"

text \<open>The job steps that run on the node: the contexts but the idle one, whose job is zero.\<close>

definition active :: "powermon \<Rightarrow> (u64 \<times> u64) multiset" where
  "active s = filter_mset (\<lambda>k. fst k \<noteq> 0) (steps (keys s))"

definition shared_id :: "(u64 \<times> u64) option \<Rightarrow> u32" where
  "shared_id k = (case k of None \<Rightarrow> 0 | Some (jid, sid) \<Rightarrow> create_ID jid sid)"

definition pm_inv :: "powermon \<Rightarrow> bool" where
  "pm_inv s \<longleftrightarrow>
     0 < length (keys s) \<and> length (keys s) < 2 ^ 32 \<and> keys s ! 0 = Some (0, 0) \<and>
     (\<forall>i k. 0 < i \<and> i < length (keys s) \<and> keys s ! i = Some k \<longrightarrow> fst k \<noteq> 0) \<and>
     pm_max_context_created s < length (keys s) \<and>
     (\<forall>i < length (keys s). pm_max_context_created s < i \<longrightarrow> keys s ! i = None) \<and>
     keys s ! pm_max_context_created s \<noteq> None \<and>
     pm_num_contexts s = int (size (steps (keys s))) \<and>
     pm_joblist s = map shared_id (keys s) \<and>
     jobs_inv (pm_jobs s) (jobs_of 0 (keys s))"

lemma pm_inv_cong:
  assumes "keys s' = keys s" "pm_max_context_created s' = pm_max_context_created s"
    "pm_num_contexts s' = pm_num_contexts s" "pm_joblist s' = pm_joblist s" "pm_jobs s' = pm_jobs s"
  shows "pm_inv s' = pm_inv s"
  using assms by (simp add: pm_inv_def)

lemma length_keys [simp]: "length (keys s) = length (pm_apps s)"
  by (simp add: keys_def)

lemma nth_keys: "i < length (pm_apps s) \<Longrightarrow> keys s ! i = map_option key (pm_apps s ! i)"
  by (simp add: keys_def)

lemma call_simps [simp]:
  "keys (call e s) = keys s" "pm_apps (call e s) = pm_apps s" "pm_jobs (call e s) = pm_jobs s"
  "pm_joblist (call e s) = pm_joblist s" "pm_max_context_created (call e s) = pm_max_context_created s"
  "pm_num_contexts (call e s) = pm_num_contexts s" "active (call e s) = active s" "pm_env (call e s) = pm_env s"
  "pm_contexts (call e s) = pm_contexts s" "pm_calls (call e s) = pm_calls s @ [e]"
  by (simp_all add: call_def keys_def active_def)

lemma pm_inv_call [simp]: "pm_inv (call e s) = pm_inv s"
  by (rule pm_inv_cong) simp_all

lemma powermon_is_idle_call [simp]: "powermon_is_idle (call e s) = powermon_is_idle s"
  by (simp add: powermon_is_idle_def)

lemma keys_set_app [simp]: "keys (set_app i a s) = (keys s)[i := Some (key a)]"
  by (simp add: set_app_def keys_def map_update)

lemma set_app_simps [simp]:
  "pm_apps (set_app i a s) = (pm_apps s)[i := Some a]" "pm_jobs (set_app i a s) = pm_jobs s"
  "pm_joblist (set_app i a s) = pm_joblist s" "pm_max_context_created (set_app i a s) = pm_max_context_created s"
  "pm_num_contexts (set_app i a s) = pm_num_contexts s" "pm_env (set_app i a s) = pm_env s"
  "pm_contexts (set_app i a s) = pm_contexts s" "pm_calls (set_app i a s) = pm_calls s"
  by (simp_all add: set_app_def)

text \<open>Changing a context but for its job and its step keeps the table.\<close>

lemma set_app_same:
  assumes "i < length (pm_apps s)" "pm_apps s ! i = Some a" "key a' = key a"
  shows "keys (set_app i a' s) = keys s" "pm_inv (set_app i a' s) = pm_inv s" "active (set_app i a' s) = active s"
proof -
  have "keys s ! i = Some (key a')" using assms by (simp add: nth_keys)
  then show k: "keys (set_app i a' s) = keys s" by (metis keys_set_app list_update_id)
  show "pm_inv (set_app i a' s) = pm_inv s" using k by (intro pm_inv_cong) simp_all
  show "active (set_app i a' s) = active s" using k by (simp add: active_def)
qed

lemma pm_inv_max:
  assumes "pm_inv s" "i < length (pm_apps s)" "pm_apps s ! i = Some a"
  shows "i \<le> pm_max_context_created s"
  using assms by (force simp: pm_inv_def nth_keys leI)

lemma pm_inv_fst: "pm_inv s \<Longrightarrow> 0 < i \<Longrightarrow> i < length (keys s) \<Longrightarrow> keys s ! i = Some k \<Longrightarrow> fst k \<noteq> 0"
  unfolding pm_inv_def by blast

lemma pm_inv_beyond: "pm_inv s \<Longrightarrow> j < length (keys s) \<Longrightarrow> pm_max_context_created s < j \<Longrightarrow> keys s ! j = None"
  unfolding pm_inv_def by blast

lemma find_context_correct:
  assumes "pm_inv s"
  shows "find_context_for_job jid sid s < 0 \<longleftrightarrow> (jid, sid) \<notin># steps (keys s)"
    and "0 \<le> find_context_for_job jid sid s \<Longrightarrow>
      let cc = nat (find_context_for_job jid sid s)
      in cc < length (pm_apps s) \<and> is_context_of jid sid (pm_apps s ! cc) \<and>
         (\<forall>i < cc. \<not> is_context_of jid sid (pm_apps s ! i))"
proof -
  let ?n = "Suc (pm_max_context_created s)"
  have n: "?n \<le> length (pm_apps s)" using assms by (simp add: pm_inv_def Suc_leI)
  have k: "is_context_of jid sid a \<longleftrightarrow> map_option key a = Some (jid, sid)" for a
    by (cases a) (auto simp: is_context_of_def key_def)
  have "(\<exists>x \<in> set (take ?n (pm_apps s)). is_context_of jid sid x) \<longleftrightarrow> Some (jid, sid) \<in> set (keys s)"
    (is "?l \<longleftrightarrow> ?r")
  proof
    show "?l \<Longrightarrow> ?r" by (force simp: k keys_def dest!: in_set_takeD intro: rev_image_eqI)
    assume ?r
    then obtain i where i: "i < length (pm_apps s)" "map_option key (pm_apps s ! i) = Some (jid, sid)"
      by (auto simp: in_set_conv_nth nth_keys)
    then have "i < ?n" using pm_inv_max [OF assms] by (auto simp: less_Suc_eq_le)
    then have "pm_apps s ! i \<in> set (take ?n (pm_apps s))" using i(1) by (metis in_set_conv_nth length_take min_less_iff_conj nth_take)
    then show ?l using i(2) k by blast
  qed
  then show "find_context_for_job jid sid s < 0 \<longleftrightarrow> (jid, sid) \<notin># steps (keys s)"
    by (simp add: find_context_for_job_def Let_def search_less in_steps)
  show "let cc = nat (find_context_for_job jid sid s)
      in cc < length (pm_apps s) \<and> is_context_of jid sid (pm_apps s ! cc) \<and>
         (\<forall>i < cc. \<not> is_context_of jid sid (pm_apps s ! i))" if "0 \<le> find_context_for_job jid sid s"
    using that n search_nth [of "is_context_of jid sid" "take ?n (pm_apps s)"]
      search_before [of _ "is_context_of jid sid" "take ?n (pm_apps s)"]
    by (auto simp: find_context_for_job_def Let_def split: if_splits)
qed

lemma idle_iff_no_steps:
  assumes "pm_inv s"
  shows "pm_max_context_created s = 0 \<longleftrightarrow> active s = {#}"
proof -
  have "active s = {#} \<longleftrightarrow> (\<forall>k \<in># steps (keys s). fst k = 0)" by (auto simp: active_def filter_mset_eq_mempty_iff)
  also have "\<dots> \<longleftrightarrow> (\<forall>i < length (keys s). \<forall>k. keys s ! i = Some k \<longrightarrow> fst k = 0)" by (rule all_steps)
  also have "\<dots> \<longleftrightarrow> pm_max_context_created s = 0"
  proof
    assume all: "\<forall>i < length (keys s). \<forall>k. keys s ! i = Some k \<longrightarrow> fst k = 0"
    obtain k where k: "keys s ! pm_max_context_created s = Some k" using assms by (auto simp: pm_inv_def)
    moreover have len: "pm_max_context_created s < length (keys s)" using assms by (simp add: pm_inv_def)
    ultimately have "fst k = 0" using all by blast
    then show "pm_max_context_created s = 0" using pm_inv_fst [OF assms _ _ k] len by auto
  next
    assume "pm_max_context_created s = 0"
    then have "i = 0" if "i < length (keys s)" "keys s ! i = Some k" for i k
      using assms that pm_inv_max [of s i] by (auto simp: nth_keys)
    moreover have "keys s ! 0 = Some (0, 0)" using assms by (simp add: pm_inv_def)
    ultimately show "\<forall>i < length (keys s). \<forall>k. keys s ! i = Some k \<longrightarrow> fst k = 0" by (metis fst_conv option.inject)
  qed
  finally show ?thesis by blast
qed

lemma new_max_loop_append: "new_max_loop (xs @ ys) apps m = new_max_loop ys apps (new_max_loop xs apps m)"
  by (induction xs apps m rule: new_max_loop.induct) simp_all

lemma new_max_loop_correct:
  fixes n :: nat and apps :: "powermon_app option list"
  defines "m \<equiv> new_max_loop [0..<n] apps 0"
  shows "(m = 0 \<or> (m < n \<and> apps ! m \<noteq> None)) \<and> (\<forall>i < n. apps ! i \<noteq> None \<longrightarrow> i \<le> m)"
  unfolding m_def by (induction n) (auto simp: new_max_loop_append less_Suc_eq)

lemma active_new:
  assumes "i < length (keys s)" "keys s ! i = None" "fst k \<noteq> 0" "keys s' = (keys s)[i := Some k]"
  shows "active s' = add_mset k (active s)"
  using assms by (simp add: active_def steps_new)

lemma active_end:
  assumes "i < length (keys s)" "keys s ! i = Some k" "fst k \<noteq> 0" "keys s' = (keys s)[i := None]"
  shows "active s' = active s - {#k#}" "k \<in># active s"
  using assms by (auto simp: active_def steps_end in_steps in_set_conv_nth)

lemma map_shared_id_update: "map shared_id (ks[i := k]) = (map shared_id ks)[i := shared_id k]"
  by (simp add: map_update)

lemma pm_inv_new:
  assumes inv: "pm_inv s" and i: "i < length (keys s)" "keys s ! i = None" "fst k \<noteq> 0" "has_room (fst k) (pm_jobs s)"
    and s': "keys s' = (keys s)[i := Some k]" "pm_max_context_created s' = max i (pm_max_context_created s)"
      "pm_num_contexts s' = pm_num_contexts s + 1" "pm_joblist s' = (pm_joblist s)[i := shared_id (Some k)]"
      "pm_jobs s' = add_job_in_node (fst k) (pm_jobs s)"
  shows "pm_inv s'"
proof -
  have pos: "0 < i" using inv i(2) by (cases i) (auto simp: pm_inv_def)
  have "jobs_inv (pm_jobs s') (jobs_of 0 (keys s'))"
    unfolding s' using inv i by (intro jobs.new_step) (simp_all add: pm_inv_def)
  moreover have "size (steps (keys s')) = size (steps (keys s)) + 1" using i by (simp add: s' steps_new)
  moreover have "keys s' ! max i (pm_max_context_created s) \<noteq> None"
    using inv i by (auto simp: s' nth_list_update max_def pm_inv_def)
  moreover have "\<forall>j < length (keys s'). max i (pm_max_context_created s) < j \<longrightarrow> keys s' ! j = None"
    using inv unfolding s' pm_inv_def by auto
  moreover have "\<forall>j k'. 0 < j \<and> j < length (keys s') \<and> keys s' ! j = Some k' \<longrightarrow> fst k' \<noteq> 0"
    using pm_inv_fst [OF inv] i by (simp add: s' nth_list_update del: split_paired_All) metis
  ultimately show ?thesis
    using inv i pos unfolding pm_inv_def by (simp add: s' map_shared_id_update)
qed

lemma pm_inv_end:
  assumes inv: "pm_inv s" and i: "0 < i" "i < length (keys s)" "keys s ! i = Some k"
    and s': "keys s' = (keys s)[i := None]"
      "pm_max_context_created s' = (if i = pm_max_context_created s then new_max_loop [0..<Suc i] (pm_apps s') 0
         else pm_max_context_created s)"
      "pm_num_contexts s' = pm_num_contexts s - 1" "pm_joblist s' = (pm_joblist s)[i := 0]"
      "pm_jobs s' = del_job_in_node (fst k) (pm_jobs s)"
  shows "pm_inv s'"
proof -
  note k = pm_inv_fst [OF inv i]
  have len: "length (pm_apps s') = length (pm_apps s)" using arg_cong [OF s'(1), of length] by simp
  have nth: "(pm_apps s' ! j = None) = (keys s' ! j = None)" if "j < length (pm_apps s')" for j
    using nth_keys [OF that] by simp
  have "jobs_inv (pm_jobs s') (jobs_of 0 (keys s'))"
    unfolding s' using inv i k by (intro jobs.end_step) (simp_all add: pm_inv_def)
  moreover have "size (steps (keys s)) = size (steps (keys s')) + 1"
  proof -
    have "k \<in># steps (keys s)" using i by (metis in_steps nth_mem)
    then obtain N where "steps (keys s) = add_mset k N" by (metis multi_member_split)
    then show ?thesis using steps_end [OF i(2,3)] by (simp add: s')
  qed
  moreover have "pm_max_context_created s' < length (keys s') \<and>
      (\<forall>j < length (keys s'). pm_max_context_created s' < j \<longrightarrow> keys s' ! j = None) \<and>
      keys s' ! pm_max_context_created s' \<noteq> None"
  proof (cases "i = pm_max_context_created s")
    case True
    define m where "m = new_max_loop [0..<Suc i] (pm_apps s') 0"
    note m = new_max_loop_correct [of "Suc i" "pm_apps s'", folded m_def]
    have max: "pm_max_context_created s' = m" unfolding m_def s'(2) using True by (rule if_P)
    have lt: "m < length (pm_apps s')" using m i len by auto
    have "keys s' ! 0 \<noteq> None" using inv i by (simp add: s' pm_inv_def)
    then have "keys s' ! m \<noteq> None" using m nth [OF lt] by (cases "m = 0") auto
    moreover have "keys s' ! j = None" if j: "j < length (pm_apps s')" "m < j" for j
    proof (cases "j < Suc i")
      case True
      then show ?thesis using m j nth [OF j(1)] by (meson leD)
    next
      case False
      then have "i < j" by simp
      moreover have "keys s ! j = None" using pm_inv_beyond [OF inv] calculation j(1) len True by simp
      ultimately show ?thesis by (simp add: s')
    qed
    ultimately show ?thesis using lt by (simp add: max)
  next
    case False
    then have "pm_max_context_created s' = pm_max_context_created s" using s'(2) by simp
    moreover have "keys s ! pm_max_context_created s \<noteq> None" "pm_max_context_created s < length (keys s)"
      using inv by (simp_all add: pm_inv_def)
    ultimately show ?thesis using pm_inv_beyond [OF inv] False i(2) by (simp add: s'(1) nth_list_update)
  qed
  moreover have "\<forall>j k'. 0 < j \<and> j < length (keys s') \<and> keys s' ! j = Some k' \<longrightarrow> fst k' \<noteq> 0"
    using pm_inv_fst [OF inv] i by (simp add: s' nth_list_update del: split_paired_All) metis
  ultimately show ?thesis
    using inv i len unfolding pm_inv_def by (simp add: s'(1,3-5) map_shared_id_update shared_id_def)
qed

text \<open>The idle context is the only one that is not a running step.\<close>

lemma size_active:
  assumes "pm_inv s"
  shows "size (steps (keys s)) = size (active s) + 1"
proof -
  have len: "0 < length (keys s)" "keys s ! 0 = Some (0, 0)" using assms by (simp_all add: pm_inv_def)
  obtain M where M: "steps (keys s) = add_mset (0, 0) M" "M = steps ((keys s)[0 := None])"
    using steps_end [OF len] len by (metis add_mset_remove_trivial_eq in_steps nth_mem insert_DiffM)
  have "\<forall>k \<in># M. fst k \<noteq> 0"
    unfolding M(2) all_steps
  proof (intro allI impI)
    fix i k assume i: "i < length ((keys s)[0 := None])" "(keys s)[0 := None] ! i = Some k"
    then have "0 < i" using len(1) by (cases i) auto
    then show "fst k \<noteq> 0" using pm_inv_fst [OF assms, of i k] i by simp
  qed
  then have "active s = M" by (simp add: active_def M(1) filter_mset_eq_conv)
  then show ?thesis by (simp add: M(1))
qed

subsection \<open>Operations on the table\<close>

definition areas_ok :: "shared_areas \<Rightarrow> bool" where
  "areas_ok sa \<longleftrightarrow> sa_calloc sa \<and> sa_lock sa \<and> sa_jobmon_path sa \<and> sa_jobmon sa \<and> sa_settings sa \<and>
     sa_resched sa \<and> sa_app_mgt sa \<and> sa_pc_app sa"

definition idle_ready :: "powermon \<Rightarrow> bool" where
  "idle_ready s \<longleftrightarrow>
     (case pm_apps s ! 0 of None \<Rightarrow> False | Some a \<Rightarrow> pa_settings a \<noteq> None \<and> pa_master_pid a = 0 \<and> pa_state a \<noteq> APP_FINISHED)"

lemma powermon_is_idle_iff:
  assumes "pm_inv s" "idle_ready s"
  shows "powermon_is_idle s \<longleftrightarrow> active s = {#}"
proof -
  let ?created = "filter (\<lambda>a. a \<noteq> None) (created_apps s)"
  obtain a where a: "pm_apps s ! 0 = Some a" "pa_state a \<noteq> APP_FINISHED"
    using assms(2) by (auto simp: idle_ready_def split: option.splits)
  have "0 < length (created_apps s)" using assms(1) by (simp add: pm_inv_def)
  then have "Some a \<in> set ?created" using a nth_mem [of 0 "created_apps s"] by simp
  then have "length (filter (\<lambda>a. pa_state (the a) = APP_FINISHED) ?created) < length ?created"
    using a by (intro length_filter_less) auto
  then show ?thesis using idle_iff_no_steps [OF assms(1)] by (auto simp: powermon_is_idle_def Let_def)
qed

lemma full_iff:
  assumes "pm_inv s"
  shows "pm_num_contexts s = int (length (pm_apps s)) \<longleftrightarrow> None \<notin> set (pm_apps s)"
proof -
  have "None \<in> set (pm_apps s) \<longleftrightarrow> None \<in> set (keys s)" by (force simp: keys_def)
  also have "\<dots> \<longleftrightarrow> size (steps (keys s)) \<noteq> length (keys s)"
    unfolding size_steps_eq by (metis (mono_tags, lifting) filter_True length_filter_less less_irrefl)
  finally show ?thesis using assms by (auto simp: pm_inv_def)
qed

lemma new_context_correct:
  assumes inv: "pm_inv s" and idle: "idle_ready s" and areas: "areas_ok sa"
    and job: "jid \<noteq> 0" "has_room jid (pm_jobs s)" and free: "None \<in> set (pm_apps s)"
  obtains cc a s' where "new_context jid sid sa s = Some (EAR_SUCCESS, int cc, s')"
    "0 < cc" "cc < length (pm_apps s)" "pm_apps s ! cc = None" "pm_apps s' = (pm_apps s)[cc := Some a]"
    "key a = (jid, sid)" "pa_settings a \<noteq> None" "pm_inv s'" "active s' = add_mset (jid, sid) (active s)"
    "pm_env s' = pm_env s" "pm_contexts s' = pm_contexts s" "pm_calls s' = pm_calls s"
proof -
  let ?cc = "search (\<lambda>a. a = None) (pm_apps s)"
  have cc: "?cc < length (pm_apps s)" using free by (simp add: search_less)
  have none: "pm_apps s ! ?cc = None" using search_nth [OF cc] .
  obtain i where i: "pm_apps s ! 0 = Some i" "pa_settings i \<noteq> None"
    using idle by (auto simp: idle_ready_def split: option.splits)
  have pos: "0 < ?cc" using i none by (cases ?cc) auto
  have find: "find_empty_context s = int ?cc" "pm_num_contexts s \<noteq> int (length (pm_apps s))"
    using cc free full_iff [OF inv] by (auto simp: find_empty_context_def)
  obtain st where st: "pa_settings i = Some st" using i(2) by auto
  define a where "a = zero_powermon_app\<lparr>pa_app := zero_application\<lparr>ap_id := jid, ap_step_id := sid\<rparr>,
    pa_settings := Some st, pa_exclusive := (num_jobs_in_node (add_job_in_node jid (pm_jobs s)) = 1)\<rparr>"
  define s' where "s' = s\<lparr>pm_apps := (pm_apps s)[?cc := Some a],
    pm_max_context_created := max ?cc (pm_max_context_created s), pm_jobs := add_job_in_node jid (pm_jobs s),
    pm_joblist := (pm_joblist s)[?cc := create_ID jid sid], pm_num_contexts := pm_num_contexts s + 1\<rparr>"
  have new: "new_context jid sid sa s = Some (EAR_SUCCESS, int ?cc, s')"
    using areas i st pos cc find
    by (simp add: new_context_def areas_ok_def Let_def set_app_def s'_def a_def max_def)
  have key: "key a = (jid, sid)" by (simp add: a_def key_def)
  have keys: "keys s' = (keys s)[?cc := Some (jid, sid)]" by (simp add: s'_def keys_def map_update key)
  have "pm_inv s'"
    using inv _ _ _ _ keys by (rule pm_inv_new) (use cc none job in \<open>simp_all add: nth_keys s'_def shared_id_def\<close>)
  moreover have "active s' = add_mset (jid, sid) (active s)"
    using keys cc none job by (intro active_new) (simp_all add: nth_keys)
  ultimately show thesis
    using that [OF new pos cc none _ key] by (simp add: s'_def a_def)
qed

lemma end_context_correct:
  assumes inv: "pm_inv s" and cc: "0 < cc" "cc < length (pm_apps s)" "pm_apps s ! cc = Some a" and lock: "get_lock \<longrightarrow> lock cc"
  defines "s' \<equiv> end_context lock cc get_lock s"
  shows "pm_inv s' \<and> active s' = active s - {#key a#} \<and> key a \<in># active s \<and> pm_apps s' = (pm_apps s)[cc := None] \<and>
    pm_calls s' = pm_calls s"
proof -
  have k: "keys s ! cc = Some (key a)" using cc by (simp add: nth_keys)
  note nz = pm_inv_fst [OF inv cc(1) _ k]
  have not_locked: "(get_lock \<and> \<not> lock cc) = False" using lock by blast
  have eq: "s' = s\<lparr>pm_joblist := (pm_joblist s)[cc := 0], pm_jobs := del_job_in_node (ap_id (pa_app a)) (pm_jobs s),
      pm_num_contexts := pm_num_contexts s - 1, pm_apps := (pm_apps s)[cc := None],
      pm_max_context_created := (if cc = pm_max_context_created s then new_max_loop [0..<Suc cc] ((pm_apps s)[cc := None]) 0
        else pm_max_context_created s)\<rparr>"
    unfolding s'_def end_context_def Let_def by (simp only: cc(3) not_locked option.case if_False)
  have keys: "keys s' = (keys s)[cc := None]" by (simp add: eq keys_def map_update)
  have "pm_inv s'"
    using inv cc(1) _ k keys by (rule pm_inv_end) (use cc in \<open>simp_all add: eq key_def\<close>)
  then show ?thesis
    using active_end [OF _ k _ keys] nz cc by (simp add: eq)
qed

subsection \<open>Handlers\<close>

lemma active_iff: "fst k \<noteq> 0 \<Longrightarrow> k \<in># active s \<longleftrightarrow> k \<in># steps (keys s)"
  by (simp add: active_def)

lemma idle_ready_cong: "pm_apps s' ! 0 = pm_apps s ! 0 \<Longrightarrow> idle_ready s' = idle_ready s"
  by (simp add: idle_ready_def)

lemma idle_ready_call [simp]: "idle_ready (call e s) = idle_ready s"
  by (simp add: idle_ready_def)

lemma find_context_active:
  assumes inv: "pm_inv s" and job: "jid \<noteq> 0" "(jid, sid) \<in># active s"
  obtains cc a where "find_context_for_job jid sid s = int cc" "0 < cc" "cc < length (pm_apps s)"
    "pm_apps s ! cc = Some a" "key a = (jid, sid)" "\<And>i b. i < cc \<Longrightarrow> pm_apps s ! i = Some b \<Longrightarrow> key b \<noteq> (jid, sid)"
proof -
  let ?f = "find_context_for_job jid sid s"
  have f: "0 \<le> ?f" using find_context_correct(1) [OF inv, of jid sid] job by (simp add: active_iff not_less)
  have c: "nat ?f < length (pm_apps s)" "is_context_of jid sid (pm_apps s ! nat ?f)"
    "\<forall>i < nat ?f. \<not> is_context_of jid sid (pm_apps s ! i)"
    using find_context_correct(2) [OF inv f] by (simp_all add: Let_def)
  then obtain a where a: "pm_apps s ! nat ?f = Some a" "key a = (jid, sid)"
    by (auto simp: is_context_of_def key_def split: option.splits)
  have "nat ?f \<noteq> 0"
  proof
    assume "nat ?f = 0"
    then have "keys s ! 0 = Some (jid, sid)" using a c(1) by (simp add: nth_keys)
    then show False using inv job by (simp add: pm_inv_def)
  qed
  moreover have "key b \<noteq> (jid, sid)" if "i < nat ?f" "pm_apps s ! i = Some b" for i b
    using c(3) that by (fastforce simp: is_context_of_def key_def)
  ultimately show thesis using that [of "nat ?f" a] f a c(1) by simp
qed

definition end_job_calls :: "powermon_app \<Rightarrow> bool \<Rightarrow> u64 \<Rightarrow> u64 \<Rightarrow> power_call list" where
  "end_job_calls a idle jid sid =
     [Report_App (if pa_sig_reported a then pa_app a else (pa_app a)\<lparr>ap_is_mpi := False\<rparr>), Powercap_End_Job] @
     (if pa_state a = APP_FINISHED then [] else if idle then [Run_To_Idle, Set_Default_End True] else [Set_Default_End False]) @
     [Nodemgr_Clean_Job jid sid] @
     (if create_ID jid sid = 0 then [] else [Clean_Job_Area (create_ID jid sid)]) @ [Service_Close jid sid]"

lemma end_job_at:
  assumes inv: "pm_inv s" and idle: "idle_ready s" and f: "find_context_for_job jid sid s = int cc"
    and cc: "0 < cc" "cc < length (pm_apps s)" "pm_apps s ! cc = Some a" "lock cc"
  defines "s' \<equiv> powermon_end_job lock jid sid s"
  shows "pm_inv s' \<and> idle_ready s' \<and> active s' = active s - {#key a#} \<and> key a \<in># active s \<and>
    pm_apps s' = (pm_apps s)[cc := None] \<and>
    pm_calls s' = pm_calls s @ end_job_calls a (active s' = {#}) jid sid"
proof -
  define s1 where "s1 = call Powercap_End_Job (call (Report_App (if pa_sig_reported a then pa_app a
    else (pa_app a)\<lparr>ap_is_mpi := False\<rparr>)) s)"
  define s2 where "s2 = end_context lock cc False s1"
  have "pm_inv s1" "pm_apps s1 = pm_apps s" "active s1 = active s" using inv by (simp_all add: s1_def)
  then have s2: "pm_inv s2" "active s2 = active s - {#key a#}" "key a \<in># active s" "pm_apps s2 = (pm_apps s)[cc := None]"
    "pm_calls s2 = pm_calls s1"
    using end_context_correct [of s1 cc a False lock] cc unfolding s2_def by simp_all
  have idle2: "idle_ready s2" using idle idle_ready_cong [of s2 s] s2(4) cc(1) by simp
  note quiet = powermon_is_idle_iff [OF s2(1) idle2]
  have eq: "s' = call (Service_Close jid sid) (let s = call (Nodemgr_Clean_Job jid sid)
      (if pa_state a = APP_FINISHED then s2 else if powermon_is_idle s2 then call (Set_Default_End True) (call Run_To_Idle s2)
       else call (Set_Default_End False) s2) in if create_ID jid sid = 0 then s else call (Clean_Job_Area (create_ID jid sid)) s)"
    unfolding s'_def powermon_end_job_def s2_def s1_def using f cc(3,4) by (simp add: Let_def)
  show ?thesis
    using s2 idle2 unfolding eq Let_def
    by (simp add: quiet end_job_calls_def s1_def)
qed

lemma end_job_correct:
  assumes inv: "pm_inv s" and idle: "idle_ready s" and job: "jid \<noteq> 0" "(jid, sid) \<in># active s"
    and lock: "\<And>i. lock i"
  defines "s' \<equiv> powermon_end_job lock jid sid s"
  shows "pm_inv s' \<and> idle_ready s' \<and> active s' = active s - {#(jid, sid)#}"
  using find_context_active [OF inv job] end_job_at [OF inv idle, of jid sid] lock unfolding s'_def by metis

lemma end_job_unknown:
  assumes "pm_inv s" "jid \<noteq> 0" "(jid, sid) \<notin># active s"
  shows "powermon_end_job lock jid sid s = s"
  using assms find_context_correct(1) [of s jid sid] by (simp add: active_iff powermon_end_job_def)

definition table_ok :: "powermon \<Rightarrow> bool" where
  "table_ok s \<longleftrightarrow> pm_inv s \<and> idle_ready s"

lemma table_ok_call [simp]: "table_ok (call e s) = table_ok s"
  by (simp add: table_ok_def)

lemma end_job_keeps:
  assumes ok: "table_ok s" and jid: "jid \<noteq> 0"
  shows "table_ok (powermon_end_job lock jid sid s)"
proof (cases "(jid, sid) \<in># active s")
  case True
  then obtain cc a where f: "find_context_for_job jid sid s = int cc" "0 < cc" "cc < length (pm_apps s)" "pm_apps s ! cc = Some a"
    using find_context_active [of s jid sid] ok jid unfolding table_ok_def by metis
  show ?thesis
  proof (cases "lock cc")
    case True
    then show ?thesis using end_job_at [of s jid sid cc a lock] f ok by (simp add: table_ok_def)
  next
    case False
    then have "powermon_end_job lock jid sid s = s" using f by (simp add: powermon_end_job_def Let_def)
    then show ?thesis using ok by simp
  qed
next
  case False
  then show ?thesis using end_job_unknown [of s jid sid lock] ok jid by (simp add: table_ok_def)
qed

lemma new_job_settings_ids:
  assumes "new_job_settings db env app st c = Some (st', c', app', f)"
  shows "ap_id app' = ap_id app \<and> ap_step_id app' = ap_step_id app"
  using assms by (auto simp: new_job_settings_def configure_context_def Let_def bind_eq_Some_conv split: prod.splits if_splits)

lemma table_ok_set_app:
  assumes "table_ok s" "0 < i" "i < length (pm_apps s)" "pm_apps s ! i = Some a" "key a' = key a"
  shows "table_ok (set_app i a' s)"
  using assms set_app_same [OF assms(3,4,5)] by (simp add: table_ok_def idle_ready_def)

lemma table_ok_contexts [simp]: "table_ok (s\<lparr>pm_contexts := c\<rparr>) = table_ok s"
  by (simp add: table_ok_def pm_inv_def keys_def idle_ready_def)

lemma active_contexts [simp]: "active (s\<lparr>pm_contexts := c\<rparr>) = active s"
  by (simp add: active_def keys_def)

definition can_start :: "shared_areas \<Rightarrow> u64 \<Rightarrow> powermon \<Rightarrow> bool" where
  "can_start sa jid s \<longleftrightarrow> areas_ok sa \<and> jid \<noteq> 0 \<and> has_room jid (pm_jobs s) \<and> None \<in> set (pm_apps s)"

definition start_calls :: "application \<Rightarrow> bool \<Rightarrow> power_call list" where
  "start_calls app idle = [Create_Job_Area (create_ID (ap_id app) (ap_step_id app))] @ (if idle then [Idle_To_Run] else []) @
     [Set_Mode_Auto, Powercap_New_Job]"

definition new_job_result ::
  "user_db \<Rightarrow> (nat \<Rightarrow> bool) \<Rightarrow> application \<Rightarrow> bool \<Rightarrow> bool \<Rightarrow> nat \<Rightarrow> powermon_app \<Rightarrow> job_settings \<Rightarrow>
   powermon \<Rightarrow> powermon \<Rightarrow> powermon option" where
  "new_job_result db lock app from_mpi is_job cc a old s s3 =
      (if \<not> lock cc then Some s3
       else map_option (\<lambda>(settings, c, app', policy_freq).
         set_app cc (new_job_app (frequency_get_cpu_freq (je_freq (pm_env s)) (je_current (pm_env s)) 0)
             (is_job \<or> (case is_job_in_node (ap_id app) (pm_jobs s3) of None \<Rightarrow> False
                | Some i \<Rightarrow> jc_num_ctx (pm_jobs s3 ! i) = 1)) from_mpi settings policy_freq app' a)
           (call Set_App_Req_Freq (call (Set_Default_Init policy_freq) (s3\<lparr>pm_contexts := c\<rparr>))))
         (new_job_settings db (pm_env s) app old (pm_contexts s)))"

text \<open>A new job first gets its context; if the context cannot be locked again, the rest is skipped.\<close>

lemma new_job_context:
  assumes ok: "table_ok s" and start: "can_start sa (ap_id app) s"
  obtains cc a old s3 where "table_ok s3" "active s3 = add_mset (ap_id app, ap_step_id app) (active s)"
    "pm_calls s3 = pm_calls s @ start_calls app (active s = {#})" "0 < cc" "cc < length (pm_apps s3)"
    "pm_apps s3 ! cc = Some a" "key a = (ap_id app, ap_step_id app)" "pa_settings a = Some old"
    "\<forall>db lock from_mpi is_job. powermon_new_job db lock sa app from_mpi is_job s =
      new_job_result db lock app from_mpi is_job cc a old s s3"
proof -
  define s1 where "s1 = call (Create_Job_Area (create_ID (ap_id app) (ap_step_id app))) s"
  define s2 where "s2 = call Powercap_New_Job (call Set_Mode_Auto (if powermon_is_idle s1 then call Idle_To_Run s1 else s1))"
  have s2: "pm_inv s2" "idle_ready s2" "pm_jobs s2 = pm_jobs s" "pm_apps s2 = pm_apps s" "active s2 = active s"
    "pm_env s2 = pm_env s" "pm_contexts s2 = pm_contexts s"
    using ok by (auto simp: s2_def s1_def table_ok_def)
  have "powermon_is_idle s1 \<longleftrightarrow> active s = {#}"
    using powermon_is_idle_iff [of s] ok by (simp add: s1_def table_ok_def)
  then have calls: "pm_calls s2 = pm_calls s @ start_calls app (active s = {#})"
    by (simp add: s2_def s1_def start_calls_def)
  obtain cc a s3 where new: "new_context (ap_id app) (ap_step_id app) sa s2 = Some (EAR_SUCCESS, int cc, s3)"
    and cc: "0 < cc" "cc < length (pm_apps s2)" "pm_apps s2 ! cc = None" "pm_apps s3 = (pm_apps s2)[cc := Some a]"
    and a: "key a = (ap_id app, ap_step_id app)" "pa_settings a \<noteq> None" and s3: "pm_inv s3"
      "active s3 = add_mset (ap_id app, ap_step_id app) (active s2)" "pm_env s3 = pm_env s2"
      "pm_contexts s3 = pm_contexts s2" "pm_calls s3 = pm_calls s2"
    using new_context_correct [OF s2(1,2), of sa "ap_id app" "ap_step_id app"] start s2 unfolding can_start_def by metis
  have ok3: "table_ok s3" using s3 s2 cc idle_ready_cong [of s3 s2] by (simp add: table_ok_def)
  obtain old where old: "pa_settings a = Some old" using a(2) by auto
  have apps3: "pm_apps s3 ! cc = Some a" "cc < length (pm_apps s3)" using cc by simp_all
  have "powermon_new_job db lock sa app from_mpi is_job s = new_job_result db lock app from_mpi is_job cc a old s s3"
    for db lock from_mpi is_job
    unfolding powermon_new_job_def Let_def s1_def [symmetric] s2_def [symmetric] new new_job_result_def
    by (cases "new_job_settings db (pm_env s) app old (pm_contexts s)") (auto simp: apps3 old s3 s2)
  then show thesis
    using that [of s3 cc a old] ok3 s3 s2 calls cc(1) apps3 a(1) old by simp
qed

lemma set_app_new_job:
  assumes "table_ok s3" "0 < cc" "cc < length (pm_apps s3)" "pm_apps s3 ! cc = Some a"
    "key a = (ap_id app', ap_step_id app')"
  shows "table_ok (set_app cc (new_job_app cur ij fm st f app' a) (call x (call y (s3\<lparr>pm_contexts := c\<rparr>))))"
    "active (set_app cc (new_job_app cur ij fm st f app' a) (call x (call y (s3\<lparr>pm_contexts := c\<rparr>)))) = active s3"
proof -
  have key: "key (new_job_app cur ij fm st f app' a) = key a" using assms(5) by (simp add: key_def new_job_app_def)
  show "table_ok (set_app cc (new_job_app cur ij fm st f app' a) (call x (call y (s3\<lparr>pm_contexts := c\<rparr>))))"
    by (rule table_ok_set_app [where a = a]) (use assms key in simp_all)
  show "active (set_app cc (new_job_app cur ij fm st f app' a) (call x (call y (s3\<lparr>pm_contexts := c\<rparr>)))) = active s3"
    using set_app_same(3) [of cc "call x (call y (s3\<lparr>pm_contexts := c\<rparr>))" a] assms key by simp
qed

lemma new_job_correct:
  assumes ok: "table_ok s" and start: "can_start sa (ap_id app) s"
    and job: "powermon_new_job db lock sa app from_mpi is_job s = Some s'"
  shows "table_ok s' \<and> active s' = add_mset (ap_id app, ap_step_id app) (active s) \<and>
    (\<exists>cs. pm_calls s' = pm_calls s @ start_calls app (active s = {#}) @ cs)"
proof (rule new_job_context [OF ok start])
  fix cc a old s3
  assume s3: "table_ok s3" "active s3 = add_mset (ap_id app, ap_step_id app) (active s)"
    "pm_calls s3 = pm_calls s @ start_calls app (active s = {#})" "0 < cc" "cc < length (pm_apps s3)"
    "pm_apps s3 ! cc = Some a" "key a = (ap_id app, ap_step_id app)" "pa_settings a = Some old"
    and "\<forall>db lock from_mpi is_job. powermon_new_job db lock sa app from_mpi is_job s =
      new_job_result db lock app from_mpi is_job cc a old s s3"
  note eq = this(9) [rule_format, of db lock from_mpi is_job, unfolded new_job_result_def]
  show ?thesis
  proof (cases "lock cc")
    case True
    then obtain st c app' f where st: "new_job_settings db (pm_env s) app old (pm_contexts s) = Some (st, c, app', f)"
      using job eq by auto
    have key: "key a = (ap_id app', ap_step_id app')" using s3(7) new_job_settings_ids [OF st] by simp
    then show ?thesis
      using set_app_new_job [OF s3(1,4-6) key] job eq s3(2,3) st True by auto
  next
    case False
    then show ?thesis using job eq s3 by simp
  qed
qed

subsection \<open>Finishing contexts\<close>

definition finished_at :: "powermon \<Rightarrow> nat \<Rightarrow> (u64 \<times> u64) \<Rightarrow> bool" where
  "finished_at s i k \<longleftrightarrow>
     i < length (pm_apps s) \<and> (\<exists>a. pm_apps s ! i = Some a \<and> key a = k \<and> pa_state a = APP_FINISHED)"

definition finished :: "powermon \<Rightarrow> (u64 \<times> u64) set" where
  "finished s = {k. \<exists>i. finished_at s i k}"

text \<open>Contexts of one step are finished together.\<close>

definition finished_closed :: "powermon \<Rightarrow> bool" where
  "finished_closed s \<longleftrightarrow>
     (\<forall>i < length (pm_apps s). \<forall>a. pm_apps s ! i = Some a \<and> key a \<in> finished s \<longrightarrow> pa_state a = APP_FINISHED)"

lemma in_active_nth:
  assumes "k \<in># active s"
  obtains i a where "i < length (pm_apps s)" "pm_apps s ! i = Some a" "key a = k"
  using assms by (auto simp: active_def in_steps in_set_conv_nth nth_keys)

lemma finish_step:
  assumes ok: "table_ok s" and closed: "finished_closed s" and first: "\<And>j k. finished_at s j k \<Longrightarrow> i \<le> j"
    and i: "i < length (pm_apps s)" "pm_apps s ! i = Some a" "pa_state a = APP_FINISHED" and lock: "\<And>j. lock j"
  defines "s' \<equiv> powermon_end_job lock (ap_id (pa_app a)) (ap_step_id (pa_app a)) s"
  shows "table_ok s' \<and> pm_apps s' = (pm_apps s)[i := None] \<and> active s = add_mset (key a) (active s') \<and>
    Run_To_Idle \<notin> set (drop (length (pm_calls s)) (pm_calls s')) \<and> take (length (pm_calls s)) (pm_calls s') = pm_calls s"
proof -
  have inv: "pm_inv s" "idle_ready s" using ok by (simp_all add: table_ok_def)
  have pos: "0 < i" using inv(2) i by (cases i) (auto simp: idle_ready_def)
  have k: "keys s ! i = Some (key a)" using i by (simp add: nth_keys)
  have nz: "fst (key a) \<noteq> 0" using pm_inv_fst [OF inv(1) pos _ k] i by simp
  have "key a \<in># active s" using nz k i by (metis active_iff in_steps length_keys nth_mem)
  then obtain cc b where cc: "find_context_for_job (ap_id (pa_app a)) (ap_step_id (pa_app a)) s = int cc" "0 < cc"
    "cc < length (pm_apps s)" "pm_apps s ! cc = Some b" "key b = key a" "\<And>j b. j < cc \<Longrightarrow> pm_apps s ! j = Some b \<Longrightarrow> key b \<noteq> key a"
    using find_context_active [OF inv(1), of "ap_id (pa_app a)" "ap_step_id (pa_app a)"] nz by (auto simp: key_def)
  have "key a \<in> finished s" using i by (auto simp: finished_def finished_at_def)
  then have "finished_at s cc (key a)" using closed cc by (auto simp: finished_closed_def finished_at_def)
  then have "cc = i" using first cc(6) i(2) by (metis leI le_neq_implies_less)
  then have "b = a" using cc(4) i(2) by simp
  then show ?thesis
    using end_job_at [OF inv cc(1-4) lock] i(3) \<open>cc = i\<close> unfolding s'_def
    by (auto simp: table_ok_def end_job_calls_def)
qed

definition quiet_since :: "powermon \<Rightarrow> powermon \<Rightarrow> bool" where
  "quiet_since s s' \<longleftrightarrow> (\<exists>cs. pm_calls s' = pm_calls s @ cs \<and> Run_To_Idle \<notin> set cs)"

lemma quiet_since_refl: "quiet_since s s"
  by (simp add: quiet_since_def)

lemma quiet_since_trans: "quiet_since s s' \<Longrightarrow> quiet_since s' s'' \<Longrightarrow> quiet_since s s''"
  by (auto simp: quiet_since_def)

lemma finished_after_end:
  assumes closed: "finished_closed s" and i: "i < length (pm_apps s)" "finished_at s i k"
    and s': "pm_apps s' = (pm_apps s)[i := None]" "active s = add_mset k (active s')"
  shows "finished_at s' j x \<longleftrightarrow> j \<noteq> i \<and> finished_at s j x" "finished_closed s'"
    "filter_mset (\<lambda>k. k \<notin> finished s) (active s) = filter_mset (\<lambda>k. k \<notin> finished s') (active s')"
proof -
  have len: "length (pm_apps s') = length (pm_apps s)" by (simp add: s')
  have nth: "pm_apps s' ! j = (if j = i then None else pm_apps s ! j)" for j using i by (simp add: s' nth_list_update)
  show at: "finished_at s' j x \<longleftrightarrow> j \<noteq> i \<and> finished_at s j x" for j x
    by (auto simp: finished_at_def len nth)
  then have fin: "finished s' \<subseteq> finished s" by (auto simp: finished_def)
  then show "finished_closed s'" using closed by (auto simp: finished_closed_def len nth split: if_splits)
  have "x \<in> finished s' \<longleftrightarrow> x \<in> finished s" if x: "x \<in># active s'" for x
  proof -
    obtain j b where "j < length (pm_apps s')" "pm_apps s' ! j = Some b" "key b = x" using in_active_nth [OF x] .
    then have "x \<in> finished s \<Longrightarrow> finished_at s' j x"
      using closed by (auto simp: len nth finished_closed_def finished_at_def split: if_splits)
    then show ?thesis using fin by (auto simp: finished_def)
  qed
  moreover have "k \<in> finished s" using i by (auto simp: finished_def)
  ultimately show "filter_mset (\<lambda>k. k \<notin> finished s) (active s) = filter_mset (\<lambda>k. k \<notin> finished s') (active s')"
    by (auto simp: s' intro!: filter_mset_cong)
qed

lemma finish_loop_correct:
  assumes "table_ok s" "finished_closed s" "\<And>j k. finished_at s j k \<Longrightarrow> i \<le> j" "\<And>j. lock j"
    and "\<And>j. j < length (pm_apps s) \<Longrightarrow> n \<le> j \<Longrightarrow> pm_apps s ! j = None" "i \<le> n" "n \<le> length (pm_apps s)"
  shows "table_ok (finish_loop lock [i..<n] s) \<and>
    active (finish_loop lock [i..<n] s) = filter_mset (\<lambda>k. k \<notin> finished s) (active s) \<and>
    quiet_since s (finish_loop lock [i..<n] s)"
  using assms
proof (induction "n - i" arbitrary: i s)
  case 0
  then have "finished s = {}" by (fastforce simp: finished_def finished_at_def)
  then show ?case using 0 by (simp add: quiet_since_refl)
next
  case (Suc m)
  then have upt: "[i..<n] = i # [Suc i..<n]" and i: "i < length (pm_apps s)" by (auto simp: upt_conv_Cons)
  consider (out) "i > pm_max_context_created s" | (fin) k where "i \<le> pm_max_context_created s" "finished_at s i k"
    | (skip) "i \<le> pm_max_context_created s" "\<And>k. \<not> finished_at s i k" by fastforce
  then show ?case
  proof cases
    case out
    then have "\<not> finished_at s j k" for j k
      using pm_inv_max [of s j] Suc.prems(1,3) by (fastforce simp: finished_at_def table_ok_def)
    then have "finished s = {}" by (auto simp: finished_def)
    then show ?thesis using out Suc.prems(1) by (simp add: upt quiet_since_refl)
  next
    case (fin k)
    then obtain a where a: "pm_apps s ! i = Some a" "pa_state a = APP_FINISHED" "key a = k" by (auto simp: finished_at_def)
    define s' where "s' = powermon_end_job lock (ap_id (pa_app a)) (ap_step_id (pa_app a)) s"
    have s': "table_ok s'" "pm_apps s' = (pm_apps s)[i := None]" "active s = add_mset k (active s')" "quiet_since s s'"
      using finish_step [of s i a lock] Suc.prems i a unfolding s'_def quiet_since_def
      by (blast, blast, blast, metis append_take_drop_id)
    note after = finished_after_end [OF Suc.prems(2) i fin(2) s'(2,3)]
    have "Suc i \<le> j" if "finished_at s' j x" for j x using Suc.prems(3) [of j x] that by (auto simp: after(1))
    then show ?thesis
      using Suc.hyps(1) [of "Suc i" s'] Suc.hyps(2) Suc.prems s' fin(1) a quiet_since_trans [OF s'(4)] after(2,3)
      by (auto simp: upt nth_list_update simp flip: s'_def)
  next
    case skip
    have "Suc i \<le> j" if "finished_at s j k" for j k
      using Suc.prems(3) [OF that] skip(2) [of k] that by (cases "i = j") auto
    moreover have "finish_loop lock [i..<n] s = finish_loop lock [Suc i..<n] s"
      using skip i by (auto simp: upt finished_at_def key_def split: option.splits)
    ultimately show ?thesis
      using Suc.hyps(1) [of "Suc i" s] Suc.hyps(2) Suc.prems by auto
  qed
qed

definition finish_job :: "u64 \<Rightarrow> powermon_app \<Rightarrow> powermon_app" where
  "finish_job jid a = (if ap_id (pa_app a) = jid then a\<lparr>pa_state := APP_FINISHED\<rparr> else a)"

lemma key_finish_job [simp]: "key (finish_job jid a) = key a"
  by (simp add: finish_job_def key_def)

lemma mark_by_jobid_loop_spec:
  assumes "distinct is" "\<forall>j \<in> set is. j < length apps" "mark_by_jobid_loop jid (\<lambda>_. True) is apps n = (found, apps')"
  shows "length apps' = length apps \<and> n \<le> found \<and>
    (\<forall>j < length apps. apps' ! j = (if j \<in> set is then map_option (finish_job jid) (apps ! j) else apps ! j)) \<and>
    (found = n \<longrightarrow> (\<forall>j \<in> set is. \<forall>a. apps ! j = Some a \<longrightarrow> ap_id (pa_app a) \<noteq> jid))"
  using assms
proof (induction "is" arbitrary: apps n)
  case (Cons i "is")
  show ?case
  proof (cases "apps ! i")
    case None
    then show ?thesis using Cons.IH [of apps n] Cons.prems by auto
  next
    case (Some a)
    show ?thesis
    proof (cases "ap_id (pa_app a) = jid")
      case True
      let ?apps = "apps[i := Some (a\<lparr>pa_state := APP_FINISHED\<rparr>)]"
      have "mark_by_jobid_loop jid (\<lambda>_. True) is ?apps (n + 1) = (found, apps')" using Cons.prems Some True by simp
      then show ?thesis using Cons.IH [of ?apps "n + 1"] Cons.prems Some True
        by (auto simp: nth_list_update finish_job_def)
    next
      case False
      then show ?thesis using Cons.IH [of apps n] Cons.prems Some by (auto simp: finish_job_def)
    qed
  qed
qed simp

text \<open>Marking a job finishes its contexts and changes nothing else.\<close>

lemma mark_by_jobid_correct:
  assumes ok: "table_ok s" and jid: "jid \<noteq> 0" and step: "step = batch \<or> step = INTERACT_STEP" and lock: "\<And>j. lock j"
    and mark: "mark_contexts_to_finish_by_jobid batch lock jid step s = (found, s')"
  shows "pm_apps s' = map (map_option (finish_job jid)) (pm_apps s) \<and> table_ok s' \<and> active s' = active s \<and>
    pm_calls s' = pm_calls s \<and> pm_max_context_created s' = pm_max_context_created s \<and>
    (found = 0 \<longrightarrow> (\<forall>k \<in># active s. fst k \<noteq> jid))"
proof -
  have inv: "pm_inv s" "idle_ready s" using ok by (simp_all add: table_ok_def)
  have len: "Suc (pm_max_context_created s) \<le> length (pm_apps s)" using inv by (simp add: pm_inv_def Suc_leI)
  obtain apps where loop: "mark_by_jobid_loop jid lock [0..<Suc (pm_max_context_created s)] (pm_apps s) 0 = (found, apps)"
    and s': "s' = s\<lparr>pm_apps := apps\<rparr>"
    using mark step by (auto simp: mark_contexts_to_finish_by_jobid_def simp del: upt_Suc split: prod.splits if_splits)
  have "lock = (\<lambda>_. True)" using lock by auto
  note spec = mark_by_jobid_loop_spec [OF distinct_upt _ loop [unfolded this]]
  have nth: "apps ! j = map_option (finish_job jid) (pm_apps s ! j)" if j: "j < length (pm_apps s)" for j
  proof (cases "j < Suc (pm_max_context_created s)")
    case False
    then have "pm_apps s ! j = None" using pm_inv_max [OF inv(1) j] by (cases "pm_apps s ! j") auto
    then show ?thesis using spec len j by (auto simp del: upt_Suc)
  qed (use spec len j in \<open>auto simp del: upt_Suc\<close>)
  have apps: "apps = map (map_option (finish_job jid)) (pm_apps s)"
    using nth spec len by (intro nth_equalityI) (auto simp del: upt_Suc)
  then have keys: "keys s' = keys s" by (simp add: s' keys_def option.map_comp comp_def)
  then have "pm_inv s'" using inv(1) pm_inv_cong [OF keys] by (simp add: s')
  moreover have "idle_ready s'"
  proof -
    have "ap_id (pa_app a) = 0" if "pm_apps s ! 0 = Some a" for a
      using inv(1) that nth_keys [of 0 s] len by (auto simp: pm_inv_def key_def)
    moreover have "pm_apps s' ! 0 = map_option (finish_job jid) (pm_apps s ! 0)" using len nth [of 0] by (cases "pm_apps s") (simp_all add: s')
    ultimately show ?thesis using inv(2) jid by (auto simp: idle_ready_def finish_job_def split: option.splits)
  qed
  moreover have "\<forall>k \<in># active s. fst k \<noteq> jid" if "found = 0"
  proof
    fix k assume "k \<in># active s"
    then obtain j a where j: "j < length (pm_apps s)" "pm_apps s ! j = Some a" "key a = k" by (rule in_active_nth)
    then have "j \<in> set [0..<Suc (pm_max_context_created s)]" using pm_inv_max [OF inv(1) j(1,2)] by (simp del: upt_Suc)
    moreover have "\<forall>j \<in> set [0..<Suc (pm_max_context_created s)]. j < length (pm_apps s)" using len by (simp del: upt_Suc)
    ultimately show "fst k \<noteq> jid" using spec that j(2,3) by (auto simp: key_def simp del: upt_Suc set_upt)
  qed
  ultimately show ?thesis using apps keys by (simp add: s' table_ok_def active_def)
qed

lemma finished_after_mark:
  assumes "pm_apps s' = map (map_option (finish_job jid)) (pm_apps s)" "finished s = {}"
  shows "finished_closed s'" "k \<in># active s \<Longrightarrow> k \<in> finished s' \<longleftrightarrow> fst k = jid"
proof -
  have at: "finished_at s' i x \<longleftrightarrow> i < length (pm_apps s) \<and> (\<exists>a. pm_apps s ! i = Some a \<and> key a = x) \<and> fst x = jid" for i x
    using assms(2) by (fastforce simp: finished_at_def finished_def assms(1) finish_job_def key_def split: if_splits)
  show "finished_closed s'"
    unfolding finished_closed_def
  proof (intro allI impI)
    fix i a assume i: "i < length (pm_apps s')" and a: "pm_apps s' ! i = Some a \<and> key a \<in> finished s'"
    then have "fst (key a) = jid" unfolding finished_def at by blast
    moreover obtain b where "a = finish_job jid b" using i a by (auto simp: assms(1))
    ultimately show "pa_state a = APP_FINISHED" by (auto simp: finish_job_def key_def split: if_splits)
  qed
  show "k \<in> finished s' \<longleftrightarrow> fst k = jid" if "k \<in># active s"
  proof -
    have "\<exists>i < length (pm_apps s). \<exists>a. pm_apps s ! i = Some a \<and> key a = k" using in_active_nth [OF that] by metis
    then show ?thesis by (auto simp: finished_def at)
  qed
qed

lemma finish_pending_correct:
  assumes "table_ok s" "finished_closed s" "\<And>j. lock j"
  shows "table_ok (finish_pending_contexts lock s) \<and>
    active (finish_pending_contexts lock s) = filter_mset (\<lambda>k. k \<notin> finished s) (active s) \<and>
    quiet_since s (finish_pending_contexts lock s)"
  unfolding finish_pending_contexts_def
proof (rule finish_loop_correct [OF assms(1,2)])
  show "Suc (pm_max_context_created s) \<le> length (pm_apps s)" using assms(1) by (simp add: table_ok_def pm_inv_def Suc_leI)
  show "pm_apps s ! j = None" if "j < length (pm_apps s)" "Suc (pm_max_context_created s) \<le> j" for j
    using pm_inv_max [of s j] assms(1) that by (cases "pm_apps s ! j") (auto simp: table_ok_def)
qed (use assms(3) in simp_all)

text \<open>The end of the batch step ends every step of the job; no other step is touched.\<close>

lemma handle_end_batch:
  assumes ok: "table_ok s" and jid: "jid \<noteq> 0" and step: "sid = batch \<or> sid = INTERACT_STEP"
    and fin: "finished s = {}" and lock: "\<And>i j. lock i j"
  defines "s' \<equiv> handle_end_job batch lock jid sid s"
  shows "table_ok s' \<and> active s' = filter_mset (\<lambda>k. fst k \<noteq> jid) (active s) \<and>
    quiet_since (powermon_end_job (lock 0) jid sid s) s'"
proof -
  define s1 where "s1 = powermon_end_job (lock 0) jid sid s"
  have s1: "table_ok s1" using end_job_keeps [OF ok jid] by (simp add: s1_def)
  have sub: "finished s1 = {} \<and> filter_mset (\<lambda>k. fst k \<noteq> jid) (active s1) = filter_mset (\<lambda>k. fst k \<noteq> jid) (active s)"
  proof (cases "(jid, sid) \<in># active s")
    case True
    have inv: "pm_inv s" "idle_ready s" using ok by (simp_all add: table_ok_def)
    obtain cc a where f: "find_context_for_job jid sid s = int cc" "0 < cc" "cc < length (pm_apps s)" "pm_apps s ! cc = Some a"
      "key a = (jid, sid)" using find_context_active [OF inv(1) jid True] by metis
    have e: "active s1 = active s - {#(jid, sid)#}" "pm_apps s1 = (pm_apps s)[cc := None]"
      using end_job_at [OF inv f(1-4), of "lock 0"] f(5) lock by (simp_all add: s1_def)
    have "finished s1 = {}"
      using fin f(3) by (auto simp: finished_def finished_at_def e(2) nth_list_update split: if_splits)
    moreover obtain M where "active s = add_mset (jid, sid) M" using True by (metis multi_member_split)
    ultimately show ?thesis by (simp add: e(1))
  next
    case False
    then have "s1 = s" using end_job_unknown [of s jid sid] ok jid by (simp add: s1_def table_ok_def)
    then show ?thesis using fin by simp
  qed
  obtain found s2 where mark: "mark_contexts_to_finish_by_jobid batch (lock 1) jid sid s1 = (found, s2)" by fastforce
  note m = mark_by_jobid_correct [OF s1 jid step lock mark]
  have s': "s' = (if found \<noteq> 0 then finish_pending_contexts (lock 2) s2 else s2)"
    unfolding s'_def handle_end_job_def Let_def s1_def [symmetric] mark by simp
  have q: "quiet_since s1 s2" using m by (simp add: quiet_since_def)
  show ?thesis
  proof (cases "found = 0")
    case True
    then have "filter_mset (\<lambda>k. fst k \<noteq> jid) (active s1) = active s1" using m by (simp add: filter_mset_eq_conv)
    then show ?thesis using True m q sub by (simp add: s' flip: s1_def)
  next
    case False
    have act: "active s2 = active s1" and apps: "pm_apps s2 = map (map_option (finish_job jid)) (pm_apps s1)" using m by blast+
    note after = finished_after_mark [OF apps] m sub
    have "filter_mset (\<lambda>k. k \<notin> finished s2) (active s2) = filter_mset (\<lambda>k. fst k \<noteq> jid) (active s1)"
      unfolding act using after(2) sub by (intro filter_mset_cong) blast+
    then show ?thesis
      using finish_pending_correct [of s2 "lock 2"] after lock False sub quiet_since_trans [OF q]
      by (simp add: s' flip: s1_def)
  qed
qed

subsection \<open>A new job always starts\<close>

lemma policy_found:
  assumes "policy_name_to_nodeid name node \<noteq> EAR_ERROR"
  shows "get_my_policy_conf node (word_of_int (policy_name_to_nodeid name node)) \<noteq> None"
  using assms
  by (auto simp: policy_name_to_nodeid_def get_my_policy_conf_def find_None_iff dest!: find_SomeD split: option.splits)

lemma get_user_type_cases:
  "\<exists>t. get_user_type db conf etag user grp acc \<in> {(NORMAL, None), (AUTHORIZED, None), (ENERGY_TAG, Some t)}"
  by (auto simp: get_user_type_def Let_def split: option.splits)

lemma new_job_settings_total:
  assumes "get_my_policy_conf (je_node env) (of_nat (cc_default_policy (je_conf env))) \<noteq> None"
  shows "new_job_settings db env app old c \<noteq> None"
proof -
  have n: "configure_normal env app c \<noteq> None" for app
    using assms policy_found [of "ap_policy app" "je_node env"] by (auto simp: configure_normal_def Let_def)
  have a: "configure_authorized env app c \<noteq> None" for app
    using policy_found [of "ap_policy app" "je_node env"] by (auto simp: configure_authorized_def Let_def)
  have t: "configure_energy_tag env (Some t) c \<noteq> None" for t
    by (simp add: configure_energy_tag_def Let_def)
  have "configure_context env u tag app c \<noteq> None" if "(u, tag) \<in> {(NORMAL, None), (AUTHORIZED, None), (ENERGY_TAG, Some t)}" for u tag t
    using that n [of "app\<lparr>ap_is_learning := False\<rparr>"] a [of app] t [of t]
    by (auto simp: configure_context_def Let_def split: prod.splits)
  then obtain u tag r where "get_user_type db (je_conf env) (Some (ap_energy_tag app)) (user_of app) (Some (ap_group_id app))
      (Some (ap_user_acc app)) = (u, tag)" "configure_context env u tag app c = Some r"
    using get_user_type_cases [of db "je_conf env" "Some (ap_energy_tag app)" "user_of app" "Some (ap_group_id app)"
        "Some (ap_user_acc app)"] by (metis not_Some_eq surj_pair)
  then show ?thesis by (simp add: new_job_settings_def Let_def split: prod.splits)
qed

lemma new_job_total:
  assumes ok: "table_ok s" and start: "can_start sa (ap_id app) s"
    and policy: "get_my_policy_conf (je_node (pm_env s)) (of_nat (cc_default_policy (je_conf (pm_env s)))) \<noteq> None"
  shows "powermon_new_job db lock sa app from_mpi is_job s \<noteq> None"
proof (rule new_job_context [OF ok start])
  fix cc a old s3
  assume eq: "\<forall>db lock from_mpi is_job. powermon_new_job db lock sa app from_mpi is_job s =
      new_job_result db lock app from_mpi is_job cc a old s s3"
  show ?thesis using new_job_settings_total [OF policy] by (auto simp: eq new_job_result_def)
qed

subsection \<open>Reachable tables\<close>

lemma table_ok_apps:
  assumes "table_ok s" "map (map_option key) apps = keys s" "apps ! 0 = pm_apps s ! 0"
  shows "table_ok (s\<lparr>pm_apps := apps\<rparr>)"
proof -
  have "keys (s\<lparr>pm_apps := apps\<rparr>) = keys s" using assms(2) by (simp add: keys_def)
  then have "pm_inv (s\<lparr>pm_apps := apps\<rparr>) = pm_inv s" by (rule pm_inv_cong) simp_all
  then show ?thesis using assms(1,3) by (simp add: table_ok_def idle_ready_def)
qed

lemma update_keeps:
  assumes "apps ! i = Some a" "key a' = key a" "apps ! 0 \<noteq> Some a"
  shows "map (map_option key) (apps[i := Some a']) = map (map_option key) apps" "(apps[i := Some a']) ! 0 = apps ! 0"
proof -
  show "map (map_option key) (apps[i := Some a']) = map (map_option key) apps"
  proof (cases "i < length apps")
    case True
    then show ?thesis using assms(1,2) by (metis list_update_id map_update option.simps(9))
  qed (simp add: list_update_beyond)
  show "(apps[i := Some a']) ! 0 = apps ! 0" using assms(1,3) by (cases "i = 0") auto
qed

lemma mark_by_pid_loop_keeps:
  assumes "mark_by_pid_loop alive lock is apps n = (found, apps')" "apps ! 0 = Some b" "pa_master_pid b = 0"
  shows "map (map_option key) apps' = map (map_option key) apps \<and> apps' ! 0 = apps ! 0"
  using assms
proof (induction alive lock "is" apps n rule: mark_by_pid_loop.induct)
  case (2 alive lock i "is" apps n)
  show ?case
  proof (cases "\<exists>a. apps ! i = Some a \<and> pa_master_pid a \<noteq> 0 \<and> \<not> alive (pa_master_pid a) \<and> lock i")
    case True
    then obtain a where a: "apps ! i = Some a" "pa_master_pid a \<noteq> 0" "\<not> alive (pa_master_pid a)" "lock i" by blast
    moreover have "apps ! 0 \<noteq> Some a" "key (a\<lparr>pa_state := APP_FINISHED\<rparr>) = key a" using a 2 by (auto simp: key_def)
    ultimately show ?thesis using "2.IH"(3) [OF a(1)] 2 update_keeps [of apps i a "a\<lparr>pa_state := APP_FINISHED\<rparr>"] by simp
  next
    case False
    then show ?thesis using 2 by (auto split: option.splits if_splits)
  qed
qed simp

lemma mark_by_jobid_loop_keeps:
  assumes "mark_by_jobid_loop jid lock is apps n = (found, apps')" "apps ! 0 = Some b" "ap_id (pa_app b) \<noteq> jid"
  shows "map (map_option key) apps' = map (map_option key) apps \<and> apps' ! 0 = apps ! 0"
  using assms
proof (induction jid lock "is" apps n rule: mark_by_jobid_loop.induct)
  case (2 jid lock i "is" apps n)
  show ?case
  proof (cases "\<exists>a. apps ! i = Some a \<and> ap_id (pa_app a) = jid \<and> lock i")
    case True
    then obtain a where a: "apps ! i = Some a" "ap_id (pa_app a) = jid" "lock i" by blast
    moreover have "apps ! 0 \<noteq> Some a" "key (a\<lparr>pa_state := APP_FINISHED\<rparr>) = key a" using a 2 by (auto simp: key_def)
    ultimately show ?thesis using "2.IH"(2) [OF a(1)] 2 update_keeps [of apps i a "a\<lparr>pa_state := APP_FINISHED\<rparr>"] by simp
  next
    case False
    then show ?thesis using 2 by (auto split: option.splits if_splits)
  qed
qed simp

lemma idle_app:
  assumes "table_ok s"
  obtains a where "pm_apps s ! 0 = Some a" "pa_master_pid a = 0" "ap_id (pa_app a) = 0" "pa_state a \<noteq> APP_FINISHED"
proof -
  have len: "0 < length (pm_apps s)" "keys s ! 0 = Some (0, 0)" using assms by (simp_all add: table_ok_def pm_inv_def)
  obtain a where "pm_apps s ! 0 = Some a" "pa_master_pid a = 0" "pa_state a \<noteq> APP_FINISHED"
    using assms by (auto simp: table_ok_def idle_ready_def split: option.splits)
  then show thesis using that [of a] len nth_keys [of 0 s] by (simp add: key_def)
qed

lemma mark_by_pid_keeps: "table_ok s \<Longrightarrow> table_ok (snd (mark_contexts_to_finish_by_pid alive lock s))"
  by (frule idle_app) (auto simp: mark_contexts_to_finish_by_pid_def keys_def split: prod.splits simp del: upt_Suc
      intro!: table_ok_apps dest: mark_by_pid_loop_keeps)

lemma mark_by_jobid_keeps:
  "table_ok s \<Longrightarrow> jid \<noteq> 0 \<Longrightarrow> table_ok (snd (mark_contexts_to_finish_by_jobid batch lock jid sid s))"
  by (frule idle_app) (auto simp: mark_contexts_to_finish_by_jobid_def keys_def split: prod.splits simp del: upt_Suc
      intro!: table_ok_apps dest: mark_by_jobid_loop_keeps)

lemma finish_loop_keeps: "table_ok s \<Longrightarrow> table_ok (finish_loop lock is s)"
proof (induction lock "is" s rule: finish_loop.induct)
  case (2 lock i "is" s)
  show ?case
  proof (cases "i > pm_max_context_created s")
    case False
    have "table_ok (powermon_end_job lock (ap_id (pa_app a)) (ap_step_id (pa_app a)) s)"
      if a: "pm_apps s ! i = Some a" "pa_state a = APP_FINISHED" for a
    proof -
      have inv: "pm_inv s" using 2 by (simp add: table_ok_def)
      have len: "i < length (pm_apps s)" using False inv by (simp add: pm_inv_def)
      have "i \<noteq> 0" using a 2(2) by (metis idle_app option.inject)
      then have "ap_id (pa_app a) \<noteq> 0" using pm_inv_fst [OF inv _ _, of i "key a"] len a by (simp add: nth_keys key_def)
      then show ?thesis using end_job_keeps 2(2) by blast
    qed
    then show ?thesis using 2 False by (auto split: option.splits)
  qed (use 2 in simp)
qed simp

lemma find_context_nonzero:
  assumes ok: "table_ok s" and jid: "jid \<noteq> 0" and cc: "find_context_for_job jid sid s = cc" "\<not> cc < 0"
  obtains a where "0 < nat cc" "nat cc < length (pm_apps s)" "pm_apps s ! nat cc = Some a" "key a = (jid, sid)"
proof -
  have inv: "pm_inv s" using ok by (simp add: table_ok_def)
  then have "(jid, sid) \<in># active s" using find_context_correct(1) [of s jid sid] cc jid by (auto simp: active_iff)
  then obtain c a where "find_context_for_job jid sid s = int c" "0 < c" "c < length (pm_apps s)" "pm_apps s ! c = Some a"
    "key a = (jid, sid)" using find_context_active [OF inv jid] by metis
  then show thesis using that cc by force
qed

lemma update_context_keeps:
  assumes "table_ok s" "jid \<noteq> 0" "find_context_for_job jid sid s = cc" "\<not> cc < 0" "pm_apps s ! nat cc = Some a" "key a' = key a"
  shows "table_ok (set_app (nat cc) a' s)"
  using find_context_nonzero [OF assms(1-4)] table_ok_set_app [of s "nat cc" a a'] assms by metis

lemma mpi_finalize_keeps: "table_ok s \<Longrightarrow> jid \<noteq> 0 \<Longrightarrow> table_ok (powermon_mpi_finalize lock jid sid s)"
proof -
  assume ok: "table_ok s" and jid: "jid \<noteq> 0"
  define cc where "cc = find_context_for_job jid sid s"
  show ?thesis
  proof (cases "cc < 0")
    case False
    obtain a where a: "pm_apps s ! nat cc = Some a" "key a = (jid, sid)"
      using find_context_nonzero [OF ok jid cc_def [symmetric] False] by blast
    let ?a = "a\<lparr>pa_local_ids := pa_local_ids a - 1\<rparr>"
    have ok': "table_ok (set_app (nat cc) ?a s)"
      using update_context_keeps [OF ok jid cc_def [symmetric] False a(1), of ?a] by (simp add: key_def)
    have "ap_id (pa_app ?a) \<noteq> 0" using a(2) jid by (simp add: key_def)
    then have "table_ok (powermon_end_job lock (ap_id (pa_app ?a)) (ap_step_id (pa_app ?a)) (call Set_Mode_Auto (set_app (nat cc) ?a s)))"
      using ok' by (intro end_job_keeps) simp_all
    then show ?thesis
      using ok ok' a(1) False by (simp add: powermon_mpi_finalize_def Let_def flip: cc_def)
  qed (use ok in \<open>simp add: powermon_mpi_finalize_def flip: cc_def\<close>)
qed

lemma mpi_signature_keeps:
  assumes "table_ok s" "ap_id app \<noteq> 0"
  shows "table_ok (powermon_mpi_signature app s)"
  using assms update_context_keeps [OF assms refl]
  by (auto simp: powermon_mpi_signature_def Let_def key_def split: option.splits)

lemma new_task_keeps:
  assumes "table_ok s" "nt_jid task \<noteq> 0" "powermon_new_task governors userspace lock task s = Some s'"
  shows "table_ok s'"
proof -
  have "table_ok (call e s)" "table_ok (call e (call e' s))" for e e' using assms(1) by simp_all
  then show ?thesis
    using assms find_context_nonzero [OF assms(1,2) refl]
      table_ok_set_app
    by (auto simp: powermon_new_task_def Let_def key_def bind_eq_Some_conv split: option.splits if_splits
        intro!: table_ok_set_app elim!: find_context_nonzero [OF assms(1,2) refl])
qed

lemma mpi_init_keeps:
  assumes ok: "table_ok s" and start: "can_start sa (ap_id app) s"
    and init: "powermon_mpi_init db lock sa app s = Some s'"
  shows "table_ok s'"
proof -
  obtain s1 where ok1: "table_ok s1" and s1: "(if find_context_for_job (ap_id app) (ap_step_id app) s < 0
      then powermon_new_job db lock sa app True False s else Some s) = Some s1"
    using init new_job_correct [OF ok start] ok
    by (auto simp: powermon_mpi_init_def bind_eq_Some_conv split: if_splits)
  have jid: "ap_id app \<noteq> 0" using start by (simp add: can_start_def)
  define cc where "cc = find_context_for_job (ap_id app) (ap_step_id app) s1"
  note init' = init [unfolded powermon_mpi_init_def s1 bind.bind_lunit Let_def, folded cc_def]
  show ?thesis
  proof (cases "cc < 0 \<or> \<not> lock (nat cc) \<or> pm_apps s1 ! nat cc = None")
    case True
    then have "s' = s1" using init' by (auto split: option.splits if_splits)
    then show ?thesis using ok1 by simp
  next
    case False
    then obtain a where a: "pm_apps s1 ! nat cc = Some a" by blast
    define a' where "a' = (if pa_local_ids a + 1 > 1 then a\<lparr>pa_local_ids := pa_local_ids a + 1\<rparr>
      else a\<lparr>pa_local_ids := pa_local_ids a + 1, pa_app := (pa_app a)\<lparr>ap_is_mpi := True\<rparr>\<rparr>)"
    have "s' = set_app (nat cc) a' s1" using init' a False by (auto simp: a'_def)
    moreover have "key a' = key a" by (simp add: a'_def key_def)
    ultimately show ?thesis using update_context_keeps [OF ok1 jid cc_def [symmetric]] False a by blast
  qed
qed

text \<open>The steps of the daemon: every handler, under any outcome of the locks, for jobs with an identifier.\<close>

inductive node_step :: "powermon \<Rightarrow> powermon \<Rightarrow> bool" where
  new_job: "can_start sa (ap_id app) s \<Longrightarrow> powermon_new_job db lock sa app from_mpi is_job s = Some s' \<Longrightarrow> node_step s s'"
| end_job: "jid \<noteq> 0 \<Longrightarrow> node_step s (powermon_end_job lock jid sid s)"
| mark_pid: "node_step s (snd (mark_contexts_to_finish_by_pid alive lock s))"
| mark_jobid: "jid \<noteq> 0 \<Longrightarrow> node_step s (snd (mark_contexts_to_finish_by_jobid batch lock jid sid s))"
| finish: "node_step s (finish_pending_contexts lock s)"
| mpi_init: "can_start sa (ap_id app) s \<Longrightarrow> powermon_mpi_init db lock sa app s = Some s' \<Longrightarrow> node_step s s'"
| mpi_finalize: "jid \<noteq> 0 \<Longrightarrow> node_step s (powermon_mpi_finalize lock jid sid s)"
| mpi_signature: "ap_id app \<noteq> 0 \<Longrightarrow> node_step s (powermon_mpi_signature app s)"
| new_task: "nt_jid task \<noteq> 0 \<Longrightarrow> powermon_new_task governors userspace lock task s = Some s' \<Longrightarrow> node_step s s'"

lemma node_step_keeps: "node_step s s' \<Longrightarrow> table_ok s \<Longrightarrow> table_ok s'"
  by (induction rule: node_step.induct)
    (auto simp: finish_pending_contexts_def simp del: upt_Suc dest: new_job_correct
      intro: end_job_keeps mark_by_pid_keeps mark_by_jobid_keeps finish_loop_keeps mpi_init_keeps mpi_finalize_keeps
        mpi_signature_keeps new_task_keeps)

lemma reset_shared_memory_same:
  "reset_shared_memory env a = Some a' \<Longrightarrow>
   key a' = key a \<and> pa_master_pid a' = pa_master_pid a \<and> pa_state a' = pa_state a \<and> pa_settings a' \<noteq> None"
  by (auto simp: reset_shared_memory_def bind_eq_Some_conv key_def)

lemma steps_replicate: "steps (replicate n None) = {#}"
  by (simp add: steps_def)

lemma initial_table:
  assumes "powermon_create_idle_context sa (init_contexts env c) = Some (EAR_SUCCESS, s)"
  shows "table_ok s"
proof -
  define n where "n = MAX_NESTED_LEVELS"
  have n: "0 < n" "n < 2 ^ 32" by (simp_all add: n_def MAX_NESTED_LEVELS_def)
  obtain a where a: "key a = (0, 0)" "pa_master_pid a = 0" "pa_state a \<noteq> APP_FINISHED" "pa_settings a \<noteq> None"
    and s: "pm_apps s = (replicate n None)[0 := Some a]" "pm_jobs s = init_jobs_in_node"
      "pm_joblist s = (replicate n 0)[0 := create_ID 0 0]" "pm_max_context_created s = 0" "pm_num_contexts s = 1"
    using assms reset_shared_memory_same [of env "zero_powermon_app\<lparr>pa_settings := Some zero_settings\<rparr>"]
    by (auto simp: powermon_create_idle_context_def init_contexts_def Let_def bind_eq_Some_conv zero_powermon_app_def
        zero_application_def key_def call_def set_app_def n_def split: if_splits)
  have keys: "keys s = (replicate n None)[0 := Some (0, 0)]" by (simp add: keys_def s(1) map_update a(1))
  have st: "steps (keys s) = {#(0, 0)#}" using steps_new [of 0 "replicate n None" "(0, 0)"] n by (simp add: keys steps_replicate)
  then have "jobs_inv (pm_jobs s) (jobs_of 0 (keys s))"
    by (auto simp: jobs_of_def jobs_inv_def s init_jobs_in_node_def filter_replicate)
  moreover have "pm_joblist s = map shared_id (keys s)" using n by (simp add: s keys map_update shared_id_def)
  ultimately have "pm_inv s" using n st by (auto simp: pm_inv_def keys s nth_list_update)
  then show ?thesis using a n by (simp add: table_ok_def idle_ready_def s)
qed

subsection \<open>Examples\<close>

definition areas_example :: shared_areas where
  "areas_example = \<lparr>sa_calloc = True, sa_lock = True, sa_jobmon_path = True, sa_jobmon = True, sa_settings = True,
     sa_resched = True, sa_app_mgt = True, sa_pc_app = True\<rparr>"

definition step_app :: "u64 \<Rightarrow> u64 \<Rightarrow> powermon_app" where
  "step_app jid sid = zero_powermon_app\<lparr>pa_app := app_example\<lparr>ap_id := jid, ap_step_id := sid\<rparr>,
     pa_settings := Some settings_example\<rparr>"

text \<open>A node with the batch step and one more step of job 7, and room for one more context.\<close>

definition node_example :: powermon where
  "node_example = \<lparr>pm_jobs = [\<lparr>jc_id = 7, jc_num_ctx = 2, jc_num_cpus = 0\<rparr>, \<lparr>jc_id = 0, jc_num_ctx = 0, jc_num_cpus = 0\<rparr>],
     pm_apps = [Some (step_app 0 0), Some (step_app 7 (- 5)), Some (step_app 7 1), None],
     pm_joblist = [create_ID 0 0, create_ID 7 (- 5), create_ID 7 1, 0], pm_max_context_created = 2, pm_num_contexts = 3,
     pm_env = env_example, pm_contexts = contexts_example, pm_calls = []\<rparr>"

lemma keys_example: "keys node_example = [Some (0, 0), Some (7, - 5), Some (7, 1), None]"
  by (simp add: keys_def node_example_def step_app_def key_def app_example_def)

lemma active_example: "active node_example = {#(7, - 5), (7, 1)#}"
  by (simp add: active_def keys_example steps_def)

lemma table_ok_example: "table_ok node_example"
proof -
  have "jobs_inv (pm_jobs node_example) (jobs_of 0 (keys node_example))"
  proof -
    have "jobs_of 0 (keys node_example) = {#7, 7#}" by (simp add: jobs_of_def keys_example steps_def)
    then show ?thesis by (simp add: jobs_inv_def node_example_def)
  qed
  moreover have "\<forall>i k. 0 < i \<and> i < length (keys node_example) \<and> keys node_example ! i = Some k \<longrightarrow> fst k \<noteq> 0"
    by (auto simp: keys_example nth_Cons' split: if_splits)
  moreover have "\<forall>i < length (keys node_example). pm_max_context_created node_example < i \<longrightarrow> keys node_example ! i = None"
  proof -
    have "pm_max_context_created node_example = 2" by (simp add: node_example_def)
    then show ?thesis by (auto simp: keys_example nth_Cons')
  qed
  ultimately have "pm_inv node_example"
    unfolding pm_inv_def by (simp add: keys_example steps_def shared_id_def del: length_keys) (simp add: node_example_def)
  then show ?thesis by (simp add: table_ok_def idle_ready_def node_example_def step_app_def zero_powermon_app_def)
qed

lemma finished_example: "finished node_example = {}"
  by (auto simp: finished_def finished_at_def node_example_def step_app_def zero_powermon_app_def nth_Cons' split: if_splits)

lemma can_start_example: "can_start areas_example 7 node_example"
  by (simp add: can_start_def areas_ok_def areas_example_def has_room_def node_example_def)

lemma default_policy_example:
  "get_my_policy_conf (je_node env_example) (of_nat (cc_default_policy (je_conf env_example))) \<noteq> None"
  by (simp add: get_my_policy_conf_def env_example_def conf_example_def policy_example_def)

subsection \<open>Properties\<close>

lemma job_counter:
  assumes "table_ok s" "jid \<noteq> 0"
  shows "case is_job_in_node jid (pm_jobs s) of None \<Rightarrow> count (image_mset fst (active s)) jid = 0
     | Some i \<Rightarrow> unat (jc_num_ctx (pm_jobs s ! i)) = count (image_mset fst (active s)) jid"
proof -
  let ?i = "search (\<lambda>j. jc_id j = jid) (pm_jobs s)"
  have inv: "jobs_inv (pm_jobs s) (image_mset fst (active s))"
    using assms(1) by (simp add: table_ok_def pm_inv_def jobs_of_def active_def)
  show ?thesis
  proof (cases "?i < length (pm_jobs s)")
    case True
    then show ?thesis
      using jobs_invD(2) [OF inv True] search_nth [OF True] assms(2) by (simp add: is_job_in_node_def Let_def)
  next
    case False
    then have "jid \<notin># image_mset fst (active s)" using inv by (force simp: search_less jobs_inv_def)
    then show ?thesis using False by (simp add: is_job_in_node_def Let_def count_eq_zero_iff)
  qed
qed

text \<open>
  C10. In every state that the handlers reach from the start of the daemon, when a job or step starts
  only if its context can be locked and its shared areas be created, its job is not 0 and the
  tables have room (\<open>can_start\<close>), and whatever the outcome of the locks on existing contexts, the redundant parts
  of the context table agree: the number of contexts is that of the running
  steps and the idle context, the node is idle exactly when no step runs, the search for a step succeeds
  exactly when it runs, and the counter of a job is the number of its running steps.
\<close>

theorem context_table_consistent:
  assumes init: "powermon_create_idle_context sa (init_contexts env c) = Some (EAR_SUCCESS, s\<^sub>0)"
    and reach: "node_step\<^sup>*\<^sup>* s\<^sub>0 s"
  shows "pm_num_contexts s = int (size (active s)) + 1 \<and> (powermon_is_idle s \<longleftrightarrow> active s = {#}) \<and>
    (\<forall>jid sid. jid \<noteq> 0 \<longrightarrow>
       (find_context_for_job jid sid s \<ge> 0 \<longleftrightarrow> (jid, sid) \<in># active s) \<and>
       (case is_job_in_node jid (pm_jobs s) of None \<Rightarrow> count (image_mset fst (active s)) jid = 0
        | Some i \<Rightarrow> unat (jc_num_ctx (pm_jobs s ! i)) = count (image_mset fst (active s)) jid))"
proof -
  have ok: "table_ok s"
    using reach by (induction rule: rtranclp_induct) (use initial_table [OF init] node_step_keeps in blast)+
  then have inv: "pm_inv s" "idle_ready s" by (simp_all add: table_ok_def)
  have "size (steps (keys s)) = size (active s) + 1" using size_active [OF inv(1)] .
  then have "pm_num_contexts s = int (size (active s)) + 1" using inv(1) by (simp add: pm_inv_def)
  moreover have "find_context_for_job jid sid s \<ge> 0 \<longleftrightarrow> (jid, sid) \<in># active s" if "jid \<noteq> 0" for jid sid
    using find_context_correct(1) [OF inv(1), of jid sid] that by (auto simp: active_iff)
  ultimately show ?thesis using powermon_is_idle_iff [OF inv] job_counter [OF ok] by blast
qed

lemma context_table_consistent_witness:
  "\<exists>s\<^sub>0 s. powermon_create_idle_context areas_example (init_contexts env_example contexts_example) = Some (EAR_SUCCESS, s\<^sub>0) \<and>
     node_step s\<^sub>0 s \<and> active s = {#(7, 0)#} \<and> pm_num_contexts s = 2 \<and> \<not> powermon_is_idle s"
proof -
  have big: "1 < MAX_NESTED_LEVELS" by (simp add: MAX_NESTED_LEVELS_def)
  obtain s\<^sub>0 where s0: "powermon_create_idle_context areas_example (init_contexts env_example contexts_example) = Some (EAR_SUCCESS, s\<^sub>0)"
    "pm_env s\<^sub>0 = env_example" "pm_jobs s\<^sub>0 = init_jobs_in_node" "length (pm_apps s\<^sub>0) = MAX_NESTED_LEVELS" "pm_apps s\<^sub>0 ! 1 = None"
    using default_policy_example big
    by (auto simp: powermon_create_idle_context_def areas_example_def init_contexts_def reset_shared_memory_def call_def
        set_app_def)
  have ok: "table_ok s\<^sub>0" using initial_table [OF s0(1)] .
  have "None \<in> set (pm_apps s\<^sub>0)" using s0(4,5) big by (metis nth_mem)
  then have start: "can_start areas_example (ap_id app_example) s\<^sub>0"
    by (auto simp: can_start_def areas_ok_def areas_example_def has_room_def app_example_def s0(3) init_jobs_in_node_def
        MAX_CPUS_SUPPORTED_def)
  obtain s where s: "powermon_new_job user_db_example (\<lambda>_. True) areas_example app_example False True s\<^sub>0 = Some s"
    using new_job_total [OF ok start] default_policy_example s0(2) by fastforce
  have act0: "active s\<^sub>0 = {#}" using idle_iff_no_steps [of s\<^sub>0] ok s0(1)
    by (auto simp: table_ok_def powermon_create_idle_context_def Let_def bind_eq_Some_conv split: if_splits)
  have step: "node_step s\<^sub>0 s" using node_step.new_job [OF start s] .
  have act: "active s = {#(7, 0)#}" using new_job_correct [OF ok start s] act0 by (simp add: app_example_def)
  then show ?thesis
    using context_table_consistent [OF s0(1) r_into_rtranclp [where r = node_step, OF step]] s0(1) step by auto
qed

text \<open>
  C11. The start of a job refines the insertion into the multiset of running steps: on a consistent table
  with a free context and room in the list of jobs, when the shared areas can be created and a default
  policy is configured, the handler returns, the table stays consistent and exactly the new step is
  added; the power capping is woken exactly when the node was idle.
\<close>

theorem new_job_refines_insert:
  assumes "table_ok s" "can_start sa (ap_id app) s"
    and "get_my_policy_conf (je_node (pm_env s)) (of_nat (cc_default_policy (je_conf (pm_env s)))) \<noteq> None"
  shows "\<exists>s'. powermon_new_job db lock sa app from_mpi is_job s = Some s' \<and> table_ok s' \<and>
    active s' = add_mset (ap_id app, ap_step_id app) (active s) \<and>
    (\<exists>cs. pm_calls s' = pm_calls s @ start_calls app (active s = {#}) @ cs)"
  using new_job_total [OF assms] new_job_correct [OF assms(1,2)] by blast

lemma new_job_refines_insert_witness:
  "\<exists>s'. powermon_new_job user_db_example (\<lambda>_. True) areas_example app_example False False node_example = Some s' \<and>
     active s' = {#(7, 0), (7, - 5), (7, 1)#}"
proof -
  have "pm_env node_example = env_example" "ap_id app_example = 7" "ap_step_id app_example = 0"
    by (simp_all add: node_example_def app_example_def)
  then show ?thesis
    using new_job_refines_insert [OF table_ok_example, of areas_example app_example user_db_example "\<lambda>_. True" False False]
      can_start_example default_policy_example
    by (auto simp: active_example)
qed

text \<open>
  C12. The end of a step refines the removal from the multiset of running steps: the step is removed once,
  the table stays consistent, and the power capping is put to rest exactly when the step was not already
  finished and no other step runs.
\<close>

theorem end_job_refines_remove:
  assumes "table_ok s" "jid \<noteq> 0" "(jid, sid) \<in># active s" "\<And>i. lock i"
  shows "\<exists>s' a. powermon_end_job lock jid sid s = s' \<and> table_ok s' \<and> active s' = active s - {#(jid, sid)#} \<and>
    key a = (jid, sid) \<and> Some a \<in> set (pm_apps s) \<and>
    pm_calls s' = pm_calls s @ end_job_calls a (active s' = {#}) jid sid"
proof -
  have inv: "pm_inv s" "idle_ready s" using assms(1) by (simp_all add: table_ok_def)
  obtain cc a where f: "find_context_for_job jid sid s = int cc" "0 < cc" "cc < length (pm_apps s)" "pm_apps s ! cc = Some a"
    "key a = (jid, sid)" using find_context_active [OF inv(1) assms(2,3)] by metis
  then have "Some a \<in> set (pm_apps s)" by (metis nth_mem)
  then show ?thesis using end_job_at [OF inv f(1-4) assms(4)] f(5) by (auto simp: table_ok_def)
qed

lemma end_job_refines_remove_witness:
  "active (powermon_end_job (\<lambda>_. True) 7 1 node_example) = {#(7, - 5)#}"
  using end_job_refines_remove [OF table_ok_example, of 7 1 "\<lambda>_. True"] by (auto simp: active_example)

text \<open>
  C13. The end of the batch step of a job ends all its steps and no step of another job, provided that no
  context was marked as finished before.
\<close>

theorem batch_end_ends_job:
  assumes "table_ok s" "jid \<noteq> 0" "sid = batch \<or> sid = INTERACT_STEP" "finished s = {}" "\<And>i j. lock i j"
  shows "table_ok (handle_end_job batch lock jid sid s) \<and>
    active (handle_end_job batch lock jid sid s) = filter_mset (\<lambda>k. fst k \<noteq> jid) (active s)"
  using handle_end_batch [OF assms(1-4), of lock] assms(5) by blast

lemma batch_end_ends_job_witness:
  "active (handle_end_job (- 5) (\<lambda>_ _. True) 7 (- 5) node_example) = {#}"
  using batch_end_ends_job [OF table_ok_example, of 7 "- 5" "- 5" "\<lambda>_ _. True"]
  by (simp add: active_example finished_example)

text \<open>
  C30. When the batch step of the only job ends while another of its steps is still registered, the node
  becomes idle but the power capping is never told: no call of the whole handler is \<open>Run_To_Idle\<close>.
\<close>

theorem idle_transition_missed:
  assumes ok: "table_ok s" and jid: "jid \<noteq> 0" and step: "sid = batch \<or> sid = INTERACT_STEP"
    and fin: "finished s = {}" and lock: "\<And>i j. lock i j"
    and only: "(jid, sid) \<in># active s" "size (active s) > 1" "\<forall>k \<in># active s. fst k = jid"
  shows "powermon_is_idle (handle_end_job batch lock jid sid s) \<and>
    (\<exists>cs. pm_calls (handle_end_job batch lock jid sid s) = pm_calls s @ cs \<and> Run_To_Idle \<notin> set cs)"
proof -
  let ?s' = "handle_end_job batch lock jid sid s"
  note b = handle_end_batch [OF ok jid step fin, of lock, OF lock]
  have "active ?s' = {#}" using b only(3) by (simp add: filter_mset_eq_mempty_iff)
  then have "powermon_is_idle ?s'" using b powermon_is_idle_iff by (simp add: table_ok_def)
  moreover have "quiet_since s (powermon_end_job (lock 0) jid sid s)"
  proof -
    have inv: "pm_inv s" "idle_ready s" using ok by (simp_all add: table_ok_def)
    obtain cc a where f: "find_context_for_job jid sid s = int cc" "0 < cc" "cc < length (pm_apps s)" "pm_apps s ! cc = Some a"
      "key a = (jid, sid)" using find_context_active [OF inv(1) jid only(1)] by metis
    have "active s - {#(jid, sid)#} \<noteq> {#}" using only(1,2) by (metis One_nat_def less_irrefl insert_DiffM size_single)
    then show ?thesis
      using end_job_at [OF inv f(1-4) lock] f(5) by (auto simp: quiet_since_def end_job_calls_def)
  qed
  ultimately show ?thesis using b quiet_since_trans unfolding quiet_since_def [symmetric] by blast
qed

lemma idle_transition_missed_witness:
  "powermon_is_idle (handle_end_job (- 5) (\<lambda>_ _. True) 7 (- 5) node_example) \<and>
   Run_To_Idle \<notin> set (pm_calls (handle_end_job (- 5) (\<lambda>_ _. True) 7 (- 5) node_example))"
proof -
  have "pm_calls node_example = []" by (simp add: node_example_def)
  then show ?thesis
    using idle_transition_missed [OF table_ok_example, of 7 "- 5" "- 5" "\<lambda>_ _. True"]
    by (auto simp: active_example finished_example)
qed

end
