(* ===== verification/Propagation.thy ===== *)
theory Propagation
  imports Powercap_Types "HOL-Library.Multiset"
begin

text \<open>
  How a command reaches the daemons of a cluster and how their answers come back
  (\<^verbatim>\<open>daemon/remote_api/eard_server_api.c\<close>, \<^verbatim>\<open>common/messaging/msg_internals.c\<close>).  Every daemon passes a
  command on to \<open>NUM_PROPS\<close> others, chosen by their position in the list of the range or by splitting
  the list of nodes of the command; when a daemon does not answer, the sender takes over its part.
  Connections are a parameter: which daemons accept a command.
\<close>

abbreviation (input) NUM_PROPS :: nat where "NUM_PROPS \<equiv> 3"
abbreviation (input) MAX_PROP_DEPTH :: nat where "MAX_PROP_DEPTH \<equiv> 3"

subsection \<open>Commands to all the nodes of a range\<close>

text \<open>The positions that the daemon at position \<open>t\<close> contacts; the loop stops at the first one out of the range.\<close>

definition current_idx :: "nat \<Rightarrow> nat \<Rightarrow> nat" where
  "current_idx t i = (let current_dist = t - t mod NUM_PROPS; off_ip = t mod NUM_PROPS in current_dist * NUM_PROPS + i * NUM_PROPS + off_ip)"

definition targets :: "nat \<Rightarrow> nat \<Rightarrow> nat list" where
  "targets total_ips t = takeWhile (\<lambda>c. c < total_ips) (map (current_idx t) [1..<Suc NUM_PROPS])"

lemma current_idx_eq: "current_idx t i = NUM_PROPS * (NUM_PROPS * (t div NUM_PROPS) + i) + t mod NUM_PROPS"
proof -
  have "t - t mod NUM_PROPS = NUM_PROPS * (t div NUM_PROPS)" by presburger
  then show ?thesis by (simp add: current_idx_def Let_def algebra_simps)
qed

lemma targets_bounds: "c \<in> set (targets n t) \<Longrightarrow> t < c \<and> c < n"
proof -
  assume "c \<in> set (targets n t)"
  then obtain i where "c = current_idx t i" "1 \<le> i" "c < n" 
    using set_takeWhileD [of c "\<lambda>c. c < n" "map (current_idx t) [1..<Suc NUM_PROPS]"] by (auto simp: targets_def simp del: upt_Suc)
  moreover have "t = NUM_PROPS * (t div NUM_PROPS) + t mod NUM_PROPS" by simp
  ultimately show ?thesis by (simp add: current_idx_eq)
qed

text \<open>
  Which daemons execute a command: \<open>contact\<close> is the attempt to send it to the daemon at position \<open>c\<close>,
  with the distance written to the command; \<open>up\<close> says which daemons accept it and \<open>ready\<close> which have
  their list of addresses.  A daemon looks up its own position as the first one of its address in
  the list; the model continues from the position contacted, which is the same one in a list
  without repeated addresses.
\<close>

definition can_propagate :: "nat \<Rightarrow> nat \<Rightarrow> bool \<Rightarrow> bool" where
  "can_propagate node_dist total_ips has_ips = (if node_dist > total_ips then False else has_ips)"

function contact :: "nat \<Rightarrow> (nat \<Rightarrow> bool) \<Rightarrow> (nat \<Rightarrow> bool) \<Rightarrow> nat \<Rightarrow> nat \<Rightarrow> nat list"
  and propagate_req :: "nat \<Rightarrow> (nat \<Rightarrow> bool) \<Rightarrow> (nat \<Rightarrow> bool) \<Rightarrow> nat \<Rightarrow> nat \<Rightarrow> nat list"
  and correct_error :: "nat \<Rightarrow> (nat \<Rightarrow> bool) \<Rightarrow> (nat \<Rightarrow> bool) \<Rightarrow> nat \<Rightarrow> nat \<Rightarrow> nat list" where
  "contact total_ips up ready node_dist c =
     (if up c then c # propagate_req total_ips up ready node_dist c else correct_error total_ips up ready node_dist c)"
| "propagate_req total_ips up ready node_dist t =
     (if \<not> can_propagate node_dist total_ips (ready t) then []
      else concat (map (\<lambda>c. contact total_ips up ready (c - t mod NUM_PROPS) c) (targets total_ips t)))"
| "correct_error total_ips up ready node_dist t =
     (if node_dist > total_ips then []
      else concat (map (\<lambda>c. contact total_ips up ready (c - t mod NUM_PROPS) c) (targets total_ips t)))"
  by pat_completeness auto
termination
  by (relation "measure (case_sum (\<lambda>(n, u, r, d, c). 2 * (n - c) + 1) (case_sum (\<lambda>(n, u, r, d, t). 2 * (n - t)) (\<lambda>(n, u, r, d, t). 2 * (n - t))))")
    (auto dest!: targets_bounds)

declare contact.simps [simp del] propagate_req.simps [simp del] correct_error.simps [simp del]

text \<open>\<open>send_command_all\<close>: the first daemons of every range get the command.\<close>

definition send_range :: "nat \<Rightarrow> (nat \<Rightarrow> bool) \<Rightarrow> (nat \<Rightarrow> bool) \<Rightarrow> nat list" where
  "send_range ip_count up ready = concat (map (contact ip_count up ready 0) [0..<min ip_count NUM_PROPS])"

definition send_command_all :: "i32 list list \<Rightarrow> (i32 \<Rightarrow> bool) \<Rightarrow> (i32 \<Rightarrow> bool) \<Rightarrow> i32 list" where
  "send_command_all ranges up ready =
     concat (map (\<lambda>ips. map ((!) ips) (send_range (length ips) (\<lambda>c. up (ips ! c)) (\<lambda>c. ready (ips ! c)))) ranges)"

text \<open>The position that contacts position \<open>c\<close>.\<close>

definition sender :: "nat \<Rightarrow> nat" where
  "sender c = NUM_PROPS * ((c div NUM_PROPS - 1) div NUM_PROPS) + c mod NUM_PROPS"

lemma sender_idx: "1 \<le> i \<Longrightarrow> i \<le> NUM_PROPS \<Longrightarrow> sender (current_idx t i) = t"
proof -
  assume i: "1 \<le> i" "i \<le> NUM_PROPS"
  define q r where "q = t div NUM_PROPS" and "r = t mod NUM_PROPS"
  have r: "r < 3" "t = 3 * q + r" by (simp_all add: q_def r_def)
  have "(3 * (3 * q + i) + r) div 3 = 3 * q + i" "(3 * (3 * q + i) + r) mod 3 = r" using r(1) by presburger+
  moreover have "(3 * q + i - 1) div 3 = q" using i by presburger
  ultimately show ?thesis using r by (simp add: sender_def current_idx_eq flip: q_def r_def)
qed

lemma idx_sender: "NUM_PROPS \<le> c \<Longrightarrow> \<exists>i. 1 \<le> i \<and> i \<le> NUM_PROPS \<and> c = current_idx (sender c) i"
proof -
  assume c: "NUM_PROPS \<le> c"
  define q where "q = c div 3 - 1"
  have q: "c = 3 * (q + 1) + c mod 3" using c by (simp add: q_def)
  have s: "sender c div 3 = q div 3" "sender c mod 3 = c mod 3" by (simp_all add: sender_def q_def)
  have "c = current_idx (sender c) (q mod 3 + 1)" using q s unfolding current_idx_eq s by presburger
  then show ?thesis by (intro exI [of _ "q mod 3 + 1"]) simp
qed

lemma targets_iff: "c \<in> set (targets n t) \<longleftrightarrow> c < n \<and> NUM_PROPS \<le> c \<and> sender c = t"
proof
  assume c: "c \<in> set (targets n t)"
  then obtain i where i: "c = current_idx t i" "1 \<le> i" "i \<le> 3"
    using set_takeWhileD [of c "\<lambda>c. c < n" "map (current_idx t) [1..<Suc NUM_PROPS]"] by (auto simp: targets_def simp del: upt_Suc)
  then show "c < n \<and> NUM_PROPS \<le> c \<and> sender c = t" using targets_bounds [OF c] sender_idx [of i t] by (simp add: current_idx_eq)
next
  assume c: "c < n \<and> NUM_PROPS \<le> c \<and> sender c = t"
  then obtain i where i: "1 \<le> i" "i \<le> 3" and ci: "c = current_idx t i" using idx_sender by blast
  have less: "current_idx t k \<le> current_idx t i" if "k \<le> i" for k using that by (simp add: current_idx_eq)
  have "[1..<Suc NUM_PROPS] = [1, 2, 3]" by (simp add: upt_conv_Cons)
  then have "i = 1 \<and> targets n t = current_idx t 1 # takeWhile (\<lambda>c. c < n) (map (current_idx t) [2, 3]) \<or>
      i = 2 \<and> targets n t = current_idx t 1 # current_idx t 2 # takeWhile (\<lambda>c. c < n) (map (current_idx t) [3]) \<or>
      i = 3 \<and> targets n t = [current_idx t 1, current_idx t 2, current_idx t 3]"
    using i c ci less [of 1] less [of 2] by (auto simp: targets_def numeral_eq_Suc le_Suc_eq)
  then show "c \<in> set (targets n t)" using ci by auto
qed

lemma targets_distinct: "distinct (targets n t)"
proof -
  have "distinct (map (current_idx t) [1..<Suc NUM_PROPS])" by (simp add: distinct_map inj_on_def current_idx_eq del: upt_Suc)
  then show ?thesis unfolding targets_def by (rule distinct_takeWhile)
qed

lemma sender_less: "NUM_PROPS \<le> c \<Longrightarrow> sender c < c"
  using targets_bounds [of c "Suc c" "sender c"] targets_iff [of c "Suc c" "sender c"] by simp

text \<open>The positions whose chain of senders leads to \<open>c\<close>.\<close>

function reaches :: "nat \<Rightarrow> nat \<Rightarrow> bool" where
  "reaches c x = (if x = c then True else if NUM_PROPS \<le> x then reaches c (sender x) else False)"
  by pat_completeness auto
termination
  by (relation "measure snd") (auto simp: sender_less)

lemma reaches_iff: "reaches c x \<longleftrightarrow> x = c \<or> NUM_PROPS \<le> x \<and> reaches c (sender x)"
  by (subst reaches.simps) simp

declare reaches.simps [simp del]

lemma reaches_le: "reaches c x \<Longrightarrow> c \<le> x"
  by (induction c x rule: reaches.induct) (metis le_trans less_imp_le_nat order_refl reaches_iff sender_less)

lemma reaches_trans: "reaches c k \<Longrightarrow> reaches k x \<Longrightarrow> reaches c x"
  by (induction k x rule: reaches.induct) (metis reaches_iff)

lemma reaches_linear: "reaches k x \<Longrightarrow> reaches l x \<Longrightarrow> reaches k l \<or> reaches l k"
  by (induction k x rule: reaches.induct) (metis reaches_iff)

lemma reaches_mod: "reaches c x \<Longrightarrow> c mod NUM_PROPS = x mod NUM_PROPS"
  by (induction c x rule: reaches.induct) (metis mod_mod_trivial mod_mult_self3 mult.commute reaches_iff sender_def)

lemma reaches_root: "reaches (x mod NUM_PROPS) x"
proof (induction x rule: less_induct)
  case (less x)
  show ?case
  proof (cases "NUM_PROPS \<le> x")
    case True
    then have "reaches (sender x mod NUM_PROPS) (sender x)" using less sender_less by blast
    moreover have "sender x mod NUM_PROPS = x mod NUM_PROPS" by (simp add: sender_def)
    ultimately show ?thesis using True reaches_iff [of "x mod NUM_PROPS" x] by simp
  qed (use reaches_iff [of "x mod NUM_PROPS" x] in simp)
qed

lemma reaches_step: "reaches c x \<Longrightarrow> x \<noteq> c \<Longrightarrow> \<exists>k. NUM_PROPS \<le> k \<and> sender k = c \<and> reaches k x"
proof (induction c x rule: reaches.induct)
  case (1 c x)
  then have x: "NUM_PROPS \<le> x" "reaches c (sender x)" using reaches_iff [of c x] by auto
  show ?case
  proof (cases "sender x = c")
    case True
    then show ?thesis using x(1) reaches_iff [of x x] by blast
  next
    case False
    then obtain k where "NUM_PROPS \<le> k" "sender k = c" "reaches k (sender x)" using 1 x by auto
    then show ?thesis using x(1) reaches_iff [of k x] by blast
  qed
qed

lemma reaches_disjoint:
  assumes "reaches k x" "reaches l x" "sender k = sender l" "NUM_PROPS \<le> k" "NUM_PROPS \<le> l"
  shows "k = l"
proof -
  have no: "k = l" if "reaches k l" "sender k = sender l" "NUM_PROPS \<le> k" for k l
  proof (rule ccontr)
    assume "k \<noteq> l"
    then have "reaches k (sender l)" using that(1) reaches_iff [of k l] by simp
    then show False using reaches_le [of k "sender l"] sender_less [OF that(3)] that(2) by simp
  qed
  show ?thesis using reaches_linear [OF assms(1,2)] no [of k l] no [of l k] assms(3-5) by auto
qed

lemma concat_map_image: "concat (map (\<lambda>x. map h (g x)) xs) = map h (concat (map g xs))"
  by (simp add: map_concat o_def)

lemma distinct_concat_map:
  "distinct ks \<Longrightarrow> (\<And>k. k \<in> set ks \<Longrightarrow> distinct (f k)) \<Longrightarrow>
   (\<And>k l. k \<in> set ks \<Longrightarrow> l \<in> set ks \<Longrightarrow> k \<noteq> l \<Longrightarrow> set (f k) \<inter> set (f l) = {}) \<Longrightarrow> distinct (concat (map f ks))"
  by (induction ks) fastforce+

lemma contact_unfold:
  assumes "node_dist \<le> n" "\<And>t. ready t"
  shows "contact n up ready node_dist c = (if up c then [c] else []) @ concat (map (\<lambda>k. contact n up ready (k - c mod NUM_PROPS) k) (targets n c))"
  using assms by (simp add: contact.simps [of n up ready node_dist] propagate_req.simps correct_error.simps can_propagate_def not_less)

lemma contact_reaches:
  assumes "\<And>t. ready t" "c < n" "node_dist \<le> n"
  shows "distinct (contact n up ready node_dist c) \<and> set (contact n up ready node_dist c) = {x. x < n \<and> up x \<and> reaches c x}"
  using assms(2,3)
proof (induction "n - c" arbitrary: c node_dist rule: less_induct)
  case less
  define f where "f = (\<lambda>k. contact n up ready (k - c mod NUM_PROPS) k)"
  have f: "distinct (f k) \<and> set (f k) = {x. x < n \<and> up x \<and> reaches k x}" if "k \<in> set (targets n c)" for k
    unfolding f_def using targets_bounds [OF that] less.prems by (intro less.hyps) auto
  have eq: "contact n up ready node_dist c = (if up c then [c] else []) @ concat (map f (targets n c))"
    unfolding f_def using less.prems(2) assms(1) by (rule contact_unfold)
  have dj: "set (f k) \<inter> set (f l) = {}" if "k \<in> set (targets n c)" "l \<in> set (targets n c)" "k \<noteq> l" for k l
    using f [OF that(1)] f [OF that(2)] that reaches_disjoint [of k _ l] by (auto simp: targets_iff)
  have "distinct (concat (map f (targets n c)))" by (rule distinct_concat_map) (use f dj targets_distinct in auto)
  moreover have "c \<notin> set (concat (map f (targets n c)))"
    using f reaches_le targets_bounds by (fastforce dest!: bspec)
  moreover have "set (concat (map f (targets n c))) = {x. x < n \<and> up x \<and> reaches c x} - {c}"
  proof (rule set_eqI, rule iffI)
    fix x assume "x \<in> set (concat (map f (targets n c)))"
    then obtain k where k: "k \<in> set (targets n c)" "x \<in> set (f k)" by auto
    have "reaches c k" using k(1) reaches_iff [of c k] reaches_iff [of c c] by (auto simp: targets_iff)
    then show "x \<in> {x. x < n \<and> up x \<and> reaches c x} - {c}"
      using f [OF k(1)] k reaches_trans [of c k x] reaches_le [of k x] targets_bounds [OF k(1)] by auto
  next
    fix x assume "x \<in> {x. x < n \<and> up x \<and> reaches c x} - {c}"
    then obtain k where "NUM_PROPS \<le> k" "sender k = c" "reaches k x" "x < n" "up x" using reaches_step [of c x] by auto
    moreover from this have "k \<in> set (targets n c)" using reaches_le [of k x] by (simp add: targets_iff)
    ultimately show "x \<in> set (concat (map f (targets n c)))" using f by auto
  qed
  moreover have "reaches c c" using reaches_iff [of c c] by simp
  ultimately show ?case unfolding eq using less.prems(1) by auto
qed

lemma send_range_all:
  assumes "\<And>t. ready t"
  shows "distinct (send_range n up ready)" "set (send_range n up ready) = {x. x < n \<and> up x}"
proof -
  have c: "distinct (contact n up ready 0 c) \<and> set (contact n up ready 0 c) = {x. x < n \<and> up x \<and> reaches c x}" if "c < min n NUM_PROPS" for c
    using that by (intro contact_reaches [OF assms]) auto
  have "set (contact n up ready 0 k) \<inter> set (contact n up ready 0 l) = {}" if "k < min n NUM_PROPS" "l < min n NUM_PROPS" "k \<noteq> l" for k l
    using c [OF that(1)] c [OF that(2)] that reaches_mod [of k] reaches_mod [of l] by fastforce
  then show "distinct (send_range n up ready)" unfolding send_range_def using c by (intro distinct_concat_map) auto
  have "x mod NUM_PROPS < min n NUM_PROPS" if "x < n" for x using that mod_less_eq_dividend [of x 3] by (simp add: min_def)
  then show "set (send_range n up ready) = {x. x < n \<and> up x}"
    unfolding send_range_def using c reaches_root by (auto intro!: bexI [of _ "_ mod NUM_PROPS"])
qed

lemma send_range_mset:
  assumes "\<And>t. ready t"
  shows "mset (send_range n up ready) = mset (filter up [0..<n])"
  using send_range_all [OF assms, of n up] by (subst set_eq_iff_mset_eq_distinct [symmetric]) auto

lemma send_command_all_mset:
  assumes "\<And>c. ready c"
  shows "mset (send_command_all ranges up ready) = filter_mset up (mset (concat ranges))"
proof (induction ranges)
  case (Cons ips ranges)
  have "mset (map ((!) ips) (send_range (length ips) (\<lambda>c. up (ips ! c)) (\<lambda>c. ready (ips ! c)))) = mset (map ((!) ips) (filter (up \<circ> (!) ips) [0..<length ips]))"
    using send_range_mset [of "\<lambda>c. ready (ips ! c)" "length ips" "\<lambda>c. up (ips ! c)"] assms by (simp add: o_def)
  also have "map ((!) ips) (filter (up \<circ> (!) ips) [0..<length ips]) = filter up ips" by (simp add: map_nth flip: filter_map)
  finally show ?case using Cons by (simp add: send_command_all_def)
qed (simp add: send_command_all_def)

subsection \<open>Commands to a list of nodes\<close>

text \<open>
  A daemon takes its own address out of the list, the last one filling the gap, and splits the rest;
  a command is always sent to the first node of the part that goes with it.
\<close>

function remove_self :: "i32 \<Rightarrow> nat \<Rightarrow> i32 list \<Rightarrow> i32 list" where
  "remove_self self_ip i nodes =
     (if i < length nodes
      then if nodes ! i = self_ip then remove_self self_ip (i + 1) (butlast (nodes[i := last nodes]))
           else remove_self self_ip (i + 1) nodes
      else nodes)"
  by pat_completeness auto
termination
  by (relation "measure (\<lambda>(s, i, xs). length xs - i)") auto

declare remove_self.simps [simp del]

text \<open>The part of the list for each of the daemons that are contacted.\<close>

definition parts :: "nat \<Rightarrow> nat \<Rightarrow> i32 list \<Rightarrow> i32 list list" where
  "parts base_distance num_sends nodes =
     map (\<lambda>i. take base_distance (drop (base_distance * i) nodes)) (takeWhile (\<lambda>i. base_distance * i < length nodes) [0..<num_sends])"

lemma remove_self_length: "length (remove_self x i xs) \<le> length xs"
proof (induction x i xs rule: remove_self.induct)
  case (1 x i xs)
  then show ?case by (subst remove_self.simps) (auto intro: order_trans)
qed

lemma remove_self_beyond: "i \<ge> length xs \<Longrightarrow> remove_self x i xs = xs"
  by (subst remove_self.simps) simp

lemma remove_self_absent: "x \<notin> set (drop i xs) \<Longrightarrow> remove_self x i xs = xs"
proof (induction x i xs rule: remove_self.induct)
  case (1 x i xs)
  show ?case
  proof (cases "i < length xs")
    case True
    then have "drop i xs = xs ! i # drop (Suc i) xs" by (simp add: Cons_nth_drop_Suc)
    then have "xs ! i \<noteq> x" "x \<notin> set (drop (i + 1) xs)" using "1.prems" by auto
    then show ?thesis using 1 True by (subst remove_self.simps) simp
  qed (simp add: remove_self_beyond)
qed

lemma remove_self_first:
  "remove_self x 0 (x # xs) = remove_self x 1 (butlast ((x # xs)[0 := last (x # xs)]))"
  by (subst remove_self.simps) simp

lemma remove_self_first_length: "length (remove_self x 0 (x # xs)) \<le> length xs"
  unfolding remove_self_first by (rule order_trans [OF remove_self_length]) simp

lemma remove_self_mset:
  assumes "distinct (x # xs)"
  shows "mset (remove_self x 0 (x # xs)) = mset xs"
proof (cases "xs = []")
  case True
  then show ?thesis unfolding remove_self_first by (simp add: remove_self_beyond)
next
  case False
  then have b: "butlast ((x # xs)[0 := last (x # xs)]) = last xs # butlast xs" by simp
  then have "set (drop 1 (last xs # butlast xs)) \<subseteq> set xs" by (auto dest: in_set_butlastD)
  then have "remove_self x 1 (last xs # butlast xs) = last xs # butlast xs" using assms by (intro remove_self_absent) auto
  then show ?thesis unfolding remove_self_first b using append_butlast_last_id [OF False] by (metis mset.simps(2) union_mset_add_mset_right add.right_neutral mset_append mset.simps(1))
qed

lemma parts_nonempty: "0 < b \<Longrightarrow> c \<in> set (parts b n xs) \<Longrightarrow> c \<noteq> []"
  by (auto simp: parts_def dest: set_takeWhileD)

lemma parts_length: "c \<in> set (parts b n xs) \<Longrightarrow> length c \<le> length xs"
  by (auto simp: parts_def)

lemma concat_takes: "concat (map (\<lambda>i. take b (drop (b * i) xs)) [0..<k]) = take (b * k) xs"
proof (induction k)
  case (Suc k)
  have "take (b * k + b) xs = take (b * k) xs @ take b (drop (b * k) xs)" by (rule take_add)
  then show ?case using Suc by (simp add: add.commute)
qed simp

lemma concat_parts:
  assumes "length xs \<le> b * n"
  shows "concat (parts b n xs) = xs"
proof -
  define P where "P = (\<lambda>i. b * i < length xs)"
  define m where "m = length (takeWhile P [0..<n])"
  have m: "m \<le> n" unfolding m_def using length_takeWhile_le [of P "[0..<n]"] by simp
  then have "takeWhile P [0..<n] = [0..<m]" using takeWhile_eq_take [of P "[0..<n]"] by (simp add: m_def [symmetric] min_def)
  then have "concat (parts b n xs) = take (b * m) xs" by (simp add: parts_def P_def concat_takes)
  moreover have "length xs \<le> b * m"
  proof (cases "m < n")
    case True
    then have "\<not> P ([0..<n] ! m)" unfolding m_def by (intro nth_length_takeWhile) simp
    then show ?thesis using True by (simp add: P_def)
  qed (use m assms in simp)
  ultimately show ?thesis by simp
qed

text \<open>Which nodes execute a command sent to a part of the list; the first node of the part is contacted.\<close>

function contact_nodes :: "(i32 \<Rightarrow> bool) \<Rightarrow> i32 list \<Rightarrow> i32 list"
  and propagate_nodes :: "(i32 \<Rightarrow> bool) \<Rightarrow> i32 list \<Rightarrow> i32 list"
  and correct_error_nodes :: "(i32 \<Rightarrow> bool) \<Rightarrow> i32 list \<Rightarrow> i32 list" where
  "contact_nodes up nodes =
     (if nodes = [] then []
      else if up (hd nodes) then hd nodes # propagate_nodes up nodes else correct_error_nodes up nodes)"
| "propagate_nodes up nodes =
     (case nodes of [] \<Rightarrow> []
      | [self_ip] \<Rightarrow> []
      | self_ip # n # ns \<Rightarrow>
          let rest = remove_self self_ip 0 nodes
          in concat (map (contact_nodes up) (parts (length rest div NUM_PROPS + 1) NUM_PROPS rest)))"
| "correct_error_nodes up nodes =
     (case nodes of [] \<Rightarrow> []
      | [self_ip] \<Rightarrow> []
      | self_ip # n # ns \<Rightarrow>
          let rest = remove_self self_ip 0 nodes
          in concat (map (contact_nodes up) (parts (length rest div NUM_PROPS + 1) NUM_PROPS rest)))"
  by pat_completeness auto
termination
proof (relation "measure (case_sum (\<lambda>(u, xs). 2 * length xs + 1) (case_sum (\<lambda>(u, xs). 2 * length xs) (\<lambda>(u, xs). 2 * length xs)))", goal_cases)
  case (4 up nodes x ys y zs rest c)
  then show ?case using parts_length [of c "length rest div NUM_PROPS + 1" NUM_PROPS rest] remove_self_first_length [of x "y # zs"] by auto
next
  case (5 up nodes x ys y zs rest c)
  then show ?case using parts_length [of c "length rest div NUM_PROPS + 1" NUM_PROPS rest] remove_self_first_length [of x "y # zs"] by auto
qed auto

declare contact_nodes.simps [simp del] propagate_nodes.simps [simp del] correct_error_nodes.simps [simp del]

text \<open>How many nodes the first daemons get: at least \<open>NUM_PROPS\<close>, at most what three levels reach.\<close>

function group_loop :: "nat \<Rightarrow> nat \<Rightarrow> nat" where
  "group_loop bound max_nodes = (if max_nodes > bound then group_loop bound (max_nodes div NUM_PROPS) else max_nodes)"
  by pat_completeness auto
termination
  by (relation "measure (\<lambda>(b, m). m)") auto

declare group_loop.simps [simp del]

definition get_max_prop_group :: "nat \<Rightarrow> nat" where
  "get_max_prop_group num_nodes =
     (if num_nodes < NUM_PROPS then 1
      else let max_nodes = group_loop (num_nodes div NUM_PROPS) (NUM_PROPS ^ MAX_PROP_DEPTH)
           in if max_nodes > NUM_PROPS then max_nodes else NUM_PROPS)"

definition internal_send_command_nodes :: "(i32 \<Rightarrow> bool) \<Rightarrow> nat \<Rightarrow> nat \<Rightarrow> i32 list \<Rightarrow> i32 list" where
  "internal_send_command_nodes up base_distance num_sends nodes = concat (map (contact_nodes up) (parts base_distance num_sends nodes))"

definition send_command_nodelist :: "(i32 \<Rightarrow> bool) \<Rightarrow> i32 list \<Rightarrow> i32 list" where
  "send_command_nodelist up nodes =
     (let base_distance = get_max_prop_group (length nodes);
          num_sends = length nodes div base_distance + (if length nodes mod base_distance \<noteq> 0 then 1 else 0)
      in internal_send_command_nodes up base_distance num_sends nodes)"

lemma split_nodes:
  assumes "length rest \<le> b * n" "\<And>c. c \<in> set (parts b n rest) \<Longrightarrow> mset (f c) = filter_mset up (mset c)"
  shows "mset (concat (map f (parts b n rest))) = filter_mset up (mset rest)"
proof -
  have "mset (concat (map f cs)) = filter_mset up (mset (concat cs))" if "\<And>c. c \<in> set cs \<Longrightarrow> mset (f c) = filter_mset up (mset c)" for cs
    using that by (induction cs) simp_all
  from this [of "parts b n rest"] show ?thesis using concat_parts [OF assms(1)] assms(2) by simp
qed

lemma third_covers: "length xs \<le> (length xs div NUM_PROPS + 1) * NUM_PROPS"
  by simp

lemma parts_distinct: "distinct xs \<Longrightarrow> c \<in> set (parts b n xs) \<Longrightarrow> distinct c"
  by (auto simp: parts_def)

lemma contact_nodes_Cons:
  "contact_nodes up (x # xs) = (if up x then [x] else []) @
     (let rest = remove_self x 0 (x # xs)
      in if xs = [] then [] else concat (map (contact_nodes up) (parts (length rest div NUM_PROPS + 1) NUM_PROPS rest)))"
  by (cases xs) (simp_all add: contact_nodes.simps [of up "x # _"] propagate_nodes.simps correct_error_nodes.simps Let_def)

lemma contact_nodes_mset:
  "distinct nodes \<Longrightarrow> mset (contact_nodes up nodes) = filter_mset up (mset nodes)"
proof (induction "length nodes" arbitrary: nodes rule: less_induct)
  case less
  show ?case
  proof (cases nodes)
    case (Cons x xs)
    define rest where "rest = remove_self x 0 (x # xs)"
    have rest: "mset rest = mset xs" using less.prems Cons by (simp add: rest_def remove_self_mset)
    then have dist: "distinct rest" "length rest = length xs" 
      using less.prems Cons mset_eq_imp_distinct_iff [OF rest] mset_eq_length [OF rest] by auto
    let ?b = "length rest div NUM_PROPS + 1"
    have "mset (contact_nodes up c) = filter_mset up (mset c)" if "c \<in> set (parts ?b NUM_PROPS rest)" for c
      using parts_length [OF that] parts_distinct [OF dist(1) that] dist(2) Cons by (intro less.hyps) simp_all
    then have "mset (concat (map (contact_nodes up) (parts ?b NUM_PROPS rest))) = filter_mset up (mset rest)"
      by (intro split_nodes third_covers)
    then show ?thesis using rest Cons by (auto simp: contact_nodes_Cons Let_def simp flip: rest_def)
  qed (simp add: contact_nodes.simps)
qed

lemma max_prop_group_pos: "0 < get_max_prop_group n"
  by (simp add: get_max_prop_group_def Let_def)

lemma round_up:
  assumes "0 < (b :: nat)"
  shows "n \<le> b * (n div b + (if n mod b \<noteq> 0 then 1 else 0))"
proof -
  obtain q r where qr: "n div b = q" "n mod b = r" by blast
  have n: "b * q + r = n" "r \<le> b" using mult_div_mod_eq [of b n] mod_less_divisor [OF assms, of n] unfolding qr by simp_all
  have "n \<le> b * (q + (if r \<noteq> 0 then 1 else 0))" unfolding n(1) [symmetric] using n(2) by simp
  then show ?thesis unfolding qr .
qed

lemma send_command_nodelist_mset:
  assumes "distinct nodes"
  shows "mset (send_command_nodelist up nodes) = filter_mset up (mset nodes)"
  unfolding send_command_nodelist_def Let_def internal_send_command_nodes_def
  by (intro split_nodes contact_nodes_mset parts_distinct [OF assms] round_up max_prop_group_pos)

subsection \<open>Every reachable node executes a command exactly once\<close>

text \<open>
  C8. A command sent to the whole cluster is executed exactly once by every daemon that can be
  reached, whichever daemons do not answer, as long as the daemons have their lists of addresses.
\<close>

theorem command_reaches_every_node:
  assumes "\<And>c. ready c"
  shows "mset (send_command_all ranges up ready) = filter_mset up (mset (concat ranges))"
  using assms by (rule send_command_all_mset)

lemma command_reaches_every_node_witness:
  "mset (send_command_all [[10, 11, 12, 13, 14], [20, 21]] (\<lambda>c. c \<noteq> 10 \<and> c \<noteq> 21) (\<lambda>_. True)) = {#11, 12, 13, 14, 20#}"
  using command_reaches_every_node [of "\<lambda>_. True" "[[10, 11, 12, 13, 14], [20, 21]]" "\<lambda>c. c \<noteq> 10 \<and> c \<noteq> 21"] by simp

text \<open>
  C9. A command sent to a list of nodes is executed exactly once by every node of the list that can
  be reached and by no other, however the list is split among the daemons.
\<close>

theorem command_reaches_listed_nodes:
  assumes "distinct nodes"
  shows "mset (send_command_nodelist up nodes) = filter_mset up (mset nodes)"
  using assms by (rule send_command_nodelist_mset)

lemma command_reaches_listed_nodes_witness:
  "mset (send_command_nodelist (\<lambda>c. c \<noteq> 10) [10, 11, 12, 13, 14, 15, 16]) = {#11, 12, 13, 14, 15, 16#}"
  using command_reaches_listed_nodes [of "[10, 11, 12, 13, 14, 15, 16]" "\<lambda>c. c \<noteq> 10"] by simp

end
