(* ===== verification/Dvfs_Plugin.thy ===== *)
theory Dvfs_Plugin
  imports Powercap_Status Frequency "HOL-Library.Monad_Syntax"
begin

text \<open>
  The power capping of the CPUs by frequency scaling (\<^verbatim>\<open>daemon/powercap/dvfs.c\<close>), a plugin of the
  power manager of a node, with the energy readings it uses (\<^verbatim>\<open>metrics/energy_cpu/energy_cpu.c\<close>).
  The arrays with one entry per supported CPU are lists whose length is the size of the
  array.  What the plugin reads from the hardware and from the applications is the argument of a
  control step, and the frequencies it hands to \<open>frequency_set_with_list\<close> are part of the result.
  \<^const>\<open>None\<close> stands for no defined outcome: a conversion of a floating value outside the integer
  type, an access outside an array, or a loop that does not return.
\<close>

subsection \<open>Energy of the packages\<close>

text \<open>\<open>ULONG_MAX\<close> and \<open>ULLONG_MAX\<close> are the same number on the 64-bit targets.\<close>

definition ullong_diff_overflow :: "u64 \<Rightarrow> u64 \<Rightarrow> u64" where
  "ullong_diff_overflow begin_v end_v =
     (let max_16 = 65535; max_32 = - 1; max_64 = - 1; max_DRAM = 0x3B9ACABB5CB6; max_48 = 0xEE6B23392C68
      in if begin_v < max_16 \<and> end_v < max_16 then max_16 - begin_v + end_v
         else if begin_v < max_32 \<and> end_v < max_32 \<and> (max_32 :: u64) < max_64 then max_32 - begin_v + end_v
         else if begin_v < max_DRAM \<and> end_v < max_DRAM then max_DRAM - begin_v + end_v
         else if begin_v < max_48 \<and> end_v < max_48 then max_48 - begin_v + end_v
         else max_64 - begin_v + end_v)"

definition energy_cpu_data_diff :: "u64 list \<Rightarrow> u64 list \<Rightarrow> u64 list" where
  "energy_cpu_data_diff start_v end_v =
     map2 (\<lambda>s e. if s > e then ullong_diff_overflow s e else e - s) start_v end_v"

definition energy_cpu_compute_power :: "rat \<Rightarrow> rat \<Rightarrow> rat" where
  "energy_cpu_compute_power energy elapsed_time =
     (if elapsed_time > 0 then to_double (to_double (energy / 1000000000) / elapsed_time) else 0)"

subsection \<open>Vectors of P-states\<close>

definition frequency_nfreq_to_npstate :: "freq_api \<Rightarrow> u64 list \<Rightarrow> u32 list \<Rightarrow> nat \<Rightarrow> u32 list" where
  "frequency_nfreq_to_npstate q f p cpus =
     map (\<lambda>i. if f ! i \<noteq> 0 then of_nat (frequency_freq_to_pstate q (f ! i)) else 0) [0..<cpus] @ drop cpus p"

definition frequency_npstate_to_nfreq :: "freq_api \<Rightarrow> u32 list \<Rightarrow> u64 list \<Rightarrow> nat \<Rightarrow> u64 list" where
  "frequency_npstate_to_nfreq q p f cpus =
     map (\<lambda>i. frequency_pstate_to_freq q (unat (p ! i))) [0..<cpus] @ drop cpus f"

definition increase_one_pstate :: "u64 \<Rightarrow> u32 list \<Rightarrow> u32 list" where
  "increase_one_pstate num_pstates f = map (\<lambda>x. ucast (ear_min (ucast (x + 1)) (num_pstates - 1))) f"

definition reduce_one_pstate :: "u32 list \<Rightarrow> u32 list \<Rightarrow> u32 list" where
  "reduce_one_pstate f limit = map2 (\<lambda>x l. if x > l then x - 1 else x) f limit"

definition higher_pstate :: "u32 list \<Rightarrow> u32 list \<Rightarrow> bool" where
  "higher_pstate p1 p2 = list_ex (\<lambda>(x, y). x > y) (zip p1 p2)"

definition pstate_are_equal :: "u32 list \<Rightarrow> u32 list \<Rightarrow> bool" where
  "pstate_are_equal p1 p2 = list_all (\<lambda>(x, y). x = y) (zip p1 p2)"

definition limit_pstate :: "u32 list \<Rightarrow> u32 list \<Rightarrow> u32 list" where
  "limit_pstate p1 p2 = map2 (\<lambda>x y. if x < y then y else x) p1 p2"

definition num_cpus_to_reduce_pstates :: "freq_api \<Rightarrow> nat \<Rightarrow> u32 list \<Rightarrow> u32 list \<Rightarrow> u32 \<times> u32" where
  "num_cpus_to_reduce_pstates q node_size tmp target =
     foldl (\<lambda>(changes, changes_max) i.
       if tmp ! i = 0 then (changes, changes_max)
       else let tmp_freq = frequency_pstate_to_freq q (unat (tmp ! i));
                next_freq = frequency_pstate_to_freq q (unat (tmp ! i - 1));
                logical_pstates = (ucast ((next_freq - tmp_freq) div 100000) :: i32)
            in if tmp ! i > target ! i
               then if tmp ! i \<le> 2 then (changes, changes_max + 1) else (changes + logical_pstates, changes_max)
               else (changes, changes_max)) (0, 0) [0..<node_size]"

text \<open>The loop of \<open>compute_extra_power\<close>; the estimate is computed in single precision and truncated.\<close>

definition extra_step :: "nat \<Rightarrow> u32 \<Rightarrow> u32 \<Rightarrow> u32 \<Rightarrow> u32" where
  "extra_step node_size total_w changes changes_max =
     (let n = to_float (of_nat node_size);
          low = to_float (to_float (8 * to_float (rat_of_word changes)) / n);
          top = to_float (to_float (30 * to_float (rat_of_word changes_max)) / n)
      in trunc_word (to_float (to_float (rat_of_word total_w) + to_float (low + top))))"

partial_function (option) extra_loop ::
  "freq_api \<Rightarrow> nat \<Rightarrow> u32 list \<Rightarrow> u32 list \<Rightarrow> u32 \<Rightarrow> u32 \<Rightarrow> u32 option" where
  "extra_loop q node_size target tmp total_w max_steps =
     (let (changes, changes_max) = num_cpus_to_reduce_pstates q node_size tmp target;
          more = changes \<noteq> 0 \<or> changes_max \<noteq> 0;
          total_w = (if more then extra_step node_size total_w changes changes_max else total_w);
          tmp = (if more then reduce_one_pstate tmp target else tmp);
          max_steps = max_steps - 1
      in if more \<and> max_steps > 0 then extra_loop q node_size target tmp total_w max_steps else Some total_w)"

definition compute_extra_power :: "freq_api \<Rightarrow> nat \<Rightarrow> u32 \<Rightarrow> u32 list \<Rightarrow> u32 list \<Rightarrow> u32 option" where
  "compute_extra_power q node_size max_steps current target =
     (if pstate_are_equal current target then Some 0 else extra_loop q node_size target current 0 max_steps)"

definition is_null_f :: "u64 list \<Rightarrow> bool" where
  "is_null_f f = list_all (\<lambda>x. x = 0) f"

subsection \<open>The state of the plugin\<close>

abbreviation (input) LEVEL_NODE :: nat where "LEVEL_NODE \<equiv> 0"
abbreviation (input) LEVEL_DEVICE :: nat where "LEVEL_DEVICE \<equiv> 1"
abbreviation (input) LEVEL_DOMAIN :: nat where "LEVEL_DOMAIN \<equiv> 2"

abbreviation (input) PC_DVFS :: u32 where "PC_DVFS \<equiv> 50"
abbreviation (input) PC_POWER :: u32 where "PC_POWER \<equiv> 51"

record dvfs =
  dv_current_pc :: u32
  dv_default_pc :: u32
  dv_pc_enabled :: u32
  dv_c_status :: u32
  dv_c_mode :: u32
  dv_c_req_f :: "u64 list"
  dv_num_pstates :: u64
  dv_sockets :: nat
  dv_rapl_init :: "u64 list"
  dv_power_rapl :: rat
  dv_my_limit :: rat
  dv_prev_pstate :: "u32 list"
  dv_prev_counter :: i32
  dv_c_freq :: "u64 list"
  dv_c_pstate :: "u32 list"
  dv_t_pstate :: "u32 list"
  dv_node_size :: nat
  dv_status :: u32
  dv_ask_def :: bool
  dv_initialized :: bool
  dv_freq :: freq_api
  dv_idle_def_freq :: u64

text \<open>
  What a step reads: the time since the last one in milliseconds, the energy counters, the
  frequencies requested by the applications and those the CPUs run at.
\<close>

record dvfs_reading =
  dr_elapsed :: u64
  dr_rapl :: "u64 list"
  dr_req_f :: "u64 list"
  dr_current :: "u64 list option"

text \<open>A conversion of a floating value to \<^verbatim>\<open>uint\<close>, defined when the integral part is in range.\<close>

definition float_to_uint :: "rat \<Rightarrow> u32 option" where
  "float_to_uint x = (if - 1 < x \<and> x < 2 ^ 32 then Some (if x < 0 then 0 else trunc_word x) else None)"

definition reset_prev :: "dvfs \<Rightarrow> dvfs" where
  "reset_prev s = s\<lparr>dv_prev_pstate := map (\<lambda>_. - 1) (dv_prev_pstate s), dv_prev_counter := 0\<rparr>"

text \<open>\<open>enable\<close>: the initial state, from the topology, the frequency API and the size of the arrays.\<close>

definition dvfs_enable :: "freq_api \<Rightarrow> nat \<Rightarrow> nat \<Rightarrow> u64 \<Rightarrow> nat \<Rightarrow> dvfs" where
  "dvfs_enable q sockets max_cpus idle_def_freq cpu_count =
     \<lparr>dv_current_pc = 0, dv_default_pc = 0, dv_pc_enabled = 0, dv_c_status = PC_STATUS_IDLE, dv_c_mode = PC_MODE_LIMIT,
      dv_c_req_f = replicate max_cpus 0, dv_num_pstates = of_nat (frequency_get_num_pstates q), dv_sockets = sockets,
      dv_rapl_init = [], dv_power_rapl = 0, dv_my_limit = 0, dv_prev_pstate = replicate max_cpus (- 1),
      dv_prev_counter = 0, dv_c_freq = replicate max_cpus 0, dv_c_pstate = replicate max_cpus 0,
      dv_t_pstate = replicate max_cpus 0, dv_node_size = cpu_count, dv_status = PC_STATUS_OK, dv_ask_def = False,
      dv_initialized = False, dv_freq = q, dv_idle_def_freq = idle_def_freq\<rparr>"

definition dvfs_pc_thread_init :: "u64 list \<Rightarrow> dvfs \<Rightarrow> dvfs" where
  "dvfs_pc_thread_init rapl s = s\<lparr>dv_rapl_init := rapl, dv_initialized := True\<rparr>"

subsection \<open>The control step\<close>

definition rapl_power :: "nat \<Rightarrow> u64 \<Rightarrow> u64 list \<Rightarrow> rat" where
  "rapl_power sockets elapsed values_diff =
     (let secs = to_double (to_double (rat_of_word elapsed) / 1000);
          watts = (\<lambda>i. energy_cpu_compute_power (to_double (rat_of_word (values_diff ! i))) secs)
      in foldl (\<lambda>p i. to_float (to_double (to_float (to_double (p + watts i)) + watts (sockets + i)))) 0 [0..<sockets])"

text \<open>Above the limit: one step down, two when the excess is over 30 W, never above the target.\<close>

definition dvfs_reduce :: "dvfs \<Rightarrow> dvfs \<times> u64 list" where
  "dvfs_reduce s =
     (let s = (if dv_current_pc s < dv_default_pc s then s\<lparr>dv_ask_def := True\<rparr> else s);
          tmp_pstate = increase_one_pstate (dv_num_pstates s) (dv_c_pstate s);
          tmp_pstate = (if to_float (dv_power_rapl s - dv_my_limit s) > 30
                        then increase_one_pstate (dv_num_pstates s) tmp_pstate else tmp_pstate);
          tmp_pstate = limit_pstate tmp_pstate (dv_t_pstate s);
          s = (if higher_pstate tmp_pstate (dv_c_pstate s)
               then (if \<not> pstate_are_equal (dv_prev_pstate s) (dv_c_pstate s) then s\<lparr>dv_prev_counter := 0\<rparr> else s)
                      \<lparr>dv_prev_pstate := dv_c_pstate s\<rparr>
               else s);
          s = s\<lparr>dv_c_pstate := tmp_pstate\<rparr>;
          s = s\<lparr>dv_c_freq := frequency_npstate_to_nfreq (dv_freq s) (dv_c_pstate s) (dv_c_freq s) (dv_node_size s)\<rparr>
      in (s, dv_c_freq s))"

text \<open>Below the limit: one step up when the estimated power still fits, or down to the target.\<close>

definition dvfs_raise :: "dvfs \<Rightarrow> dvfs \<times> u64 list" where
  "dvfs_raise s =
     (let s = s\<lparr>dv_c_pstate := reduce_one_pstate (dv_c_pstate s) (dv_t_pstate s)\<rparr>;
          s = s\<lparr>dv_c_freq := frequency_npstate_to_nfreq (dv_freq s) (dv_c_pstate s) (dv_c_freq s) (dv_node_size s)\<rparr>
      in (s, dv_c_freq s))"

definition dvfs_below :: "dvfs \<Rightarrow> (dvfs \<times> u64 list option) option" where
  "dvfs_below s =
     (let s = s\<lparr>dv_t_pstate := frequency_nfreq_to_npstate (dv_freq s) (dv_c_req_f s) (dv_t_pstate s) (dv_node_size s)\<rparr>
      in if higher_pstate (dv_c_pstate s) (dv_t_pstate s)
         then do {
           extra \<leftarrow> compute_extra_power (dv_freq s) (dv_node_size s) 1 (dv_c_pstate s) (dv_t_pstate s);
           Some (if to_float (dv_power_rapl s + to_float (rat_of_word extra)) < dv_my_limit s \<and>
                    dv_c_mode s = PC_MODE_TARGET
                 then let ish = higher_pstate (dv_c_pstate s) (dv_prev_pstate s)
                      in if ish \<and> to_double (to_double (rat_of_word extra * 2) + dv_power_rapl s) > dv_my_limit s \<and>
                            sint (dv_prev_counter s) \<ge> 3
                         then (s, None)
                         else let s = (if ish then s\<lparr>dv_prev_counter := dv_prev_counter s + 1\<rparr> else s)
                              in map_prod id Some (dvfs_raise s)
                 else (s, None))
         }
         else if higher_pstate (dv_t_pstate s) (dv_c_pstate s)
         then let s = s\<lparr>dv_c_freq := frequency_npstate_to_nfreq (dv_freq s) (dv_t_pstate s) (dv_c_freq s) (dv_node_size s)\<rparr>
              in Some (s, Some (dv_c_freq s))
         else Some (s, None))"

text \<open>The three readings of a step: the requests, the power and the current frequencies.\<close>

definition dvfs_targets :: "dvfs_reading \<Rightarrow> dvfs \<Rightarrow> dvfs" where
  "dvfs_targets r s =
     s\<lparr>dv_c_pstate := map (\<lambda>_. 0) (dv_c_pstate s), dv_t_pstate := map (\<lambda>_. 0) (dv_t_pstate s), dv_c_req_f := dr_req_f r\<rparr>"

definition dvfs_measure :: "dvfs_reading \<Rightarrow> dvfs \<Rightarrow> dvfs" where
  "dvfs_measure r s =
     (let values_diff = energy_cpu_data_diff (dv_rapl_init s) (dr_rapl r)
      in s\<lparr>dv_rapl_init := dr_rapl r, dv_power_rapl := rapl_power (dv_sockets s) (dr_elapsed r) values_diff,
           dv_my_limit := to_float (rat_of_word (dv_current_pc s))\<rparr>)"

definition dvfs_pstates :: "dvfs_reading \<Rightarrow> dvfs \<Rightarrow> dvfs" where
  "dvfs_pstates r s =
     (let n = dv_node_size s;
          s = s\<lparr>dv_c_freq := frequency_get_cpufreq_list (dv_freq s) (dr_current r) n @ drop n (dv_c_freq s)\<rparr>
      in s\<lparr>dv_c_pstate := frequency_nfreq_to_npstate (dv_freq s) (dv_c_freq s) (dv_c_pstate s) n,
           dv_t_pstate := frequency_nfreq_to_npstate (dv_freq s) (dv_c_req_f s) (dv_t_pstate s) n\<rparr>)"

definition dvfs_pc_thread_main :: "dvfs_reading \<Rightarrow> dvfs \<Rightarrow> (dvfs \<times> u64 list option) option" where
  "dvfs_pc_thread_main r s =
     (let s = dvfs_targets r s
      in if dv_current_pc s = POWER_CAP_UNLIMITED \<or> dv_current_pc s = 0 then Some (s, None)
         else let s = dvfs_measure r s
              in if dv_power_rapl s < 1 / 2 then Some (s, None)
                 else let s = dvfs_pstates r s
                      in if dv_power_rapl s > dv_my_limit s then Some (map_prod id Some (dvfs_reduce s))
                         else dvfs_below s)"

subsection \<open>The interface to the power manager\<close>

definition restore_frequency :: "u64 list \<Rightarrow> dvfs \<Rightarrow> dvfs \<times> u64 list" where
  "restore_frequency req_f s =
     (let f = map (\<lambda>i. if req_f ! i = 0 then dv_idle_def_freq s else req_f ! i) [0..<dv_node_size s] @
                drop (dv_node_size s) req_f
      in (s\<lparr>dv_c_req_f := f\<rparr>, f))"

definition dvfs_apply :: "u64 list \<Rightarrow> u32 \<Rightarrow> dvfs \<Rightarrow> dvfs \<times> u64 list option" where
  "dvfs_apply req_f limit s =
     (let s = reset_prev (s\<lparr>dv_default_pc := limit, dv_current_pc := limit, dv_status := PC_STATUS_OK, dv_ask_def := False\<rparr>)
      in if dv_current_pc s = POWER_CAP_UNLIMITED then map_prod id Some (restore_frequency req_f s) else (s, None))"

definition dvfs_set_powercap_value ::
  "u64 list \<Rightarrow> nat \<Rightarrow> u32 list \<Rightarrow> dvfs \<Rightarrow> (dvfs \<times> u64 list option) option" where
  "dvfs_set_powercap_value req_f domain limit s =
     (if domain = LEVEL_DEVICE
      then if dv_node_size s > length limit then None
           else Some (dvfs_apply req_f (foldl (\<lambda>new_limit i. new_limit + limit ! i) 0 [0..<dv_node_size s]) s)
      else if limit = [] then None else Some (dvfs_apply req_f (limit ! 0) s))"

definition dvfs_reset_powercap_value :: "dvfs \<Rightarrow> dvfs" where
  "dvfs_reset_powercap_value s =
     reset_prev (s\<lparr>dv_current_pc := dv_default_pc s, dv_status := PC_STATUS_OK, dv_ask_def := False\<rparr>)"

definition dvfs_increase_powercap_allocation :: "u32 \<Rightarrow> dvfs \<Rightarrow> dvfs" where
  "dvfs_increase_powercap_allocation increase s =
     (let s = s\<lparr>dv_current_pc := dv_current_pc s + increase, dv_ask_def := False\<rparr>;
          s = (if dv_current_pc s \<ge> dv_default_pc s then s\<lparr>dv_status := PC_STATUS_OK\<rparr> else s)
      in reset_prev s)"

definition dvfs_release_powercap_allocation :: "u32 \<Rightarrow> dvfs \<Rightarrow> dvfs" where
  "dvfs_release_powercap_allocation decrease s =
     (let s = s\<lparr>dv_current_pc := dv_current_pc s - decrease\<rparr>;
          s = (if dv_current_pc s < dv_default_pc s then s\<lparr>dv_status := PC_STATUS_RELEASE\<rparr> else s)
      in reset_prev s)"

definition dvfs_get_powercap_value :: "dvfs \<Rightarrow> u64" where
  "dvfs_get_powercap_value s = ucast (dv_current_pc s)"

definition dvfs_is_powercap_policy_enabled :: "dvfs \<Rightarrow> u32" where
  "dvfs_is_powercap_policy_enabled s = dv_pc_enabled s"

definition dvfs_set_status :: "u32 \<Rightarrow> dvfs \<Rightarrow> dvfs" where
  "dvfs_set_status status s = s\<lparr>dv_c_status := status\<rparr>"

definition dvfs_get_powercap_strategy :: u32 where
  "dvfs_get_powercap_strategy = PC_DVFS"

definition dvfs_set_pc_mode :: "u32 \<Rightarrow> dvfs \<Rightarrow> dvfs" where
  "dvfs_set_pc_mode mode s = s\<lparr>dv_c_mode := mode\<rparr>"

definition dvfs_set_app_req_freq :: "u64 list \<Rightarrow> dvfs \<Rightarrow> dvfs" where
  "dvfs_set_app_req_freq f s = s\<lparr>dv_c_req_f := f\<rparr>"

definition dvfs_plugin_get_settings :: domain_settings where
  "dvfs_plugin_get_settings = \<lparr>dm_node_ratio = to_float (1 / 10), dm_security_range = to_float (5 / 100)\<rparr>"

definition dvfs_get_powercap_status ::
  "u64 list option \<Rightarrow> dvfs \<Rightarrow> (bool \<times> domain_status \<times> dvfs) option" where
  "dvfs_get_powercap_status current s =
     (let status = \<lparr>ds_ok = PC_STATUS_OK, ds_exceed = 0, ds_current_pc = dv_current_pc s, ds_stress = 0, ds_requested = 0\<rparr>;
          q = dv_freq s; n = dv_node_size s
      in if \<not> dv_initialized s then Some (False, status, s)
         else if dv_current_pc s = POWER_CAP_UNLIMITED then Some (False, status, s)
         else if is_null_f (dv_c_req_f s) then Some (False, status, s)
         else
           let s = s\<lparr>dv_c_freq := frequency_get_cpufreq_list q current n @ drop n (dv_c_freq s)\<rparr>;
               status = status\<lparr>ds_stress := ucast (powercap_get_stress (ucast (frequency_pstate_to_freq q 0))
                 (ucast (frequency_pstate_to_freq q (unat (ucast (dv_num_pstates s - 1) :: u32))))
                 (ucast (dv_c_req_f s ! 0)) (ucast (dv_c_freq s ! 0)))\<rparr>;
               c_pstate_pc = frequency_nfreq_to_npstate q (dv_c_freq s) (map (\<lambda>_. 0) (dv_c_pstate s)) n;
               t_pstate_pc = frequency_nfreq_to_npstate q (dv_c_req_f s) (map (\<lambda>_. 0) (dv_t_pstate s)) n
           in if higher_pstate c_pstate_pc t_pstate_pc
              then if dv_ask_def s \<and> dv_current_pc s < dv_default_pc s
                   then Some (False, status\<lparr>ds_ok := PC_STATUS_ASK_DEF\<rparr>, s)
                   else do {
                     requested \<leftarrow> compute_extra_power q n (ucast (dv_num_pstates s)) c_pstate_pc t_pstate_pc;
                     Some (False, status\<lparr>ds_requested := ucast requested, ds_ok := PC_STATUS_GREEDY\<rparr>, s)
                   }
              else do {
                ctbr \<leftarrow> float_to_uint (to_double (to_float (dv_my_limit s - dv_power_rapl s) * (1 / 2)));
                Some (if ctbr < 10 then (False, status\<lparr>ds_exceed := 0, ds_ok := PC_STATUS_OK\<rparr>, s)
                      else (True, status\<lparr>ds_ok := PC_STATUS_RELEASE, ds_exceed := ctbr\<rparr>,
                            s\<lparr>dv_status := PC_STATUS_RELEASE\<rparr>))
              })"

subsection \<open>P-state vectors\<close>

lemma length_reduce [simp]: "length (reduce_one_pstate f l) = min (length f) (length l)"
  by (simp add: reduce_one_pstate_def)

lemma length_increase: "length (increase_one_pstate n f) = length f"
  by (simp add: increase_one_pstate_def)

lemma nth_reduce:
  "i < length f \<Longrightarrow> i < length l \<Longrightarrow> reduce_one_pstate f l ! i = (if f ! i > l ! i then f ! i - 1 else f ! i)"
  by (simp add: reduce_one_pstate_def)

lemma foldl_changed:
  "foldl h a xs \<noteq> a \<Longrightarrow> (\<And>b x. x \<in> set xs \<Longrightarrow> \<not> P x \<Longrightarrow> h b x = b) \<Longrightarrow> \<exists>x \<in> set xs. P x"
proof (induction xs arbitrary: a)
  case (Cons x xs)
  then show ?case by (cases "P x") auto
qed simp

lemma some_change:
  assumes "num_cpus_to_reduce_pstates q n tmp target = (c, m)" "c \<noteq> 0 \<or> m \<noteq> 0"
  shows "\<exists>i < n. tmp ! i > target ! i"
proof -
  have "num_cpus_to_reduce_pstates q n tmp target \<noteq> (0, 0)" using assms by auto
  then have "\<exists>i \<in> set [0..<n]. tmp ! i > target ! i"
    unfolding num_cpus_to_reduce_pstates_def by (rule foldl_changed) (auto simp: Let_def)
  then show ?thesis by auto
qed

text \<open>The distance between two vectors of P-states decreases with every step of the estimate.\<close>

definition pstate_dist :: "u32 list \<Rightarrow> u32 list \<Rightarrow> nat" where
  "pstate_dist f l = (\<Sum>i < length f. unat (f ! i) - unat (l ! i))"

lemma reduce_dist_less:
  assumes "length f = length l" "i < length f" "f ! i > l ! i"
  shows "pstate_dist (reduce_one_pstate f l) l < pstate_dist f l"
  unfolding pstate_dist_def length_reduce
proof (simp add: assms(1), rule sum_strict_mono_ex1)
  have dec: "unat (f ! k - 1) = unat (f ! k) - 1 \<and> unat (l ! k) < unat (f ! k)" if "l ! k < f ! k" for k
    using that by (metis less_nat_zero_code unat_0 unat_minus_one word_less_nat_alt)
  show "\<forall>k\<in>{..<length l}. unat (reduce_one_pstate f l ! k) - unat (l ! k) \<le> unat (f ! k) - unat (l ! k)"
    using dec by (auto simp: nth_reduce assms(1))
  show "\<exists>k\<in>{..<length l}. unat (reduce_one_pstate f l ! k) - unat (l ! k) < unat (f ! k) - unat (l ! k)"
    using dec [OF assms(3)] assms by (intro bexI [of _ i]) (auto simp: nth_reduce)
qed simp

lemma extra_loop_returns:
  "length tmp = length target \<Longrightarrow> n \<le> length target \<Longrightarrow> \<exists>y. extra_loop q n target tmp total_w max_steps = Some y"
proof (induction "pstate_dist tmp target" arbitrary: tmp total_w max_steps rule: less_induct)
  case less
  obtain c m where cm: "num_cpus_to_reduce_pstates q n tmp target = (c, m)" by fastforce
  show ?case
  proof (cases "c \<noteq> 0 \<or> m \<noteq> 0")
    case True
    from some_change [OF cm True] obtain i where "i < n" "tmp ! i > target ! i" by blast
    then have "pstate_dist (reduce_one_pstate tmp target) target < pstate_dist tmp target"
      using less.prems by (intro reduce_dist_less [of _ _ i]) auto
    from less.hyps [OF this] show ?thesis using less.prems True cm by (subst extra_loop.simps) (simp add: Let_def)
  next
    case False
    then show ?thesis using cm by (subst extra_loop.simps) simp
  qed
qed

lemma compute_extra_power_returns:
  "length current = length target \<Longrightarrow> n \<le> length target \<Longrightarrow> \<exists>y. compute_extra_power q n max_steps current target = Some y"
  by (simp add: compute_extra_power_def extra_loop_returns)

subsection \<open>The decision of a control step\<close>

text \<open>
  A plugin and a reading that fit together: an initialised frequency API with a descending table,
  arrays of one size that cover the CPUs of the node, a driver that reads every CPU and requests
  that are frequencies of the table or zero.
\<close>

definition dvfs_ok :: "dvfs_reading \<Rightarrow> dvfs \<Rightarrow> bool" where
  "dvfs_ok r s \<longleftrightarrow>
     (let q = dv_freq s; n = dv_node_size s; m = length (dv_c_pstate s)
      in fq_init q \<and> wf_table (fq_api q) \<and> length (available q) < 2 ^ 32 \<and>
         dv_num_pstates s = of_nat (length (available q)) \<and> n \<le> fq_cpu_count q \<and> n \<le> m \<and>
         length (dv_t_pstate s) = m \<and> length (dv_c_freq s) = m \<and> length (dr_req_f r) = m \<and>
         (case dr_current r of None \<Rightarrow> False | Some fs \<Rightarrow> n \<le> length fs) \<and>
         (\<forall>i < n. dr_req_f r ! i = 0 \<or> dr_req_f r ! i \<in> set (available q)))"

abbreviation current_freq :: "dvfs_reading \<Rightarrow> dvfs \<Rightarrow> nat \<Rightarrow> u64" where
  "current_freq r s i \<equiv> frequency_get_cpufreq_list (dv_freq s) (dr_current r) (dv_node_size s) ! i"

definition pstate_of :: "dvfs \<Rightarrow> u64 \<Rightarrow> nat" where
  "pstate_of s f = (if f = 0 then 0 else frequency_freq_to_pstate (dv_freq s) f)"

lemma nth_nfreq:
  "i < n \<Longrightarrow> frequency_nfreq_to_npstate q f p n ! i =
     (if f ! i \<noteq> 0 then of_nat (frequency_freq_to_pstate q (f ! i)) else 0)"
  by (simp add: frequency_nfreq_to_npstate_def nth_append)

lemma length_nfreq [simp]: "n \<le> length p \<Longrightarrow> length (frequency_nfreq_to_npstate q f p n) = length p"
  by (simp add: frequency_nfreq_to_npstate_def)

lemma nth_nfreq_of:
  "i < n \<Longrightarrow> frequency_npstate_to_nfreq q p f n ! i = frequency_pstate_to_freq q (unat (p ! i))"
  by (simp add: frequency_npstate_to_nfreq_def nth_append)

lemma unat_next_pstate:
  assumes "unat (x :: u32) < l" "l < 2 ^ 32"
  shows "unat (ucast (ear_min (ucast (x + 1)) (of_nat l - 1 :: u64)) :: u32) = min (unat x + 1) (l - 1)"
proof (cases "unat x + 1 < l")
  case True
  then have "unat (x + 1) = unat x + 1" using assms by (intro trans [OF unat_plus]) auto
  then have "unat (ucast (x + 1) :: u64) = unat x + 1" by (simp add: unat_ucast_up)
  moreover have "unat (of_nat l - 1 :: u64) = l - 1"
    using assms by (simp add: unat_dist unat_of_nat_less del: of_nat_diff)
  ultimately show ?thesis
    using True assms by (auto simp: ear_min_def word_less_nat_alt unat_of_nat_less ucast_of_nat)
next
  case False
  then have l: "l = unat x + 1" using assms by simp
  have "unat (of_nat l - 1 :: u64) = l - 1"
    using assms by (simp add: unat_dist unat_of_nat_less del: of_nat_diff)
  moreover have "unat (ucast (x + 1) :: u64) = l" 
    using assms l unat_plus [of x 1] by (simp add: unat_ucast_up)
  ultimately show ?thesis using assms l by (auto simp: ear_min_def word_less_nat_alt unat_of_nat_less ucast_of_nat)
qed

text \<open>The state in which a step decides, and the P-states it then knows.\<close>

abbreviation decided :: "dvfs_reading \<Rightarrow> dvfs \<Rightarrow> dvfs" where
  "decided r s \<equiv> dvfs_pstates r (dvfs_measure r (dvfs_targets r s))"

lemma decided_sel [simp]:
  "dv_freq (decided r s) = dv_freq s" "dv_node_size (decided r s) = dv_node_size s"
  "dv_num_pstates (decided r s) = dv_num_pstates s" "dv_c_req_f (decided r s) = dr_req_f r"
  "dv_c_mode (decided r s) = dv_c_mode s" "dv_current_pc (decided r s) = dv_current_pc s"
  "dv_power_rapl (decided r s) = dv_power_rapl (dvfs_measure r (dvfs_targets r s))"
  "dv_my_limit (decided r s) = dv_my_limit (dvfs_measure r (dvfs_targets r s))"
  by (simp_all add: dvfs_pstates_def dvfs_measure_def dvfs_targets_def Let_def)

lemma length_cpufreq_list [simp]: "length (frequency_get_cpufreq_list q c n) = n"
  by (simp add: frequency_get_cpufreq_list_def split: option.split)

lemma pstate_of_less:
  assumes "fq_init (dv_freq s)" "wf_table (fq_api (dv_freq s))" "f = 0 \<or> f \<in> set (available (dv_freq s))"
  shows "pstate_of s f < length (available (dv_freq s))"
    and "f \<noteq> 0 \<Longrightarrow> available (dv_freq s) ! pstate_of s f = f"
  using assms by (auto simp: pstate_of_def in_set_conv_nth freq_to_pstate_nth wf_table_def)

lemma decided_pstates:
  assumes "dvfs_ok r s"
  shows "length (dv_c_pstate (decided r s)) = length (dv_c_pstate s)"
    and "length (dv_t_pstate (decided r s)) = length (dv_c_pstate s)"
    and "i < dv_node_size s \<Longrightarrow> unat (dv_c_pstate (decided r s) ! i) = pstate_of s (current_freq r s i)"
    and "i < dv_node_size s \<Longrightarrow> unat (dv_t_pstate (decided r s) ! i) = pstate_of s (dr_req_f r ! i)"
    and "i < dv_node_size s \<Longrightarrow> pstate_of s (current_freq r s i) < length (available (dv_freq s))"
    and "i < dv_node_size s \<Longrightarrow> pstate_of s (dr_req_f r ! i) < length (available (dv_freq s))"
proof -
  from assms obtain fs where fs: "dr_current r = Some fs" "dv_node_size s \<le> length fs"
    by (auto simp: dvfs_ok_def Let_def split: option.splits)
  have ok: "fq_init (dv_freq s)" "wf_table (fq_api (dv_freq s))" "dv_node_size s \<le> fq_cpu_count (dv_freq s)"
    "dv_node_size s \<le> length (dv_c_pstate s)" "length (dv_t_pstate s) = length (dv_c_pstate s)"
    "length (available (dv_freq s)) < 2 ^ 32"
    using assms by (simp_all add: dvfs_ok_def Let_def)
  note unf = dvfs_pstates_def dvfs_measure_def dvfs_targets_def Let_def
  show "length (dv_c_pstate (decided r s)) = length (dv_c_pstate s)"
    "length (dv_t_pstate (decided r s)) = length (dv_c_pstate s)"
    using ok by (simp_all add: unf)
  assume i: "i < dv_node_size s"
  have cur: "current_freq r s i \<in> set (available (dv_freq s))"
    using cpufreq_list_in_table [OF ok(2,3) fs(2) i] fs(1) by simp
  have req: "dr_req_f r ! i = 0 \<or> dr_req_f r ! i \<in> set (available (dv_freq s))"
    using assms i by (auto simp: dvfs_ok_def Let_def)
  show lc: "pstate_of s (current_freq r s i) < length (available (dv_freq s))"
    using pstate_of_less(1) [OF ok(1,2), of "current_freq r s i"] cur by blast
  show lt: "pstate_of s (dr_req_f r ! i) < length (available (dv_freq s))"
    using pstate_of_less(1) [OF ok(1,2) req] .
  have nth: "(frequency_get_cpufreq_list (dv_freq s) (dr_current r) (dv_node_size s) @ xs) ! i = current_freq r s i" for xs
    using i by (simp add: nth_append)
  show "unat (dv_c_pstate (decided r s) ! i) = pstate_of s (current_freq r s i)"
    using i lc ok(6) by (auto simp: unf nth_nfreq nth unat_of_nat_less pstate_of_def split: if_splits)
  show "unat (dv_t_pstate (decided r s) ! i) = pstate_of s (dr_req_f r ! i)"
    using i lt ok(6) by (auto simp: unf nth_nfreq unat_of_nat_less pstate_of_def split: if_splits)
qed

text \<open>What a step writes, P-state by P-state.\<close>

definition steps_down :: "dvfs \<Rightarrow> nat" where
  "steps_down s = (if to_float (dv_power_rapl s - dv_my_limit s) > 30 then 2 else 1)"

lemma reduce_written:
  assumes "dvfs_ok r s" "i < dv_node_size s"
  shows "snd (dvfs_reduce (decided r s)) ! i =
    available (dv_freq s) ! max (min (pstate_of s (current_freq r s i) + steps_down (decided r s)) (length (available (dv_freq s)) - 1))
      (pstate_of s (dr_req_f r ! i))"
proof -
  let ?d = "decided r s" and ?l = "length (available (dv_freq s))"
  let ?c = "pstate_of s (current_freq r s i)" and ?t = "pstate_of s (dr_req_f r ! i)"
  note d = decided_pstates [OF assms(1)]
  have ok: "fq_init (dv_freq s)" "?l < 2 ^ 32" "dv_num_pstates s = of_nat ?l" "dv_node_size s \<le> length (dv_c_pstate s)"
    using assms(1) by (simp_all add: dvfs_ok_def Let_def)
  have i: "i < length (dv_c_pstate ?d)" "i < length (dv_t_pstate ?d)" using assms(2) ok(4) d(1,2) by simp_all
  define tmp where "tmp = increase_one_pstate (dv_num_pstates s) (dv_c_pstate ?d)"
  have len: "length tmp = length (dv_c_pstate ?d)" by (simp add: tmp_def increase_one_pstate_def)
  have one: "unat (tmp ! i) = min (?c + 1) (?l - 1)"
    using i(1) unat_next_pstate [of "dv_c_pstate ?d ! i" ?l] d(3,5) [OF assms(2)] ok(2,3)
    by (simp add: tmp_def increase_one_pstate_def)
  then have "unat (tmp ! i) < ?l" using d(5) [OF assms(2)] by simp
  then have two: "unat (increase_one_pstate (dv_num_pstates s) tmp ! i) = min (min (?c + 1) (?l - 1) + 1) (?l - 1)"
    using i(1) unat_next_pstate [of "tmp ! i" ?l] ok(2,3) len one by (simp add: increase_one_pstate_def)
  define nxt where "nxt = (if to_float (dv_power_rapl ?d - dv_my_limit ?d) > 30
    then increase_one_pstate (dv_num_pstates s) tmp else tmp)"
  have nxt: "unat (nxt ! i) = min (?c + steps_down ?d) (?l - 1)" "length nxt = length (dv_c_pstate ?d)"
    using one two len by (auto simp: nxt_def steps_down_def length_increase min_def)
  have lim: "unat (limit_pstate nxt (dv_t_pstate ?d) ! i) = max (min (?c + steps_down ?d) (?l - 1)) ?t"
    using i nxt d(4) [OF assms(2)] by (auto simp: limit_pstate_def word_less_nat_alt)
  have "snd (dvfs_reduce ?d) ! i = frequency_pstate_to_freq (dv_freq s) (unat (limit_pstate nxt (dv_t_pstate ?d) ! i))"
    using assms(2) by (simp add: dvfs_reduce_def Let_def nth_nfreq_of nxt_def tmp_def)
  then show ?thesis using lim d(5,6) [OF assms(2)] ok(1) by (simp add: pstate_to_freq_nth)
qed

lemma raise_written:
  assumes "dvfs_ok r s" "i < dv_node_size s" "f = dv_prev_counter_update g (decided r s) \<or> f = decided r s"
  shows "snd (dvfs_raise f) ! i =
    available (dv_freq s) ! (if pstate_of s (dr_req_f r ! i) < pstate_of s (current_freq r s i)
      then pstate_of s (current_freq r s i) - 1 else pstate_of s (current_freq r s i))"
proof -
  let ?d = "decided r s"
  note d = decided_pstates [OF assms(1)]
  have ok: "fq_init (dv_freq s)" "dv_node_size s \<le> length (dv_c_pstate s)"
    using assms(1) by (simp_all add: dvfs_ok_def Let_def)
  have i: "i < length (dv_c_pstate ?d)" "i < length (dv_t_pstate ?d)" using assms(2) ok(2) d(1,2) by simp_all
  have dec: "unat (x - 1) = unat x - 1" if "y < x" for x y :: u32
    using that by (metis less_nat_zero_code unat_0 unat_minus_one word_less_nat_alt)
  have "snd (dvfs_raise f) ! i =
      frequency_pstate_to_freq (dv_freq s) (unat (reduce_one_pstate (dv_c_pstate ?d) (dv_t_pstate ?d) ! i))"
    using assms(2,3) by (auto simp: dvfs_raise_def Let_def nth_nfreq_of)
  also have "unat (reduce_one_pstate (dv_c_pstate ?d) (dv_t_pstate ?d) ! i) =
      (if pstate_of s (dr_req_f r ! i) < pstate_of s (current_freq r s i)
       then pstate_of s (current_freq r s i) - 1 else pstate_of s (current_freq r s i))"
    using i d(3,4) [OF assms(2)] dec [of "dv_t_pstate ?d ! i" "dv_c_pstate ?d ! i"] by (auto simp: nth_reduce word_less_nat_alt)
  finally show ?thesis using d(5) [OF assms(2)] ok(1) by (auto simp: pstate_to_freq_nth split: if_splits)
qed

lemma available_antimono:
  "dvfs_ok r s \<Longrightarrow> i \<le> j \<Longrightarrow> j < length (available (dv_freq s)) \<Longrightarrow> available (dv_freq s) ! j \<le> available (dv_freq s) ! i"
  using descending_nth_le [of "available (dv_freq s)" i j] by (simp add: dvfs_ok_def Let_def wf_table_def word_le_nat_alt)

lemma available_less:
  "dvfs_ok r s \<Longrightarrow> i < j \<Longrightarrow> j < length (available (dv_freq s)) \<Longrightarrow> available (dv_freq s) ! j < available (dv_freq s) ! i"
  using descending_nth [of "available (dv_freq s)" i j] by (simp add: dvfs_ok_def Let_def wf_table_def word_less_nat_alt)

lemma freq_of_pstate:
  assumes "dvfs_ok r s" "i < dv_node_size s"
  shows "current_freq r s i = available (dv_freq s) ! pstate_of s (current_freq r s i)"
    and "dr_req_f r ! i \<noteq> 0 \<Longrightarrow> dr_req_f r ! i = available (dv_freq s) ! pstate_of s (dr_req_f r ! i)"
proof -
  from assms obtain fs where fs: "dr_current r = Some fs" "dv_node_size s \<le> length fs"
    by (auto simp: dvfs_ok_def Let_def split: option.splits)
  have ok: "fq_init (dv_freq s)" "wf_table (fq_api (dv_freq s))" "dv_node_size s \<le> fq_cpu_count (dv_freq s)"
    "dr_req_f r ! i = 0 \<or> dr_req_f r ! i \<in> set (available (dv_freq s))"
    using assms by (auto simp: dvfs_ok_def Let_def)
  have cur: "current_freq r s i \<in> set (available (dv_freq s))"
    using cpufreq_list_in_table [OF ok(2,3) fs(2) assms(2)] fs(1) by simp
  then have "current_freq r s i \<noteq> 0" using ok(2) by (metis wf_table_def)
  then show "current_freq r s i = available (dv_freq s) ! pstate_of s (current_freq r s i)"
    using pstate_of_less(2) [OF ok(1,2), of "current_freq r s i"] cur by simp
  show "dr_req_f r ! i \<noteq> 0 \<Longrightarrow> dr_req_f r ! i = available (dv_freq s) ! pstate_of s (dr_req_f r ! i)"
    using pstate_of_less(2) [OF ok(1,2,4)] by simp
qed

text \<open>The frequencies that a step below the limit writes, if it writes any.\<close>

lemma below_written:
  assumes ok: "dvfs_ok r s" and run: "dvfs_below (decided r s) = Some (s', Some f)" and i: "i < dv_node_size s"
  shows "f ! i = available (dv_freq s) ! (if pstate_of s (dr_req_f r ! i) < pstate_of s (current_freq r s i)
      then pstate_of s (current_freq r s i) - 1 else pstate_of s (current_freq r s i)) \<or>
    pstate_of s (current_freq r s i) \<le> pstate_of s (dr_req_f r ! i) \<and>
    f ! i = available (dv_freq s) ! pstate_of s (dr_req_f r ! i)"
proof -
  let ?d = "decided r s"
  have same: "?d\<lparr>dv_t_pstate := frequency_nfreq_to_npstate (dv_freq ?d) (dv_c_req_f ?d) (dv_t_pstate ?d) (dv_node_size ?d)\<rparr> = ?d"
    using ok by (simp add: dvfs_pstates_def dvfs_measure_def dvfs_targets_def Let_def frequency_nfreq_to_npstate_def dvfs_ok_def)
  note low = run [unfolded dvfs_below_def same Let_def]
  show ?thesis
  proof (cases "higher_pstate (dv_c_pstate ?d) (dv_t_pstate ?d)")
    case True
    with low have "f = snd (dvfs_raise (dv_prev_counter_update (\<lambda>_. dv_prev_counter ?d + 1) ?d)) \<or> f = snd (dvfs_raise ?d)"
      by (auto simp: bind_eq_Some_conv map_prod_def split: if_splits prod.splits)
    then show ?thesis using raise_written [OF ok i] by blast
  next
    case False
    with low have "f = frequency_npstate_to_nfreq (dv_freq s) (dv_t_pstate ?d) (dv_c_freq ?d) (dv_node_size s)"
      by (auto split: if_splits)
    moreover have "i < length (dv_c_pstate ?d)" "i < length (dv_t_pstate ?d)"
      using i decided_pstates(1,2) [OF ok] ok by (simp_all add: dvfs_ok_def Let_def)
    then have "(dv_c_pstate ?d ! i, dv_t_pstate ?d ! i) \<in> set (zip (dv_c_pstate ?d) (dv_t_pstate ?d))"
      by (auto simp: set_zip)
    then have "unat (dv_c_pstate ?d ! i) \<le> unat (dv_t_pstate ?d ! i)"
      using False by (fastforce simp: higher_pstate_def list_ex_iff word_less_nat_alt not_less)
    ultimately show ?thesis
      using i decided_pstates(3,4,6) [OF ok i] ok by (simp add: nth_nfreq_of pstate_to_freq_nth dvfs_ok_def Let_def)
  qed
qed


subsection \<open>Properties of the control step\<close>

text \<open>A node of two CPUs at 2.2 GHz, both asked to run at 2.4 GHz, capped at 100 W.\<close>

definition dvfs_example :: dvfs where
  "dvfs_example = (dvfs_pc_thread_init [0, 0] (dvfs_enable \<lparr>fq_init = True, fq_api = cpufreq_example, fq_cpu_count = 2\<rparr> 1 4 2400000 2))
     \<lparr>dv_current_pc := 100, dv_default_pc := 100, dv_c_mode := PC_MODE_TARGET\<rparr>"

definition reading_example :: "u64 \<Rightarrow> dvfs_reading" where
  "reading_example joules =
     \<lparr>dr_elapsed = 1000, dr_rapl = [20 * 1000000000, joules * 1000000000], dr_req_f = [2400000, 2400000, 0, 0],
      dr_current = Some [2200000, 2200000]\<rparr>"

lemma dvfs_step_returns:
  assumes "dvfs_ok r s"
  shows "\<exists>s' f. dvfs_pc_thread_main r s = Some (s', f)"
proof -
  let ?d = "decided r s"
  have same: "?d\<lparr>dv_t_pstate := frequency_nfreq_to_npstate (dv_freq ?d) (dv_c_req_f ?d) (dv_t_pstate ?d) (dv_node_size ?d)\<rparr> = ?d"
    using assms by (simp add: dvfs_pstates_def dvfs_measure_def dvfs_targets_def Let_def frequency_nfreq_to_npstate_def dvfs_ok_def)
  have len: "length (dv_c_pstate ?d) = length (dv_t_pstate ?d)" "dv_node_size s \<le> length (dv_t_pstate ?d)"
    using decided_pstates(1,2) [OF assms] assms by (simp_all add: dvfs_ok_def Let_def)
  obtain x where "compute_extra_power (dv_freq s) (dv_node_size s) 1 (dv_c_pstate ?d) (dv_t_pstate ?d) = Some x"
    using compute_extra_power_returns [OF len] by blast
  then have "\<exists>y. dvfs_below ?d = Some y" unfolding dvfs_below_def same by (simp add: Let_def)
  then show ?thesis by (auto simp: dvfs_pc_thread_main_def Let_def)
qed

lemma dvfs_example_ok: "dvfs_ok (reading_example j) dvfs_example"
  by (simp add: dvfs_ok_def reading_example_def dvfs_example_def dvfs_enable_def dvfs_pc_thread_init_def cpufreq_example_def
      wf_table_def pstate_nominal_def frequency_get_num_pstates_def less_2_cases_iff Let_def)

lemma rapl_power_example: "rapl_power 1 1000 [20000000000, 130000000000] = 150"
  by (simp add: rapl_power_def energy_cpu_compute_power_def rat_of_word_def Let_def fl_numeral fl_one)

lemma dvfs_step_frequencies_parts:
  assumes "dvfs_ok r s" "dvfs_pc_thread_main r s = Some (s', Some f)" "i < dv_node_size s"
  shows "dv_power_rapl (decided r s) > dv_my_limit (decided r s) \<longrightarrow>
      f ! i \<le> current_freq r s i \<and> (dr_req_f r ! i \<noteq> 0 \<longrightarrow> f ! i \<le> dr_req_f r ! i) \<and>
      (current_freq r s i \<noteq> last (available (dv_freq s)) \<longrightarrow> f ! i < current_freq r s i)"
    and "dv_power_rapl (decided r s) \<le> dv_my_limit (decided r s) \<Longrightarrow> dr_req_f r ! i \<noteq> 0 \<Longrightarrow>
      if current_freq r s i < dr_req_f r ! i then current_freq r s i < f ! i \<and> f ! i \<le> dr_req_f r ! i
      else dr_req_f r ! i \<le> f ! i \<and> f ! i \<le> current_freq r s i"
proof -
  let ?av = "available (dv_freq s)" and ?c = "pstate_of s (current_freq r s i)" and ?t = "pstate_of s (dr_req_f r ! i)"
  note le = available_antimono [OF assms(1)] and less = available_less [OF assms(1)]
  note lt = decided_pstates(5,6) [OF assms(1,3)] and val = freq_of_pstate [OF assms(1,3)]
  show "dv_power_rapl (decided r s) > dv_my_limit (decided r s) \<longrightarrow>
      f ! i \<le> current_freq r s i \<and> (dr_req_f r ! i \<noteq> 0 \<longrightarrow> f ! i \<le> dr_req_f r ! i) \<and>
      (current_freq r s i \<noteq> last ?av \<longrightarrow> f ! i < current_freq r s i)"
  proof
    assume above: "dv_power_rapl (decided r s) > dv_my_limit (decided r s)"
    define k where "k = max (min (?c + steps_down (decided r s)) (length ?av - 1)) ?t"
    have k: "k < length ?av" "?c \<le> k" "?t \<le> k" "?c \<noteq> length ?av - 1 \<longrightarrow> ?c < k"
      using lt by (auto simp: k_def steps_down_def)
    have "f = snd (dvfs_reduce (decided r s))"
      using assms(2) above by (auto simp: dvfs_pc_thread_main_def Let_def map_prod_def split: if_splits prod.splits)
    then have f: "f ! i = ?av ! k" using reduce_written [OF assms(1,3)] by (simp add: k_def)
    moreover have "f ! i < current_freq r s i" if "current_freq r s i \<noteq> last ?av"
    proof -
      have "?c \<noteq> length ?av - 1" using that val(1) lt(1) by (metis last_conv_nth length_0_conv not_less_zero)
      then have "?av ! k < ?av ! ?c" using less k by blast
      then show ?thesis using f val(1) by simp
    qed
    moreover have "f ! i \<le> dr_req_f r ! i" if "dr_req_f r ! i \<noteq> 0"
      using le [OF k(3,1)] f val(2) [OF that] by metis
    ultimately show "f ! i \<le> current_freq r s i \<and> (dr_req_f r ! i \<noteq> 0 \<longrightarrow> f ! i \<le> dr_req_f r ! i) \<and>
        (current_freq r s i \<noteq> last ?av \<longrightarrow> f ! i < current_freq r s i)"
      using le [OF k(2,1)] val(1) by simp
  qed
  assume below: "dv_power_rapl (decided r s) \<le> dv_my_limit (decided r s)" and req: "dr_req_f r ! i \<noteq> 0"
  then have "dvfs_below (decided r s) = Some (s', Some f)"
    using assms(2) by (auto simp: dvfs_pc_thread_main_def Let_def split: if_splits)
  from below_written [OF assms(1) this assms(3)]
  have f: "f ! i = ?av ! (if ?t < ?c then ?c - 1 else ?c) \<or> ?c \<le> ?t \<and> f ! i = ?av ! ?t" .
  have iff: "current_freq r s i < dr_req_f r ! i \<longleftrightarrow> ?t < ?c"
    using le [of ?c ?t] less [of ?t ?c] lt unfolding val(1) [symmetric] val(2) [OF req, symmetric] by (meson leD not_le_imp_less)
  show "if current_freq r s i < dr_req_f r ! i then current_freq r s i < f ! i \<and> f ! i \<le> dr_req_f r ! i
      else dr_req_f r ! i \<le> f ! i \<and> f ! i \<le> current_freq r s i"
  proof (cases "?t < ?c")
    case True
    then have "f ! i = ?av ! (?c - 1)" "?c - 1 < ?c" "?t \<le> ?c - 1" using f by auto
    then have "?av ! ?c < f ! i" "f ! i \<le> ?av ! ?t" using less [of "?c - 1" ?c] le [of ?t "?c - 1"] lt by simp_all
    then show ?thesis using True iff unfolding val(1) [symmetric] val(2) [OF req, symmetric] by simp
  next
    case False
    then have "f ! i = ?av ! ?c \<or> f ! i = ?av ! ?t" "?av ! ?t \<le> ?av ! ?c" using f le [of ?c ?t] lt by auto
    then show ?thesis using False iff unfolding val(1) [symmetric] val(2) [OF req, symmetric] by auto
  qed
qed

text \<open>
  C31. A control step that writes frequencies moves that of each CPU in the right direction.  Above the
  limit no CPU is made faster, none is set above the frequency requested for it, and a CPU that is
  not yet at the lowest P-state is slowed down.  At or below the limit a CPU that runs slower than
  requested is made faster, at most up to its request, and one that does not is neither made
  faster nor set below its request.
\<close>

theorem dvfs_step_frequencies:
  assumes "dvfs_ok r s" "dvfs_pc_thread_main r s = Some (s', Some f)" "i < dv_node_size s"
  shows "(dv_power_rapl (decided r s) > dv_my_limit (decided r s) \<longrightarrow>
      f ! i \<le> current_freq r s i \<and> (dr_req_f r ! i \<noteq> 0 \<longrightarrow> f ! i \<le> dr_req_f r ! i) \<and>
      (current_freq r s i \<noteq> last (available (dv_freq s)) \<longrightarrow> f ! i < current_freq r s i)) \<and>
    (dv_power_rapl (decided r s) \<le> dv_my_limit (decided r s) \<and> dr_req_f r ! i \<noteq> 0 \<longrightarrow>
      (if current_freq r s i < dr_req_f r ! i then current_freq r s i < f ! i \<and> f ! i \<le> dr_req_f r ! i
       else dr_req_f r ! i \<le> f ! i \<and> f ! i \<le> current_freq r s i))"
  using dvfs_step_frequencies_parts [OF assms] by blast

lemma dvfs_example_power:
  "dv_power_rapl (decided (reading_example 130) dvfs_example) = 150"
  "dv_my_limit (decided (reading_example 130) dvfs_example) = 100"
  unfolding decided_sel
  by (simp_all add: dvfs_measure_def dvfs_targets_def dvfs_example_def dvfs_enable_def dvfs_pc_thread_init_def
      reading_example_def energy_cpu_data_diff_def Let_def rapl_power_example [simplified] rat_of_word_def fl_numeral)

lemma dvfs_step_frequencies_witness:
  "dvfs_pc_thread_main (reading_example 130) dvfs_example =
     Some (map_prod id Some (dvfs_reduce (decided (reading_example 130) dvfs_example))) \<and>
   snd (dvfs_reduce (decided (reading_example 130) dvfs_example)) ! 0 < 2200000"
proof -
  let ?r = "reading_example 130" and ?s = dvfs_example
  note p = dvfs_example_power [simplified decided_sel]
  have run: "dvfs_pc_thread_main ?r ?s = Some (map_prod id Some (dvfs_reduce (decided ?r ?s)))"
    using p by (simp add: dvfs_pc_thread_main_def Let_def) (simp add: dvfs_example_def dvfs_measure_def dvfs_targets_def Let_def)
  have c: "frequency_get_cpufreq_list (dv_freq ?s) (dr_current ?r) 2 ! 0 = 2200000" "last (available (dv_freq ?s)) = 1800000" "dv_node_size ?s = 2" by code_simp+
  obtain s' f where f: "dvfs_reduce (decided ?r ?s) = (s', f)" by fastforce
  then have "dvfs_pc_thread_main ?r ?s = Some (s', Some f)" using run by simp
  from dvfs_step_frequencies [THEN conjunct1, OF dvfs_example_ok this, of 0] have "f ! 0 < 2200000"
    unfolding dvfs_example_power c by simp
  then show ?thesis using run f by simp
qed

text \<open>Several steps in a row that find the power above the limit.\<close>

definition over_limit :: "dvfs_reading \<Rightarrow> dvfs \<Rightarrow> bool" where
  "over_limit r s \<longleftrightarrow> dvfs_ok r s \<and> dv_power_rapl (decided r s) > dv_my_limit (decided r s)"

lemma reduce_fields:
  "dv_freq (fst (dvfs_reduce d)) = dv_freq d" "dv_node_size (fst (dvfs_reduce d)) = dv_node_size d"
  "dv_num_pstates (fst (dvfs_reduce d)) = dv_num_pstates d" "dv_current_pc (fst (dvfs_reduce d)) = dv_current_pc d"
  "dv_rapl_init (fst (dvfs_reduce d)) = dv_rapl_init d" "dv_sockets (fst (dvfs_reduce d)) = dv_sockets d"
  "length (dv_c_pstate (fst (dvfs_reduce d))) = min (length (dv_c_pstate d)) (length (dv_t_pstate d))"
  "dv_t_pstate (fst (dvfs_reduce d)) = dv_t_pstate d"
  "length (dv_c_freq (fst (dvfs_reduce d))) = dv_node_size d + (length (dv_c_freq d) - dv_node_size d)"
  by (simp_all add: dvfs_reduce_def Let_def limit_pstate_def length_increase frequency_npstate_to_nfreq_def)

lemma over_limit_step:
  assumes "over_limit r s" "dvfs_pc_thread_main r s = Some (s', Some f)"
  shows "(s', f) = dvfs_reduce (decided r s)" "dv_freq s' = dv_freq s" "dv_node_size s' = dv_node_size s"
proof -
  show "(s', f) = dvfs_reduce (decided r s)"
    using assms by (auto simp: over_limit_def dvfs_pc_thread_main_def Let_def map_prod_def split: if_splits prod.splits)
  then have "s' = fst (dvfs_reduce (decided r s))" by (metis fst_conv)
  then show "dv_freq s' = dv_freq s" "dv_node_size s' = dv_node_size s" by (simp_all add: reduce_fields)
qed

lemma over_limit_pstate:
  assumes "over_limit r s" "dvfs_pc_thread_main r s = Some (s', Some f)" "i < dv_node_size s"
  obtains p where "f ! i = available (dv_freq s) ! p" "p < length (available (dv_freq s))" "pstate_of s (f ! i) = p"
    "min (pstate_of s (current_freq r s i) + 1) (length (available (dv_freq s)) - 1) \<le> p"
proof -
  have ok: "dvfs_ok r s" using assms(1) by (simp add: over_limit_def)
  define p where "p = max (min (pstate_of s (current_freq r s i) + steps_down (decided r s)) (length (available (dv_freq s)) - 1))
      (pstate_of s (dr_req_f r ! i))"
  have "f = snd (dvfs_reduce (decided r s))" using over_limit_step(1) [OF assms(1,2)] by (metis snd_conv)
  then have f: "f ! i = available (dv_freq s) ! p" using reduce_written [OF ok assms(3)] by (simp add: p_def)
  have p: "p < length (available (dv_freq s))" using decided_pstates(5,6) [OF ok assms(3)] by (auto simp: p_def)
  have "fq_init (dv_freq s)" "wf_table (fq_api (dv_freq s))" using ok by (simp_all add: dvfs_ok_def Let_def)
  then have "pstate_of s (f ! i) = p"
    using p unfolding f by (auto simp: pstate_of_def freq_to_pstate_nth wf_table_def in_set_conv_nth)
  moreover have "min (pstate_of s (current_freq r s i) + 1) (length (available (dv_freq s)) - 1) \<le> p"
    by (auto simp: p_def steps_down_def)
  ultimately show thesis using that f p by blast
qed

lemma capping_progress:
  assumes run: "\<forall>k < K. over_limit (r k) (s k) \<and> dvfs_pc_thread_main (r k) (s k) = Some (s (Suc k), Some (f k))"
    and follow: "\<forall>k. Suc k < K \<longrightarrow> current_freq (r (Suc k)) (s (Suc k)) i = f k ! i"
    and i: "i < dv_node_size (s 0)" and k: "k < K"
  shows "dv_freq (s k) = dv_freq (s 0) \<and> dv_node_size (s k) = dv_node_size (s 0) \<and>
    (\<exists>p < length (available (dv_freq (s 0))). f k ! i = available (dv_freq (s 0)) ! p \<and> pstate_of (s 0) (f k ! i) = p \<and>
      min (pstate_of (s 0) (current_freq (r 0) (s 0) i) + k + 1) (length (available (dv_freq (s 0))) - 1) \<le> p)"
  using k
proof (induction k)
  case 0
  then show ?case using over_limit_pstate [of "r 0" "s 0" "s 1" "f 0" i] run i by (metis One_nat_def add_0_right)
next
  case (Suc k)
  then have ih: "dv_freq (s k) = dv_freq (s 0)" "dv_node_size (s k) = dv_node_size (s 0)"
    "min (pstate_of (s 0) (current_freq (r 0) (s 0) i) + k + 1) (length (available (dv_freq (s 0))) - 1) \<le> pstate_of (s 0) (f k ! i)"
    by auto
  have step: "over_limit (r k) (s k)" "dvfs_pc_thread_main (r k) (s k) = Some (s (Suc k), Some (f k))"
    "over_limit (r (Suc k)) (s (Suc k))" "dvfs_pc_thread_main (r (Suc k)) (s (Suc k)) = Some (s (Suc (Suc k)), Some (f (Suc k)))"
    using run Suc.prems by simp_all
  have same: "dv_freq (s (Suc k)) = dv_freq (s 0)" "dv_node_size (s (Suc k)) = dv_node_size (s 0)"
    using over_limit_step(2,3) [OF step(1,2)] ih by simp_all
  have ps: "pstate_of (s (Suc k)) = pstate_of (s 0)" by (rule ext) (simp add: pstate_of_def same)
  obtain p where "f (Suc k) ! i = available (dv_freq (s 0)) ! p" "p < length (available (dv_freq (s 0)))"
    "pstate_of (s 0) (f (Suc k) ! i) = p"
    "min (pstate_of (s 0) (current_freq (r (Suc k)) (s (Suc k)) i) + 1) (length (available (dv_freq (s 0))) - 1) \<le> p"
    using over_limit_pstate [OF step(3,4), of i] i unfolding same ps by metis
  moreover have "current_freq (r (Suc k)) (s (Suc k)) i = f k ! i" using follow Suc.prems by blast
  ultimately show ?case using same ih(3) by (intro conjI exI [of _ p]) auto
qed

text \<open>
  C32. Capping makes progress: when the steps of the control thread keep finding the power above the
  limit and each CPU runs at the frequency that the step before has set, then after at most as
  many steps as P-states lie below the one a CPU starts from, that CPU is at the lowest frequency.
\<close>

theorem capping_reaches_lowest:
  assumes "\<forall>k < K. over_limit (r k) (s k) \<and> dvfs_pc_thread_main (r k) (s k) = Some (s (Suc k), Some (f k))"
    and "\<forall>k. Suc k < K \<longrightarrow> current_freq (r (Suc k)) (s (Suc k)) i = f k ! i"
    and "i < dv_node_size (s 0)" "0 < K"
    and "length (available (dv_freq (s 0))) \<le> pstate_of (s 0) (current_freq (r 0) (s 0) i) + K + 1"
  shows "f (K - 1) ! i = last (available (dv_freq (s 0)))"
proof -
  obtain p where "p < length (available (dv_freq (s 0)))" "f (K - 1) ! i = available (dv_freq (s 0)) ! p"
    "min (pstate_of (s 0) (current_freq (r 0) (s 0) i) + (K - 1) + 1) (length (available (dv_freq (s 0))) - 1) \<le> p"
    using capping_progress [OF assms(1-3), of "K - 1"] assms(4) by auto
  moreover from this have "p = length (available (dv_freq (s 0))) - 1" using assms(4,5) by (auto simp: min_def split: if_splits)
  ultimately show ?thesis by (metis last_conv_nth list.size(3) not_less_zero)
qed

text \<open>Two steps of the node above at 150 W: from 2.2 GHz the first one leads to the lowest frequency.\<close>

definition second_reading :: dvfs_reading where
  "second_reading = \<lparr>dr_elapsed = 1000, dr_rapl = [40 * 1000000000, 260 * 1000000000], dr_req_f = [2400000, 2400000, 0, 0],
     dr_current = Some [1800000, 1800000]\<rparr>"

definition after_first :: dvfs where
  "after_first = fst (dvfs_reduce (decided (reading_example 130) dvfs_example))"

lemma over_limit_writes:
  assumes "over_limit r s" "dv_current_pc s \<noteq> 0" "dv_current_pc s \<noteq> 1" "1 / 2 \<le> dv_power_rapl (decided r s)"
  shows "dvfs_pc_thread_main r s = Some (fst (dvfs_reduce (decided r s)), Some (snd (dvfs_reduce (decided r s))))"
proof -
  have "dv_current_pc (dvfs_targets r s) = dv_current_pc s" by (simp add: dvfs_targets_def)
  then show ?thesis using assms by (simp add: over_limit_def dvfs_pc_thread_main_def Let_def map_prod_def split: prod.splits)
qed

lemma first_over_limit: "over_limit (reading_example 130) dvfs_example"
  using dvfs_example_ok dvfs_example_power by (simp add: over_limit_def)

lemma first_pstates:
  "pstate_of dvfs_example (current_freq (reading_example 130) dvfs_example 0) = 2"
  "pstate_of dvfs_example (dr_req_f (reading_example 130) ! 0) = 1"
  "available (dv_freq dvfs_example) = [2401000, 2400000, 2200000, 2000000, 1800000]" "0 < dv_node_size dvfs_example"
  by code_simp+

lemma first_lowest: "snd (dvfs_reduce (decided (reading_example 130) dvfs_example)) ! 0 = 1800000"
proof -
  have "steps_down (decided (reading_example 130) dvfs_example) = 2"
    unfolding steps_down_def dvfs_example_power by (simp add: fl_numeral)
  then show ?thesis using reduce_written [OF dvfs_example_ok first_pstates(4), of 130] by (simp add: first_pstates)
qed

lemma decided_fields:
  "dv_rapl_init (decided r s) = dr_rapl r" "dv_sockets (decided r s) = dv_sockets s"
  "dv_node_size s \<le> length (dv_c_freq s) \<Longrightarrow> length (dv_c_freq (decided r s)) = length (dv_c_freq s)"
  by (simp_all add: dvfs_pstates_def dvfs_measure_def dvfs_targets_def Let_def)

lemma after_first_fields:
  "dv_freq after_first = dv_freq dvfs_example" "dv_node_size after_first = 2" "dv_num_pstates after_first = dv_num_pstates dvfs_example"
  "dv_current_pc after_first = 100" "dv_rapl_init after_first = [20000000000, 130000000000]" "dv_sockets after_first = 1"
  "length (dv_c_pstate after_first) = 4" "length (dv_t_pstate after_first) = 4" "length (dv_c_freq after_first) = 4"
proof -
  have ex: "dv_node_size dvfs_example = 2" "dv_current_pc dvfs_example = 100" "dv_sockets dvfs_example = 1"
    "length (dv_c_pstate dvfs_example) = 4" "length (dv_c_freq dvfs_example) = 4"
    by (simp_all add: dvfs_example_def dvfs_enable_def dvfs_pc_thread_init_def)
  then show "dv_freq after_first = dv_freq dvfs_example" "dv_node_size after_first = 2"
    "dv_num_pstates after_first = dv_num_pstates dvfs_example" "dv_current_pc after_first = 100"
    "dv_rapl_init after_first = [20000000000, 130000000000]" "dv_sockets after_first = 1"
    "length (dv_c_pstate after_first) = 4" "length (dv_t_pstate after_first) = 4" "length (dv_c_freq after_first) = 4"
    by (simp_all add: after_first_def reduce_fields decided_fields decided_pstates(1,2) [OF dvfs_example_ok])
      (simp add: reading_example_def)
qed

lemma second_over_limit: "over_limit second_reading after_first" "1 / 2 \<le> dv_power_rapl (decided second_reading after_first)"
proof -
  have p: "dv_power_rapl (decided second_reading after_first) = 150" "dv_my_limit (decided second_reading after_first) = 100"
    unfolding decided_sel
    by (simp_all add: dvfs_measure_def dvfs_targets_def after_first_fields second_reading_def energy_cpu_data_diff_def Let_def
        rapl_power_example [simplified] rat_of_word_def fl_numeral)
  have "dvfs_ok second_reading after_first"
    by (simp add: dvfs_ok_def after_first_fields second_reading_def Let_def dvfs_example_def dvfs_enable_def dvfs_pc_thread_init_def
        cpufreq_example_def wf_table_def pstate_nominal_def frequency_get_num_pstates_def less_2_cases_iff)
  then show "over_limit second_reading after_first" "1 / 2 \<le> dv_power_rapl (decided second_reading after_first)"
    unfolding over_limit_def p by simp_all
qed

lemma capping_reaches_lowest_witness:
  "\<exists>s' f. dvfs_pc_thread_main second_reading after_first = Some (s', Some f) \<and> f ! 0 = 1800000"
proof -
  let ?r = "\<lambda>k. if k = 0 then reading_example 130 else second_reading"
  let ?s = "\<lambda>k. if k = 0 then dvfs_example else if k = Suc 0 then after_first else fst (dvfs_reduce (decided second_reading after_first))"
  let ?f = "\<lambda>k. snd (dvfs_reduce (decided (?r k) (?s k)))"
  have one: "dvfs_pc_thread_main (reading_example 130) dvfs_example = Some (after_first, Some (?f 0))"
    using over_limit_writes [OF first_over_limit] dvfs_example_power by (simp add: after_first_def) (simp add: dvfs_example_def)
  have two: "dvfs_pc_thread_main second_reading after_first = Some (?s 2, Some (?f 1))"
    using over_limit_writes [OF second_over_limit(1)] second_over_limit(2) by (simp add: after_first_fields)
  have "current_freq second_reading after_first 0 = 1800000" unfolding after_first_fields by code_simp
  then have "?f (2 - 1) ! 0 = last (available (dv_freq (?s 0)))"
    using one two first_over_limit second_over_limit(1) first_lowest
    by (intro capping_reaches_lowest [where r = ?r and s = ?s and K = 2]) (auto simp: less_2_cases_iff first_pstates)
  then show ?thesis using two by (simp add: first_pstates)
qed

lemma dvfs_release_bounded_parts:
  assumes "dvfs_get_powercap_status current s = Some (True, st, s')"
    and "dv_my_limit s = to_float (rat_of_word (dv_current_pc s))" "unat (dv_current_pc s) < 2 ^ 24" "0 \<le> dv_power_rapl s"
  shows "ds_ok st = PC_STATUS_RELEASE" "10 \<le> unat (ds_exceed st)" "2 * unat (ds_exceed st) \<le> unat (dv_current_pc s)"
proof -
  from assms(1) obtain c where c: "float_to_uint (to_double (to_float (dv_my_limit s - dv_power_rapl s) * (1 / 2))) = Some c"
    and st: "ds_ok st = PC_STATUS_RELEASE" "ds_exceed st = c" "\<not> c < 10"
    by (auto simp: dvfs_get_powercap_status_def Let_def bind_eq_Some_conv split: if_splits)
  show "ds_ok st = PC_STATUS_RELEASE" "10 \<le> unat (ds_exceed st)" using st by (simp_all add: word_less_nat_alt)
  let ?x = "dv_my_limit s - dv_power_rapl s" and ?n = "unat (dv_current_pc s)"
  have lim: "dv_my_limit s = of_nat ?n" using assms(2,3) by (simp add: rat_of_word_def fl_of_nat)
  show "2 * unat (ds_exceed st) \<le> ?n"
  proof (cases "0 \<le> ?x")
    case True
    have f: "0 \<le> to_float ?x" "to_float ?x \<le> of_nat ?n"
      using fl_nonneg [OF True, of 24] fl_mono [OF True, of "of_nat ?n" 24] assms(3,4) lim by (simp_all add: fl_of_nat)
    have "to_double (to_float ?x * (1 / 2)) \<le> to_double (of_nat ?n * pow2 (- 1))"
      using f by (intro fl_mono) (simp_all add: pow2_def)
    also have "\<dots> = of_nat ?n * pow2 (- 1)" using assms(3) by (intro fl_dyadic) simp_all
    finally have d: "to_double (to_float ?x * (1 / 2)) \<le> of_nat ?n / 2" by (simp add: pow2_def)
    moreover have "0 \<le> to_double (to_float ?x * (1 / 2))" using f by (intro fl_nonneg) simp_all
    ultimately have "unat c = nat \<lfloor>to_double (to_float ?x * (1 / 2))\<rfloor>"
      using c assms(3) by (auto simp: float_to_uint_def unat_trunc_word split: if_splits)
    then show ?thesis using d st(2) by simp linarith
  next
    case False
    then have "to_float ?x \<le> 0" by (intro fl_nonpos) simp_all
    then have "to_double (to_float ?x * (1 / 2)) \<le> 0" by (intro fl_nonpos) simp_all
    then have "c = 0" using c by (cases "to_double (to_float ?x * (1 / 2)) = 0") (auto simp: float_to_uint_def trunc_word_def split: if_splits)
    then show ?thesis using st by simp
  qed
qed

text \<open>
  The power that the CPUs offer to release is at least 10 W and at most half of their limit,
  provided the limit of the last control step is still the one in force.
\<close>

theorem dvfs_release_bounded:
  assumes "dvfs_get_powercap_status current s = Some (True, st, s')"
    and "dv_my_limit s = to_float (rat_of_word (dv_current_pc s))" "unat (dv_current_pc s) < 2 ^ 24" "0 \<le> dv_power_rapl s"
  shows "ds_ok st = PC_STATUS_RELEASE \<and>
      10 \<le> unat (ds_exceed st) \<and>
      2 * unat (ds_exceed st) \<le> unat (dv_current_pc s)"
  using dvfs_release_bounded_parts [OF assms] by blast

text \<open>The same node at 2.2 GHz when 2.2 GHz is what the applications ask for.\<close>

definition dvfs_at_request :: "rat \<Rightarrow> dvfs" where
  "dvfs_at_request watts = dvfs_example\<lparr>dv_c_req_f := [2200000, 2200000, 0, 0], dv_my_limit := 100, dv_power_rapl := watts\<rparr>"

lemma at_request:
  "frequency_get_cpufreq_list (dv_freq dvfs_example) (Some [2200000, 2200000]) 2 = [2200000, 2200000]"
  "frequency_nfreq_to_npstate (dv_freq dvfs_example) [2200000, 2200000, 0, 0] [0, 0, 0, 0] 2 = [2, 2, 0, 0]"
  "frequency_pstate_to_freq (dv_freq dvfs_example) 0 = 2401000" "dv_num_pstates dvfs_example = 5"
  "frequency_pstate_to_freq (dv_freq dvfs_example) 4 = 1800000" "powercap_get_stress 2401000 1800000 2200000 2200000 = 0"
  "higher_pstate [2, 2, 0, 0] [2, 2, 0, 0] = False" "dv_c_freq dvfs_example = [0, 0, 0, 0]"
  "dv_c_pstate dvfs_example = [0, 0, 0, 0]" "dv_t_pstate dvfs_example = [0, 0, 0, 0]" "dv_node_size dvfs_example = 2"
  "dv_initialized dvfs_example = True" "dv_current_pc dvfs_example = 100"
  by code_simp+

text \<open>
  A node whose CPUs run as fast as requested but draw at least 2 W more than their limit has
  no defined power status: the negative headroom is converted to an unsigned number.
\<close>

theorem dvfs_over_limit_undefined:
  assumes "dv_initialized s" "dv_current_pc s \<noteq> POWER_CAP_UNLIMITED" "\<not> is_null_f (dv_c_req_f s)"
    and "\<not> higher_pstate
      (frequency_nfreq_to_npstate (dv_freq s)
        (frequency_get_cpufreq_list (dv_freq s) current (dv_node_size s) @ drop (dv_node_size s) (dv_c_freq s))
        (map (\<lambda>_. 0) (dv_c_pstate s)) (dv_node_size s))
      (frequency_nfreq_to_npstate (dv_freq s) (dv_c_req_f s) (map (\<lambda>_. 0) (dv_t_pstate s)) (dv_node_size s))"
    and "dv_my_limit s + 2 \<le> dv_power_rapl s"
  shows "dvfs_get_powercap_status current s = None"
proof -
  have "to_float (dv_my_limit s - dv_power_rapl s) \<le> to_float (- 2)" using assms(5) by (intro fl_mono_le) simp_all
  then have "to_double (to_float (dv_my_limit s - dv_power_rapl s) * (1 / 2)) \<le> to_double (- 1)"
    by (intro fl_mono_le) (simp_all add: fl_minus fl_numeral)
  then have "float_to_uint (to_double (to_float (dv_my_limit s - dv_power_rapl s) * (1 / 2))) = None"
    by (simp add: float_to_uint_def fl_minus fl_one)
  then show ?thesis using assms(1-4) by (simp add: dvfs_get_powercap_status_def Let_def)
qed

end
