(* ===== verification/Gpu_Plugin.thy ===== *)
theory Gpu_Plugin
  imports Dvfs_Plugin
begin

text \<open>
  The power capping of the GPUs by their power limits (\<^verbatim>\<open>daemon/powercap/gpu.c\<close>), a plugin of the
  power manager of a node.  The arrays with one entry per GPU are lists; what the GPUs measure
  in a period and what the applications request are arguments.  The vectors of limits that the
  plugin hands to the driver are collected in order in the field \<open>gp_written\<close>.  A table of
  frequencies is never empty.
\<close>

subsection \<open>State\<close>

record gpu_sample =
  gs_util :: u64
  gs_power :: rat
  gs_freq :: u64
  gs_working :: u32

record gpu_pc =
  gp_current_pc :: u64
  gp_default_pc :: u64
  gp_enabled :: bool
  gp_c_status :: u32
  gp_c_mode :: u32
  gp_num :: nat
  gp_min_power :: "u64 list"
  gp_max_power :: "u64 list"
  gp_curr_power :: "u64 list"
  gp_util :: "u64 list"
  gp_excess :: "i64 list"
  gp_freq_list :: "u64 list list"
  gp_t_freq :: "u64 list"
  gp_cons_power :: "rat list"
  gp_freq :: "u64 list"
  gp_total_util :: u64
  gp_written :: "u64 list list"

definition MIN_GPU_IDLE_POWER :: u64 where "MIN_GPU_IDLE_POWER = 40"

subsection \<open>Frequencies\<close>

fun gpu_freq_to_pstate :: "int \<Rightarrow> u64 list \<Rightarrow> u64 \<Rightarrow> int" where
  "gpu_freq_to_pstate i (x # y # fs) f =
     (if x = f then i else if x < f then i - 1 else gpu_freq_to_pstate (i + 1) (y # fs) f)"
| "gpu_freq_to_pstate i fs f = i"

subsection \<open>Distribution of the power between the GPUs\<close>

definition restore_powercap :: "state_t \<Rightarrow> gpu_pc \<Rightarrow> state_t \<times> gpu_pc" where
  "restore_powercap driver s =
     (driver, s\<lparr>gp_curr_power := gp_max_power s, gp_written := gp_written s @ [gp_max_power s]\<rparr>)"

definition gpu_alloc :: "u64 \<Rightarrow> u64 \<Rightarrow> u64 \<Rightarrow> rat" where
  "gpu_alloc limit total_util util =
     (let pdist = to_float (to_float (rat_of_word util) / to_float (rat_of_word total_util))
      in to_float (to_float (rat_of_word limit) * pdist))"

definition gpu_clamp :: "u64 \<Rightarrow> u64 \<Rightarrow> rat \<Rightarrow> u64" where
  "gpu_clamp min_power max_power alloc =
     (let ualloc = (if alloc > to_float (rat_of_word max_power) then to_float (rat_of_word max_power) else alloc);
          ualloc = (if ualloc < to_float (rat_of_word min_power) then to_float (rat_of_word min_power) else ualloc)
      in trunc_word ualloc)"

text \<open>The first phase gives the idle GPUs their minimum, the second shares the rest by utilisation.\<close>

definition gpu_idle_phase :: "gpu_pc \<Rightarrow> u64 list \<Rightarrow> u64 \<Rightarrow> u64 \<times> u64 \<times> u64 list" where
  "gpu_idle_phase s gpu_util limit =
     foldl (\<lambda>(total_util, limit, cur) i.
         if gpu_util ! i = 0 then (total_util + gpu_util ! i, limit - MIN_GPU_IDLE_POWER, cur[i := gp_min_power s ! i])
         else (total_util + gpu_util ! i, limit, cur))
       (0, limit, gp_curr_power s) [0..<gp_num s]"

definition gpu_busy_phase :: "gpu_pc \<Rightarrow> u64 list \<Rightarrow> u64 \<times> u64 \<times> u64 list \<Rightarrow> u64 list" where
  "gpu_busy_phase s gpu_util = (\<lambda>(total_util, limit, cur).
     foldl (\<lambda>cur i. if gpu_util ! i > 0
         then cur[i := gpu_clamp (gp_min_power s ! i) (gp_max_power s ! i) (gpu_alloc limit total_util (gpu_util ! i))]
         else cur) cur [0..<gp_num s])"

definition gpu_int_set_powercap_value :: "state_t \<Rightarrow> u64 \<Rightarrow> u64 list \<Rightarrow> gpu_pc \<Rightarrow> state_t \<times> gpu_pc" where
  "gpu_int_set_powercap_value driver limit gpu_util s =
     (let s = s\<lparr>gp_current_pc := limit\<rparr>
      in if gp_current_pc s = 1 then restore_powercap driver s
         else let cur = gpu_busy_phase s gpu_util (gpu_idle_phase s gpu_util limit)
              in (EAR_SUCCESS, s\<lparr>gp_curr_power := cur, gp_written := gp_written s @ [cur],
                                gp_util := take (gp_num s) gpu_util\<rparr>))"

definition gpu_int_set_per_device_powercap_value :: "u32 list \<Rightarrow> gpu_pc \<Rightarrow> state_t \<times> gpu_pc" where
  "gpu_int_set_per_device_powercap_value limit s =
     (let cur = foldl (\<lambda>cur i. cur[i := ucast (if limit ! i = POWER_CAP_UNLIMITED then ucast (gp_max_power s ! i) else limit ! i)])
                   (gp_curr_power s) [0..<gp_num s]
      in (EAR_SUCCESS, s\<lparr>gp_curr_power := cur, gp_written := gp_written s @ [cur]\<rparr>))"

text \<open>Moving the unused power of busy GPUs to a GPU that draws all of its own.\<close>

fun gpu_take_loop :: "u64 list \<Rightarrow> nat \<Rightarrow> nat list \<Rightarrow> u64 list \<times> i64 list \<Rightarrow> u64 list \<times> i64 list" where
  "gpu_take_loop util i [] p = p"
| "gpu_take_loop util i (j # js) (cur, excess) =
     (if util ! j = 0 then gpu_take_loop util i js (cur, excess)
      else if sint (excess ! j) > 5
      then let moved = excess ! j - 5;
               cur = cur[i := cur ! i + moved];
               cur = cur[j := cur ! j - moved];
               excess = excess[i := excess ! i + moved];
               excess = excess[j := 5]
           in if sint (excess ! i) \<ge> 0 then (cur, excess) else gpu_take_loop util i js (cur, excess)
      else gpu_take_loop util i js (cur, excess))"

definition gpu_redistribute :: "nat \<Rightarrow> u64 list \<Rightarrow> u64 list \<times> i64 list \<Rightarrow> u64 list \<times> i64 list" where
  "gpu_redistribute n util =
     (\<lambda>p. foldl (\<lambda>p i. if util ! i = 0 then p else if sint (snd p ! i) > 0 then p else gpu_take_loop util i [0..<n] p)
        p [0..<n])"

subsection \<open>The periodic step\<close>

text \<open>\<open>None\<close> in place of the samples is a reading that fails.\<close>

definition gpu_pc_thread_main :: "state_t \<Rightarrow> u64 list \<Rightarrow> gpu_sample list option \<Rightarrow> gpu_pc \<Rightarrow> state_t \<times> gpu_pc" where
  "gpu_pc_thread_main driver req_f samples s =
     (if gp_current_pc s \<le> 1 then (EAR_SUCCESS, s)
      else if \<not> gp_enabled s then (EAR_SUCCESS, s)
      else case samples of None \<Rightarrow> (EAR_ERROR, s)
      | Some diff \<Rightarrow>
        let n = gp_num s;
            gpu_local_util = foldl (\<lambda>u i. u + (ucast (gs_util (diff ! i)) :: u32)) 0 [0..<n];
            s = s\<lparr>gp_util := map (\<lambda>i. gs_util (diff ! i)) [0..<n], gp_cons_power := map (\<lambda>i. gs_power (diff ! i)) [0..<n],
                  gp_freq := map (\<lambda>i. gs_freq (diff ! i)) [0..<n],
                  gp_excess := map (\<lambda>i. gp_curr_power s ! i - trunc_word (gs_power (diff ! i))) [0..<n]\<rparr>;
            (cur, excess) = gpu_redistribute n (gp_util s) (gp_curr_power s, gp_excess s);
            s = s\<lparr>gp_t_freq := map (\<lambda>i. if req_f ! i = 0 then gp_freq_list s ! i ! 0 else req_f ! i) [0..<n],
                  gp_curr_power := cur, gp_excess := excess\<rparr>
        in if util_changed (ucast gpu_local_util) (gp_total_util s)
           then let (ret, s) = gpu_int_set_powercap_value driver (gp_current_pc s) (gp_util s) s
                in (EAR_SUCCESS, s\<lparr>gp_total_util := ucast gpu_local_util\<rparr>)
           else (EAR_SUCCESS, s))"

subsection \<open>The interface to the power manager\<close>

definition gpu_disable :: "gpu_pc \<Rightarrow> state_t \<times> gpu_pc" where
  "gpu_disable s = (EAR_SUCCESS, s\<lparr>gp_enabled := False\<rparr>)"

definition gpu_set_powercap_value :: "state_t \<Rightarrow> nat \<Rightarrow> u32 list \<Rightarrow> u64 list \<Rightarrow> gpu_pc \<Rightarrow> state_t \<times> gpu_pc" where
  "gpu_set_powercap_value driver domain limit gpu_util s =
     (if domain = LEVEL_NODE \<or> domain = LEVEL_DOMAIN
      then let (ret, s) = gpu_int_set_powercap_value driver (ucast (limit ! 0)) gpu_util s
           in (ret, if ret = EAR_SUCCESS then s\<lparr>gp_default_pc := ucast (limit ! 0), gp_c_status := PC_STATUS_OK\<rparr> else s)
      else gpu_int_set_per_device_powercap_value limit s)"

definition gpu_reset_powercap_value :: "state_t \<Rightarrow> gpu_pc \<Rightarrow> state_t \<times> gpu_pc" where
  "gpu_reset_powercap_value driver s =
     (let s = s\<lparr>gp_c_status := PC_STATUS_OK\<rparr> in gpu_int_set_powercap_value driver (gp_default_pc s) (gp_util s) s)"

definition gpu_release_powercap_allocation :: "state_t \<Rightarrow> u32 \<Rightarrow> gpu_pc \<Rightarrow> state_t \<times> gpu_pc" where
  "gpu_release_powercap_allocation driver decrease s =
     (let s = s\<lparr>gp_current_pc := gp_current_pc s - ucast decrease, gp_c_status := PC_STATUS_RELEASE\<rparr>
      in gpu_int_set_powercap_value driver (gp_current_pc s) (gp_util s) s)"

definition gpu_increase_powercap_allocation :: "state_t \<Rightarrow> u32 \<Rightarrow> gpu_pc \<Rightarrow> state_t \<times> gpu_pc" where
  "gpu_increase_powercap_allocation driver increase s =
     (let s = s\<lparr>gp_current_pc := gp_current_pc s + ucast increase\<rparr>;
          s = (if gp_current_pc s \<ge> gp_default_pc s then s\<lparr>gp_c_status := PC_STATUS_OK\<rparr> else s)
      in gpu_int_set_powercap_value driver (gp_current_pc s) (gp_util s) s)"

definition gpu_get_powercap_value :: "gpu_pc \<Rightarrow> u64" where
  "gpu_get_powercap_value s = gp_current_pc s"

definition gpu_set_status :: "u32 \<Rightarrow> gpu_pc \<Rightarrow> gpu_pc" where
  "gpu_set_status status s = s\<lparr>gp_c_status := status\<rparr>"

definition gpu_set_pc_mode :: "u32 \<Rightarrow> gpu_pc \<Rightarrow> gpu_pc" where
  "gpu_set_pc_mode mode s = s\<lparr>gp_c_mode := mode\<rparr>"

definition gpu_set_new_utilization :: "state_t \<Rightarrow> u64 list \<Rightarrow> gpu_pc \<Rightarrow> gpu_pc" where
  "gpu_set_new_utilization driver util s =
     (snd (gpu_int_set_powercap_value driver (gp_current_pc s) util s))\<lparr>gp_util := take (gp_num s) util\<rparr>"

definition gpu_set_app_req_freq :: "u64 list \<Rightarrow> gpu_pc \<Rightarrow> gpu_pc" where
  "gpu_set_app_req_freq f s = s\<lparr>gp_t_freq := map (\<lambda>i. f ! i) [0..<gp_num s]\<rparr>"

definition gpu_plugin_get_settings :: domain_settings where
  "gpu_plugin_get_settings = \<lparr>dm_node_ratio = to_float (2 / 100), dm_security_range = to_float (1 / 100)\<rparr>"

text \<open>The pass over the GPUs that decides between asking for power and releasing it.\<close>

fun gpu_status_loop :: "gpu_pc \<Rightarrow> u32 \<Rightarrow> nat list \<Rightarrow> domain_status \<Rightarrow> bool \<times> domain_status" where
  "gpu_status_loop s tmp_stress [] st =
     (if ds_exceed st < 10 then (False, st\<lparr>ds_exceed := 0, ds_ok := PC_STATUS_OK\<rparr>) else (True, st))"
| "gpu_status_loop s tmp_stress (i # is) st =
     (let more = ear_max (gpu_freq_to_pstate 0 (gp_freq_list s ! i) (gp_t_freq s ! i) -
                          gpu_freq_to_pstate 0 (gp_freq_list s ! i) (gp_freq s ! i)) 0
      in if tmp_stress \<noteq> 0 \<and> gp_t_freq s ! i > gp_freq s ! i \<and> gp_util s ! i > 0
         then if gp_c_status s = PC_STATUS_RELEASE then (False, st\<lparr>ds_ok := PC_STATUS_ASK_DEF, ds_exceed := 0\<rparr>)
              else (False, st\<lparr>ds_requested := ds_requested st + word_of_int more, ds_ok := PC_STATUS_GREEDY, ds_exceed := 0\<rparr>)
         else if gp_cons_power s ! i > to_double (rat_of_word (gp_curr_power s ! i))
         then (False, st\<lparr>ds_ok := PC_STATUS_GREEDY, ds_requested := ds_requested st + word_of_int more, ds_exceed := 0\<rparr>)
         else let g_tbr = trunc_word (to_double (to_double (to_double (rat_of_word (gp_curr_power s ! i)) - gp_cons_power s ! i) * (1 / 2)))
              in gpu_status_loop s tmp_stress is (st\<lparr>ds_exceed := ds_exceed st + g_tbr\<rparr>))"

definition gpu_get_powercap_status :: "gpu_pc \<Rightarrow> bool \<times> domain_status" where
  "gpu_get_powercap_status s =
     (let status = \<lparr>ds_ok = PC_STATUS_OK, ds_exceed = 0, ds_current_pc = ucast (gp_current_pc s), ds_stress = 0, ds_requested = 0\<rparr>;
          n = gp_num s;
          used = foldl (\<lambda>u i. if gp_util s ! i > 0 then u + 1 else u) (0 :: u32) [0..<n]
      in if gp_current_pc s = 1 then (False, status)
         else if list_ex (\<lambda>i. gp_t_freq s ! i = 0) [0..<n] then (False, status)
         else if used = 0
         then (True, status\<lparr>ds_ok := PC_STATUS_RELEASE, ds_exceed :=
                 (if n = 0 then ucast (gp_current_pc s)
                  else ucast (gp_current_pc s - ucast (40 * (of_nat n :: u32))))\<rparr>)
         else let tmp_stress = foldl (\<lambda>t i. if gp_t_freq s ! i > 0 \<and> gp_util s ! i \<noteq> 0
                    then t + powercap_get_stress (ucast (gp_freq_list s ! i ! 0)) (ucast (last (gp_freq_list s ! i)))
                               (ucast (gp_t_freq s ! i)) (ucast (gp_freq s ! i)) else t) 0 [0..<n] div used
              in gpu_status_loop s tmp_stress [0..<n]
                   (status\<lparr>ds_stress := ucast tmp_stress, ds_ok := PC_STATUS_RELEASE, ds_exceed := 0\<rparr>))"

subsection \<open>Moving power between GPUs\<close>

text \<open>
  What a GPU may still draw below its limit is its excess: \<open>c k\<close> is what GPU \<open>k\<close> draws.  The sum of
  the limits stays small, so no addition wraps around.
\<close>

definition excess_ok :: "nat \<Rightarrow> (nat \<Rightarrow> int) \<Rightarrow> u64 list \<times> i64 list \<Rightarrow> bool" where
  "excess_ok n c p \<longleftrightarrow> length (fst p) = n \<and> length (snd p) = n \<and>
     (\<forall>k < n. 0 \<le> c k \<and> c k < 2 ^ 62 \<and> sint (snd p ! k) = int (unat (fst p ! k)) - c k) \<and>
     (\<Sum>k < n. unat (fst p ! k)) < 2 ^ 62"

lemma sum_two_changes:
  assumes "i < n" "j < n" "i \<noteq> j" "f j = g j + d" "g i = f i + d" "\<And>k. k < n \<Longrightarrow> k \<noteq> i \<Longrightarrow> k \<noteq> j \<Longrightarrow> g k = f k"
  shows "(\<Sum>k < n. g k) = (\<Sum>k < (n :: nat). f k :: nat)"
proof -
  have s: "(\<Sum>k < n. h k) = h i + h j + (\<Sum>k \<in> {..<n} - {i} - {j}. h k)" for h :: "nat \<Rightarrow> nat"
    using assms(1-3) by (simp add: sum.remove [of "{..<n}" i] sum.remove [of "{..<n} - {i}" j])
  have "(\<Sum>k \<in> {..<n} - {i} - {j}. g k) = (\<Sum>k \<in> {..<n} - {i} - {j}. f k)" using assms(6) by (intro sum.cong) auto
  then show ?thesis using s [of f] s [of g] assms(4,5) by simp
qed

lemma unat_sint_nonneg: "0 \<le> sint (w :: i64) \<Longrightarrow> int (unat w) = sint w"
  using uint_sint [of w] sint_lt [of w] by (simp add: take_bit_int_eq_self of_nat_unat)

lemma sint_add_small:
  assumes "- (2 ^ 63) \<le> sint (a :: i64) + sint b" "sint a + sint b < 2 ^ 63"
  shows "sint (a + b) = sint a + sint b"
  using signed_take_bit_int_eq_self [of 63 "sint a + sint b"] assms by (simp add: sint_word_ariths)

lemma sint_dist64:
  assumes "unat (a :: i64) < 2 ^ 62" "unat (b :: i64) < 2 ^ 62"
  shows "sint (a - b) = int (unat a) - int (unat b)"
proof -
  have "sint w = int (unat w)" if "unat w < 2 ^ 62" for w :: i64
  proof -
    have "int (unat w) < 2 ^ 62" using that by simp
    then have "uint w < 2 ^ 62" by (simp only: of_nat_unat)
    then show ?thesis using signed_take_bit_int_eq_self [of 63 "uint w"] uint_ge_0 [of w] by (simp add: sint_uint of_nat_unat)
  qed
  then show ?thesis using assms signed_take_bit_int_eq_self [of 63 "int (unat a) - int (unat b)"]
    by (simp add: sint_word_ariths(2))
qed

lemma move_ok:
  assumes ok: "excess_ok n c (cur, exc)" and ij: "i < n" "j < n" "i \<noteq> j" and pos: "sint (exc ! j) > 5"
  defines "moved \<equiv> exc ! j - 5"
  defines "cur' \<equiv> cur[i := cur ! i + moved, j := cur[i := cur ! i + moved] ! j - moved]"
  defines "exc' \<equiv> exc[i := exc ! i + moved, j := 5]"
  shows "excess_ok n c (cur', exc')" and "(\<Sum>k < n. unat (cur' ! k)) = (\<Sum>k < n. unat (cur ! k))"
    and "int (unat (cur' ! j)) = c j + 5" and "unat (cur ! i) \<le> unat (cur' ! i)" and "k \<noteq> i \<Longrightarrow> k \<noteq> j \<Longrightarrow> cur' ! k = cur ! k"
proof -
  have len: "length cur = n" "length exc = n" using ok by (simp_all add: excess_ok_def)
  have val: "0 \<le> c k" "c k < 2 ^ 62" "sint (exc ! k) = int (unat (cur ! k)) - c k" if "k < n" for k
    using ok that by (simp_all add: excess_ok_def)
  have total: "(\<Sum>k < n. unat (cur ! k)) < 2 ^ 62" using ok by (simp add: excess_ok_def)
  have two: "unat (cur ! i) + unat (cur ! j) \<le> (\<Sum>k < n. unat (cur ! k))"
    using ij sum_mono2 [of "{..<n}" "{i, j}" "\<lambda>k. unat (cur ! k)"] by simp
  have m: "sint moved = sint (exc ! j) - 5"
    using pos val [OF ij(2)] total two sint_add_small [of "exc ! j" "- 5"] by (simp add: moved_def)
  then have m0: "0 < sint moved" "sint moved \<le> int (unat (cur ! j))" using pos val [OF ij(2)] by simp_all
  have mu: "int (unat moved) = sint moved"
    using m0(1) by (simp add: unat_sint_nonneg)
  have ui: "unat (cur ! i + moved) = unat (cur ! i) + unat moved"
    using mu m0 two total by (intro unat_plus) simp
  have uj: "unat (cur ! j - moved) = unat (cur ! j) - unat moved" "unat moved \<le> unat (cur ! j)"
    using mu m0 by (simp_all add: unat_dist)
  have nth: "cur' ! i = cur ! i + moved" "cur' ! j = cur ! j - moved" "k \<noteq> i \<Longrightarrow> k \<noteq> j \<Longrightarrow> cur' ! k = cur ! k"
    "exc' ! i = exc ! i + moved" "exc' ! j = 5" "k \<noteq> i \<Longrightarrow> k \<noteq> j \<Longrightarrow> exc' ! k = exc ! k" for k
    using ij len by (simp_all add: cur'_def exc'_def nth_list_update)
  show sum: "(\<Sum>k < n. unat (cur' ! k)) = (\<Sum>k < n. unat (cur ! k))"
    using ij uj ui nth by (intro sum_two_changes [of i n j _ _ "unat moved"]) simp_all
  show cj: "int (unat (cur' ! j)) = c j + 5" using nth uj mu m val [OF ij(2)] by simp
  show "unat (cur ! i) \<le> unat (cur' ! i)" "k \<noteq> i \<Longrightarrow> k \<noteq> j \<Longrightarrow> cur' ! k = cur ! k" using nth ui by simp_all
  have si: "sint (exc' ! i) = int (unat (cur' ! i)) - c i"
    using nth ui mu val [OF ij(1)] m0 total two sint_add_small [of "exc ! i" moved] by simp
  have "sint (exc' ! k) = int (unat (cur' ! k)) - c k" if "k < n" for k
    using si cj nth val(3) [OF that] by (cases "k = i"; cases "k = j") auto
  then show "excess_ok n c (cur', exc')" using val len total sum by (simp add: excess_ok_def cur'_def exc'_def)
qed

text \<open>What a redistribution keeps: the sum of the limits, and for each GPU its limit or 5 W above what it draws.\<close>

definition kept :: "nat \<Rightarrow> (nat \<Rightarrow> int) \<Rightarrow> u64 list \<times> i64 list \<Rightarrow> u64 list \<times> i64 list \<Rightarrow> bool" where
  "kept n c p p' \<longleftrightarrow> excess_ok n c p' \<and> (\<Sum>k < n. unat (fst p' ! k)) = (\<Sum>k < n. unat (fst p ! k)) \<and>
     (\<forall>k < n. unat (fst p ! k) \<le> unat (fst p' ! k) \<or> c k + 5 \<le> int (unat (fst p' ! k)))"

lemma kept_refl: "excess_ok n c p \<Longrightarrow> kept n c p p"
  by (simp add: kept_def)

lemma kept_trans: "kept n c p q \<Longrightarrow> kept n c q r \<Longrightarrow> kept n c p r"
  unfolding kept_def by (metis (no_types, lifting) le_trans of_nat_le_iff order_trans)

lemma take_loop_kept:
  "excess_ok n c p \<Longrightarrow> i < n \<Longrightarrow> sint (snd p ! i) \<le> 0 \<Longrightarrow> set js \<subseteq> {..<n} \<Longrightarrow> kept n c p (gpu_take_loop util i js p)"
proof (induction util i js p rule: gpu_take_loop.induct)
  case (1 util i p)
  then show ?case by (simp add: kept_refl)
next
  case (2 util i j js cur exc)
  show ?case
  proof (cases "util ! j \<noteq> 0 \<and> sint (exc ! j) > 5")
    case False
    then show ?thesis using 2 by auto
  next
    case True
    let ?m = "exc ! j - 5"
    let ?cur = "cur[i := cur ! i + ?m, j := cur[i := cur ! i + ?m] ! j - ?m]" and ?exc = "exc[i := exc ! i + ?m, j := 5]"
    have ij: "i < n" "j < n" "i \<noteq> j" "sint (exc ! j) > 5" using 2 True by auto
    note mv = move_ok [OF 2(4) ij]
    have "unat (cur ! k) \<le> unat (?cur ! k) \<or> c k + 5 \<le> int (unat (?cur ! k))" for k
      using mv(3-5) by (cases "k = i"; cases "k = j") auto
    then have step: "kept n c (cur, exc) (?cur, ?exc)" using mv(1,2) by (simp add: kept_def)
    then have ok: "excess_ok n c (?cur, ?exc)" by (simp add: kept_def)
    show ?thesis
    proof (cases "sint (?exc ! i) \<ge> 0")
      case stop: True
      then have "gpu_take_loop util i (j # js) (cur, exc) = (?cur, ?exc)" using True by (simp add: Let_def)
      then show ?thesis using step by simp
    next
      case go: False
      then have e: "gpu_take_loop util i (j # js) (cur, exc) = gpu_take_loop util i js (?cur, ?exc)"
        using True by (simp add: Let_def)
      have "kept n c (?cur, ?exc) (gpu_take_loop util i js (?cur, ?exc))"
        using True go ok ij 2(7) by (intro 2(2) [OF _ _ refl refl refl refl refl]) simp_all
      then show ?thesis using kept_trans [OF step] e by simp
    qed
  qed
qed

lemma redistribute_kept:
  assumes "excess_ok n c p"
  shows "kept n c p (foldl (\<lambda>p i. if P i then p else if sint (snd p ! i) > 0 then p else gpu_take_loop util i [0..<n] p) p [0..<n])"
proof -
  let ?h = "\<lambda>p i. if P i then p else if sint (snd p ! i) > 0 then p else gpu_take_loop util i [0..<n] p"
  have "kept n c p q \<Longrightarrow> set is \<subseteq> {..<n} \<Longrightarrow> kept n c p (foldl ?h q is)" for q "is"
  proof (induction "is" arbitrary: q)
    case (Cons i "is")
    have "excess_ok n c q" using Cons.prems(1) by (simp add: kept_def)
    then have "kept n c q (gpu_take_loop util i [0..<n] q)" if "sint (snd q ! i) \<le> 0"
      using take_loop_kept [of n c q i "[0..<n]" util] Cons.prems(2) that by (auto simp: atLeast0LessThan)
    then have "kept n c p (?h q i)" using Cons.prems(1) kept_trans by fastforce
    then show ?case using Cons by simp
  qed simp
  from this [of p "[0..<n]"] show ?thesis using kept_refl [OF assms] by (simp add: atLeast0LessThan)
qed

lemma initial_excess_ok:
  assumes "length cur = n" "(\<Sum>k < n. unat (cur ! k)) < 2 ^ 62" "\<forall>k < n. unat (drawn ! k) < 2 ^ 62"
  shows "excess_ok n (\<lambda>k. int (unat (drawn ! k))) (cur, map (\<lambda>k. cur ! k - drawn ! k) [0..<n])"
proof -
  have "unat (cur ! k) < 2 ^ 62" if "k < n" for k
    using assms(2) sum_mono2 [of "{..<n}" "{k}" "\<lambda>k. unat (cur ! k)"] that by simp
  then show ?thesis using assms by (simp add: excess_ok_def sint_dist64)
qed

subsection \<open>Requests of power\<close>

text \<open>In a descending table a higher frequency is never a higher P-state.\<close>

lemma gpu_pstate_ge: "sorted_wrt (>) (x # fs) \<Longrightarrow> f \<le> x \<Longrightarrow> i \<le> gpu_freq_to_pstate i (x # fs) f"
proof (induction fs arbitrary: x i)
  case (Cons y fs)
  show ?case
  proof (cases "x = f \<or> f \<le> y")
    case True
    then show ?thesis using Cons.IH [of y "i + 1"] Cons.prems by auto
  next
    case False
    then have "f < x" "y < f" using Cons.prems by auto
    then show ?thesis by (cases fs) auto
  qed
qed simp

lemma gpu_pstate_antimono:
  "sorted_wrt (>) fs \<Longrightarrow> f \<le> g \<Longrightarrow> gpu_freq_to_pstate i fs g \<le> gpu_freq_to_pstate i fs f"
proof (induction i fs f rule: gpu_freq_to_pstate.induct)
  case (1 i x y fs f)
  show ?case
  proof (cases "f < x")
    case True
    have rec: "gpu_freq_to_pstate (i + 1) (y # fs) g \<le> gpu_freq_to_pstate (i + 1) (y # fs) f"
      using 1 True by auto
    have "i \<le> gpu_freq_to_pstate (i + 1) (y # fs) f"
    proof (cases "f \<le> y")
      case True
      then show ?thesis using gpu_pstate_ge [of y fs f "i + 1"] 1(2) by simp
    next
      case False
      then show ?thesis by (cases fs) auto
    qed
    then show ?thesis using rec True by auto
  next
    case False
    then show ?thesis using 1(3) by auto
  qed
qed simp_all

lemma status_loop_requests:
  assumes "\<forall>i \<in> set is. sorted_wrt (>) (gp_freq_list s ! i) \<and> gp_freq s ! i \<le> gp_t_freq s ! i"
  shows "ds_requested (snd (gpu_status_loop s stress is st)) = ds_requested st"
  using assms
proof (induction "is" arbitrary: st)
  case (Cons i "is")
  have "ear_max (gpu_freq_to_pstate 0 (gp_freq_list s ! i) (gp_t_freq s ! i) -
      gpu_freq_to_pstate 0 (gp_freq_list s ! i) (gp_freq s ! i)) 0 = 0"
    using gpu_pstate_antimono [of "gp_freq_list s ! i" "gp_freq s ! i" "gp_t_freq s ! i" 0] Cons.prems
    by (simp add: ear_max_def)
  then show ?case using Cons by (simp add: Let_def)
qed simp

subsection \<open>Sharing a limit\<close>

definition idle_gpus :: "nat \<Rightarrow> u64 list \<Rightarrow> nat" where
  "idle_gpus n util = length (filter (\<lambda>i. util ! i = 0) [0..<n])"

definition util_sum :: "nat \<Rightarrow> u64 list \<Rightarrow> u64" where
  "util_sum n util = (\<Sum>i\<leftarrow>[0..<n]. util ! i)"

lemma foldl_update:
  "length (foldl (\<lambda>c i. if P i then c[i := v i] else c) c xs) = length c"
  "i < length c \<Longrightarrow> foldl (\<lambda>c i. if P i then c[i := v i] else c) c xs ! i = (if i \<in> set xs \<and> P i then v i else c ! i)"
  by (induction xs arbitrary: c) (auto simp: nth_list_update, metis nth_list_update_neq)

lemma idle_phase:
  assumes "length (gp_curr_power s) = gp_num s"
  shows "fst (gpu_idle_phase s util limit) = util_sum (gp_num s) util"
    and "fst (snd (gpu_idle_phase s util limit)) = limit - of_nat (idle_gpus (gp_num s) util) * MIN_GPU_IDLE_POWER"
    and "length (snd (snd (gpu_idle_phase s util limit))) = gp_num s"
    and "i < gp_num s \<Longrightarrow> snd (snd (gpu_idle_phase s util limit)) ! i =
      (if util ! i = 0 then gp_min_power s ! i else gp_curr_power s ! i)"
proof -
  let ?h = "\<lambda>(total_util, limit, cur) i.
    if util ! i = 0 then (total_util + util ! i, limit - MIN_GPU_IDLE_POWER, cur[i := gp_min_power s ! i])
    else (total_util + util ! i, limit, cur)"
  have "fst (foldl ?h (t, l, c) xs) = t + (\<Sum>i\<leftarrow>xs. util ! i) \<and>
      fst (snd (foldl ?h (t, l, c) xs)) = l - of_nat (length (filter (\<lambda>i. util ! i = 0) xs)) * MIN_GPU_IDLE_POWER \<and>
      snd (snd (foldl ?h (t, l, c) xs)) = foldl (\<lambda>c i. if util ! i = 0 then c[i := gp_min_power s ! i] else c) c xs" for t l c xs
    by (induction xs arbitrary: t l c) (simp_all add: algebra_simps)
  note this [of 0 limit "gp_curr_power s" "[0..<gp_num s]"]
  then show "fst (gpu_idle_phase s util limit) = util_sum (gp_num s) util"
    "fst (snd (gpu_idle_phase s util limit)) = limit - of_nat (idle_gpus (gp_num s) util) * MIN_GPU_IDLE_POWER"
    "length (snd (snd (gpu_idle_phase s util limit))) = gp_num s"
    "i < gp_num s \<Longrightarrow> snd (snd (gpu_idle_phase s util limit)) ! i =
      (if util ! i = 0 then gp_min_power s ! i else gp_curr_power s ! i)"
    using assms by (simp_all add: gpu_idle_phase_def util_sum_def idle_gpus_def foldl_update)
qed

lemma busy_phase:
  assumes "length cur = gp_num s"
  shows "length (gpu_busy_phase s util (t, l, cur)) = gp_num s"
    and "i < gp_num s \<Longrightarrow> gpu_busy_phase s util (t, l, cur) ! i =
      (if util ! i > 0 then gpu_clamp (gp_min_power s ! i) (gp_max_power s ! i) (gpu_alloc l t (util ! i)) else cur ! i)"
proof -
  let ?v = "\<lambda>i. gpu_clamp (gp_min_power s ! i) (gp_max_power s ! i) (gpu_alloc l t (util ! i))"
  show "length (gpu_busy_phase s util (t, l, cur)) = gp_num s"
    "i < gp_num s \<Longrightarrow> gpu_busy_phase s util (t, l, cur) ! i = (if util ! i > 0 then ?v i else cur ! i)"
    using assms by (simp_all add: gpu_busy_phase_def foldl_update)
qed

text \<open>The limit of each GPU after a new limit of all of them.\<close>

lemma gpu_limits:
  assumes "length (gp_curr_power s) = gp_num s" "limit \<noteq> 1"
    and "gpu_int_set_powercap_value driver limit util s = (ret, s')"
  shows "ret = EAR_SUCCESS" "gp_current_pc s' = limit" "length (gp_curr_power s') = gp_num s"
    and "i < gp_num s \<Longrightarrow> gp_curr_power s' ! i =
      (if util ! i = 0 then gp_min_power s ! i
       else gpu_clamp (gp_min_power s ! i) (gp_max_power s ! i)
         (gpu_alloc (limit - of_nat (idle_gpus (gp_num s) util) * MIN_GPU_IDLE_POWER) (util_sum (gp_num s) util) (util ! i)))"
proof -
  let ?s = "s\<lparr>gp_current_pc := limit\<rparr>"
  have s': "ret = EAR_SUCCESS" "gp_current_pc s' = limit"
    "gp_curr_power s' = gpu_busy_phase ?s util (gpu_idle_phase ?s util limit)"
    using assms(2,3) by (auto simp: gpu_int_set_powercap_value_def Let_def)
  then show "ret = EAR_SUCCESS" "gp_current_pc s' = limit" by simp_all
  have "length (gp_curr_power ?s) = gp_num ?s" using assms(1) by simp
  note idle = idle_phase [OF this, where util = util and limit = limit]
  note busy = busy_phase [OF idle(3), where util = util and t = "fst (gpu_idle_phase ?s util limit)" and
    l = "fst (snd (gpu_idle_phase ?s util limit))", unfolded prod.collapse]
  show "length (gp_curr_power s') = gp_num s" using busy(1) s'(3) by simp
  show "i < gp_num s \<Longrightarrow> gp_curr_power s' ! i =
      (if util ! i = 0 then gp_min_power s ! i
       else gpu_clamp (gp_min_power s ! i) (gp_max_power s ! i)
         (gpu_alloc (limit - of_nat (idle_gpus (gp_num s) util) * MIN_GPU_IDLE_POWER) (util_sum (gp_num s) util) (util ! i)))"
    using busy(2) [of i] idle s'(3) by (simp add: word_gt_0)
qed

lemma gpu_alloc_bounds:
  assumes "unat limit < 2 ^ 22" "unat util \<le> unat total_util" "unat total_util < 2 ^ 24"
  shows "0 \<le> gpu_alloc limit total_util util"
    and "gpu_alloc limit total_util util \<le>
      of_nat (unat limit) * (of_nat (unat util) / of_nat (unat total_util)) * (1 + 1 / 2 ^ 24) ^ 2"
proof -
  let ?x = "of_nat (unat util) / of_nat (unat total_util) :: rat" and ?l = "of_nat (unat limit) :: rat"
  have exact: "to_float (rat_of_word limit) = ?l" "to_float (rat_of_word util) = of_nat (unat util)"
    "to_float (rat_of_word total_util) = of_nat (unat total_util)"
    using assms by (simp_all add: rat_of_word_def fl_of_nat)
  have up: "to_float y \<le> y * (1 + 1 / 2 ^ 24)" if "0 \<le> y" for y using that by (intro fl_up) simp_all
  have x: "0 \<le> to_float ?x" "to_float ?x \<le> ?x * (1 + 1 / 2 ^ 24)" using up [of ?x] by (auto intro: fl_nonneg)
  have "to_float (?l * to_float ?x) \<le> ?l * to_float ?x * (1 + 1 / 2 ^ 24)" using x by (intro up) simp
  also have "\<dots> \<le> ?l * (?x * (1 + 1 / 2 ^ 24)) * (1 + 1 / 2 ^ 24)" using x by (intro mult_right_mono mult_left_mono) simp_all
  finally show "gpu_alloc limit total_util util \<le> ?l * ?x * (1 + 1 / 2 ^ 24) ^ 2"
    by (simp add: gpu_alloc_def exact power2_eq_square mult.assoc)
  show "0 \<le> gpu_alloc limit total_util util" using x by (simp add: gpu_alloc_def exact fl_nonneg)
qed

lemma gpu_clamp_le:
  assumes "0 \<le> alloc" "alloc < 2 ^ 64" "to_float (rat_of_word min_power) \<le> alloc"
    and "to_float (rat_of_word min_power) \<le> to_float (rat_of_word max_power)"
  shows "of_nat (unat (gpu_clamp min_power max_power alloc)) \<le> alloc"
proof -
  let ?u = "min alloc (to_float (rat_of_word max_power))"
  have "0 \<le> to_float (rat_of_word max_power)" by (intro fl_nonneg) (simp_all add: rat_of_word_def)
  moreover have "gpu_clamp min_power max_power alloc = trunc_word ?u" using assms by (auto simp: gpu_clamp_def)
  ultimately show ?thesis using assms unat_trunc_word [of ?u, where 'a = 64] of_int_floor_le [of ?u] by simp
qed

lemma unat_sum_list_less:
  "(\<Sum>i\<leftarrow>xs. unat (f i)) < 2 ^ LENGTH('a) \<Longrightarrow> unat (\<Sum>i\<leftarrow>xs. f i :: 'a::len word) = (\<Sum>i\<leftarrow>xs. unat (f i))"
proof (induction xs)
  case (Cons x xs)
  then have "unat (\<Sum>i\<leftarrow>xs. f i) = (\<Sum>i\<leftarrow>xs. unat (f i))" by simp
  then show ?case using Cons.prems unat_plus [of "f x" "\<Sum>i\<leftarrow>xs. f i"] by simp
qed simp

lemma idle_reserve: "(\<Sum>i < n. if util ! i = 0 then 40 else 0 :: rat) = of_nat (40 * idle_gpus n util)"
  by (induction n) (simp_all add: idle_gpus_def)

lemma unat_util_sum: "(\<Sum>i < n. unat (util ! i)) < 2 ^ 24 \<Longrightarrow> unat (util_sum n util) = (\<Sum>i < n. unat (util ! i))"
  using unat_sum_list_less [of "\<lambda>i. util ! i" "[0..<n]"]
  by (simp add: util_sum_def sum_list_distinct_conv_sum_set atLeast0LessThan)

subsection \<open>Properties\<close>

text \<open>Four GPUs of 60 to 300 W under a common limit.\<close>

definition gpu_example :: gpu_pc where
  "gpu_example = \<lparr>gp_current_pc = 800, gp_default_pc = 800, gp_enabled = True, gp_c_status = PC_STATUS_OK,
     gp_c_mode = PC_MODE_TARGET, gp_num = 4, gp_min_power = [30, 30, 30, 30], gp_max_power = [300, 300, 300, 300],
     gp_curr_power = [200, 200, 200, 200], gp_util = [50, 50, 50, 50], gp_excess = [0, 0, 0, 0],
     gp_freq_list = replicate 4 [1410, 1395, 1380, 1365], gp_t_freq = [1410, 1410, 1410, 1410],
     gp_cons_power = [100, 100, 100, 100], gp_freq = [1380, 1380, 1380, 1380], gp_total_util = 200, gp_written = []\<rparr>"

lemma gpu_redistribution_conserves_parts:
  assumes "length cur = n" "(\<Sum>k < n. unat (cur ! k)) < 2 ^ 62" "\<forall>k < n. unat (drawn ! k) < 2 ^ 62"
    and "gpu_redistribute n util (cur, map (\<lambda>k. cur ! k - drawn ! k) [0..<n]) = (cur', excess')"
  shows "(\<Sum>k < n. unat (cur' ! k)) = (\<Sum>k < n. unat (cur ! k))"
    and "\<forall>k < n. unat (cur ! k) \<le> unat (cur' ! k) \<or> unat (drawn ! k) + 5 \<le> unat (cur' ! k)"
proof -
  have "kept n (\<lambda>k. int (unat (drawn ! k))) (cur, map (\<lambda>k. cur ! k - drawn ! k) [0..<n]) (cur', excess')"
    using redistribute_kept [OF initial_excess_ok [OF assms(1-3)], of "\<lambda>i. util ! i = 0" util] assms(4)
    by (simp add: gpu_redistribute_def)
  then show "(\<Sum>k < n. unat (cur' ! k)) = (\<Sum>k < n. unat (cur ! k))"
    "\<forall>k < n. unat (cur ! k) \<le> unat (cur' ! k) \<or> unat (drawn ! k) + 5 \<le> unat (cur' ! k)"
    by (auto simp: kept_def)
qed

text \<open>
  C34. Moving power between GPUs conserves it: the limits of the GPUs keep their sum, and a GPU
  that gives power away keeps 5 W more than it draws.
\<close>

theorem gpu_redistribution_conserves:
  assumes "length cur = n" "(\<Sum>k < n. unat (cur ! k)) < 2 ^ 62" "\<forall>k < n. unat (drawn ! k) < 2 ^ 62"
    and "gpu_redistribute n util (cur, map (\<lambda>k. cur ! k - drawn ! k) [0..<n]) = (cur', excess')"
  shows "(\<Sum>k < n. unat (cur' ! k)) = (\<Sum>k < n. unat (cur ! k)) \<and>
      (\<forall>k < n. unat (cur ! k) \<le> unat (cur' ! k) \<or> unat (drawn ! k) + 5 \<le> unat (cur' ! k))"
  using gpu_redistribution_conserves_parts [OF assms] by blast

lemma gpu_redistribution_conserves_witness:
  "(\<Sum>k < 2. unat (fst (gpu_redistribute 2 [50, 50] ([200, 200], [120, - 10])) ! k)) = 400"
proof -
  have e: "gpu_redistribute 2 [50, 50] ([200, 200], map (\<lambda>k. [200, 200] ! k - [80, 210] ! k) [0..<2]) = ([85, 315], [5, 105])"
    by code_simp
  have s: "(\<Sum>k < 2. f k) = f 0 + f 1" for f :: "nat \<Rightarrow> nat" by (simp add: eval_nat_numeral)
  have "(\<Sum>k < 2. unat ([85, 315 :: u64] ! k)) = (\<Sum>k < 2. unat ([200, 200 :: u64] ! k))"
    by (rule gpu_redistribution_conserves [THEN conjunct1, OF _ _ _ e]) (simp_all add: s less_2_cases_iff)
  moreover have "map (\<lambda>k. [200, 200] ! k - [80, 210 :: u64] ! k) [0..<2] = [120, - 10]" by code_simp
  ultimately show ?thesis using e by (simp add: s)
qed

text \<open>
  C35. A limit is shared within its budget: when the idle GPUs need no more than the 40 W that are
  set aside for each of them and the share of every busy GPU reaches its minimum, the limits
  given to the GPUs add up to no more than the common limit.
\<close>

theorem gpu_limits_within_budget:
  assumes "length (gp_curr_power s) = gp_num s" "limit \<noteq> 1" "gpu_int_set_powercap_value driver limit util s = (ret, s')"
    and "(\<Sum>i < gp_num s. unat (util ! i)) < 2 ^ 24" "unat limit < 2 ^ 22" "40 * idle_gpus (gp_num s) util \<le> unat limit"
    and "\<forall>i < gp_num s. util ! i = 0 \<longrightarrow> unat (gp_min_power s ! i) \<le> 40"
    and "\<forall>i < gp_num s. util ! i \<noteq> 0 \<longrightarrow>
      to_float (rat_of_word (gp_min_power s ! i)) \<le> to_float (rat_of_word (gp_max_power s ! i)) \<and>
      to_float (rat_of_word (gp_min_power s ! i)) \<le>
        gpu_alloc (limit - of_nat (40 * idle_gpus (gp_num s) util)) (util_sum (gp_num s) util) (util ! i)"
  shows "(\<Sum>i < gp_num s. unat (gp_curr_power s' ! i)) \<le> unat limit"
proof -
  let ?n = "gp_num s" and ?idle = "idle_gpus (gp_num s) util" and ?t = "util_sum (gp_num s) util"
  define l where "l = limit - of_nat (40 * ?idle)"
  define share where "share i = (of_nat (unat l) :: rat) * (of_nat (unat (util ! i)) / of_nat (unat ?t)) * (1 + 1 / 2 ^ 24) ^ 2" for i
  have l: "unat l = unat limit - 40 * ?idle"
    using assms(5,6) by (simp add: l_def unat_dist unat_of_nat_less del: of_nat_mult)
  have t: "unat ?t = (\<Sum>i < ?n. unat (util ! i))" using assms(4) by (rule unat_util_sum)
  have caps: "of_nat (unat (gp_curr_power s' ! i)) \<le> (if util ! i = 0 then 40 else share i)" if i: "i < ?n" for i
  proof (cases "util ! i = 0")
    case True
    then show ?thesis using gpu_limits(4) [OF assms(1-3) i] assms(7) i by simp
  next
    case False
    have le: "unat (util ! i) \<le> unat ?t" using t sum_mono2 [of "{..<?n}" "{i}" "\<lambda>i. unat (util ! i)"] i by simp
    have small: "unat l < 2 ^ 22" "unat ?t < 2 ^ 24" using l assms(5) t assms(4) by simp_all
    note b = gpu_alloc_bounds [OF small(1) le small(2)]
    have "of_nat (unat (util ! i)) / of_nat (unat ?t) \<le> (1 :: rat)" using le by (auto simp: divide_le_eq_1)
    then have "share i \<le> of_nat (unat l) * 1 * (1 + 1 / 2 ^ 24) ^ 2"
      unfolding share_def by (intro mult_right_mono mult_left_mono) simp_all
    also have "\<dots> < 2 ^ 64" using small(1) by (simp add: power2_eq_square)
    finally have "gpu_alloc l ?t (util ! i) < 2 ^ 64" using b(2) by (simp add: share_def)
    moreover have "to_float (rat_of_word (gp_min_power s ! i)) \<le> to_float (rat_of_word (gp_max_power s ! i))"
      "to_float (rat_of_word (gp_min_power s ! i)) \<le> gpu_alloc l ?t (util ! i)"
      using assms(8) i False by (simp_all add: l_def)
    ultimately have "of_nat (unat (gpu_clamp (gp_min_power s ! i) (gp_max_power s ! i) (gpu_alloc l ?t (util ! i)))) \<le> share i"
      using gpu_clamp_le [OF b(1)] b(2) by (fastforce simp: share_def)
    moreover have "limit - of_nat ?idle * MIN_GPU_IDLE_POWER = l" by (simp add: l_def MIN_GPU_IDLE_POWER_def mult.commute)
    ultimately show ?thesis using gpu_limits(4) [OF assms(1-3) i] False by simp
  qed
  have nonneg: "0 \<le> share i" for i by (simp add: share_def)
  have "(\<Sum>i < ?n. of_nat (unat (gp_curr_power s' ! i)) :: rat) \<le> (\<Sum>i < ?n. (if util ! i = 0 then 40 else 0) + share i)"
  proof (rule sum_mono)
    fix i assume "i \<in> {..<?n}"
    then show "of_nat (unat (gp_curr_power s' ! i)) \<le> (if util ! i = 0 then 40 else 0) + share i"
      using caps [of i] nonneg [of i] by (auto split: if_splits)
  qed
  also have "\<dots> = of_nat (40 * ?idle) + (\<Sum>i < ?n. share i)"
    by (simp only: sum.distrib idle_reserve)
  also have "(\<Sum>i < ?n. share i) = of_nat (unat l) * (of_nat (unat ?t) / of_nat (unat ?t)) * (1 + 1 / 2 ^ 24) ^ 2"
  proof -
    have "share = (\<lambda>i. of_nat (unat l) * (1 + 1 / 2 ^ 24) ^ 2 / of_nat (unat ?t) * of_nat (unat (util ! i)))"
      by (rule ext) (simp add: share_def)
    then show ?thesis by (simp only: sum_distrib_left [symmetric] of_nat_sum [symmetric] t [symmetric]) simp
  qed
  also have "\<dots> \<le> of_nat (unat l) * 1 * (1 + 1 / 2 ^ 24) ^ 2"
    by (intro mult_right_mono mult_left_mono) (simp_all add: divide_le_eq_1)
  also have "\<dots> < of_nat (unat l) + 1" using l assms(5) by (simp add: power2_eq_square)
  finally have "rat_of_nat (\<Sum>i < ?n. unat (gp_curr_power s' ! i)) < of_nat (40 * ?idle + unat l + 1)" by simp
  then show ?thesis using l assms(6) by (simp only: of_nat_less_iff)
qed

lemma gpu_limits_within_budget_witness:
  "(\<Sum>i < 4. unat (gp_curr_power (snd (gpu_int_set_powercap_value EAR_SUCCESS 400 [0, 50, 50, 0] gpu_example)) ! i)) \<le> 400"
proof -
  have idle: "idle_gpus 4 [0, 50, 50, 0] = 2" "util_sum 4 [0, 50, 50, 0] = 100" by code_simp+
  have alloc: "gpu_alloc 320 100 50 = 160"
    by (simp add: gpu_alloc_def Let_def rat_of_word_def fl_numeral fl_half)
  have sum: "(\<Sum>i < 4. unat ([0, 50, 50, 0 :: u64] ! i)) = 100" by code_simp
  have less: "i < 4 \<longleftrightarrow> i = 0 \<or> i = 1 \<or> i = 2 \<or> i = 3" for i :: nat by auto
  show ?thesis
    using gpu_limits_within_budget [of gpu_example 400 EAR_SUCCESS "[0, 50, 50, 0]" EAR_SUCCESS
        "snd (gpu_int_set_powercap_value EAR_SUCCESS 400 [0, 50, 50, 0] gpu_example)"]
    by (simp add: gpu_example_def idle sum alloc less gpu_int_set_powercap_value_def Let_def rat_of_word_def fl_numeral)
qed

text \<open>
  When the limit is smaller than the power set aside for the idle GPUs, the subtraction wraps
  around and every busy GPU gets its maximum power instead of a share of the limit.
\<close>

theorem gpu_idle_reserve_underflows:
  assumes "length (gp_curr_power s) = gp_num s" "limit \<noteq> 1" "gpu_int_set_powercap_value driver limit util s = (ret, s')"
    and "unat limit < 40 * idle_gpus (gp_num s) util" "40 * idle_gpus (gp_num s) util < 2 ^ 32"
    and "(\<Sum>i < gp_num s. unat (util ! i)) < 2 ^ 24" "i < gp_num s" "util ! i \<noteq> 0"
    and "gp_min_power s ! i \<le> gp_max_power s ! i" "unat (gp_max_power s ! i) < 2 ^ 24"
  shows "gp_curr_power s' ! i = gp_max_power s ! i"
proof -
  let ?idle = "idle_gpus (gp_num s) util" and ?t = "util_sum (gp_num s) util" and ?mx = "gp_max_power s ! i"
  define l where "l = limit - of_nat ?idle * MIN_GPU_IDLE_POWER"
  have t: "unat ?t = (\<Sum>i < gp_num s. unat (util ! i))" "unat ?t < 2 ^ 24"
    using assms(6) by (simp_all add: unat_util_sum)
  have u: "1 \<le> unat (util ! i)" "unat (util ! i) < 2 ^ 24"
    using assms(6-8) sum_mono2 [of "{..<gp_num s}" "{i}" "\<lambda>i. unat (util ! i)"] by (simp_all add: Suc_le_eq unat_gt_0)
  have "of_nat ?idle * MIN_GPU_IDLE_POWER = of_nat (40 * ?idle)" by (simp add: MIN_GPU_IDLE_POWER_def mult.commute)
  then have l: "2 ^ 63 \<le> unat l"
    using assms(4,5) by (simp add: l_def unat_sub_if_size unat_of_nat_less word_size del: of_nat_mult)
  have exact: "to_float (of_nat (unat (util ! i))) = of_nat (unat (util ! i))" "to_float (of_nat (unat ?t)) = of_nat (unat ?t)"
    "to_float (of_nat (unat ?mx)) = of_nat (unat ?mx)" "to_float (of_nat (unat (gp_min_power s ! i))) = of_nat (unat (gp_min_power s ! i))"
    using u t(2) assms(9,10) by (simp_all add: fl_of_nat word_le_nat_alt)
  have "(2 ^ 63 :: rat) \<le> to_float (rat_of_word l)"
    using fl_mono_le [of "2 ^ 63" "rat_of_word l" 24] fl_pow [of 24 63] l by (simp add: rat_of_word_def)
  moreover have "1 / 2 ^ 24 \<le> to_float (of_nat (unat (util ! i)) / of_nat (unat ?t))"
  proof -
    have "0 < unat ?t" using u(1) t(1) assms(7) by (simp add: sum_pos2 [of _ i])
    then have "1 / 2 ^ 24 \<le> (of_nat (unat (util ! i)) / of_nat (unat ?t) :: rat)" using u(1) t(2) by (intro frac_le) simp_all
    then show ?thesis using fl_mono_le [of "1 / 2 ^ 24" _ 24] fl_inverse_pow [of 24 24] by fastforce
  qed
  ultimately have "2 ^ 63 * (1 / 2 ^ 24) \<le> to_float (rat_of_word l) * to_float (of_nat (unat (util ! i)) / of_nat (unat ?t))"
    by (intro mult_mono) simp_all
  then have "to_float (2 ^ 39) \<le> gpu_alloc l ?t (util ! i)"
    unfolding gpu_alloc_def Let_def rat_of_word_def exact by (intro fl_mono_le) simp_all
  then have "of_nat (unat ?mx) < gpu_alloc l ?t (util ! i)" using assms(10) fl_pow [of 24 39] by simp
  then have "gpu_clamp (gp_min_power s ! i) ?mx (gpu_alloc l ?t (util ! i)) = ?mx"
    using assms(9) by (simp add: gpu_clamp_def rat_of_word_def exact Let_def word_le_nat_alt trunc_word_def flip: ucast_of_nat)
  then show ?thesis using gpu_limits(4) [OF assms(1-3,7)] assms(8) by (simp add: l_def)
qed

text \<open>
  GPUs that run slower than requested never ask for a positive amount of power: the P-states
  are subtracted in the wrong order and the negative difference is replaced by zero.
\<close>

theorem gpu_greedy_requests_nothing:
  assumes "\<forall>i < gp_num s. sorted_wrt (>) (gp_freq_list s ! i) \<and> gp_freq s ! i \<le> gp_t_freq s ! i"
  shows "ds_requested (snd (gpu_get_powercap_status s)) = 0"
  using assms by (simp add: gpu_get_powercap_status_def Let_def status_loop_requests)

end
