(* ===== verification/Gpu_Dvfs.thy ===== *)
theory Gpu_Dvfs
  imports Gpu_Plugin
begin

text \<open>
  The power capping of the GPUs by frequency scaling (\<^verbatim>\<open>daemon/powercap/gpu_dvfs.c\<close>), the default
  plugin of the GPU domain.  The conventions are those of the other GPU plugin; the vectors of
  frequencies handed to the driver are collected in the field \<open>gd_written\<close>.
\<close>

subsection \<open>State\<close>

record gpu_dvfs =
  gd_idle_power :: u32
  gd_pc_enabled :: bool
  gd_enabled :: bool
  gd_current_pc :: u64
  gd_default_pc :: u64
  gd_c_status :: u32
  gd_c_mode :: u32
  gd_num :: nat
  gd_max_power :: "u64 list"
  gd_curr_power :: "u64 list"
  gd_util :: "u64 list"
  gd_util_wait :: "u64 list"
  gd_prev_freq :: "u64 list"
  gd_excess :: "i64 list"
  gd_c_freq :: "u64 list"
  gd_t_freq :: "u64 list"
  gd_n_freq :: "u64 list"
  gd_freq_list :: "u64 list list"
  gd_status :: u32
  gd_ask_def :: bool
  gd_initialized :: bool
  gd_dvfs_util :: u32
  gd_greedy :: bool
  gd_diff :: "gpu_sample list"
  gd_written :: "u64 list list"

subsection \<open>Frequencies\<close>

text \<open>The position of a frequency in a table; the length of the table when it is not there.\<close>

fun freq_position :: "u64 \<Rightarrow> u64 list \<Rightarrow> nat" where
  "freq_position f [] = 0"
| "freq_position f (x # fs) = (if x = f then 0 else Suc (freq_position f fs))"

definition gpudvfs_freq_to_pstate :: "u64 list \<Rightarrow> u64 \<Rightarrow> nat" where
  "gpudvfs_freq_to_pstate fs f = (if freq_position f fs < length fs - 1 then freq_position f fs else length fs - 1)"

definition select_lower_gpu_freq :: "u64 list \<Rightarrow> u64 \<Rightarrow> u32 \<Rightarrow> u64" where
  "select_lower_gpu_freq fs f pstate_steps =
     (if f = last fs then f
      else let j = freq_position f fs
           in if j = length fs then last fs
              else if j < length fs - 1
              then fs ! unat (ear_min (of_nat j + pstate_steps) (of_nat (length fs) - 1))
              else f)"

definition select_higher_gpu_freq :: "u64 list \<Rightarrow> u64 \<Rightarrow> int \<Rightarrow> u64" where
  "select_higher_gpu_freq fs f extra_steps =
     (if f = hd fs then f
      else let j = freq_position f fs
           in if j = length fs then hd fs else fs ! nat (ear_max (int j - extra_steps) 0))"

subsection \<open>Distribution of the power between the GPUs\<close>

definition gpudvfs_restore_frequency :: "u64 list \<Rightarrow> gpu_dvfs \<Rightarrow> gpu_dvfs" where
  "gpudvfs_restore_frequency req_f s =
     (let f = map (\<lambda>i. if req_f ! i = 0 then gd_freq_list s ! i ! 0 else req_f ! i) [0..<gd_num s]
      in s\<lparr>gd_t_freq := f, gd_n_freq := f, gd_written := gd_written s @ [f]\<rparr>)"

definition gpudvfs_idle_phase :: "gpu_sample list \<Rightarrow> u64 list \<Rightarrow> u64 \<Rightarrow> gpu_dvfs \<Rightarrow> u32 \<times> u64 \<times> gpu_dvfs" where
  "gpudvfs_idle_phase idle gpu_util limit s =
     foldl (\<lambda>(total_util, limit, s) i.
         let total_util = total_util + ucast (gpu_util ! i)
         in if gpu_util ! i = 0
            then let watts = to_double (gs_power (idle ! i) + 5)
                 in (total_util, limit - trunc_word watts,
                     s\<lparr>gd_curr_power := (gd_curr_power s)[i := trunc_word watts], gd_idle_power := trunc_word watts\<rparr>)
            else (total_util, limit, s))
       (0, limit, s) [0..<gd_num s]"

definition gpudvfs_alloc :: "u64 \<Rightarrow> u32 \<Rightarrow> u64 \<Rightarrow> u64" where
  "gpudvfs_alloc limit total_util util =
     trunc_word (to_float (to_float (rat_of_word limit) *
       to_float (to_float (rat_of_word util) / to_float (rat_of_word total_util))))"

definition gpudvfs_busy_phase :: "u64 list \<Rightarrow> u32 \<Rightarrow> u64 \<Rightarrow> gpu_dvfs \<Rightarrow> gpu_dvfs" where
  "gpudvfs_busy_phase gpu_util total_util limit s =
     s\<lparr>gd_curr_power := foldl (\<lambda>cur i. if gpu_util ! i > 0
           then cur[i := (let ualloc = gpudvfs_alloc limit total_util (gpu_util ! i)
                          in if ualloc > gd_max_power s ! i then gd_max_power s ! i else ualloc)]
           else cur) (gd_curr_power s) [0..<gd_num s]\<rparr>"

definition gpudvfs_int_set_powercap_value ::
  "u64 list \<Rightarrow> gpu_sample list option \<Rightarrow> u64 \<Rightarrow> u64 list \<Rightarrow> gpu_dvfs \<Rightarrow> state_t \<times> gpu_dvfs" where
  "gpudvfs_int_set_powercap_value req_f idle limit gpu_util s =
     (let s = s\<lparr>gd_current_pc := limit\<rparr>
      in if gd_current_pc s = 1 then (EAR_SUCCESS, gpudvfs_restore_frequency req_f s)
         else case idle of None \<Rightarrow> (EAR_ERROR, s)
         | Some idle \<Rightarrow>
             let (total_util, limit, s) = gpudvfs_idle_phase idle gpu_util limit s;
                 s = gpudvfs_busy_phase gpu_util total_util limit (s\<lparr>gd_dvfs_util := total_util\<rparr>)
             in (EAR_SUCCESS, s\<lparr>gd_util := take (gd_num s) gpu_util\<rparr>))"

definition gpudvfs_redistribute :: "nat \<Rightarrow> u64 list \<Rightarrow> u64 list \<times> i64 list \<Rightarrow> u64 list \<times> i64 list" where
  "gpudvfs_redistribute n util =
     (\<lambda>p. foldl (\<lambda>p i. if sint (snd p ! i) > 0 then p else gpu_take_loop util i [0..<n] p) p [0..<n])"

subsection \<open>The control step\<close>

text \<open>The decision for one GPU.  A conversion of a floating value to an integer drops the fraction.\<close>

definition gpudvfs_above :: "nat \<Rightarrow> gpu_dvfs \<Rightarrow> gpu_dvfs" where
  "gpudvfs_above i s =
     (let s = (if gd_status s = PC_STATUS_RELEASE then s\<lparr>gd_ask_def := True\<rparr> else s);
          over = to_double (gs_power (gd_diff s ! i) - to_double (rat_of_word (gd_curr_power s ! i)));
          pstate_steps = ear_max (trunc_word over - 2) (1 :: u32)
      in s\<lparr>gd_n_freq := (gd_n_freq s)[i := select_lower_gpu_freq (gd_freq_list s ! i) (gd_c_freq s ! i) pstate_steps],
           gd_greedy := True\<rparr>)"

definition gpudvfs_below :: "nat \<Rightarrow> gpu_dvfs \<Rightarrow> gpu_dvfs" where
  "gpudvfs_below i s =
     (if gd_c_freq s ! i < gd_t_freq s ! i \<and> gd_t_freq s ! i > 0
      then let extra = sint (trunc_word (to_double (to_double (rat_of_word (gd_curr_power s ! i)) - gs_power (gd_diff s ! i))) :: i32);
               extra = (if extra > 5 then extra - 2 else 1);
               s = s\<lparr>gd_n_freq := (gd_n_freq s)[i :=
                 ear_min (select_higher_gpu_freq (gd_freq_list s ! i) (gd_c_freq s ! i) extra) (gd_t_freq s ! i)]\<rparr>
           in if gd_status s = PC_STATUS_RELEASE \<and> gd_t_freq s ! i > 0 \<and> gd_n_freq s ! i < gd_t_freq s ! i
              then s\<lparr>gd_ask_def := True\<rparr> else s
      else s)"

definition gpudvfs_control :: "nat \<Rightarrow> gpu_dvfs \<Rightarrow> gpu_dvfs" where
  "gpudvfs_control i s =
     (let s = (if gd_t_freq s ! i = 0 then s\<lparr>gd_t_freq := (gd_t_freq s)[i := gd_freq_list s ! i ! 0]\<rparr> else s)
      in if gd_util s ! i = 0
         then let s = s\<lparr>gd_util_wait := (gd_util_wait s)[i := gd_util_wait s ! i + 10]\<rparr>
              in if gd_util_wait s ! i mod 50 = 0
                 then s\<lparr>gd_prev_freq := (gd_prev_freq s)[i := ear_max (gd_c_freq s ! i) (gd_prev_freq s ! i)],
                        gd_n_freq := (gd_n_freq s)[i := last (gd_freq_list s ! i)]\<rparr>
                 else s
         else
           let s = (if gd_prev_freq s ! i > 0
                    then s\<lparr>gd_c_freq := (gd_c_freq s)[i := gd_prev_freq s ! i], gd_prev_freq := (gd_prev_freq s)[i := 0]\<rparr> else s);
               s = (if gd_t_freq s ! i > 0
                    then s\<lparr>gd_c_freq := (gd_c_freq s)[i := ear_min (gd_c_freq s ! i) (gd_t_freq s ! i)]\<rparr> else s);
               s = s\<lparr>gd_n_freq := (gd_n_freq s)[i := gd_c_freq s ! i]\<rparr>
           in if gs_power (gd_diff s ! i) > to_double (rat_of_word (gd_curr_power s ! i)) then gpudvfs_above i s
              else gpudvfs_below i s)"

text \<open>
  The periodic step: the samples of the last period, \<^const>\<open>None\<close> when the reading fails, the
  frequency limits in force and the idle sample that a new distribution would read.
\<close>

definition gpu_dvfs_pc_thread_main ::
  "u64 list \<Rightarrow> gpu_sample list option \<Rightarrow> gpu_sample list option \<Rightarrow> u64 list \<Rightarrow> gpu_dvfs \<Rightarrow> state_t \<times> gpu_dvfs" where
  "gpu_dvfs_pc_thread_main req_f samples idle limits s =
     (if \<not> gd_pc_enabled s then (EAR_SUCCESS, s)
      else case samples of None \<Rightarrow> (EAR_ERROR, s)
      | Some diff \<Rightarrow>
        let n = gd_num s;
            s = s\<lparr>gd_t_freq := take n req_f, gd_diff := diff\<rparr>
        in if gs_power (diff ! 0) = 0 then (EAR_SUCCESS, s)
           else
             let local_util = foldl (\<lambda>u i. u + (ucast (gs_util (diff ! i)) :: u32)) 0 [0..<n];
                 s = s\<lparr>gd_c_freq := limits, gd_util := map (\<lambda>i. gs_util (diff ! i)) [0..<n],
                       gd_excess := map (\<lambda>i. gd_curr_power s ! i - trunc_word (gs_power (diff ! i))) [0..<n]\<rparr>;
                 s = (if util_changed (ucast local_util) (ucast (gd_dvfs_util s))
                      then snd (gpudvfs_int_set_powercap_value req_f idle (gd_current_pc s) (gd_util s) s) else s);
                 s = s\<lparr>gd_greedy := False\<rparr>
             in if gd_current_pc s \<le> 1 then (EAR_SUCCESS, s)
                else let (cur, excess) = gpudvfs_redistribute n (gd_util s) (gd_curr_power s, gd_excess s);
                         s = foldl (\<lambda>s i. gpudvfs_control i s) (s\<lparr>gd_curr_power := cur, gd_excess := excess\<rparr>) [0..<n]
                     in (EAR_SUCCESS, s\<lparr>gd_written := gd_written s @ [gd_n_freq s]\<rparr>))"

subsection \<open>The interface to the power manager\<close>

definition gpudvfs_set_powercap_value ::
  "u64 list \<Rightarrow> gpu_sample list option \<Rightarrow> nat \<Rightarrow> u32 list \<Rightarrow> u64 list \<Rightarrow> gpu_dvfs \<Rightarrow> state_t \<times> gpu_dvfs" where
  "gpudvfs_set_powercap_value req_f idle domain limit gpu_util s =
     (let s = s\<lparr>gd_status := PC_STATUS_OK, gd_ask_def := False\<rparr>;
          s = s\<lparr>gd_default_pc := (if domain = LEVEL_DEVICE
                then ucast (foldl (\<lambda>new_limit i. new_limit + limit ! i) 0 [0..<gd_num s]) else ucast (limit ! 0))\<rparr>
      in gpudvfs_int_set_powercap_value req_f idle (gd_default_pc s) gpu_util s)"

definition gpudvfs_reset_powercap_value :: "u64 list \<Rightarrow> gpu_sample list option \<Rightarrow> gpu_dvfs \<Rightarrow> state_t \<times> gpu_dvfs" where
  "gpudvfs_reset_powercap_value req_f idle s =
     (let s = s\<lparr>gd_status := PC_STATUS_OK, gd_ask_def := False\<rparr>
      in gpudvfs_int_set_powercap_value req_f idle (gd_default_pc s) (gd_util s) s)"

definition gpudvfs_release_powercap_allocation ::
  "u64 list \<Rightarrow> gpu_sample list option \<Rightarrow> u32 \<Rightarrow> gpu_dvfs \<Rightarrow> state_t \<times> gpu_dvfs" where
  "gpudvfs_release_powercap_allocation req_f idle decrease s =
     (let s = s\<lparr>gd_current_pc := gd_current_pc s - ucast decrease, gd_status := PC_STATUS_RELEASE\<rparr>
      in gpudvfs_int_set_powercap_value req_f idle (gd_current_pc s) (gd_util s) s)"

definition gpudvfs_increase_powercap_allocation ::
  "u64 list \<Rightarrow> gpu_sample list option \<Rightarrow> u32 \<Rightarrow> gpu_dvfs \<Rightarrow> state_t \<times> gpu_dvfs" where
  "gpudvfs_increase_powercap_allocation req_f idle increase s =
     (let s = s\<lparr>gd_current_pc := gd_current_pc s + ucast increase\<rparr>;
          s = (if gd_current_pc s \<ge> gd_default_pc s then s\<lparr>gd_status := PC_STATUS_OK\<rparr> else s)
      in gpudvfs_int_set_powercap_value req_f idle (gd_current_pc s) (gd_util s) s)"

definition gpudvfs_set_status :: "u32 \<Rightarrow> gpu_dvfs \<Rightarrow> gpu_dvfs" where
  "gpudvfs_set_status status s = s\<lparr>gd_c_status := status\<rparr>"

definition gpudvfs_set_pc_mode :: "u32 \<Rightarrow> gpu_dvfs \<Rightarrow> gpu_dvfs" where
  "gpudvfs_set_pc_mode mode s = s\<lparr>gd_c_mode := mode\<rparr>"

definition gpudvfs_set_new_utilization :: "u64 list \<Rightarrow> gpu_sample list option \<Rightarrow> u64 list \<Rightarrow> gpu_dvfs \<Rightarrow> gpu_dvfs" where
  "gpudvfs_set_new_utilization req_f idle util s =
     snd (gpudvfs_int_set_powercap_value req_f idle (gd_current_pc s) util s)"

definition gpudvfs_set_app_req_freq :: "u64 list \<Rightarrow> gpu_dvfs \<Rightarrow> gpu_dvfs" where
  "gpudvfs_set_app_req_freq f s = s\<lparr>gd_t_freq := map (\<lambda>i. f ! i) [0..<gd_num s]\<rparr>"

fun gpudvfs_status_loop :: "gpu_dvfs \<Rightarrow> nat list \<Rightarrow> domain_status \<Rightarrow> bool \<times> domain_status" where
  "gpudvfs_status_loop s [] st =
     (if ds_exceed st < 10 then (False, st\<lparr>ds_exceed := 0, ds_ok := PC_STATUS_OK\<rparr>) else (True, st))"
| "gpudvfs_status_loop s (i # is) st =
     (let more = int (gpudvfs_freq_to_pstate (gd_freq_list s ! i) (gd_t_freq s ! i)) -
                 int (gpudvfs_freq_to_pstate (gd_freq_list s ! i) (gd_c_freq s ! i));
          greedy = st\<lparr>ds_ok := PC_STATUS_GREEDY, ds_exceed := 0, ds_requested := ds_requested st + word_of_int more\<rparr>
      in if gd_c_freq s ! i < gd_t_freq s ! i \<and> gd_util s ! i > 0 \<and> gd_greedy s then (False, greedy)
         else if gd_c_freq s ! i \<ge> gd_t_freq s ! i \<and> gd_util s ! i > 0
         then if gs_power (gd_diff s ! i) > to_double (rat_of_word (gd_curr_power s ! i)) then (False, greedy)
              else let g_tbr = trunc_word (to_double (to_double (to_double (rat_of_word (gd_curr_power s ! i)) -
                                 gs_power (gd_diff s ! i)) * (1 / 2)))
                   in gpudvfs_status_loop s is (st\<lparr>ds_exceed := ds_exceed st + g_tbr\<rparr>)
         else gpudvfs_status_loop s is st)"

definition gpudvfs_get_powercap_status :: "gpu_dvfs \<Rightarrow> bool \<times> domain_status" where
  "gpudvfs_get_powercap_status s =
     (let status = \<lparr>ds_ok = PC_STATUS_OK, ds_exceed = 0, ds_current_pc = ucast (gd_current_pc s), ds_stress = 0, ds_requested = 0\<rparr>;
          n = gd_num s;
          used = foldl (\<lambda>u i. if gd_util s ! i > 0 then u + 1 else u) (0 :: u32) [0..<n]
      in if \<not> gd_initialized s then (False, status)
         else if gd_current_pc s = 1 then (False, status)
         else if gd_ask_def s then (False, status\<lparr>ds_ok := PC_STATUS_ASK_DEF\<rparr>)
         else if list_ex (\<lambda>i. gd_t_freq s ! i = 0) [0..<n] then (False, status)
         else if used = 0
         then let exceed = (if n = 0 then ucast (gd_current_pc s)
                            else (ucast (gd_current_pc s - ucast (gd_idle_power s * (of_nat n :: u32))) :: u32))
              in (True, status\<lparr>ds_ok := PC_STATUS_RELEASE,
                    ds_exceed := (if ucast exceed \<ge> gd_current_pc s then 0 else exceed)\<rparr>)
         else let tmp_stress = foldl (\<lambda>t i. if gd_util s ! i > 0
                    then t + powercap_get_stress (ucast (gd_freq_list s ! i ! 0)) (ucast (last (gd_freq_list s ! i)))
                               (ucast (gd_t_freq s ! i)) (ucast (gd_c_freq s ! i)) else t) 0 [0..<n] div used
              in gpudvfs_status_loop s [0..<n] (status\<lparr>ds_ok := PC_STATUS_RELEASE, ds_stress := ucast tmp_stress\<rparr>))"

subsection \<open>Tables of frequencies\<close>

lemma freq_position_nth: "distinct fs \<Longrightarrow> j < length fs \<Longrightarrow> freq_position (fs ! j) fs = j"
proof (induction fs arbitrary: j)
  case (Cons x fs)
  then show ?case by (cases j) auto
qed simp

lemma descending_distinct: "sorted_wrt (>) (fs :: u64 list) \<Longrightarrow> distinct fs"
  by (induction fs) auto

lemma descending_less: "sorted_wrt (>) (fs :: u64 list) \<Longrightarrow> i < j \<Longrightarrow> j < length fs \<Longrightarrow> fs ! j < fs ! i"
  by (simp add: sorted_wrt_iff_nth_less)

text \<open>The position selected below a frequency: the sum of position and steps is a 32-bit one.\<close>

lemma select_lower_nth:
  assumes "sorted_wrt (>) fs" "j < length fs - 1" "length fs < 2 ^ 32"
  shows "select_lower_gpu_freq fs (fs ! j) steps = fs ! min (unat (of_nat j + steps)) (length fs - 1)"
proof -
  have "fs ! j \<noteq> last fs"
    using descending_less [OF assms(1), of j "length fs - 1"] assms(2) by (cases fs rule: rev_cases) auto
  moreover have "unat (of_nat (length fs) - 1 :: u32) = length fs - 1"
    using assms(2,3) by (simp add: unat_dist unat_of_nat_less)
  ultimately show ?thesis
    using assms(2) freq_position_nth [OF descending_distinct [OF assms(1)], of j]
    by (auto simp: select_lower_gpu_freq_def ear_min_def word_less_nat_alt min_def)
qed

text \<open>How many steps a GPU above its limit is moved, from the watts it draws above it.\<close>

definition over_limit :: "nat \<Rightarrow> gpu_dvfs \<Rightarrow> rat" where
  "over_limit i s = to_double (gs_power (gd_diff s ! i) - to_double (rat_of_word (gd_curr_power s ! i)))"

lemma steps_of_over:
  assumes "0 \<le> x" "x < 2 ^ 32"
  shows "ear_max (trunc_word x - 2) (1 :: u32) =
    (if x < 1 then - 2 else if x < 2 then - 1 else if x < 3 then 1 else of_nat (nat \<lfloor>x\<rfloor> - 2))"
proof -
  have t: "(trunc_word x :: u32) = of_nat (nat \<lfloor>x\<rfloor>)" "nat \<lfloor>x\<rfloor> < 2 ^ 32"
    using assms floor_less_iff [of x "2 ^ 32"] by (auto simp: trunc_word_def nat_less_iff)
  have neg: "(1 :: u32) < - 2" "(1 :: u32) < - 1" by code_simp+
  have fl: "\<lfloor>x\<rfloor> = k" if "of_int k \<le> x" "x < of_int k + 1" for k using that by (simp add: floor_unique)
  consider "x < 1" "\<lfloor>x\<rfloor> = 0" | "1 \<le> x" "x < 2" "\<lfloor>x\<rfloor> = 1" | "2 \<le> x" "x < 3" "\<lfloor>x\<rfloor> = 2" | "3 \<le> x" "3 \<le> \<lfloor>x\<rfloor>"
    using assms(1) fl [of 0] fl [of 1] fl [of 2] by (cases "x < 1"; cases "x < 2"; cases "x < 3") (auto simp: le_floor_iff)
  then show ?thesis
  proof cases
    case 4
    define n where "n = nat \<lfloor>x\<rfloor>"
    have n: "3 \<le> n" "n < 2 ^ 32" using 4(2) t(2) unfolding n_def by linarith+
    then have "of_nat n - 2 = (of_nat (n - 2) :: u32)" by (simp add: of_nat_diff)
    then show ?thesis using 4(1) t(1) n
      by (cases "n = 3") (simp_all add: ear_max_def word_less_nat_alt unat_of_nat_less del: of_nat_diff flip: n_def)
  qed (simp_all add: t ear_max_def neg)
qed

subsection \<open>Properties\<close>

text \<open>A busy GPU at position \<open>j\<close> of its table, not above the frequency requested for it.\<close>

definition gpu_at :: "nat \<Rightarrow> nat \<Rightarrow> gpu_dvfs \<Rightarrow> bool" where
  "gpu_at i j s \<longleftrightarrow>
     (let fs = gd_freq_list s ! i
      in sorted_wrt (>) fs \<and> length fs < 2 ^ 32 \<and> j < length fs - 1 \<and> gd_c_freq s ! i = fs ! j \<and>
         fs ! j \<le> gd_t_freq s ! i \<and> gd_t_freq s ! i > 0 \<and> gd_util s ! i \<noteq> 0 \<and> gd_prev_freq s ! i = 0 \<and>
         i < length (gd_n_freq s) \<and> i < length (gd_c_freq s))"

lemma control_above:
  assumes "gpu_at i j s" "gs_power (gd_diff s ! i) > to_double (rat_of_word (gd_curr_power s ! i))"
    and "0 \<le> over_limit i s" "over_limit i s < 2 ^ 32"
  shows "gd_n_freq (gpudvfs_control i s) ! i = gd_freq_list s ! i !
    min (unat (of_nat j + (if over_limit i s < 1 then - 2 else if over_limit i s < 2 then - 1
                           else if over_limit i s < 3 then 1 else of_nat (nat \<lfloor>over_limit i s\<rfloor> - 2) :: u32)))
      (length (gd_freq_list s ! i) - 1)"
proof -
  let ?fs = "gd_freq_list s ! i"
  have at: "sorted_wrt (>) ?fs" "j < length ?fs - 1" "length ?fs < 2 ^ 32" "gd_c_freq s ! i = ?fs ! j"
    "?fs ! j \<le> gd_t_freq s ! i" "gd_t_freq s ! i \<noteq> 0" "gd_util s ! i \<noteq> 0" "gd_prev_freq s ! i = 0"
    "i < length (gd_n_freq s)" "i < length (gd_c_freq s)"
    using assms(1) by (simp_all add: gpu_at_def Let_def word_gt_0)
  then have "ear_min (?fs ! j) (gd_t_freq s ! i) = ?fs ! j" by (auto simp: ear_min_def)
  moreover have "(gd_c_freq s)[i := ?fs ! j] = gd_c_freq s" using at(4) by (metis list_update_id)
  ultimately have "gd_n_freq (gpudvfs_control i s) ! i =
      select_lower_gpu_freq ?fs (?fs ! j) (ear_max (trunc_word (over_limit i s) - 2) 1)"
    using at assms(2) by (simp add: gpudvfs_control_def gpudvfs_above_def over_limit_def Let_def word_gt_0)
  then show ?thesis using at steps_of_over [OF assms(3,4)] by (simp add: select_lower_nth)
qed

lemma gpudvfs_slows_down_parts:
  assumes "gpu_at i j s" "gs_power (gd_diff s ! i) > to_double (rat_of_word (gd_curr_power s ! i))"
    and "3 \<le> over_limit i s" "over_limit i s < 2 ^ 31" "length (gd_freq_list s ! i) < 2 ^ 31"
  shows "gd_n_freq (gpudvfs_control i s) ! i =
      gd_freq_list s ! i ! min (j + (nat \<lfloor>over_limit i s\<rfloor> - 2)) (length (gd_freq_list s ! i) - 1)"
    and "gd_n_freq (gpudvfs_control i s) ! i < gd_c_freq s ! i"
proof -
  let ?fs = "gd_freq_list s ! i"
  define n where "n = nat \<lfloor>over_limit i s\<rfloor>"
  have n: "3 \<le> n" "n < 2 ^ 31" using assms(3,4) floor_less_iff [of "over_limit i s" "2 ^ 31"]
    by (simp_all add: n_def le_nat_iff le_floor_iff nat_less_iff)
  have at: "sorted_wrt (>) ?fs" "j < length ?fs - 1" "gd_c_freq s ! i = ?fs ! j" using assms(1) by (simp_all add: gpu_at_def Let_def)
  have "unat (of_nat j + of_nat (n - 2) :: u32) = j + (n - 2)"
    using n at(2) assms(5) by (simp add: unat_of_nat_less flip: of_nat_add del: of_nat_diff)
  then show e: "gd_n_freq (gpudvfs_control i s) ! i = ?fs ! min (j + (nat \<lfloor>over_limit i s\<rfloor> - 2)) (length ?fs - 1)"
    using control_above [OF assms(1,2)] assms(3,4) by (simp flip: n_def)
  show "gd_n_freq (gpudvfs_control i s) ! i < gd_c_freq s ! i"
    unfolding e at(3) using n(1) at(2) by (intro descending_less [OF at(1)]) (simp_all flip: n_def)
qed

text \<open>
  A busy GPU that draws at least 3 W more than its limit is slowed down, by two steps less
  than the watts above the limit and at most to its lowest frequency.
\<close>

theorem gpudvfs_slows_down:
  assumes "gpu_at i j s" "gs_power (gd_diff s ! i) > to_double (rat_of_word (gd_curr_power s ! i))"
    and "3 \<le> over_limit i s" "over_limit i s < 2 ^ 31" "length (gd_freq_list s ! i) < 2 ^ 31"
  shows "gd_n_freq (gpudvfs_control i s) ! i =
      gd_freq_list s ! i ! min (j + (nat \<lfloor>over_limit i s\<rfloor> - 2)) (length (gd_freq_list s ! i) - 1) \<and>
      gd_n_freq (gpudvfs_control i s) ! i < gd_c_freq s ! i"
  using gpudvfs_slows_down_parts [OF assms] by blast

lemma gpudvfs_slightly_over_speeds_up_parts:
  assumes "gpu_at i j s" "gs_power (gd_diff s ! i) > to_double (rat_of_word (gd_curr_power s ! i))"
    and "0 \<le> over_limit i s" "over_limit i s < 1" "2 \<le> j"
  shows "gd_n_freq (gpudvfs_control i s) ! i = gd_freq_list s ! i ! (j - 2)"
    and "gd_c_freq s ! i < gd_n_freq (gpudvfs_control i s) ! i"
proof -
  let ?fs = "gd_freq_list s ! i"
  have at: "sorted_wrt (>) ?fs" "j < length ?fs - 1" "length ?fs < 2 ^ 32" "gd_c_freq s ! i = ?fs ! j"
    using assms(1) by (simp_all add: gpu_at_def Let_def)
  have "of_nat j + (- 2) = (of_nat (j - 2) :: u32)" using assms(5) by (simp add: of_nat_diff)
  then have "unat (of_nat j + (- 2) :: u32) = j - 2" using at(2,3) by (simp only:) (simp add: unat_of_nat_less del: of_nat_diff)
  then show e: "gd_n_freq (gpudvfs_control i s) ! i = ?fs ! (j - 2)"
    using control_above [OF assms(1,2,3)] assms(4) at(2) by simp
  show "gd_c_freq s ! i < gd_n_freq (gpudvfs_control i s) ! i"
    unfolding e at(4) using assms(5) at(2) by (intro descending_less [OF at(1)]) simp_all
qed

text \<open>
  C37. A busy GPU that draws less than 1 W above its limit is made faster: the number of steps is
  computed without sign, wraps around, and the position in the table moves two steps up.
\<close>

theorem gpudvfs_slightly_over_speeds_up:
  assumes "gpu_at i j s" "gs_power (gd_diff s ! i) > to_double (rat_of_word (gd_curr_power s ! i))"
    and "0 \<le> over_limit i s" "over_limit i s < 1" "2 \<le> j"
  shows "gd_n_freq (gpudvfs_control i s) ! i = gd_freq_list s ! i ! (j - 2) \<and>
      gd_c_freq s ! i < gd_n_freq (gpudvfs_control i s) ! i"
  using gpudvfs_slightly_over_speeds_up_parts [OF assms] by blast

text \<open>One GPU with a table of seven frequencies, limited to 200 W.\<close>

definition gpudvfs_example :: "rat \<Rightarrow> gpu_dvfs" where
  "gpudvfs_example watts = \<lparr>gd_idle_power = 30, gd_pc_enabled = True, gd_enabled = True, gd_current_pc = 200, gd_default_pc = 200,
     gd_c_status = PC_STATUS_RUN, gd_c_mode = PC_MODE_TARGET, gd_num = 1, gd_max_power = [300], gd_curr_power = [200],
     gd_util = [90], gd_util_wait = [0], gd_prev_freq = [0], gd_excess = [0], gd_c_freq = [1365], gd_t_freq = [1410],
     gd_n_freq = [1365], gd_freq_list = [[1410, 1395, 1380, 1365, 1350, 1335, 1320]], gd_status = PC_STATUS_OK,
     gd_ask_def = False, gd_initialized = True, gd_dvfs_util = 90, gd_greedy = True,
     gd_diff = [\<lparr>gs_util = 90, gs_power = watts, gs_freq = 1365, gs_working = 1\<rparr>], gd_written = []\<rparr>"

lemma example_at: "gpu_at 0 3 (gpudvfs_example watts)"
  by (simp add: gpu_at_def gpudvfs_example_def Let_def)

lemma gpudvfs_slightly_over_speeds_up_witness:
  "gd_n_freq (gpudvfs_control 0 (gpudvfs_example (401 / 2))) ! 0 = 1395 \<and> gd_c_freq (gpudvfs_example (401 / 2)) ! 0 = 1365"
proof -
  have "gd_n_freq (gpudvfs_control 0 (gpudvfs_example (401 / 2))) ! 0 = gd_freq_list (gpudvfs_example (401 / 2)) ! 0 ! (3 - 2)"
    by (rule gpudvfs_slightly_over_speeds_up [THEN conjunct1, OF example_at])
      (simp_all add: gpudvfs_example_def over_limit_def rat_of_word_def fl_numeral fl_half)
  then show ?thesis by (simp add: gpudvfs_example_def)
qed

text \<open>
  A GPU that must run slower than requested asks for the wrong amount of power: the P-states
  are subtracted in the wrong order, so a GPU \<open>k\<close> steps below its request asks for \<open>256 - k\<close> watts.
\<close>

theorem gpudvfs_request_wraps:
  assumes "gd_initialized s" "gd_current_pc s \<noteq> 1" "\<not> gd_ask_def s" "0 < gd_num s" "gd_num s < 2 ^ 32"
    and "\<forall>i < gd_num s. gd_t_freq s ! i \<noteq> 0" "gd_util s ! 0 > 0" "gd_greedy s"
    and "sorted_wrt (>) (gd_freq_list s ! 0)" "gd_t_freq s ! 0 = gd_freq_list s ! 0 ! t" "gd_c_freq s ! 0 = gd_freq_list s ! 0 ! c"
    and "t < c" "c < length (gd_freq_list s ! 0)" "c - t < 256"
  shows "unat (ds_requested (snd (gpudvfs_get_powercap_status s))) = 256 - (c - t)"
proof -
  let ?fs = "gd_freq_list s ! 0" and ?used = "foldl (\<lambda>u i. if gd_util s ! i > 0 then u + 1 else u) (0 :: u32) [0..<gd_num s]"
  have "foldl (\<lambda>u i. if gd_util s ! i > 0 then u + 1 else u) u xs = u + of_nat (length (filter (\<lambda>i. gd_util s ! i > 0) xs))" for u :: u32 and xs
    by (induction xs arbitrary: u) (simp_all add: algebra_simps)
  moreover have "0 < length (filter (\<lambda>i. gd_util s ! i > 0) [0..<gd_num s])"
    using assms(4,7) by (simp add: upt_conv_Cons)
  moreover have "length (filter (\<lambda>i. gd_util s ! i > 0) [0..<gd_num s]) < 2 ^ 32"
    using assms(5) length_filter_le [of "\<lambda>i. gd_util s ! i > 0" "[0..<gd_num s]"] by simp
  ultimately have used: "?used \<noteq> 0" by (simp add: word_unat_eq_iff unat_of_nat_less)
  have pos: "gpudvfs_freq_to_pstate ?fs (?fs ! k) = k" if "k < length ?fs" for k
    using that freq_position_nth [OF descending_distinct [OF assms(9)] that] by (auto simp: gpudvfs_freq_to_pstate_def)
  have greedy: "?fs ! c < ?fs ! t" using assms(12,13) by (rule descending_less [OF assms(9)])
  have all: "\<not> list_ex (\<lambda>i. gd_t_freq s ! i = 0) [0..<gd_num s]" using assms(6) by (simp add: list_ex_iff)
  have "ds_requested (snd (gpudvfs_get_powercap_status s)) = word_of_int (int t - int c)"
    using assms(1-4,7,8,10-13) used all greedy pos by (simp add: gpudvfs_get_powercap_status_def Let_def upt_conv_Cons)
  also have "\<dots> = - of_nat (c - t)" using assms(12) by (simp add: of_nat_diff)
  finally show ?thesis using assms(12,14) unat_sub_if_size [of 0 "of_nat (c - t) :: u8"]
    by (simp add: word_size unat_of_nat_less del: of_nat_diff)
qed

end
