(* ===== verification/Cpu_Plugins.thy ===== *)
theory Cpu_Plugins
  imports Dvfs_Plugin
begin

text \<open>
  The other power capping plugins of a node: the CPUs through the power limits of their packages
  (\<^verbatim>\<open>daemon/powercap/cpu_generic.c\<close>), the whole node through the Intel Node Manager
  (\<^verbatim>\<open>daemon/powercap/inm.c\<close>) or the Grace Hopper module (\<^verbatim>\<open>daemon/powercap/grace_hopper.c\<close>), and the
  GPU plugin that does nothing (\<^verbatim>\<open>daemon/powercap/gpu_dummy.c\<close>).  Calls to the drivers and commands
  that are executed are collected in order in a field of the state; their results are arguments.
\<close>

subsection \<open>Power limits of the CPU packages\<close>

datatype cpupow_call = Set_Socket "u32 list" | Set_Dram "u32 list" | Reset_Socket | Reset_Dram

record cpu_generic =
  cg_current_limit :: u32
  cg_pc_on :: bool
  cg_status :: u32
  cg_cpu_weight :: rat
  cg_dram_weight :: rat
  cg_num_cpus :: nat
  cg_num_dram :: nat
  cg_cpu_power :: "u32 list"
  cg_dram_power :: "u32 list"
  cg_c_req_f :: "u64 list"
  cg_energy :: "u64 list"
  cg_api :: cpufreq
  cg_calls :: "cpupow_call list"

text \<open>The results of the driver: of setting the sockets, of setting the DRAM, and of a reset of the sockets.\<close>

record cpupow_driver =
  cd_socket :: state_t
  cd_dram :: state_t
  cd_reset :: state_t

definition cg_call :: "cpupow_call \<Rightarrow> cpu_generic \<Rightarrow> cpu_generic" where
  "cg_call c s = s\<lparr>cg_calls := cg_calls s @ [c]\<rparr>"

definition cpu_disable :: "cpupow_driver \<Rightarrow> cpu_generic \<Rightarrow> state_t \<times> cpu_generic" where
  "cpu_disable d s = (cd_reset d, cg_call Reset_Socket (cg_call Reset_Dram s))"

text \<open>
  \<open>enable\<close>: the weights of the packages and of the DRAM are their shares of the design power.
  Without any design power both weights are the quotient of two zeros, which is not a
  number; this case is \<^const>\<open>None\<close>.
\<close>

definition cpu_enable :: "cpufreq \<Rightarrow> u32 list \<Rightarrow> u32 list \<Rightarrow> u64 list \<Rightarrow> nat \<Rightarrow> cpu_generic option" where
  "cpu_enable api cpu_tdps dram_tdps energy max_cpus =
     (let total_cpu_power = foldl (+) 0 cpu_tdps; total_dram_power = foldl (+) 0 dram_tdps;
          both = to_float (rat_of_word (total_cpu_power + total_dram_power))
      in if total_cpu_power + total_dram_power = 0 then None
         else Some
         \<lparr>cg_current_limit = POWER_CAP_UNLIMITED, cg_pc_on = False, cg_status = 0,
          cg_cpu_weight = to_float (to_float (rat_of_word total_cpu_power) / both),
          cg_dram_weight = to_float (to_float (rat_of_word total_dram_power) / both),
          cg_num_cpus = length cpu_tdps, cg_num_dram = length dram_tdps, cg_cpu_power = cpu_tdps, cg_dram_power = dram_tdps,
          cg_c_req_f = replicate max_cpus 0, cg_energy = energy, cg_api = api, cg_calls = []\<rparr>)"

definition set_per_device_powercap_value :: "cpupow_driver \<Rightarrow> u32 list \<Rightarrow> cpu_generic \<Rightarrow> state_t \<times> cpu_generic" where
  "set_per_device_powercap_value d limit s =
     (let power = map (\<lambda>i. if limit ! i = POWER_CAP_UNLIMITED then - 1 else limit ! i) [0..<cg_num_cpus s]
      in (cd_socket d, cg_call (Set_Socket power) (s\<lparr>cg_cpu_power := power\<rparr>)))"

definition package_share :: "u32 \<Rightarrow> rat \<Rightarrow> nat \<Rightarrow> u32" where
  "package_share limit weight n =
     trunc_word (to_float (to_float (to_float (rat_of_word limit) * weight) / to_float (of_nat n)))"

definition set_single_powercap_value :: "cpupow_driver \<Rightarrow> u32 \<Rightarrow> cpu_generic \<Rightarrow> state_t \<times> cpu_generic" where
  "set_single_powercap_value d limit s =
     (if limit = cg_current_limit s then (EAR_SUCCESS, s)
      else if limit = POWER_CAP_UNLIMITED then (cd_reset d, cg_call Reset_Socket (cg_call Reset_Dram s))
      else
        let s = s\<lparr>cg_cpu_power := replicate (cg_num_cpus s) (package_share limit (cg_cpu_weight s) (cg_num_cpus s)),
                  cg_dram_power := replicate (cg_num_dram s) (package_share limit (cg_dram_weight s) (cg_num_dram s))\<rparr>;
            s = cg_call (Set_Socket (cg_cpu_power s)) s
        in if cd_socket d = EAR_ERROR then (cd_socket d, s)
           else (cd_dram d, cg_call (Set_Dram (cg_dram_power s)) (s\<lparr>cg_current_limit := limit\<rparr>)))"

definition cpu_set_powercap_value :: "cpupow_driver \<Rightarrow> nat \<Rightarrow> u32 list \<Rightarrow> cpu_generic \<Rightarrow> state_t \<times> cpu_generic" where
  "cpu_set_powercap_value d domain limit s =
     (let s = s\<lparr>cg_pc_on := True\<rparr>
      in if domain = LEVEL_DEVICE then set_per_device_powercap_value d limit s
         else set_single_powercap_value d (limit ! 0) s)"

definition cpu_set_status :: "u32 \<Rightarrow> cpu_generic \<Rightarrow> cpu_generic" where
  "cpu_set_status status s = s\<lparr>cg_status := status\<rparr>"

definition cpu_set_app_req_freq :: "u64 list \<Rightarrow> cpu_generic \<Rightarrow> cpu_generic" where
  "cpu_set_app_req_freq f s = s\<lparr>cg_c_req_f := f\<rparr>"

definition cmp_curr_pstate_with_target_freq :: "cpu_generic \<Rightarrow> pstate list \<Rightarrow> u64 list \<Rightarrow> bool" where
  "cmp_curr_pstate_with_target_freq s curr_pstates target =
     list_ex (\<lambda>i. let t_pstate = (case static_get_index (cg_api s) (target ! i) True of None \<Rightarrow> 0 | Some p \<Rightarrow> (of_nat p :: u32))
                  in t_pstate > ps_idx (curr_pstates ! i)) [0..<cg_num_cpus s]"

text \<open>
  The status.  The power asked for by a greedy node is estimated from an array of structures that is
  read as an array of integers; it is the argument \<open>requested\<close>.  The energy counters are those of
  a reading that does not fail, \<open>ms\<close> the milliseconds since the last one.
\<close>

definition cpu_get_powercap_status ::
  "u64 list \<Rightarrow> pstate list \<Rightarrow> u64 list option \<Rightarrow> rat \<Rightarrow> u32 \<Rightarrow> domain_status \<Rightarrow> cpu_generic \<Rightarrow>
   (bool \<times> domain_status \<times> cpu_generic)" where
  "cpu_get_powercap_status req_f curr_pstates energy ms requested status s =
     (if \<not> cg_pc_on s then (False, status, s)
      else if cg_current_limit s = POWER_CAP_UNLIMITED then (False, status, s)
      else
        let s = s\<lparr>cg_c_req_f := req_f\<rparr>;
            av = mgt_cpufreq_default_get_available_list (cg_api s);
            status = \<lparr>ds_ok = PC_STATUS_OK, ds_exceed = 0, ds_current_pc = cg_current_limit s,
              ds_stress = ucast (powercap_get_stress (ucast (ps_khz (av ! 0))) (ucast (ps_khz (last av))) (ucast (req_f ! 0))
                (ucast (ps_khz (curr_pstates ! 0)))), ds_requested = 0\<rparr>
        in case energy of None \<Rightarrow> (False, status, s)
           | Some ct2 \<Rightarrow>
             let energy_diff = energy_cpu_data_diff (cg_energy s) ct2;
                 s = s\<lparr>cg_energy := ct2\<rparr>;
                 joules = foldl (\<lambda>e d. to_double (e + to_double (rat_of_word d))) 0 energy_diff;
                 power = to_float (energy_cpu_compute_power joules (to_double (ms / 1000)));
                 limit = to_float (rat_of_word (cg_current_limit s))
             in if cmp_curr_pstate_with_target_freq s curr_pstates req_f
                then (False, status\<lparr>ds_ok := PC_STATUS_GREEDY, ds_requested := ucast requested\<rparr>, s)
                else if power \<ge> limit then (False, status, s)
                else let ctbr = trunc_word (to_double (to_float (limit - power) * (1 / 2))) :: u32
                     in if ctbr < 10 then (False, status, s)
                        else (True, status\<lparr>ds_ok := PC_STATUS_RELEASE, ds_exceed := ctbr\<rparr>, s))"

subsection \<open>Intel Node Manager\<close>

datatype inm_cmd = Enable_Xcc | Enable_Inm | Enable_Policies | Disable_Policies | Disable_Policy u32 | Add_Policy u32 u32

record inm =
  im_c_limit :: u32
  im_policy_enabled :: bool
  im_pc_on :: bool
  im_c_req_f :: u64
  im_cmds :: "inm_cmd list"

text \<open>A command is executed and its result decides; \<open>ex\<close> gives the result of each command.\<close>

definition inm_execute :: "(inm_cmd \<Rightarrow> bool) \<Rightarrow> inm_cmd \<Rightarrow> inm \<Rightarrow> state_t \<times> inm" where
  "inm_execute ex c s = (if ex c then EAR_SUCCESS else EAR_ERROR, s\<lparr>im_cmds := im_cmds s @ [c]\<rparr>)"

definition inm_disable :: "(inm_cmd \<Rightarrow> bool) \<Rightarrow> inm \<Rightarrow> state_t \<times> inm" where
  "inm_disable ex s =
     (let (ret, s) = inm_execute ex (Disable_Policy 0) s
      in if ret \<noteq> EAR_SUCCESS then (ret, s) else inm_execute ex Disable_Policies s)"

definition inm_enable :: "(inm_cmd \<Rightarrow> bool) \<Rightarrow> inm \<Rightarrow> state_t \<times> inm" where
  "inm_enable ex s =
     (let (ret, s) = inm_execute ex Enable_Xcc s
      in if ret \<noteq> EAR_SUCCESS then (EAR_ERROR, s)
         else let (ret, s) = inm_execute ex Enable_Inm s
              in if ret \<noteq> EAR_SUCCESS then (EAR_ERROR, s)
                 else let (ret, s) = inm_execute ex Enable_Policies s
                      in (ret, if ret = EAR_SUCCESS then s\<lparr>im_policy_enabled := True\<rparr> else s))"

definition inm_set_powercap_value :: "(inm_cmd \<Rightarrow> bool) \<Rightarrow> u32 \<Rightarrow> u32 \<Rightarrow> inm \<Rightarrow> state_t \<times> inm" where
  "inm_set_powercap_value ex pid limit s =
     (if \<not> im_policy_enabled s then (EAR_SUCCESS, s)
      else let s = s\<lparr>im_c_limit := limit, im_pc_on := True\<rparr>
           in if im_c_limit s = POWER_CAP_UNLIMITED then inm_execute ex (Disable_Policy pid) s
              else inm_execute ex (Add_Policy pid limit) s)"

definition inm_set_app_req_freq :: "u64 \<Rightarrow> inm \<Rightarrow> inm" where
  "inm_set_app_req_freq f s = s\<lparr>im_c_req_f := f\<rparr>"

definition inm_get_powercap_status :: "u64 \<Rightarrow> inm \<Rightarrow> bool \<times> u32 \<times> u32" where
  "inm_get_powercap_status c_freq s =
     (if im_c_limit s = POWER_CAP_UNLIMITED then (False, 0, 0)
      else if im_c_req_f s = 0 then (False, 0, 0)
      else if c_freq \<noteq> im_c_req_f s then (False, 0, 0)
      else (True, 1, 0))"

subsection \<open>Grace Hopper\<close>

datatype gh_cmd = Gh_Set_Powercap u32 | Gh_Disable_Powercap

record grace_hopper =
  gh_c_limit :: u32
  gh_policy_enabled :: u32
  gh_pc_on :: u32
  gh_c_req_f :: u64
  gh_cmds :: "gh_cmd list"

definition gh_init :: grace_hopper where
  "gh_init = \<lparr>gh_c_limit = 0, gh_policy_enabled = 0, gh_pc_on = 0, gh_c_req_f = 0, gh_cmds = []\<rparr>"

definition gh_execute :: "(gh_cmd \<Rightarrow> bool) \<Rightarrow> gh_cmd \<Rightarrow> grace_hopper \<Rightarrow> state_t \<times> grace_hopper" where
  "gh_execute ex c s = (if ex c then EAR_SUCCESS else EAR_ERROR, s\<lparr>gh_cmds := gh_cmds s @ [c]\<rparr>)"

definition gh_enable :: "grace_hopper \<Rightarrow> state_t \<times> grace_hopper" where
  "gh_enable s = (EAR_SUCCESS, s)"

definition gh_set_powercap_value :: "(gh_cmd \<Rightarrow> bool) \<Rightarrow> nat \<Rightarrow> u32 list \<Rightarrow> grace_hopper \<Rightarrow> state_t \<times> grace_hopper" where
  "gh_set_powercap_value ex domain limit s =
     (if gh_policy_enabled s = 0 then (EAR_SUCCESS, s)
      else if domain = LEVEL_DEVICE then (EAR_ERROR, s)
      else let s = s\<lparr>gh_c_limit := limit ! 0, gh_pc_on := 1\<rparr>
           in if gh_c_limit s = POWER_CAP_UNLIMITED then gh_execute ex Gh_Disable_Powercap s
              else gh_execute ex (Gh_Set_Powercap (limit ! 0)) s)"

definition gh_set_status :: "u32 \<Rightarrow> grace_hopper \<Rightarrow> grace_hopper" where
  "gh_set_status status s = s"

definition gh_set_app_req_freq :: "u64 \<Rightarrow> grace_hopper \<Rightarrow> grace_hopper" where
  "gh_set_app_req_freq f s = s\<lparr>gh_c_req_f := f\<rparr>"

definition gh_get_powercap_value :: "grace_hopper \<Rightarrow> u32" where
  "gh_get_powercap_value s = gh_c_limit s"

subsection \<open>The dummy GPU plugin\<close>

record gpu_dummy =
  gy_current_pc :: u32
  gy_enabled :: u32
  gy_c_status :: u32
  gy_c_mode :: u32

definition gy_enable :: "gpu_dummy \<Rightarrow> state_t \<times> gpu_dummy" where
  "gy_enable s = (EAR_SUCCESS, s\<lparr>gy_enabled := 1\<rparr>)"

definition gy_set_powercap_value :: "u32 \<Rightarrow> gpu_dummy \<Rightarrow> state_t \<times> gpu_dummy" where
  "gy_set_powercap_value limit s = (EAR_SUCCESS, s\<lparr>gy_current_pc := limit\<rparr>)"

definition gy_get_powercap_value :: "gpu_dummy \<Rightarrow> u32" where
  "gy_get_powercap_value s = gy_current_pc s"

definition gy_set_status :: "u32 \<Rightarrow> gpu_dummy \<Rightarrow> gpu_dummy" where
  "gy_set_status status s = s\<lparr>gy_c_status := status\<rparr>"

definition gy_set_pc_mode :: "u32 \<Rightarrow> gpu_dummy \<Rightarrow> gpu_dummy" where
  "gy_set_pc_mode mode s = s\<lparr>gy_c_mode := mode\<rparr>"

subsection \<open>Shares of the packages\<close>

lemma package_share_le:
  assumes "unat limit < 2 ^ 22" "0 \<le> w" "w \<le> 2" "0 < n" "n < 2 ^ 24"
  shows "of_nat n * of_nat (unat (package_share limit w n)) \<le> of_nat (unat limit) * w * (1 + 1 / 2 ^ 24) ^ 2"
proof -
  let ?l = "of_nat (unat limit) :: rat" and ?n = "of_nat n :: rat"
  let ?x = "to_float (?l * w)"
  have x: "0 \<le> ?x" "?x \<le> ?l * w * (1 + 1 / 2 ^ 24)" using assms(2) fl_up [of "?l * w" 24] by (simp_all add: fl_nonneg)
  have y: "0 \<le> to_float (?x / ?n)" "to_float (?x / ?n) \<le> ?x / ?n * (1 + 1 / 2 ^ 24)"
    using x(1) fl_up [of "?x / ?n" 24] by (simp_all add: fl_nonneg)
  have "?x / ?n \<le> ?x" using x(1) assms(4) by (simp add: divide_le_eq mult_le_cancel_left1)
  moreover have "?x \<le> 2 ^ 22 * 2 * 2" 
  proof -
    have "?l * w \<le> 2 ^ 22 * 2" using assms(1-3) by (intro mult_mono) simp_all
    then show ?thesis using x(2) by simp
  qed
  ultimately have "to_float (?x / ?n) < 2 ^ 32" using y(2) by simp
  then have "of_nat (unat (package_share limit w n)) \<le> to_float (?x / ?n)"
    using y(1) unat_trunc_word [of "to_float (?x / ?n)", where 'a = 32] of_int_floor_le [of "to_float (?x / ?n)"] assms(1,5)
    by (simp add: package_share_def rat_of_word_def fl_of_nat)
  then have "?n * of_nat (unat (package_share limit w n)) \<le> ?n * (?x / ?n * (1 + 1 / 2 ^ 24))"
    using y(2) assms(4) by (intro mult_left_mono) simp_all
  also have "\<dots> = ?x * (1 + 1 / 2 ^ 24)" using assms(4) by simp
  also have "\<dots> \<le> ?l * w * (1 + 1 / 2 ^ 24) * (1 + 1 / 2 ^ 24)" using x(2) by (intro mult_right_mono) simp_all
  finally show ?thesis by (simp add: power2_eq_square mult.assoc)
qed

lemma sum_list_replicate_unat: "(\<Sum>x\<leftarrow>replicate n (w :: u32). unat x) = n * unat w"
  by (induction n) simp_all

subsection \<open>Properties\<close>

definition zero_status :: domain_status where
  "zero_status = \<lparr>ds_ok = PC_STATUS_OK, ds_exceed = 0, ds_current_pc = 0, ds_stress = 0, ds_requested = 0\<rparr>"

definition driver_ok :: cpupow_driver where
  "driver_ok = \<lparr>cd_socket = EAR_SUCCESS, cd_dram = EAR_SUCCESS, cd_reset = EAR_SUCCESS\<rparr>"

text \<open>The plugin in operation: every operation that changes its state, in any order.\<close>

inductive cpu_step :: "cpu_generic \<Rightarrow> cpu_generic \<Rightarrow> bool" where
  "cpu_step s (snd (cpu_set_powercap_value d domain limit s))"
| "cpu_step s (snd (cpu_disable d s))"
| "cpu_step s (cpu_set_status status s)"
| "cpu_step s (cpu_set_app_req_freq f s)"
| "cpu_get_powercap_status req_f cur energy ms requested st s = (ret, st', s') \<Longrightarrow> cpu_step s s'"

abbreviation weights :: "cpu_generic \<Rightarrow> rat \<times> rat \<times> nat \<times> nat" where
  "weights s \<equiv> (cg_cpu_weight s, cg_dram_weight s, cg_num_cpus s, cg_num_dram s)"

lemma cpu_step_weights: "cpu_step s s' \<Longrightarrow> weights s' = weights s"
  by (induction rule: cpu_step.induct)
    (auto simp: cpu_set_powercap_value_def set_per_device_powercap_value_def set_single_powercap_value_def cpu_disable_def
      cg_call_def cpu_set_status_def cpu_set_app_req_freq_def cpu_get_powercap_status_def Let_def split: if_splits option.splits)

lemma cpu_steps_weights: "cpu_step\<^sup>*\<^sup>* s s' \<Longrightarrow> weights s' = weights s"
  by (induction rule: rtranclp_induct) (auto dest: cpu_step_weights)

lemma shares_within_limit:
  fixes c m k :: nat
  defines "t \<equiv> rat_of_nat (c + m)" and "e \<equiv> 1 + 1 / 2 ^ 24 :: rat"
  assumes "k \<le> c + m" "0 < n" "n < 2 ^ 24" "unat limit < 2 ^ 21"
  shows "of_nat n * of_nat (unat (package_share limit (to_float (of_nat k / t)) n)) \<le> of_nat (unat limit) * (of_nat k / t) * e ^ 3"
proof -
  have "of_nat k / t \<le> 1" using assms(3) by (auto simp: t_def divide_le_eq_1 simp flip: of_nat_add)
  then have "of_nat k / t * e \<le> 1 * e" by (intro mult_right_mono) (simp_all add: e_def)
  then have two: "of_nat k / t * e \<le> 2" by (simp add: e_def)
  have wb: "0 \<le> to_float (of_nat k / t)" "to_float (of_nat k / t) \<le> of_nat k / t * e"
    unfolding e_def by (simp add: fl_nonneg t_def) (rule fl_up, simp_all add: t_def)
  have "of_nat n * of_nat (unat (package_share limit (to_float (of_nat k / t)) n)) \<le> of_nat (unat limit) * to_float (of_nat k / t) * e ^ 2"
    unfolding e_def using wb two assms(4-6) by (intro package_share_le) (simp_all add: e_def)
  also have "\<dots> \<le> of_nat (unat limit) * (of_nat k / t * e) * e ^ 2" using wb by (intro mult_right_mono mult_left_mono) simp_all
  finally show ?thesis by (simp add: power3_eq_cube power2_eq_square mult.assoc)
qed

lemma both_within_limit:
  assumes "0 < n1" "n1 < 2 ^ 24" "0 < n2" "n2 < 2 ^ 24" "unat limit < 2 ^ 21"
  shows "n1 * unat (package_share limit (to_float (of_nat c / of_nat (c + m))) n1) +
    n2 * unat (package_share limit (to_float (of_nat m / of_nat (c + m))) n2) \<le> unat limit"
proof -
  let ?t = "rat_of_nat (c + m)" and ?e = "1 + 1 / 2 ^ 24 :: rat" and ?l = "rat_of_nat (unat limit)"
  let ?a = "n1 * unat (package_share limit (to_float (of_nat c / ?t)) n1)" and ?b = "n2 * unat (package_share limit (to_float (of_nat m / ?t)) n2)"
  have "rat_of_nat ?a + rat_of_nat ?b \<le> ?l * (of_nat c / ?t) * ?e ^ 3 + ?l * (of_nat m / ?t) * ?e ^ 3"
    unfolding of_nat_mult using assms by (intro add_mono shares_within_limit) simp_all
  also have "\<dots> = ?l * (?t / ?t) * ?e ^ 3" by (simp only: of_nat_add add_divide_distrib distrib_left distrib_right)
  also have "\<dots> \<le> ?l * 1 * ?e ^ 3" by (intro mult_right_mono mult_left_mono) (simp_all add: divide_le_eq_1)
  also have "\<dots> < ?l + 1" using assms(5) by (simp add: power3_eq_cube)
  finally have "rat_of_nat (?a + ?b) < of_nat (unat limit + 1)" by simp
  then show ?thesis by (simp only: of_nat_less_iff)
qed

lemma cpu_enable_weights:
  assumes "cpu_enable api cpu_tdps dram_tdps energy max_cpus = Some s"
    and "c = unat (foldl (+) 0 cpu_tdps)" "m = unat (foldl (+) 0 dram_tdps)" "c + m < 2 ^ 24"
  shows "weights s = (to_float (of_nat c / of_nat (c + m)), to_float (of_nat m / of_nat (c + m)), length cpu_tdps, length dram_tdps)"
  using assms unat_plus [of "foldl (+) 0 cpu_tdps" "foldl (+) 0 dram_tdps"]
  by (auto simp: cpu_enable_def Let_def rat_of_word_def fl_of_nat simp flip: of_nat_add split: if_splits)

text \<open>
  C36. At any time after the plugin was enabled, a limit for the domain that differs from the one
  in force is shared within its budget: the limits given to the packages and to the memories
  add up to no more than it, and they are what the driver is told, except the limits of the memories
  after an error of the driver.  The limit that is already in force changes nothing.
\<close>

theorem cpu_limits_within_budget:
  assumes "cpu_enable api cpu_tdps dram_tdps energy max_cpus = Some s0" "cpu_step\<^sup>*\<^sup>* s0 s"
    and "cpu_tdps \<noteq> []" "dram_tdps \<noteq> []" "length cpu_tdps < 2 ^ 24" "length dram_tdps < 2 ^ 24"
    and "unat (foldl (+) 0 cpu_tdps) + unat (foldl (+) 0 dram_tdps) < 2 ^ 24"
    and "limit \<noteq> POWER_CAP_UNLIMITED" "unat limit < 2 ^ 21" "domain \<noteq> LEVEL_DEVICE"
    and "cpu_set_powercap_value d domain (limit # rest) s = (ret, s')"
  shows "if limit = cg_current_limit s then s' = s\<lparr>cg_pc_on := True\<rparr>
    else (\<Sum>x\<leftarrow>cg_cpu_power s'. unat x) + (\<Sum>x\<leftarrow>cg_dram_power s'. unat x) \<le> unat limit \<and>
      cg_calls s' = cg_calls s @ [Set_Socket (cg_cpu_power s')] @
        (if cd_socket d = EAR_ERROR then [] else [Set_Dram (cg_dram_power s')])"
proof (cases "limit = cg_current_limit s")
  case True
  then show ?thesis using assms(10,11) by (simp add: cpu_set_powercap_value_def set_single_powercap_value_def)
next
  case False
  define c m where "c = unat (foldl (+) 0 cpu_tdps)" and "m = unat (foldl (+) 0 dram_tdps)"
  have "weights s = (to_float (of_nat c / of_nat (c + m)), to_float (of_nat m / of_nat (c + m)), length cpu_tdps, length dram_tdps)"
    using cpu_steps_weights [OF assms(2)] cpu_enable_weights [OF assms(1) c_def m_def] assms(7) by (simp add: c_def m_def)
  then have w: "cg_cpu_weight s = to_float (of_nat c / of_nat (c + m))" "cg_dram_weight s = to_float (of_nat m / of_nat (c + m))"
    "cg_num_cpus s = length cpu_tdps" "cg_num_dram s = length dram_tdps" by simp_all
  have "cg_cpu_power s' = replicate (length cpu_tdps) (package_share limit (cg_cpu_weight s) (length cpu_tdps)) \<and>
    cg_dram_power s' = replicate (length dram_tdps) (package_share limit (cg_dram_weight s) (length dram_tdps)) \<and>
    cg_calls s' = cg_calls s @ [Set_Socket (cg_cpu_power s')] @ (if cd_socket d = EAR_ERROR then [] else [Set_Dram (cg_dram_power s')])"
    using assms(8,10,11) False w(3,4)
    by (auto simp: cpu_set_powercap_value_def set_single_powercap_value_def cg_call_def Let_def split: if_splits)
  moreover have "0 < length cpu_tdps" "0 < length dram_tdps" using assms(3,4) by simp_all
  ultimately show ?thesis
    using both_within_limit [OF _ assms(5) _ assms(6) assms(9)] False by (simp only: w sum_list_replicate_unat if_False)
qed

text \<open>Two packages of 200 W and two memories of 50 W, which had a limit of 400 W before.\<close>

lemma cpu_limits_within_budget_witness:
  "\<exists>s0. cpu_enable cpufreq_example [200, 200] [50, 50] [0, 0, 0, 0] 4 = Some s0 \<and>
     (let s = snd (cpu_set_powercap_value driver_ok LEVEL_NODE [400] s0);
          s' = snd (cpu_set_powercap_value driver_ok LEVEL_NODE [300] s)
      in (\<Sum>x\<leftarrow>cg_cpu_power s'. unat x) + (\<Sum>x\<leftarrow>cg_dram_power s'. unat x) \<le> 300)"
proof -
  obtain s0 where s0: "cpu_enable cpufreq_example [200, 200] [50, 50] [0, 0, 0, 0] 4 = Some s0"
    by (simp add: cpu_enable_def Let_def)
  define s where "s = snd (cpu_set_powercap_value driver_ok LEVEL_NODE [400] s0)"
  have st: "cpu_step\<^sup>*\<^sup>* s0 s" unfolding s_def by (intro r_into_rtranclp cpu_step.intros)
  have "cg_current_limit s0 = 1" using s0 by (auto simp: cpu_enable_def Let_def)
  then have "cg_current_limit s = 400"
    by (simp add: s_def cpu_set_powercap_value_def set_single_powercap_value_def driver_ok_def cg_call_def Let_def)
  moreover obtain ret s' where r: "cpu_set_powercap_value driver_ok LEVEL_NODE [300] s = (ret, s')" by fastforce
  moreover have "if 300 = cg_current_limit s then s' = s\<lparr>cg_pc_on := True\<rparr>
    else (\<Sum>x\<leftarrow>cg_cpu_power s'. unat x) + (\<Sum>x\<leftarrow>cg_dram_power s'. unat x) \<le> unat (300 :: u32) \<and>
      cg_calls s' = cg_calls s @ [Set_Socket (cg_cpu_power s')] @
        (if cd_socket driver_ok = EAR_ERROR then [] else [Set_Dram (cg_dram_power s')])"
    by (rule cpu_limits_within_budget [OF s0 st _ _ _ _ _ _ _ _ r]) simp_all
  ultimately show ?thesis using s0 by (simp add: Let_def flip: s_def)
qed

lemma cpu_limit_lost_after_unlimited_parts:
  assumes "limit \<noteq> POWER_CAP_UNLIMITED" "cd_socket d \<noteq> EAR_ERROR"
    and "set_single_powercap_value d limit s = (ret1, s1)" "set_single_powercap_value d POWER_CAP_UNLIMITED s1 = (ret2, s2)"
  shows "set_single_powercap_value d limit s2 = (EAR_SUCCESS, s2)" and "cg_calls s2 = cg_calls s1 @ [Reset_Dram, Reset_Socket]"
proof -
  have "cg_current_limit s1 = limit"
    using assms(1-3) by (auto simp: set_single_powercap_value_def cg_call_def Let_def split: if_splits)
  then show "set_single_powercap_value d limit s2 = (EAR_SUCCESS, s2)" "cg_calls s2 = cg_calls s1 @ [Reset_Dram, Reset_Socket]"
    using assms(1,4) by (auto simp: set_single_powercap_value_def cg_call_def split: if_splits)
qed

text \<open>
  Lifting the limit does not forget it: after a limit is set and then lifted, setting the
  same limit again succeeds without any call to the driver, and the packages stay unlimited.
\<close>

theorem cpu_limit_lost_after_unlimited:
  assumes "limit \<noteq> POWER_CAP_UNLIMITED" "cd_socket d \<noteq> EAR_ERROR"
    and "set_single_powercap_value d limit s = (ret1, s1)" "set_single_powercap_value d POWER_CAP_UNLIMITED s1 = (ret2, s2)"
  shows "set_single_powercap_value d limit s2 = (EAR_SUCCESS, s2) \<and>
      cg_calls s2 = cg_calls s1 @ [Reset_Dram, Reset_Socket]"
  using cpu_limit_lost_after_unlimited_parts [OF assms] by blast

text \<open>
  The packages ask for more power exactly when one of them runs faster than requested: the
  comparison of the P-states has the wrong direction, and packages that run too slow never ask.
\<close>

theorem cpu_greedy_is_inverted:
  assumes "cg_pc_on s" "cg_current_limit s \<noteq> POWER_CAP_UNLIMITED" "wf_table (cg_api s)" "length (cf_freqs_available (cg_api s)) < 2 ^ 32"
    and "\<forall>i < cg_num_cpus s. \<exists>t c. t < length (cf_freqs_available (cg_api s)) \<and> c < length (cf_freqs_available (cg_api s)) \<and>
      req_f ! i = cf_freqs_available (cg_api s) ! t \<and> cur ! i = \<lparr>ps_idx = of_nat c, ps_khz = cf_freqs_available (cg_api s) ! c\<rparr>"
    and "cpu_get_powercap_status req_f cur (Some energy) ms requested st s = (ret, st', s')"
  shows "ds_ok st' = PC_STATUS_GREEDY \<longleftrightarrow> (\<exists>i < cg_num_cpus s. req_f ! i < ps_khz (cur ! i))"
proof -
  let ?fa = "cf_freqs_available (cg_api s)"
  have cmp: "(case static_get_index (cg_api s) (req_f ! i) True of None \<Rightarrow> 0 | Some p \<Rightarrow> (of_nat p :: u32)) > ps_idx (cur ! i) \<longleftrightarrow>
      req_f ! i < ps_khz (cur ! i)" if i: "i < cg_num_cpus s" for i
  proof -
    from assms(5) i obtain t c where tc: "t < length ?fa" "c < length ?fa" "req_f ! i = ?fa ! t" "cur ! i = \<lparr>ps_idx = of_nat c, ps_khz = ?fa ! c\<rparr>"
      by blast
    have "static_get_index (cg_api s) (req_f ! i) True = Some t" using static_get_index_nth [OF assms(3) tc(1)] tc(3) by simp
    moreover have "(of_nat c < (of_nat t :: u32)) \<longleftrightarrow> c < t" using tc(1,2) assms(4) by (simp add: word_less_nat_alt unat_of_nat_less)
    moreover have "?fa ! t < ?fa ! c \<longleftrightarrow> c < t"
      using assms(3) tc(1,2) descending_nth [of ?fa c t] descending_nth_le [of ?fa t c]
      by (cases "c < t") (auto simp: wf_table_def word_less_nat_alt)
    ultimately show ?thesis using tc by simp
  qed
  have "cmp_curr_pstate_with_target_freq (s\<lparr>cg_c_req_f := req_f, cg_energy := energy\<rparr>) cur req_f \<longleftrightarrow>
      (\<exists>i < cg_num_cpus s. req_f ! i < ps_khz (cur ! i))"
    using cmp by (simp add: cmp_curr_pstate_with_target_freq_def list_ex_iff Bex_def)
  then show ?thesis
    using assms(1,2,6) by (auto simp: cpu_get_powercap_status_def Let_def split: if_splits)
qed

inductive gh_step :: "grace_hopper \<Rightarrow> grace_hopper \<Rightarrow> bool" where
  "gh_step s (snd (gh_enable s))"
| "gh_step s (snd (gh_set_powercap_value ex domain limit s))"
| "gh_step s (gh_set_status status s)"
| "gh_step s (gh_set_app_req_freq f s)"

lemma gh_never_caps_parts:
  assumes "gh_step\<^sup>*\<^sup>* gh_init s"
  shows "gh_set_powercap_value ex domain limit s = (EAR_SUCCESS, s)" and "gh_cmds s = []"
proof -
  from assms have "gh_policy_enabled s = 0 \<and> gh_cmds s = []"
  proof induction
    case (step y z)
    from step(2,3) show ?case
      by cases (simp_all add: gh_enable_def gh_set_powercap_value_def gh_set_status_def gh_set_app_req_freq_def)
  qed (simp add: gh_init_def)
  then show "gh_set_powercap_value ex domain limit s = (EAR_SUCCESS, s)" "gh_cmds s = []"
    by (simp_all add: gh_set_powercap_value_def)
qed

text \<open>
  The Grace Hopper plugin never limits the power: nothing enables its policy, so from its
  initial state every limit is accepted without a command to the hardware.
\<close>

theorem gh_never_caps:
  assumes "gh_step\<^sup>*\<^sup>* gh_init s"
  shows "gh_set_powercap_value ex domain limit s = (EAR_SUCCESS, s) \<and>
      gh_cmds s = []"
  using gh_never_caps_parts [OF assms] by blast

end
