(* ===== verification/Power_Plugins.thy ===== *)
theory Power_Plugins
  imports Gpu_Dvfs Cpu_Plugins
begin

text \<open>
  The plugins behind the table of symbols of the power manager (\<^verbatim>\<open>daemon/powercap/powercap_mgt.c\<close>):
  a domain of the node has one plugin or none, and a symbol the plugin does not define is a null
  pointer, whose call yields \<open>EAR_UNDEFINED\<close>.  The contract that the manager relies on is a locale:
  the status reports the limit in force, and a limit that is accepted is the one in force.
  \<^const>\<open>None\<close> is a call without defined result, as of a plugin whose function has another signature
  than the table.
\<close>

subsection \<open>The table of symbols\<close>

datatype plugin =
    P_Null
  | P_Dvfs dvfs "u64 list list"
  | P_Cpu cpu_generic
  | P_Gpu gpu_pc
  | P_Gpu_Dvfs gpu_dvfs
  | P_Grace grace_hopper
  | P_Inm inm
  | P_Dummy gpu_dummy

text \<open>What the plugins read from the hardware, from the drivers and from the applications.\<close>

record plugin_env =
  pe_cpu_req_f :: "u64 list"
  pe_gpu_req_f :: "u64 list"
  pe_current :: "u64 list option"
  pe_pstates :: "pstate list"
  pe_energy :: "u64 list option"
  pe_ms :: rat
  pe_requested :: u32
  pe_driver :: state_t
  pe_cpupow :: cpupow_driver
  pe_gpu_idle :: "gpu_sample list option"
  pe_gh :: "gh_cmd \<Rightarrow> bool"
  pe_inm :: "inm_cmd \<Rightarrow> bool"

fun plugin_set_powercap_value ::
  "plugin_env \<Rightarrow> nat \<Rightarrow> u32 list \<Rightarrow> u64 list \<Rightarrow> plugin \<Rightarrow> (state_t \<times> plugin) option" where
  "plugin_set_powercap_value e level limit util P_Null = Some (EAR_UNDEFINED, P_Null)"
| "plugin_set_powercap_value e level limit util (P_Dvfs s w) =
     (case dvfs_set_powercap_value (pe_cpu_req_f e) level limit s of None \<Rightarrow> None
      | Some (s, f) \<Rightarrow> Some (EAR_SUCCESS, P_Dvfs s (case f of None \<Rightarrow> w | Some f \<Rightarrow> w @ [f])))"
| "plugin_set_powercap_value e level limit util (P_Cpu s) = Some (map_prod id P_Cpu (cpu_set_powercap_value (pe_cpupow e) level limit s))"
| "plugin_set_powercap_value e level limit util (P_Gpu s) = Some (map_prod id P_Gpu (gpu_set_powercap_value (pe_driver e) level limit util s))"
| "plugin_set_powercap_value e level limit util (P_Gpu_Dvfs s) =
     Some (map_prod id P_Gpu_Dvfs (gpudvfs_set_powercap_value (pe_gpu_req_f e) (pe_gpu_idle e) level limit util s))"
| "plugin_set_powercap_value e level limit util (P_Grace s) = Some (map_prod id P_Grace (gh_set_powercap_value (pe_gh e) level limit s))"
| "plugin_set_powercap_value e level limit util (P_Inm s) = None"
| "plugin_set_powercap_value e level limit util (P_Dummy s) = None"

text \<open>A plugin without the symbol leaves the status as it was cleared.\<close>

fun plugin_get_powercap_status :: "plugin_env \<Rightarrow> domain_status \<Rightarrow> plugin \<Rightarrow> (domain_status \<times> plugin) option" where
  "plugin_get_powercap_status e st P_Null = Some (st, P_Null)"
| "plugin_get_powercap_status e st (P_Dvfs s w) =
     (case dvfs_get_powercap_status (pe_current e) s of None \<Rightarrow> None | Some (r, st, s) \<Rightarrow> Some (st, P_Dvfs s w))"
| "plugin_get_powercap_status e st (P_Cpu s) =
     (case cpu_get_powercap_status (pe_cpu_req_f e) (pe_pstates e) (pe_energy e) (pe_ms e) (pe_requested e) st s of
        (r, st, s) \<Rightarrow> Some (st, P_Cpu s))"
| "plugin_get_powercap_status e st (P_Gpu s) = Some (snd (gpu_get_powercap_status s), P_Gpu s)"
| "plugin_get_powercap_status e st (P_Gpu_Dvfs s) = Some (snd (gpudvfs_get_powercap_status s), P_Gpu_Dvfs s)"
| "plugin_get_powercap_status e st (P_Grace s) = Some (st, P_Grace s)"
| "plugin_get_powercap_status e st (P_Inm s) = None"
| "plugin_get_powercap_status e st (P_Dummy s) = Some (st, P_Dummy s)"

fun plugin_set_status :: "u32 \<Rightarrow> plugin \<Rightarrow> plugin" where
  "plugin_set_status status (P_Dvfs s w) = P_Dvfs (dvfs_set_status status s) w"
| "plugin_set_status status (P_Cpu s) = P_Cpu (cpu_set_status status s)"
| "plugin_set_status status (P_Gpu s) = P_Gpu (gpu_set_status status s)"
| "plugin_set_status status (P_Gpu_Dvfs s) = P_Gpu_Dvfs (gpudvfs_set_status status s)"
| "plugin_set_status status (P_Grace s) = P_Grace (gh_set_status status s)"
| "plugin_set_status status (P_Dummy s) = P_Dummy (gy_set_status status s)"
| "plugin_set_status status p = p"

fun plugin_set_pc_mode :: "u32 \<Rightarrow> plugin \<Rightarrow> plugin" where
  "plugin_set_pc_mode mode (P_Dvfs s w) = P_Dvfs (dvfs_set_pc_mode mode s) w"
| "plugin_set_pc_mode mode (P_Gpu s) = P_Gpu (gpu_set_pc_mode mode s)"
| "plugin_set_pc_mode mode (P_Gpu_Dvfs s) = P_Gpu_Dvfs (gpudvfs_set_pc_mode mode s)"
| "plugin_set_pc_mode mode (P_Dummy s) = P_Dummy (gy_set_pc_mode mode s)"
| "plugin_set_pc_mode mode p = p"

fun plugin_set_app_req_freq :: "u64 list \<Rightarrow> plugin \<Rightarrow> plugin" where
  "plugin_set_app_req_freq f (P_Dvfs s w) = P_Dvfs (dvfs_set_app_req_freq f s) w"
| "plugin_set_app_req_freq f (P_Cpu s) = P_Cpu (cpu_set_app_req_freq f s)"
| "plugin_set_app_req_freq f (P_Gpu s) = P_Gpu (gpu_set_app_req_freq f s)"
| "plugin_set_app_req_freq f (P_Gpu_Dvfs s) = P_Gpu_Dvfs (gpudvfs_set_app_req_freq f s)"
| "plugin_set_app_req_freq f (P_Grace s) = P_Grace (gh_set_app_req_freq (f ! 0) s)"
| "plugin_set_app_req_freq f (P_Inm s) = P_Inm (inm_set_app_req_freq (f ! 0) s)"
| "plugin_set_app_req_freq f p = p"

fun plugin_reset_powercap_value :: "plugin_env \<Rightarrow> plugin \<Rightarrow> plugin" where
  "plugin_reset_powercap_value e (P_Dvfs s w) = P_Dvfs (dvfs_reset_powercap_value s) w"
| "plugin_reset_powercap_value e (P_Gpu s) = P_Gpu (snd (gpu_reset_powercap_value (pe_driver e) s))"
| "plugin_reset_powercap_value e (P_Gpu_Dvfs s) = P_Gpu_Dvfs (snd (gpudvfs_reset_powercap_value (pe_gpu_req_f e) (pe_gpu_idle e) s))"
| "plugin_reset_powercap_value e p = p"

fun plugin_set_new_utilization :: "plugin_env \<Rightarrow> u64 list \<Rightarrow> plugin \<Rightarrow> plugin" where
  "plugin_set_new_utilization e util (P_Gpu s) = P_Gpu (gpu_set_new_utilization (pe_driver e) util s)"
| "plugin_set_new_utilization e util (P_Gpu_Dvfs s) = P_Gpu_Dvfs (gpudvfs_set_new_utilization (pe_gpu_req_f e) (pe_gpu_idle e) util s)"
| "plugin_set_new_utilization e util p = p"

fun plugin_disable :: "plugin_env \<Rightarrow> plugin \<Rightarrow> state_t \<times> plugin" where
  "plugin_disable e P_Null = (EAR_UNDEFINED, P_Null)"
| "plugin_disable e (P_Cpu s) = map_prod id P_Cpu (cpu_disable (pe_cpupow e) s)"
| "plugin_disable e (P_Gpu s) = map_prod id P_Gpu (gpu_disable s)"
| "plugin_disable e (P_Gpu_Dvfs s) = (EAR_SUCCESS, P_Gpu_Dvfs (s\<lparr>gd_enabled := False\<rparr>))"
| "plugin_disable e (P_Inm s) = map_prod id P_Inm (inm_disable (pe_inm e) s)"
| "plugin_disable e p = (EAR_SUCCESS, p)"

text \<open>
  The strategy of a plugin; the generic CPU plugin and the two node plugins define the function
  under a misspelt name, so the table has no symbol for it.
\<close>

fun plugin_get_powercap_strategy :: "plugin \<Rightarrow> u32 option" where
  "plugin_get_powercap_strategy (P_Dvfs s w) = Some dvfs_get_powercap_strategy"
| "plugin_get_powercap_strategy (P_Gpu s) = Some PC_POWER"
| "plugin_get_powercap_strategy (P_Gpu_Dvfs s) = Some PC_DVFS"
| "plugin_get_powercap_strategy (P_Dummy s) = Some PC_POWER"
| "plugin_get_powercap_strategy p = None"

fun plugin_get_settings :: "plugin \<Rightarrow> domain_settings" where
  "plugin_get_settings (P_Dvfs s w) = dvfs_plugin_get_settings"
| "plugin_get_settings (P_Cpu s) = \<lparr>dm_node_ratio = to_float (1 / 10), dm_security_range = to_float (1 / 100)\<rparr>"
| "plugin_get_settings (P_Gpu s) = gpu_plugin_get_settings"
| "plugin_get_settings (P_Gpu_Dvfs s) = \<lparr>dm_node_ratio = to_float (2 / 100), dm_security_range = to_float (1 / 100)\<rparr>"
| "plugin_get_settings (P_Grace s) = \<lparr>dm_node_ratio = 0, dm_security_range = to_float (1 / 100)\<rparr>"
| "plugin_get_settings (P_Inm s) = \<lparr>dm_node_ratio = to_float (2 / 100), dm_security_range = to_float (1 / 100)\<rparr>"
| "plugin_get_settings p = \<lparr>dm_node_ratio = 0, dm_security_range = 0\<rparr>"

subsection \<open>The contract of a plugin\<close>

locale power_domain =
  fixes ok :: "'s \<Rightarrow> bool"
    and set_limit :: "u32 \<Rightarrow> 's \<Rightarrow> (state_t \<times> 's) option"
    and limit_of :: "'s \<Rightarrow> u32"
    and status_of :: "'s \<Rightarrow> (domain_status \<times> 's) option"
  assumes installed: "ok s \<Longrightarrow> set_limit w s = Some (r, s') \<Longrightarrow> ok s' \<and> limit_of s' = w"
    and reported: "ok s \<Longrightarrow> status_of s = Some (st, s') \<Longrightarrow> ds_current_pc st = limit_of s"
    and status_keeps: "ok s \<Longrightarrow> status_of s = Some (st, s') \<Longrightarrow> ok s' \<and> limit_of s' = limit_of s"
begin

lemma lowered:
  assumes "ok s" "status_of s = Some (st, s1)" "set_limit (ds_current_pc st - d) s1 = Some (r, s2)" "d \<le> limit_of s"
  shows "unat (limit_of s2) = unat (limit_of s) - unat d"
  using installed [OF _ assms(3)] reported [OF assms(1,2)] status_keeps [OF assms(1,2)] unat_sub [OF assms(4)] by simp

lemma raised:
  assumes "ok s" "status_of s = Some (st, s1)" "set_limit (ds_current_pc st + d) s1 = Some (r, s2)"
    and "unat (limit_of s) + unat d < 2 ^ 32"
  shows "unat (limit_of s2) = unat (limit_of s) + unat d"
  using installed [OF _ assms(3)] reported [OF assms(1,2)] status_keeps [OF assms(1,2)] assms(4) by (simp add: unat_word_ariths)

end

text \<open>A domain that can go back to its default limit, the last one that was set with success.\<close>

locale resettable_domain = power_domain ok set_limit limit_of status_of
  for ok :: "'s \<Rightarrow> bool" and set_limit limit_of status_of +
  fixes default_of :: "'s \<Rightarrow> u32" and reset :: "'s \<Rightarrow> 's"
  assumes set_default: "ok s \<Longrightarrow> set_limit w s = Some (EAR_SUCCESS, s') \<Longrightarrow> default_of s' = w"
    and status_default: "ok s \<Longrightarrow> status_of s = Some (st, s') \<Longrightarrow> default_of s' = default_of s"
    and reset: "ok s \<Longrightarrow> ok (reset s) \<and> limit_of (reset s) = default_of s \<and> default_of (reset s) = default_of s"
begin

lemma set_settles: "ok s \<Longrightarrow> set_limit w s = Some (EAR_SUCCESS, s') \<Longrightarrow> default_of s' = limit_of s'"
  using installed set_default by simp

lemma reset_settled: "ok s \<Longrightarrow> default_of s = limit_of s \<Longrightarrow> limit_of (reset s) = limit_of s \<and> default_of (reset s) = limit_of (reset s)"
  using reset by simp

end

locale domain_pair =
  src: power_domain ok_a set_a limit_a status_a + dst: power_domain ok_b set_b limit_b status_b
  for ok_a :: "'s \<Rightarrow> bool" and set_a limit_a status_a and ok_b :: "'t \<Rightarrow> bool" and set_b limit_b status_b
begin

text \<open>Moving watts that the first domain has from it to the second conserves the sum of their limits.\<close>

lemma moved:
  assumes "ok_a a" "ok_b b" "status_a a = Some (st, a1)" "status_b b = Some (st', b1)"
    and "set_a (ds_current_pc st - d) a1 = Some (r, a2)" "set_b (ds_current_pc st' + d) b1 = Some (r', b2)"
    and "d \<le> limit_a a" "unat (limit_a a) + unat (limit_b b) < 2 ^ 32"
  shows "unat (limit_a a2) + unat (limit_b b2) = unat (limit_a a) + unat (limit_b b)"
proof -
  have "unat d \<le> unat (limit_a a)" using assms(7) by (simp add: word_le_nat_alt)
  then show ?thesis
    using src.lowered [OF assms(1,3,5,7)] dst.raised [OF assms(2,4,6)] assms(8) by simp
qed

end

subsection \<open>The plugins that keep the contract\<close>

text \<open>
  The frequency scaling of the CPUs and both GPU plugins keep it, for limits of the node and of the
  domain.  The generic CPU plugin and the Grace Hopper plugin accept limits that they do not set.
\<close>

fun keeps_contract :: "plugin \<Rightarrow> bool" where
  "keeps_contract (P_Dvfs s w) = True"
| "keeps_contract (P_Gpu s) = True"
| "keeps_contract (P_Gpu_Dvfs s) = True"
| "keeps_contract p = False"

fun plugin_limit :: "plugin \<Rightarrow> u32" where
  "plugin_limit (P_Dvfs s w) = dv_current_pc s"
| "plugin_limit (P_Gpu s) = ucast (gp_current_pc s)"
| "plugin_limit (P_Gpu_Dvfs s) = ucast (gd_current_pc s)"
| "plugin_limit p = 0"

fun plugin_default :: "plugin \<Rightarrow> u32" where
  "plugin_default (P_Dvfs s w) = dv_default_pc s"
| "plugin_default (P_Gpu s) = ucast (gp_default_pc s)"
| "plugin_default (P_Gpu_Dvfs s) = ucast (gd_default_pc s)"
| "plugin_default p = 0"

lemma dvfs_set_limits:
  "dvfs_set_powercap_value req_f level [w] s = Some (s', f) \<Longrightarrow> level \<noteq> LEVEL_DEVICE \<Longrightarrow>
   dv_current_pc s' = w \<and> dv_default_pc s' = w"
  by (auto simp: dvfs_set_powercap_value_def dvfs_apply_def restore_frequency_def reset_prev_def Let_def split: if_splits)

lemma dvfs_status_limits:
  "dvfs_get_powercap_status current s = Some (r, st, s') \<Longrightarrow>
   ds_current_pc st = dv_current_pc s \<and> dv_current_pc s' = dv_current_pc s \<and> dv_default_pc s' = dv_default_pc s"
  by (auto simp: dvfs_get_powercap_status_def Let_def bind_eq_Some_conv split: if_splits)

lemma dvfs_reset_limits:
  "dv_current_pc (dvfs_reset_powercap_value s) = dv_default_pc s" "dv_default_pc (dvfs_reset_powercap_value s) = dv_default_pc s"
  by (simp_all add: dvfs_reset_powercap_value_def reset_prev_def)

lemma gpu_int_set_limits:
  "gp_current_pc (snd (gpu_int_set_powercap_value driver limit util s)) = limit"
  "gp_default_pc (snd (gpu_int_set_powercap_value driver limit util s)) = gp_default_pc s"
  by (simp_all add: gpu_int_set_powercap_value_def restore_powercap_def Let_def)

lemma gpu_set_limits:
  assumes "gpu_set_powercap_value driver level [w] util s = (r, s')" "level = LEVEL_NODE \<or> level = LEVEL_DOMAIN"
  shows "ucast (gp_current_pc s') = w" "r = EAR_SUCCESS \<Longrightarrow> ucast (gp_default_pc s') = w"
  using assms gpu_int_set_limits(1) [of driver "ucast w" util s]
  by (auto simp: gpu_set_powercap_value_def split: prod.splits if_splits)

lemma gpu_status_loop_limit: "ds_current_pc (snd (gpu_status_loop s t is st)) = ds_current_pc st"
  by (induction s t "is" st rule: gpu_status_loop.induct) (simp_all add: Let_def)

lemma gpu_status_limit: "ds_current_pc (snd (gpu_get_powercap_status s)) = ucast (gp_current_pc s)"
  by (simp add: gpu_get_powercap_status_def gpu_status_loop_limit Let_def)

lemma gpudvfs_status_loop_limit: "ds_current_pc (snd (gpudvfs_status_loop s is st)) = ds_current_pc st"
  by (induction s "is" st rule: gpudvfs_status_loop.induct) (simp_all add: Let_def)

lemma gpudvfs_status_limit: "ds_current_pc (snd (gpudvfs_get_powercap_status s)) = ucast (gd_current_pc s)"
  by (simp add: gpudvfs_get_powercap_status_def gpudvfs_status_loop_limit Let_def)

lemma foldl_keeps:
  assumes "\<And>s i. f (g s i) = f s"
  shows "f (foldl g s xs) = f s"
  by (induction xs arbitrary: s) (simp_all add: assms)

lemma gpudvfs_idle_phase_limits:
  "gd_current_pc (snd (snd (gpudvfs_idle_phase idle util limit s))) = gd_current_pc s"
  "gd_default_pc (snd (snd (gpudvfs_idle_phase idle util limit s))) = gd_default_pc s"
proof -
  let ?f = "\<lambda>p. (gd_current_pc (snd (snd p)), gd_default_pc (snd (snd p)))"
  have "?f (gpudvfs_idle_phase idle util limit s) = ?f (0 :: u32, limit, s)"
    unfolding gpudvfs_idle_phase_def by (rule foldl_keeps) (simp add: Let_def split: prod.split)
  then show "gd_current_pc (snd (snd (gpudvfs_idle_phase idle util limit s))) = gd_current_pc s"
    "gd_default_pc (snd (snd (gpudvfs_idle_phase idle util limit s))) = gd_default_pc s" by simp_all
qed

lemma gpudvfs_int_set_limits:
  "gd_current_pc (snd (gpudvfs_int_set_powercap_value req_f idle limit util s)) = limit"
  "gd_default_pc (snd (gpudvfs_int_set_powercap_value req_f idle limit util s)) = gd_default_pc s"
  using gpudvfs_idle_phase_limits [of "the idle" util limit "s\<lparr>gd_current_pc := limit\<rparr>"]
  by (auto simp: gpudvfs_int_set_powercap_value_def gpudvfs_restore_frequency_def gpudvfs_busy_phase_def Let_def
      split: option.split prod.splits)

lemma gpudvfs_set_limits:
  assumes "gpudvfs_set_powercap_value req_f idle level [w] util s = (r, s')" "level \<noteq> LEVEL_DEVICE"
  shows "ucast (gd_current_pc s') = w" "ucast (gd_default_pc s') = w"
  using assms gpudvfs_int_set_limits [of req_f idle "ucast w" util "s\<lparr>gd_status := PC_STATUS_OK, gd_ask_def := False, gd_default_pc := ucast w\<rparr>"]
  by (simp_all add: gpudvfs_set_powercap_value_def)

lemma plugin_set_limits:
  assumes "keeps_contract p" "level = LEVEL_NODE \<or> level = LEVEL_DOMAIN"
    and set: "plugin_set_powercap_value e level [w] util p = Some (r, p')"
  shows "keeps_contract p'" "plugin_limit p' = w" "r = EAR_SUCCESS \<Longrightarrow> plugin_default p' = w"
proof -
  have level: "level \<noteq> LEVEL_DEVICE" using assms(2) by auto
  have "keeps_contract p' \<and> plugin_limit p' = w \<and> (r = EAR_SUCCESS \<longrightarrow> plugin_default p' = w)"
    using assms(1)
  proof (cases p rule: keeps_contract.cases)
    case (1 s fs)
    then obtain s' f fs' where "dvfs_set_powercap_value (pe_cpu_req_f e) level [w] s = Some (s', f)" "p' = P_Dvfs s' fs'"
      using set by (auto split: option.splits)
    then show ?thesis using dvfs_set_limits level by simp
  next
    case (2 s)
    then obtain s' where "gpu_set_powercap_value (pe_driver e) level [w] util s = (r, s')" "p' = P_Gpu s'"
      using set by (cases "gpu_set_powercap_value (pe_driver e) level [w] util s") auto
    then show ?thesis using gpu_set_limits [OF _ assms(2)] by auto
  next
    case (3 s)
    then obtain s' where "gpudvfs_set_powercap_value (pe_gpu_req_f e) (pe_gpu_idle e) level [w] util s = (r, s')" "p' = P_Gpu_Dvfs s'"
      using set by (cases "gpudvfs_set_powercap_value (pe_gpu_req_f e) (pe_gpu_idle e) level [w] util s") auto
    then show ?thesis using gpudvfs_set_limits level by simp
  qed simp_all
  then show "keeps_contract p'" "plugin_limit p' = w" "r = EAR_SUCCESS \<Longrightarrow> plugin_default p' = w" by simp_all
qed

lemma plugin_status_limits:
  assumes "keeps_contract p" and st: "plugin_get_powercap_status e z p = Some (st, p')"
  shows "keeps_contract p'" "ds_current_pc st = plugin_limit p" "plugin_limit p' = plugin_limit p" "plugin_default p' = plugin_default p"
proof -
  have "keeps_contract p' \<and> ds_current_pc st = plugin_limit p \<and> plugin_limit p' = plugin_limit p \<and> plugin_default p' = plugin_default p"
    using assms(1)
  proof (cases p rule: keeps_contract.cases)
    case (1 s fs)
    then obtain r s' where "dvfs_get_powercap_status (pe_current e) s = Some (r, st, s')" "p' = P_Dvfs s' fs"
      using st by (auto split: option.splits)
    then show ?thesis using dvfs_status_limits 1 by simp
  qed (use st in \<open>auto simp: gpu_status_limit gpudvfs_status_limit\<close>)
  then show "keeps_contract p'" "ds_current_pc st = plugin_limit p" "plugin_limit p' = plugin_limit p" "plugin_default p' = plugin_default p"
    by simp_all
qed

lemma plugin_reset_limits:
  assumes "keeps_contract p"
  shows "keeps_contract (plugin_reset_powercap_value e p)" "plugin_limit (plugin_reset_powercap_value e p) = plugin_default p"
    "plugin_default (plugin_reset_powercap_value e p) = plugin_default p"
  using assms by (cases p; simp add: dvfs_reset_limits gpu_reset_powercap_value_def gpu_int_set_limits
      gpudvfs_reset_powercap_value_def gpudvfs_int_set_limits)+

lemma plugin_utilization_limits:
  assumes "keeps_contract p"
  shows "keeps_contract (plugin_set_new_utilization e u p)" "plugin_limit (plugin_set_new_utilization e u p) = plugin_limit p"
    "plugin_default (plugin_set_new_utilization e u p) = plugin_default p"
  using assms by (cases p; simp add: gpu_set_new_utilization_def gpu_int_set_limits gpudvfs_set_new_utilization_def gpudvfs_int_set_limits)+

lemma plugin_field_limits:
  assumes "keeps_contract p"
  shows "keeps_contract (plugin_set_status v p)" "plugin_limit (plugin_set_status v p) = plugin_limit p"
    "plugin_default (plugin_set_status v p) = plugin_default p"
    "keeps_contract (plugin_set_pc_mode v p)" "plugin_limit (plugin_set_pc_mode v p) = plugin_limit p"
    "plugin_default (plugin_set_pc_mode v p) = plugin_default p"
    "keeps_contract (plugin_set_app_req_freq f p)" "plugin_limit (plugin_set_app_req_freq f p) = plugin_limit p"
    "plugin_default (plugin_set_app_req_freq f p) = plugin_default p"
  using assms by (cases p; simp add: dvfs_set_status_def gpu_set_status_def gpudvfs_set_status_def dvfs_set_pc_mode_def
      gpu_set_pc_mode_def gpudvfs_set_pc_mode_def dvfs_set_app_req_freq_def gpu_set_app_req_freq_def gpudvfs_set_app_req_freq_def)+

text \<open>The contract holds for limits of the domain (\<open>pl\<close>) and for limits of the node (\<open>pn\<close>).\<close>

lemma plugin_contract:
  assumes "level = LEVEL_NODE \<or> level = LEVEL_DOMAIN"
  shows "resettable_domain keeps_contract (\<lambda>w. plugin_set_powercap_value e level [w] util) plugin_limit
    (plugin_get_powercap_status e z) plugin_default (plugin_reset_powercap_value e)"
proof
  fix p p' :: plugin and w r st
  assume ok: "keeps_contract p"
  show "keeps_contract p' \<and> plugin_limit p' = w" if "plugin_set_powercap_value e level [w] util p = Some (r, p')"
    using plugin_set_limits [OF ok assms that] by simp
  show "plugin_default p' = w" if "plugin_set_powercap_value e level [w] util p = Some (EAR_SUCCESS, p')"
    using plugin_set_limits [OF ok assms that] by simp
  show "ds_current_pc st = plugin_limit p" "keeps_contract p' \<and> plugin_limit p' = plugin_limit p" "plugin_default p' = plugin_default p"
    if "plugin_get_powercap_status e z p = Some (st, p')"
    using plugin_status_limits [OF ok that] by simp_all
  show "keeps_contract (plugin_reset_powercap_value e p) \<and> plugin_limit (plugin_reset_powercap_value e p) = plugin_default p \<and>
    plugin_default (plugin_reset_powercap_value e p) = plugin_default p"
    using plugin_reset_limits [OF ok] by simp
qed

interpretation pl: resettable_domain keeps_contract "\<lambda>w. plugin_set_powercap_value e LEVEL_DOMAIN [w] util" plugin_limit
    "plugin_get_powercap_status e z" plugin_default "plugin_reset_powercap_value e" for e util z
  by (rule plugin_contract) simp

interpretation pn: resettable_domain keeps_contract "\<lambda>w. plugin_set_powercap_value e LEVEL_NODE [w] util" plugin_limit
    "plugin_get_powercap_status e z" plugin_default "plugin_reset_powercap_value e" for e util z
  by (rule plugin_contract) simp

interpretation pp: domain_pair keeps_contract "\<lambda>w. plugin_set_powercap_value e LEVEL_DOMAIN [w] util" plugin_limit
    "plugin_get_powercap_status e z" keeps_contract "\<lambda>w. plugin_set_powercap_value e LEVEL_DOMAIN [w] util'" plugin_limit
    "plugin_get_powercap_status e z" for e util util' z ..

end
