(* ===== verification/Power_Mgt.thy ===== *)
theory Power_Mgt
  imports Power_Plugins Job_Contexts
begin

text \<open>
  The power manager of a node (\<^verbatim>\<open>daemon/powercap/powercap_mgt.c\<close>), compiled with GPU support: it splits
  the limit of the node between the domains, moves power between the CPUs and the GPUs and forms
  the status of the node from the statuses of the domains.  The arrays with one entry per domain
  are lists of length four.  \<^const>\<open>None\<close> is a call without defined result, a conversion outside the
  range of the integer type or a failed assertion.
\<close>

subsection \<open>State\<close>

abbreviation (input) PC_MODE_AUTO :: u32 where "PC_MODE_AUTO \<equiv> 1"
abbreviation (input) PC_MODE_MANUAL :: u32 where "PC_MODE_MANUAL \<equiv> 2"
abbreviation (input) CHECK_ASK_DEFAULT :: u32 where "CHECK_ASK_DEFAULT \<equiv> 0"
abbreviation (input) CHECK_POWER_RED :: u32 where "CHECK_POWER_RED \<equiv> 1"

definition domains :: "nat list" where "domains = [DOMAIN_NODE, DOMAIN_CPU, DOMAIN_DRAM, DOMAIN_GPU]"

record pmgt =
  pg_current_mode :: u32
  pg_limit :: u32
  pg_status :: "domain_status list"
  pg_settings :: "domain_settings list"
  pg_current_util :: "u64 list list"
  pg_prev_util :: "u64 list list"
  pg_dom_util :: "u64 list"
  pg_last_dom_util :: "u64 list"
  pg_dom_changed :: "bool list"
  pg_pdomains :: "rat list"
  pg_pdomains_idle :: "rat list"
  pg_pdomains_def :: "rat list"
  pg_loaded :: "bool list"
  pg_plugins :: "plugin list"
  pg_security_range :: rat
  pg_num_gpus :: nat
  pg_sockets :: nat
  pg_cpus :: nat
  pg_manual_power :: "u64 list"
  pg_burst :: "bool list"
  pg_pper_domain :: "u32 list"
  pg_util_period :: u32

definition domain_loaded :: "pmgt \<Rightarrow> nat \<Rightarrow> bool" where
  "domain_loaded s i = pg_loaded s ! i"

definition zero_domain_status :: domain_status where
  "zero_domain_status = \<lparr>ds_ok = 0, ds_exceed = 0, ds_current_pc = 0, ds_stress = 0, ds_requested = 0\<rparr>"

definition update_plugins :: "(plugin \<Rightarrow> plugin) \<Rightarrow> pmgt \<Rightarrow> pmgt" where
  "update_plugins f s = s\<lparr>pg_plugins := map f (pg_plugins s)\<rparr>"

definition set_domain :: "plugin_env \<Rightarrow> nat \<Rightarrow> u32 list \<Rightarrow> nat \<Rightarrow> pmgt \<Rightarrow> (state_t \<times> pmgt) option" where
  "set_domain e level limits i s =
     map_option (\<lambda>(ret, p). (ret, s\<lparr>pg_plugins := (pg_plugins s)[i := p]\<rparr>))
       (plugin_set_powercap_value e level limits (pg_current_util s ! i) (pg_plugins s ! i))"

subsection \<open>Limits set by hand\<close>

fun manual_loop :: "plugin_env \<Rightarrow> nat list \<Rightarrow> pmgt \<Rightarrow> pmgt option" where
  "manual_loop e [] s = Some s"
| "manual_loop e (i # is) s =
     (if domain_loaded s i
      then do {
        (ret, s) \<leftarrow> set_domain e LEVEL_DOMAIN [ucast (pg_manual_power s ! i), ucast (drop_bit 32 (pg_manual_power s ! i))] i s;
        manual_loop e is s
      }
      else manual_loop e is s)"

definition set_manual :: "nat \<Rightarrow> i32 \<Rightarrow> pmgt \<Rightarrow> pmgt" where
  "set_manual i v s = s\<lparr>pg_manual_power := (pg_manual_power s)[i := scast v]\<rparr>"

definition set_devices :: "plugin_env \<Rightarrow> nat \<Rightarrow> i32 list \<Rightarrow> pmgt \<Rightarrow> pmgt option" where
  "set_devices e i values s = (if domain_loaded s i then map_option snd (set_domain e LEVEL_DEVICE values i s) else Some s)"

definition pmgt_process_message :: "plugin_env \<Rightarrow> string option \<Rightarrow> i32 list \<Rightarrow> pmgt \<Rightarrow> pmgt option" where
  "pmgt_process_message e level values s =
     (let n = length values
      in if n = 0 then Some s
         else do {
           level \<leftarrow> level;
           let level = strtolow level;
           if level = ''domain''
           then if n < 2 then Some s
                else manual_loop e domains (set_manual DOMAIN_GPU (values ! 1) (set_manual DOMAIN_CPU (values ! 0) s))
           else if level = ''cpu''
           then if n = 1 then manual_loop e domains (set_manual DOMAIN_CPU (values ! 0) s)
                else if n = pg_sockets s then map_option snd (set_domain e LEVEL_DEVICE values DOMAIN_CPU s)
                else manual_loop e domains s
           else if level = ''gpu''
           then if n = 1 then manual_loop e domains (set_manual DOMAIN_GPU (values ! 0) s)
                else if n = pg_num_gpus s then map_option snd (set_domain e LEVEL_DEVICE values DOMAIN_GPU s)
                else manual_loop e domains s
           else if level = ''dram'' then manual_loop e domains (set_manual DOMAIN_DRAM (values ! 0) s)
           else if level = ''node'' then manual_loop e domains (set_manual DOMAIN_NODE (values ! 0) s)
           else if level = ''device''
           then if n < pg_num_gpus s + pg_sockets s * 2 then Some s
                else do {
                  s \<leftarrow> set_devices e DOMAIN_CPU values s;
                  s \<leftarrow> set_devices e DOMAIN_DRAM (drop (pg_sockets s) values) s;
                  set_devices e DOMAIN_GPU (drop (pg_sockets s * 2) values) s
                }
           else manual_loop e domains s
         })"

subsection \<open>Power distribution\<close>

text \<open>The shares of the domains from the design powers; \<^const>\<open>None\<close> is a total of zero.\<close>

definition compute_power_distribution :: "u32 \<Rightarrow> u32 \<Rightarrow> u32 \<Rightarrow> pmgt \<Rightarrow> pmgt option" where
  "compute_power_distribution bpd_cpu bpd_dram gpu_tdp s =
     (let node_ratio = dm_node_ratio (pg_settings s ! DOMAIN_CPU);
          bpd_gpu = (if domain_loaded s DOMAIN_GPU then gpu_tdp else 0);
          pd_cpu = bpd_cpu * of_nat (pg_sockets s);
          pd_dram = bpd_dram * of_nat (pg_sockets s);
          pd_gpu = bpd_gpu * of_nat (pg_num_gpus s);
          pd_pckg = pd_cpu + pd_dram;
          flt = (\<lambda>w :: u32. to_float (rat_of_word w))
      in do {
           pd_total \<leftarrow> float_to_uint (to_float (flt (pd_pckg + pd_gpu) + to_float (flt pd_pckg * node_ratio)));
           if pd_total = 0 then None
           else let d = [to_float (flt pd_total / flt pd_total), to_float (flt pd_pckg / flt pd_total),
                         to_float (flt pd_dram / flt pd_total), to_float (flt pd_gpu / flt pd_total)]
                in Some (s\<lparr>pg_pdomains_def := d, pg_pdomains_idle := d, pg_pdomains := d\<rparr>)
         })"

text \<open>
  \<open>pmgt_init\<close>: the plugin opened for each domain, \<open>P_Null\<close> where none is, the numbers of CPUs, sockets
  and GPUs, and the design powers.  A plugin of the node excludes those of CPU and DRAM, and a
  node without GPU library has none for the GPUs.
\<close>

definition pmgt_init :: "plugin list \<Rightarrow> bool \<Rightarrow> nat \<Rightarrow> nat \<Rightarrow> nat \<Rightarrow> u32 \<Rightarrow> u32 \<Rightarrow> u32 \<Rightarrow> u32 \<Rightarrow> (state_t \<times> pmgt) option" where
  "pmgt_init opened gpu_dummy cpus sockets gpus mode bpd_cpu bpd_dram gpu_tdp =
     (let node = opened ! 0;
          plugins = [node, if node = P_Null then opened ! 1 else P_Null, if node = P_Null then opened ! 2 else P_Null,
                     if gpu_dummy then P_Null else opened ! 3];
          util = [[100], if node = P_Null then replicate cpus 100 else [], replicate sockets 100,
                  if plugins ! 3 = P_Null then [] else replicate gpus 0];
          settings = map plugin_get_settings plugins;
          sec = foldl (\<lambda>r i. if plugins ! i \<noteq> P_Null then to_float (r - dm_security_range (settings ! i)) else r) 1 domains;
          s = \<lparr>pg_current_mode = mode, pg_limit = 0, pg_status = replicate 4 zero_domain_status, pg_settings = settings,
               pg_current_util = util, pg_prev_util = util, pg_dom_util = [0, 0, 0, 0], pg_last_dom_util = [0, 0, 0, 0],
               pg_dom_changed = [False, False, False, False], pg_pdomains = [], pg_pdomains_idle = [], pg_pdomains_def = [],
               pg_loaded = map (\<lambda>p. p \<noteq> P_Null) plugins, pg_plugins = plugins, pg_security_range = sec, pg_num_gpus = gpus, pg_sockets = sockets, pg_cpus = cpus,
               pg_manual_power = [0, 0, 0, 0], pg_burst = [False, False, False, False], pg_pper_domain = [0, 0, 0, 0],
               pg_util_period = 0\<rparr>
      in do {
           s \<leftarrow> compute_power_distribution bpd_cpu bpd_dram gpu_tdp s;
           Some (if list_ex (\<lambda>p. p \<noteq> P_Null) plugins then EAR_SUCCESS else EAR_ERROR, s)
         })"

definition domain_share :: "pmgt \<Rightarrow> u64 \<Rightarrow> nat \<Rightarrow> rat" where
  "domain_share s limit i = to_float (to_float (rat_of_word limit) * pg_pdomains s ! i)"

text \<open>The share of a context, written to the settings of every context when there is one.\<close>

definition set_pper_domain :: "nat \<Rightarrow> u64 \<Rightarrow> nat \<Rightarrow> pmgt \<Rightarrow> pmgt option" where
  "set_pper_domain num_contexts limit i s =
     (if num_contexts = 0 then Some s
      else map_option (\<lambda>w. s\<lparr>pg_pper_domain := (pg_pper_domain s)[i := w]\<rparr>)
        (float_to_uint (to_float (domain_share s limit i / to_float (of_nat num_contexts)))))"

fun set_value_loop :: "plugin_env \<Rightarrow> nat \<Rightarrow> u64 \<Rightarrow> nat list \<Rightarrow> state_t \<Rightarrow> pmgt \<Rightarrow> (state_t \<times> pmgt) option" where
  "set_value_loop e num_contexts limit [] gret s = Some (gret, s)"
| "set_value_loop e num_contexts limit (i # is) gret s =
     do {
       value \<leftarrow> float_to_uint (ear_max (domain_share s limit i) 1);
       (ret, s) \<leftarrow> set_domain e LEVEL_NODE [value] i s;
       s \<leftarrow> set_pper_domain num_contexts limit i s;
       let s = (if pg_plugins s ! i = P_Null then s else s\<lparr>pg_burst := (pg_burst s)[i := (value \<noteq> 1)]\<rparr>);
       set_value_loop e num_contexts limit is (if ret \<noteq> EAR_SUCCESS \<and> domain_loaded s i then ret else gret) s
     }"

definition pmgt_set_powercap_value :: "plugin_env \<Rightarrow> nat \<Rightarrow> u64 \<Rightarrow> pmgt \<Rightarrow> (state_t \<times> pmgt) option" where
  "pmgt_set_powercap_value e num_contexts limit s =
     (if pg_current_mode s = PC_MODE_MANUAL then Some (EAR_SUCCESS, s)
      else do {
        (gret, s) \<leftarrow> set_value_loop e num_contexts limit domains EAR_SUCCESS s;
        Some (gret, s\<lparr>pg_limit := ucast limit\<rparr>)
      })"

fun reallocate_loop :: "plugin_env \<Rightarrow> nat list \<Rightarrow> pmgt \<Rightarrow> pmgt option" where
  "reallocate_loop e [] s = Some s"
| "reallocate_loop e (i # is) s =
     do {
       new_limit \<leftarrow> float_to_uint (domain_share s (ucast (pg_limit s)) i);
       (ret, s) \<leftarrow> set_domain e LEVEL_NODE [new_limit] i s;
       reallocate_loop e is s
     }"

definition reallocate_power_between_domains :: "plugin_env \<Rightarrow> pmgt \<Rightarrow> pmgt option" where
  "reallocate_power_between_domains e s =
     (if pg_limit s = POWER_CAP_UNLIMITED then Some s
      else if pg_current_mode s = PC_MODE_MANUAL then Some s
      else reallocate_loop e domains s)"

definition pmgt_reset_pdomain :: "plugin_env \<Rightarrow> pmgt \<Rightarrow> pmgt option" where
  "pmgt_reset_pdomain e s = reallocate_power_between_domains e s"

text \<open>The periodic correction of the shares by the power that the node draws.\<close>

definition pmgt_set_power_per_domain :: "plugin_env \<Rightarrow> node_powercap_opt \<Rightarrow> dom_power \<Rightarrow> pmgt \<Rightarrow> pmgt option" where
  "pmgt_set_power_per_domain e opt pdomain s =
     (if pg_limit s = POWER_CAP_UNLIMITED then Some s
      else if pc_last_t1_allocated opt < pc_def_powercap opt then Some s
      else if dp_platform pdomain > pg_limit s
      then if pg_limit s = 0 then None
           else let excess = to_float (to_float (rat_of_word (dp_platform pdomain - pg_limit s)) / to_float (rat_of_word (pg_limit s)));
               s = s\<lparr>pg_pdomains := map (\<lambda>p. if p > 0 then to_float (p - to_float (excess * p)) else p) (pg_pdomains s)\<rparr>
           in pmgt_reset_pdomain e s
      else if to_float (rat_of_word (dp_platform pdomain)) < to_float (to_float (rat_of_word (pg_limit s)) * pg_security_range s)
      then let s = s\<lparr>pg_pdomains := map2 (\<lambda>p d. to_float (ear_min (to_double (p + to_double (2 / 100))) d)) (pg_pdomains s) (pg_pdomains_def s)\<rparr>
           in pmgt_reset_pdomain e s
      else Some s)"

subsection \<open>Requests of the applications\<close>

text \<open>The mask of the CPUs of a context whose requests count, if any.\<close>

definition request_mask :: "powermon \<Rightarrow> powermon_app \<Rightarrow> nat set option" where
  "request_mask pm a =
     (if ap_is_mpi (pa_app a) then Some (pa_node_mask a)
      else if \<not> pa_is_job a then Some (pa_plug_mask a)
      else case is_job_in_node (ap_id (pa_app a)) (pm_jobs pm) of
             Some j \<Rightarrow> if jc_num_ctx (pm_jobs pm ! j) = 1 then Some (pa_plug_mask a) else None
           | None \<Rightarrow> None)"

definition pmgt_get_app_req_cpufreq :: "(nat \<Rightarrow> u64 list) \<Rightarrow> u64 \<Rightarrow> powermon \<Rightarrow> u64 list" where
  "pmgt_get_app_req_cpufreq req_f unused_freq pm =
     (let f = foldl (\<lambda>f cc. case pm_apps pm ! cc of None \<Rightarrow> f
            | Some a \<Rightarrow> (case request_mask pm a of None \<Rightarrow> f
                | Some m \<Rightarrow> map (\<lambda>i. if i \<in> m then req_f cc ! i else f ! i) [0..<MAX_CPUS_SUPPORTED]))
          (replicate MAX_CPUS_SUPPORTED 0) [1..<Suc (pm_max_context_created pm)]
      in map (\<lambda>x. if x = 0 then unused_freq else x) f)"

definition pmgt_get_app_req_gpufreq :: "(nat \<Rightarrow> u64 list) \<Rightarrow> nat \<Rightarrow> powermon \<Rightarrow> u64 list" where
  "pmgt_get_app_req_gpufreq req_gpu_f max_gpus pm =
     foldl (\<lambda>f cc. case pm_apps pm ! cc of None \<Rightarrow> f
         | Some a \<Rightarrow> map (\<lambda>i. if req_gpu_f cc ! i \<noteq> 0 then req_gpu_f cc ! i else f ! i) [0..<max_gpus])
       (replicate max_gpus 0) [1..<Suc (pm_max_context_created pm)]"

text \<open>The requests are passed on to the plugins; the node domain gets zeros.\<close>

definition pmgt_set_app_req_freq :: "plugin_env \<Rightarrow> pmgt \<Rightarrow> pmgt" where
  "pmgt_set_app_req_freq e s =
     (let p = pg_plugins s
      in s\<lparr>pg_plugins := p[DOMAIN_NODE := plugin_set_app_req_freq (replicate MAX_CPUS_SUPPORTED 0) (p ! DOMAIN_NODE),
                           DOMAIN_CPU := plugin_set_app_req_freq (pe_cpu_req_f e) (p ! DOMAIN_CPU),
                           DOMAIN_GPU := plugin_set_app_req_freq (pe_gpu_req_f e) (p ! DOMAIN_GPU)]\<rparr>)"

subsection \<open>Events of the node\<close>

fun disable_loop :: "plugin_env \<Rightarrow> nat list \<Rightarrow> state_t \<Rightarrow> pmgt \<Rightarrow> state_t \<times> pmgt" where
  "disable_loop e [] ret s = (ret, s)"
| "disable_loop e (i # is) ret s =
     (if domain_loaded s i
      then let (temp_ret, p) = plugin_disable e (pg_plugins s ! i)
           in disable_loop e is (if temp_ret \<noteq> EAR_SUCCESS then temp_ret else ret)
                (s\<lparr>pg_plugins := (pg_plugins s)[i := p], pg_loaded := (pg_loaded s)[i := False]\<rparr>)
      else disable_loop e is ret s)"

definition pmgt_disable :: "plugin_env \<Rightarrow> pmgt \<Rightarrow> state_t \<times> pmgt" where
  "pmgt_disable e s = disable_loop e domains EAR_SUCCESS s"

definition pmgt_set_status :: "u32 \<Rightarrow> pmgt \<Rightarrow> pmgt" where
  "pmgt_set_status status s =
     s\<lparr>pg_plugins := map (\<lambda>i. if domain_loaded s i then plugin_set_status status (pg_plugins s ! i) else pg_plugins s ! i) domains\<rparr>"

definition pmgt_get_powercap_cpu_strategy :: "pmgt \<Rightarrow> u32" where
  "pmgt_get_powercap_cpu_strategy s =
     (if domain_loaded s DOMAIN_CPU \<and> plugin_get_powercap_strategy (pg_plugins s ! DOMAIN_CPU) = Some PC_DVFS then PC_DVFS else PC_POWER)"

definition pmgt_get_powercap_gpu_strategy :: "pmgt \<Rightarrow> u32" where
  "pmgt_get_powercap_gpu_strategy s =
     (if domain_loaded s DOMAIN_GPU \<and> plugin_get_powercap_strategy (pg_plugins s ! DOMAIN_GPU) = Some PC_DVFS then PC_DVFS else PC_POWER)"

definition pmgt_set_pc_mode :: "u32 \<Rightarrow> pmgt \<Rightarrow> pmgt" where
  "pmgt_set_pc_mode mode s = update_plugins (plugin_set_pc_mode mode) s"

definition pmgt_set_default_powercap :: "plugin_env \<Rightarrow> pmgt \<Rightarrow> pmgt" where
  "pmgt_set_default_powercap e s = update_plugins (plugin_reset_powercap_value e) s"

definition pmgt_powercap_node_reallocation :: "plugin_env \<Rightarrow> pmgt \<Rightarrow> pmgt" where
  "pmgt_powercap_node_reallocation e s =
     s\<lparr>pg_plugins := map (\<lambda>i. if pg_dom_changed s ! i then plugin_set_new_utilization e (pg_current_util s ! i) (pg_plugins s ! i)
                              else pg_plugins s ! i) domains,
       pg_dom_changed := [False, False, False, False]\<rparr>"

definition pmgt_new_job :: "plugin_env \<Rightarrow> pmgt \<Rightarrow> pmgt option" where
  "pmgt_new_job e s = reallocate_power_between_domains e (s\<lparr>pg_pdomains := pg_pdomains_def s\<rparr>)"

definition pmgt_end_job :: "plugin_env \<Rightarrow> pmgt \<Rightarrow> pmgt option" where
  "pmgt_end_job e s = reallocate_power_between_domains e (s\<lparr>pg_pdomains := pg_pdomains_def s\<rparr>)"

definition pmgt_idle_to_run :: "plugin_env \<Rightarrow> pmgt \<Rightarrow> pmgt option" where
  "pmgt_idle_to_run e s =
     map_option (pmgt_set_status PC_STATUS_RUN) (reallocate_power_between_domains e (s\<lparr>pg_pdomains := pg_pdomains_def s\<rparr>))"

definition pmgt_run_to_idle :: "plugin_env \<Rightarrow> pmgt \<Rightarrow> pmgt option" where
  "pmgt_run_to_idle e s =
     map_option (pmgt_set_status PC_STATUS_IDLE) (reallocate_power_between_domains e (s\<lparr>pg_pdomains := pg_pdomains_idle s\<rparr>))"

subsection \<open>Status of the node\<close>

fun status_loop :: "plugin_env \<Rightarrow> nat list \<Rightarrow> pmgt \<Rightarrow> pmgt option" where
  "status_loop e [] s = Some s"
| "status_loop e (i # is) s =
     do {
       (st, p) \<leftarrow> plugin_get_powercap_status e zero_domain_status (pg_plugins s ! i);
       status_loop e is (s\<lparr>pg_status := (pg_status s)[i := st], pg_plugins := (pg_plugins s)[i := p]\<rparr>)
     }"

definition zero_pmgt_status :: pmgt_status where
  "zero_pmgt_status = \<lparr>ps_status = 0, ps_tbr = 0, ps_extra = 0, ps_requested = 0, ps_stress = 0\<rparr>"

definition node_status :: "domain_status list \<Rightarrow> pmgt_status" where
  "node_status ds =
     (let cpu = ds ! DOMAIN_CPU; gpu = ds ! DOMAIN_GPU; status = zero_pmgt_status
      in if ds_ok cpu = PC_STATUS_OK \<and> ds_ok gpu = PC_STATUS_OK then status\<lparr>ps_status := PC_STATUS_OK\<rparr>
         else if ds_ok cpu = PC_STATUS_GREEDY \<or> ds_ok gpu = PC_STATUS_GREEDY
         then if ds_ok cpu = PC_STATUS_RELEASE \<or> ds_ok gpu = PC_STATUS_RELEASE then status\<lparr>ps_status := PC_STATUS_OK\<rparr>
              else let requested = ps_requested status + ds_requested cpu;
                       requested = requested + ds_requested gpu
                   in status\<lparr>ps_status := PC_STATUS_GREEDY, ps_requested := ear_min requested 255,
                             ps_stress := ear_max (ds_stress cpu) (ds_stress gpu)\<rparr>
         else if ds_ok cpu = PC_STATUS_RELEASE \<or> ds_ok gpu = PC_STATUS_RELEASE
         then status\<lparr>ps_status := PC_STATUS_RELEASE, ps_tbr := foldl (\<lambda>tbr i. tbr + ds_exceed (ds ! i)) 0 domains\<rparr>
         else status)"

definition pmgt_get_status :: "plugin_env \<Rightarrow> pmgt \<Rightarrow> (pmgt_status \<times> pmgt) option" where
  "pmgt_get_status e s =
     (let s = s\<lparr>pg_status := replicate 4 zero_domain_status\<rparr>
      in if pg_limit s = POWER_CAP_UNLIMITED then Some (zero_pmgt_status\<lparr>ps_status := PC_STATUS_OK\<rparr>, s)
         else do {
           s \<leftarrow> status_loop e domains s;
           Some (node_status (pg_status s), s)
         })"

subsection \<open>Moving power between the domains\<close>

text \<open>From which domain to which, and how many watts; \<^const>\<open>None\<close> is the early return.\<close>

definition redistribution :: "u8 \<Rightarrow> u32 \<Rightarrow> u32" where
  "redistribution requested current_pc =
     trunc_word (ear_min (rat_of_word requested)
       (ear_min (to_double (to_double (rat_of_word current_pc) * to_double (1 / 10))) 20))"

datatype move = No_Move | Move nat nat u32

definition choose_move :: "domain_status list \<Rightarrow> move option" where
  "choose_move ds =
     (let cpu = ds ! DOMAIN_CPU; gpu = ds ! DOMAIN_GPU
      in if ds_ok cpu = PC_STATUS_GREEDY \<and> ds_ok gpu = PC_STATUS_RELEASE then Some (Move DOMAIN_GPU DOMAIN_CPU (ds_exceed gpu))
         else if ds_ok gpu = PC_STATUS_GREEDY \<and> ds_ok cpu = PC_STATUS_RELEASE then Some (Move DOMAIN_CPU DOMAIN_GPU (ds_exceed cpu))
         else if ds_ok gpu = PC_STATUS_GREEDY \<and> ds_ok cpu = PC_STATUS_GREEDY
         then if \<bar>int (unat (ds_stress gpu)) - int (unat (ds_stress cpu))\<bar> > 20
              then if ds_stress gpu < ds_stress cpu
                   then Some (Move DOMAIN_GPU DOMAIN_CPU (redistribution (ds_requested cpu) (ds_current_pc gpu)))
                   else Some (Move DOMAIN_CPU DOMAIN_GPU (redistribution (ds_requested gpu) (ds_current_pc cpu)))
              else Some No_Move
         else if ds_ok gpu = PC_STATUS_GREEDY \<and> ds_ok cpu = PC_STATUS_OK
         then Some (Move DOMAIN_CPU DOMAIN_GPU (redistribution (ds_requested gpu) (ds_current_pc cpu)))
         else if ds_ok gpu = PC_STATUS_OK \<and> ds_ok cpu = PC_STATUS_GREEDY
         then Some (Move DOMAIN_GPU DOMAIN_CPU (redistribution (ds_requested cpu) (ds_current_pc gpu)))
         else None)"

fun apply_move :: "plugin_env \<Rightarrow> move \<Rightarrow> pmgt \<Rightarrow> pmgt option" where
  "apply_move e No_Move s = Some s"
| "apply_move e (Move src dst watts) s =
     do {
       let s = s\<lparr>pg_status := (pg_status s)[src := (pg_status s ! src)\<lparr>ds_exceed := watts\<rparr>]\<rparr>;
       let new_power_send = ds_current_pc (pg_status s ! src) - watts;
       let new_power_recv = ds_current_pc (pg_status s ! dst) + watts;
       (ret, s) \<leftarrow> set_domain e LEVEL_DOMAIN [new_power_send] src s;
       if ret = EAR_ERROR then Some s
       else do {
         (ret, s) \<leftarrow> set_domain e LEVEL_DOMAIN [new_power_recv] dst s;
         Some s
       }
     }"

definition status_count :: "u32 \<Rightarrow> domain_status list \<Rightarrow> nat" where
  "status_count c ds = length (filter (\<lambda>st. ds_ok st = c) ds)"

definition pmgt_powercap_status_per_domain :: "plugin_env \<Rightarrow> u32 \<Rightarrow> pmgt \<Rightarrow> (u32 \<times> pmgt) option" where
  "pmgt_powercap_status_per_domain e action s =
     (let s = s\<lparr>pg_status := replicate 4 zero_domain_status\<rparr>
      in if pg_limit s = POWER_CAP_UNLIMITED then Some (0, s)
         else do {
           s \<leftarrow> status_loop e domains s;
           if action = CHECK_ASK_DEFAULT
           then if status_count PC_STATUS_ASK_DEF (pg_status s) > 0 then Some (1, pmgt_set_default_powercap e s) else Some (0, s)
           else if status_count PC_STATUS_RELEASE (pg_status s) = 2 then Some (1, s)
           else case choose_move (pg_status s) of None \<Rightarrow> Some (1, s)
                | Some m \<Rightarrow> do {
                    s \<leftarrow> apply_move e m s;
                    let total_power = foldl (\<lambda>t i. t + (ucast (ds_current_pc (pg_status s ! i)) :: u64)) 0 domains;
                    if total_power \<le> ucast (pg_limit s) then Some (0, s) else None
                  }
         })"

subsection \<open>Periodic detection of the utilisation\<close>

definition pmgt_utilization_changed :: "pmgt \<Rightarrow> bool \<times> pmgt" where
  "pmgt_utilization_changed s =
     (let node = util_changed (pg_dom_util s ! DOMAIN_NODE) (pg_last_dom_util s ! DOMAIN_NODE);
          cpu = util_changed (pg_dom_util s ! DOMAIN_CPU) (pg_last_dom_util s ! DOMAIN_CPU);
          gpu = list_ex (\<lambda>g. util_changed (pg_current_util s ! DOMAIN_GPU ! g) (pg_prev_util s ! DOMAIN_GPU ! g)) [0..<pg_num_gpus s]
      in (node \<or> cpu \<or> gpu, s\<lparr>pg_dom_changed := [node, cpu, False, gpu]\<rparr>))"

definition util_detect_init :: "rat \<Rightarrow> pmgt \<Rightarrow> pmgt" where
  "util_detect_init load s = s\<lparr>pg_last_dom_util := [trunc_word load, trunc_word load, of_nat (pg_sockets s), 0]\<rparr>"

text \<open>
  A step of the detection.  The first entry of the CPUs is updated twice, so its previous value is the
  new one.  Utilisation arrays that were never allocated, as when the plugin of the GPUs is not
  loaded, are shorter than the loops over them.
\<close>

definition read_utilization :: "rat \<Rightarrow> gpu_sample list \<Rightarrow> pmgt \<Rightarrow> pmgt option" where
  "read_utilization load samples s =
     (let u = trunc_word load; gpus = [0..<pg_num_gpus s];
          cpu_util = pg_current_util s ! DOMAIN_CPU; gpu_util = pg_current_util s ! DOMAIN_GPU
      in if pg_cpus s = 0 \<or> length cpu_util < pg_cpus s \<or> length gpu_util < pg_num_gpus s then None
         else Some (s\<lparr>
           pg_dom_util := [u, u, of_nat (pg_sockets s), foldl (\<lambda>t i. if gs_working (samples ! i) > 0 then t + 1 else t) 0 gpus],
           pg_prev_util := (pg_prev_util s)[DOMAIN_CPU := cpu_util[0 := u], DOMAIN_GPU := gpu_util],
           pg_current_util := (pg_current_util s)[DOMAIN_CPU := replicate (pg_cpus s) u,
             DOMAIN_GPU := map (\<lambda>i. gs_util (samples ! i)) gpus]\<rparr>))"

definition util_detect_main :: "plugin_env \<Rightarrow> rat \<Rightarrow> gpu_sample list \<Rightarrow> pmgt \<Rightarrow> pmgt option" where
  "util_detect_main e load samples s =
     (if pg_current_mode s = PC_MODE_MANUAL then Some s
      else do {
        let s = s\<lparr>pg_util_period := pg_util_period s + 500\<rparr>;
        (r, s) \<leftarrow> pmgt_powercap_status_per_domain e CHECK_ASK_DEFAULT s;
        if r = 0 \<and> pg_util_period s mod 1000 = 0
        then do {
          s \<leftarrow> read_utilization load samples (s\<lparr>pg_util_period := 0\<rparr>);
          (r, s) \<leftarrow> pmgt_powercap_status_per_domain e CHECK_POWER_RED s;
          let (changed, s) = pmgt_utilization_changed s;
          let s = (if changed then pmgt_powercap_node_reallocation e s else s);
          Some (s\<lparr>pg_last_dom_util := pg_dom_util s\<rparr>)
        }
        else Some s
      })"

end
