(* ===== verification/Node_Powercap.thy ===== *)
theory Node_Powercap
  imports Power_Mgt
begin

text \<open>
  The powercap of a node, \<^verbatim>\<open>daemon/powercap/powercap.c\<close>: the limit and the status that the daemon keeps
  for its node, the transitions between idle and running, the status that it reports to the cluster
  manager and the options that it receives, with the commands of
  \<^verbatim>\<open>daemon/remote_api/dynamic_configuration.c\<close> that lead to them.  The domains of the node are managed
  by the operations of \<open>Power_Mgt\<close>.  The mutex that every operation takes makes each one atomic.
\<close>

subsection \<open>State\<close>

abbreviation (input) POWERCAP_VALUE :: u32 where "POWERCAP_VALUE \<equiv> 500"
abbreviation (input) RESET_POWERCAP :: u32 where "RESET_POWERCAP \<equiv> 501"
abbreviation (input) INC_POWERCAP :: u32 where "INC_POWERCAP \<equiv> 502"
abbreviation (input) RED_POWERCAP :: u32 where "RED_POWERCAP \<equiv> 503"
abbreviation (input) SET_POWERCAP :: u32 where "SET_POWERCAP \<equiv> 504"
abbreviation (input) SET_ASK_DEF :: u32 where "SET_ASK_DEF \<equiv> 505"
abbreviation (input) RELEASE_POWER :: u32 where "RELEASE_POWER \<equiv> 506"

abbreviation (input) EARD_POWERCAP_IDLE_PERC :: u32 where "EARD_POWERCAP_IDLE_PERC \<equiv> 1"
abbreviation (input) MAX_PERC_POWER :: u8 where "MAX_PERC_POWER \<equiv> 90"

text \<open>What a context shares with its job: a copy of the options and the request to look at them.\<close>

record shared_pc =
  sp_pc_opt :: node_powercap_opt
  sp_force_rescheduling :: bool

text \<open>
  The options of the node (\<open>my_pc_opt\<close>), the values of the configuration of the node that
  \<open>powermon_get_powercap_def\<close> and \<open>powermon_get_max_powercap_def\<close> return, the manager of the domains,
  which has the mode, the contexts, and the events reported.
\<close>

record node_pc =
  np_opt :: node_powercap_opt
  np_powercap_def :: u32
  np_max_powercap :: u32
  np_last_status :: u32
  np_current_power :: u32
  np_last_cluster_perc :: u8
  np_pmgt :: pmgt
  np_contexts :: "shared_pc option list"
  np_max_context :: nat
  np_num_contexts :: nat
  np_ip :: i32
  np_events :: "(u32 \<times> u64) list"

definition is_powercap_unlimited :: "node_pc \<Rightarrow> bool" where
  "is_powercap_unlimited s = (np_powercap_def s = POWER_CAP_UNLIMITED)"

definition powercap_get_value :: "node_pc \<Rightarrow> u32" where
  "powercap_get_value s = pc_current_pc (np_opt s)"

definition with_opt :: "(node_powercap_opt \<Rightarrow> node_powercap_opt) \<Rightarrow> node_pc \<Rightarrow> node_pc" where
  "with_opt f s = s\<lparr>np_opt := f (np_opt s)\<rparr>"

text \<open>An event is reported for the job of the last context.\<close>

definition powermon_report_event :: "u32 \<Rightarrow> u64 \<Rightarrow> node_pc \<Rightarrow> node_pc option" where
  "powermon_report_event event value s =
     (case np_contexts s ! np_max_context s of None \<Rightarrow> None
      | Some c \<Rightarrow> Some (s\<lparr>np_events := np_events s @ [(event, value)]\<rparr>))"

definition update_node_powercap_opt_shared_info :: "node_pc \<Rightarrow> node_pc" where
  "update_node_powercap_opt_shared_info s =
     s\<lparr>np_contexts := map (\<lambda>cc. if cc \<le> np_max_context s
            then map_option (\<lambda>c. \<lparr>sp_pc_opt = np_opt s, sp_force_rescheduling = True\<rparr>) (np_contexts s ! cc)
            else np_contexts s ! cc) [0..<length (np_contexts s)]\<rparr>"

subsection \<open>Limit of the node\<close>

definition set_powercap_value :: "plugin_env \<Rightarrow> u32 \<Rightarrow> node_pc \<Rightarrow> (state_t \<times> node_pc) option" where
  "set_powercap_value e limit s =
     (let limit = (if np_max_powercap s > 1 then ear_min limit (np_max_powercap s) else limit);
          s = with_opt (\<lambda>opt. opt\<lparr>pc_def_powercap := limit, pc_last_t1_allocated := limit\<rparr>) s
      in if limit = pc_current_pc (np_opt s) then Some (EAR_SUCCESS, s)
         else
           let s = with_opt (\<lambda>opt. opt\<lparr>pc_current_pc := limit\<rparr>) s;
               s = update_node_powercap_opt_shared_info s;
               s = s\<lparr>np_pmgt := pmgt_set_app_req_freq e (np_pmgt s)\<rparr>;
               s = s\<lparr>np_contexts := map (\<lambda>i. if 1 \<le> i \<and> i \<le> np_max_context s
                       then map_option (\<lambda>c. c\<lparr>sp_pc_opt := (sp_pc_opt c)\<lparr>pc_current_pc := powercap_get_value s\<rparr>\<rparr>) (np_contexts s ! i)
                       else np_contexts s ! i) [0..<length (np_contexts s)]\<rparr>
           in if pg_current_mode (np_pmgt s) = PC_MODE_AUTO
              then do {
                (ret, m) \<leftarrow> pmgt_set_powercap_value e (np_num_contexts s) (ucast limit) (np_pmgt s);
                Some (ret, s\<lparr>np_pmgt := m\<rparr>)
              }
              else Some (EAR_SUCCESS, s))"

text \<open>The same without the result.\<close>

definition set_node_limit :: "plugin_env \<Rightarrow> u32 \<Rightarrow> node_pc \<Rightarrow> node_pc option" where
  "set_node_limit e limit s = map_option snd (set_powercap_value e limit s)"

definition set_default_node_powercap_opt :: "u32 \<Rightarrow> u32 \<Rightarrow> node_powercap_opt \<Rightarrow> node_powercap_opt" where
  "set_default_node_powercap_opt powercap_def max_powercap_def opt =
     opt\<lparr>pc_def_powercap := powercap_def,
       pc_powercap_idle := ear_max (powercap_def * EARD_POWERCAP_IDLE_PERC) 1,
       pc_current_pc := 0,
       pc_last_t1_allocated := powercap_def,
       pc_max_node_power := max_powercap_def,
       pc_released := powercap_def - ear_max (powercap_def * EARD_POWERCAP_IDLE_PERC) 1,
       pc_th_inc := 10, pc_th_red := 50, pc_th_release := 25,
       pc_powercap_status := PC_STATUS_ERROR,
       pc_cluster_perc_power := 0,
       pc_requested := 0\<rparr>"

definition powercap_end :: "plugin_env \<Rightarrow> node_pc \<Rightarrow> node_pc" where
  "powercap_end e s = s\<lparr>np_pmgt := snd (pmgt_disable e (np_pmgt s))\<rparr>"

definition set_mode :: "u32 \<Rightarrow> node_pc \<Rightarrow> node_pc" where
  "set_mode mode s = s\<lparr>np_pmgt := (np_pmgt s)\<lparr>pg_current_mode := mode\<rparr>\<rparr>"

text \<open>Limits set by hand for the domains or the devices; a missing string is a null pointer.\<close>

definition powercap_process_message ::
  "plugin_env \<Rightarrow> string option \<Rightarrow> string option \<Rightarrow> string option \<Rightarrow> i32 list \<Rightarrow> node_pc \<Rightarrow> node_pc option" where
  "powercap_process_message e action mode level values s =
     (let is = (\<lambda>arg name. case arg of None \<Rightarrow> False | Some a \<Rightarrow> strtolow a = name)
      in if is mode ''manual'' \<and> is action ''deactivate'' then Some (set_mode PC_MODE_AUTO s)
         else
           let s = (if is mode ''manual'' then set_mode PC_MODE_MANUAL s else s);
               s = (if is level ''node'' then set_mode PC_MODE_AUTO s
                    else if is level ''cpu'' \<or> is level ''domain'' \<or> is level ''gpu'' \<or> is level ''device''
                    then set_mode PC_MODE_MANUAL s else s)
           in if is action ''set''
              then map_option (\<lambda>m. s\<lparr>np_pmgt := m\<rparr>) (pmgt_process_message e level values (np_pmgt s))
              else Some s)"

subsection \<open>Start\<close>

text \<open>
  What the start depends on: the plugins opened, the size and the design powers of the node, whether
  the handler could be allocated, and what the plugins do when they are enabled.
\<close>

record node_hw =
  hw_opened :: "plugin list"
  hw_gpu_dummy :: bool
  hw_cpus :: nat
  hw_sockets :: nat
  hw_gpus :: nat
  hw_bpd_cpu :: u32
  hw_bpd_dram :: u32
  hw_gpu_tdp :: u32
  hw_handler :: bool
  hw_enable :: "pmgt \<Rightarrow> state_t \<times> pmgt"

definition powercap_started :: "plugin_env \<Rightarrow> node_pc \<Rightarrow> node_pc option" where
  "powercap_started e s =
     (let s = with_opt (\<lambda>opt. opt\<lparr>pc_powercap_status := PC_STATUS_IDLE\<rparr>) (s\<lparr>np_last_status := PC_STATUS_IDLE\<rparr>);
          s = s\<lparr>np_pmgt := pmgt_set_pc_mode PC_MODE_TARGET (np_pmgt s)\<rparr>
      in map_option update_node_powercap_opt_shared_info (set_node_limit e (pc_powercap_idle (np_opt s)) s))"

definition powercap_init :: "plugin_env \<Rightarrow> node_hw \<Rightarrow> node_pc \<Rightarrow> (state_t \<times> node_pc) option" where
  "powercap_init e hw s =
     (let s = with_opt (set_default_node_powercap_opt (np_powercap_def s) (np_max_powercap s)) s
      in if np_powercap_def s = 0 then Some (EAR_SUCCESS, update_node_powercap_opt_shared_info s)
         else case pmgt_init (hw_opened hw) (hw_gpu_dummy hw) (hw_cpus hw) (hw_sockets hw) (hw_gpus hw)
             (pg_current_mode (np_pmgt s)) (hw_bpd_cpu hw) (hw_bpd_dram hw) (hw_gpu_tdp hw) of None \<Rightarrow> None
         | Some (ret, m) \<Rightarrow>
             if ret \<noteq> EAR_SUCCESS then Some (EAR_ERROR, s\<lparr>np_pmgt := m\<rparr>)
             else if \<not> hw_handler hw then Some (EAR_ERROR, s\<lparr>np_pmgt := m\<rparr>)
             else if fst (hw_enable hw m) \<noteq> EAR_SUCCESS then Some (EAR_ERROR, s\<lparr>np_pmgt := snd (hw_enable hw m)\<rparr>)
             else map_option (Pair EAR_SUCCESS) (powercap_started e (s\<lparr>np_pmgt := snd (hw_enable hw m)\<rparr>)))"

subsection \<open>Idle and running\<close>

definition powercap_reset_default_power :: "plugin_env \<Rightarrow> node_pc \<Rightarrow> node_pc option" where
  "powercap_reset_default_power e s =
     (if pc_last_t1_allocated (np_opt s) \<noteq> pc_def_powercap (np_opt s)
      then let s = with_opt (\<lambda>opt. opt\<lparr>pc_last_t1_allocated := pc_def_powercap opt\<rparr>) s
           in set_node_limit e (pc_last_t1_allocated (np_opt s)) s
      else Some s)"

definition idle_to_run_switch :: "plugin_env \<Rightarrow> node_pc \<Rightarrow> node_pc option" where
  "idle_to_run_switch e s =
     (let extra = 0
      in if pc_powercap_status (np_opt s) = PC_STATUS_IDLE
         then if pc_last_t1_allocated (np_opt s) + extra \<ge> pc_def_powercap (np_opt s)
              then if pc_last_t1_allocated (np_opt s) \<ge> pc_def_powercap (np_opt s)
                   then let s = with_opt (\<lambda>opt. opt\<lparr>pc_powercap_status := PC_STATUS_OK, pc_released := 0\<rparr>) s
                        in set_node_limit e (pc_last_t1_allocated (np_opt s)) s
                   else let s = with_opt (\<lambda>opt. opt\<lparr>pc_last_t1_allocated := ear_min (pc_def_powercap opt) (pc_last_t1_allocated opt + extra),
                              pc_powercap_status := PC_STATUS_OK, pc_released := 0\<rparr>) s
                        in set_node_limit e (pc_last_t1_allocated (np_opt s)) s
              else let s = with_opt (\<lambda>opt. opt\<lparr>pc_last_t1_allocated := pc_last_t1_allocated opt + extra, pc_powercap_status := PC_STATUS_ASK_DEF\<rparr>) s;
                       pending = pc_def_powercap (np_opt s) - pc_last_t1_allocated (np_opt s);
                       s = with_opt (\<lambda>opt. opt\<lparr>pc_requested := pending\<rparr>) s
                   in set_node_limit e (pc_last_t1_allocated (np_opt s)) s
         else Some s)"

definition powercap_idle_to_run :: "plugin_env \<Rightarrow> node_pc \<Rightarrow> node_pc option" where
  "powercap_idle_to_run e s =
     (if \<not> is_powercap_on (np_opt s) then Some s
      else if is_powercap_unlimited s then Some s
      else do {
        let s = s\<lparr>np_pmgt := pmgt_set_status PC_STATUS_RUN (np_pmgt s), np_last_status := PC_STATUS_IDLE\<rparr>;
        s \<leftarrow> idle_to_run_switch e s;
        m \<leftarrow> pmgt_idle_to_run e (np_pmgt s);
        Some (s\<lparr>np_pmgt := m\<rparr>)
      })"

definition run_to_idle_switch :: "plugin_env \<Rightarrow> node_pc \<Rightarrow> node_pc option" where
  "run_to_idle_switch e s =
     (if pc_powercap_status (np_opt s) \<in> {PC_STATUS_OK, PC_STATUS_GREEDY, PC_STATUS_ASK_DEF, PC_STATUS_RELEASE}
      then let s = with_opt (\<lambda>opt. opt\<lparr>pc_released := pc_last_t1_allocated opt - pc_powercap_idle opt, pc_requested := 0,
                     pc_powercap_status := PC_STATUS_IDLE\<rparr>) s
           in set_node_limit e (pc_powercap_idle (np_opt s)) s
      else Some s)"

definition powercap_run_to_idle :: "plugin_env \<Rightarrow> node_pc \<Rightarrow> node_pc option" where
  "powercap_run_to_idle e s =
     (if \<not> is_powercap_on (np_opt s) then Some s
      else if is_powercap_unlimited s then Some s
      else do {
        s \<leftarrow> run_to_idle_switch e s;
        m \<leftarrow> pmgt_run_to_idle e (pmgt_set_status PC_STATUS_IDLE (np_pmgt s));
        let s = s\<lparr>np_pmgt := m\<rparr>;
        if np_last_cluster_perc s > MAX_PERC_POWER then powercap_reset_default_power e s else Some s
      })"

subsection \<open>Periodic power\<close>

definition powercap_set_app_req_freq :: "plugin_env \<Rightarrow> node_pc \<Rightarrow> node_pc" where
  "powercap_set_app_req_freq e s = s\<lparr>np_pmgt := pmgt_set_app_req_freq e (np_pmgt s)\<rparr>"

definition powercap_set_power_per_domain :: "plugin_env \<Rightarrow> dom_power \<Rightarrow> node_pc \<Rightarrow> node_pc option" where
  "powercap_set_power_per_domain e cp s =
     (let s = s\<lparr>np_current_power := dp_platform cp\<rparr>
      in if \<not> is_powercap_on (np_opt s) then Some s
         else do {
           s \<leftarrow> (if pg_current_mode (np_pmgt s) = PC_MODE_AUTO
                 then map_option (\<lambda>m. s\<lparr>np_pmgt := m\<rparr>) (pmgt_set_power_per_domain e (np_opt s) cp (np_pmgt s))
                 else Some s);
           Some (powercap_set_app_req_freq e s)
         })"

subsection \<open>Status for the cluster manager\<close>

definition powercap_release_power :: "plugin_env \<Rightarrow> node_pc \<Rightarrow> node_pc option" where
  "powercap_release_power e s =
     (let s = with_opt (\<lambda>opt. opt\<lparr>pc_powercap_status := PC_STATUS_OK, pc_released := 0, pc_last_t1_allocated := pc_current_pc opt\<rparr>) s
      in if pg_current_mode (np_pmgt s) = PC_MODE_AUTO
         then do {
           (ret, m) \<leftarrow> pmgt_set_powercap_value e (np_num_contexts s) (ucast (pc_current_pc (np_opt s))) (np_pmgt s);
           Some (s\<lparr>np_pmgt := m\<rparr>)
         }
         else Some s)"

definition extra_of :: "node_powercap_opt \<Rightarrow> u16" where
  "extra_of opt = (if pc_last_t1_allocated opt > pc_def_powercap opt
     then ucast (pc_last_t1_allocated opt - pc_def_powercap opt) else 0)"

text \<open>The cases of a node that is not idle, on the status of its domains.\<close>

definition running_status ::
  "plugin_env \<Rightarrow> bool \<Rightarrow> powercap_status \<Rightarrow> pmgt_status \<Rightarrow> node_pc \<Rightarrow> (powercap_status \<times> pmgt_status \<times> node_pc) option" where
  "running_status e release_power my_status status s =
     (let status = (if pc_last_t1_allocated (np_opt s) < pc_def_powercap (np_opt s) then status\<lparr>ps_status := PC_STATUS_ASK_DEF\<rparr> else status);
          s = with_opt (\<lambda>opt. opt\<lparr>pc_powercap_status := ps_status status\<rparr>) s
      in if ps_status status = PC_STATUS_GREEDY
         then Some (my_status, status\<lparr>ps_extra := extra_of (np_opt s)\<rparr>, s)
         else if ps_status status = PC_STATUS_RELEASE
         then do {
           let status = status\<lparr>ps_extra := extra_of (np_opt s)\<rparr>;
           let s = (if release_power
                then with_opt (\<lambda>opt. opt\<lparr>pc_released := ps_tbr status, pc_current_pc := pc_current_pc opt - ps_tbr status\<rparr>) s else s);
           s \<leftarrow> powercap_release_power e s;
           Some (my_status, status, s)
         }
         else if ps_status status = PC_STATUS_ASK_DEF
         then Some (my_status\<lparr>cs_requested := cs_requested my_status + (pc_def_powercap (np_opt s) - pc_last_t1_allocated (np_opt s))\<rparr>,
                    status, s)
         else if ps_status status = PC_STATUS_OK
         then Some (my_status, status\<lparr>ps_requested := 0, ps_extra := extra_of (np_opt s)\<rparr>, s)
         else Some (my_status, status, s))"

text \<open>
  The status is written over the memory \<open>status\<close> of the caller; for an idle node only its first
  field is.  \<open>watts\<close> is the last power computed by the monitor.
\<close>

definition powercap_get_status ::
  "plugin_env \<Rightarrow> u32 \<Rightarrow> bool \<Rightarrow> powercap_status \<Rightarrow> pmgt_status \<Rightarrow> node_pc \<Rightarrow> (powercap_status \<times> pmgt_status \<times> node_pc) option" where
  "powercap_get_status e watts release_power my_status status s =
     do {
       let my_status = my_status\<lparr>cs_total_nodes := cs_total_nodes my_status + 1\<rparr>;
       (my_status, status, s) \<leftarrow>
         (if pc_powercap_status (np_opt s) = PC_STATUS_IDLE
          then Some (my_status\<lparr>cs_released := cs_released my_status + pc_released (np_opt s),
                 cs_total_idle_power := cs_total_idle_power my_status + pc_last_t1_allocated (np_opt s),
                 cs_idle_nodes := cs_idle_nodes my_status + 1\<rparr>,
               status\<lparr>ps_status := PC_STATUS_IDLE\<rparr>, s)
          else do {
            (status, m) \<leftarrow> pmgt_get_status e (np_pmgt s);
            running_status e release_power my_status status (s\<lparr>np_pmgt := m\<rparr>)
          });
       let my_status = my_status\<lparr>cs_current_power := cs_current_power my_status + watts,
         cs_total_powercap := cs_total_powercap my_status + get_powercap_allocated (np_opt s)\<rparr>;
       s \<leftarrow> powermon_report_event POWERCAP_VALUE (ucast (pc_current_pc (np_opt s))) s;
       Some (my_status, status, s)
     }"

text \<open>A greedy node, or one that has power over its default, is added to the list.\<close>

definition process_pmgt_status :: "i32 \<Rightarrow> powercap_status \<Rightarrow> pmgt_status \<Rightarrow> powercap_status" where
  "process_pmgt_status my_ip my_status p_status =
     (let add = (\<lambda>p. if cs_num_greedy my_status + 1 < 1 then my_status\<lparr>cs_num_greedy := cs_num_greedy my_status + 1\<rparr>
            else my_status\<lparr>cs_num_greedy := cs_num_greedy my_status + 1,
               cs_greedy_nodes := take (unat (cs_num_greedy my_status)) (cs_greedy_nodes my_status) @ [my_ip],
               cs_greedy_data := take (unat (cs_num_greedy my_status)) (cs_greedy_data my_status) @
                 [\<lparr>gb_requested = ps_requested p, gb_stress = ps_stress p, gb_extra_power = ps_extra p\<rparr>]\<rparr>)
      in if ps_status p_status = PC_STATUS_OK
         then if ps_extra p_status = 0 then my_status else add (p_status\<lparr>ps_requested := 0\<rparr>)
         else if ps_status p_status = PC_STATUS_GREEDY then add p_status
         else my_status)"

text \<open>The answer of a node to a request of status, once the status of the nodes below is known.\<close>

definition dyncon_get_powerstatus ::
  "plugin_env \<Rightarrow> u32 \<Rightarrow> bool \<Rightarrow> powercap_status \<Rightarrow> pmgt_status \<Rightarrow> node_pc \<Rightarrow> (powercap_status \<times> node_pc) option" where
  "dyncon_get_powerstatus e watts release_power below memory s =
     do {
       (st, p_status, s) \<leftarrow> powercap_get_status e watts release_power below memory s;
       Some (process_pmgt_status (np_ip s) st p_status, s)
     }"

subsection \<open>Options from the cluster manager\<close>

definition grant_event :: "i32 \<Rightarrow> u32 \<times> u64" where
  "grant_event extra = (if sint extra > 0 then (INC_POWERCAP, scast extra) else (RED_POWERCAP, scast (- extra)))"

definition apply_extra :: "plugin_env \<Rightarrow> i32 \<Rightarrow> node_pc \<Rightarrow> node_pc option" where
  "apply_extra e extra s =
     (let s = with_opt (\<lambda>opt. opt\<lparr>pc_last_t1_allocated := pc_last_t1_allocated opt + ucast extra\<rparr>) s
      in set_node_limit e (pc_last_t1_allocated (np_opt s)) s)"

definition powercap_set_opt :: "plugin_env \<Rightarrow> powercap_opt \<Rightarrow> int \<Rightarrow> node_pc \<Rightarrow> node_pc option" where
  "powercap_set_opt e options idx s =
     (if \<not> is_powercap_on (np_opt s) then Some s
      else if is_powercap_unlimited s then Some s
      else
        let s = with_opt (\<lambda>opt. opt\<lparr>pc_cluster_perc_power := ucast (po_cluster_perc_power options)\<rparr>)
                  (s\<lparr>np_last_cluster_perc := po_cluster_perc_power options\<rparr>);
            status = pc_powercap_status (np_opt s);
            extra = po_extra_power options ! nat idx
        in if idx \<ge> 0
           then if status = PC_STATUS_IDLE \<or> status = PC_STATUS_OK
                then if pc_last_t1_allocated (np_opt s) > pc_def_powercap (np_opt s)
                     then do {
                       s \<leftarrow> apply_extra e extra s;
                       powermon_report_event (fst (grant_event extra)) (snd (grant_event extra)) s
                     }
                     else Some s
                else if status = PC_STATUS_GREEDY
                then do {
                  s \<leftarrow> apply_extra e extra s;
                  let s = with_opt (\<lambda>opt. opt\<lparr>pc_powercap_status := PC_STATUS_OK, pc_requested := 0\<rparr>) s;
                  powermon_report_event (fst (grant_event extra)) (snd (grant_event extra)) s
                }
                else Some s
           else if status = PC_STATUS_ASK_DEF
           then do {
             let s = with_opt (\<lambda>opt. opt\<lparr>pc_powercap_status := PC_STATUS_OK, pc_last_t1_allocated := pc_def_powercap opt, pc_requested := 0\<rparr>) s;
             s \<leftarrow> set_node_limit e (pc_def_powercap (np_opt s)) s;
             powermon_report_event SET_ASK_DEF 0 s
           }
           else Some s)"

fun filter_loop :: "i32 \<Rightarrow> i32 list \<Rightarrow> int \<Rightarrow> int" where
  "filter_loop ip [] i = - 1"
| "filter_loop ip (n # ns) i = (if n = ip then i else filter_loop ip ns (i + 1))"

definition dyncon_filter_opt :: "i32 \<Rightarrow> powercap_opt \<Rightarrow> int" where
  "dyncon_filter_opt my_ip options = filter_loop my_ip (take (unat (po_num_greedy options)) (po_greedy_nodes options)) 0"

definition powercap_release_idle_power :: "pc_release_data \<Rightarrow> node_pc \<Rightarrow> (pc_release_data \<times> node_pc) option" where
  "powercap_release_idle_power release s =
     (if pc_powercap_status (np_opt s) = PC_STATUS_IDLE
      then let value = pc_released (np_opt s)
           in map_option (Pair (release\<lparr>rd_released := rd_released release + value\<rparr>))
                (powermon_report_event RELEASE_POWER (ucast value)
                  (with_opt (\<lambda>opt. opt\<lparr>pc_released := 0, pc_last_t1_allocated := pc_current_pc opt\<rparr>) s))
      else map_option (Pair release) (powermon_report_event RELEASE_POWER 0 s))"

subsection \<open>Commands\<close>

definition powercap_reduce_def_power :: "u32 \<Rightarrow> node_pc \<Rightarrow> node_pc" where
  "powercap_reduce_def_power watts s =
     (if watts > pc_def_powercap (np_opt s) then s else with_opt (\<lambda>opt. opt\<lparr>pc_def_powercap := pc_def_powercap opt - watts\<rparr>) s)"

definition powercap_increase_def_power :: "u32 \<Rightarrow> node_pc \<Rightarrow> node_pc" where
  "powercap_increase_def_power watts s = with_opt (\<lambda>opt. opt\<lparr>pc_def_powercap := pc_def_powercap opt + watts\<rparr>) s"

definition powercap_set_powercap :: "plugin_env \<Rightarrow> u32 \<Rightarrow> node_pc \<Rightarrow> node_pc option" where
  "powercap_set_powercap e watts s = set_node_limit e watts s"

definition powercap_new_job :: "plugin_env \<Rightarrow> node_pc \<Rightarrow> node_pc option" where
  "powercap_new_job e s = map_option (\<lambda>m. s\<lparr>np_pmgt := m\<rparr>) (pmgt_new_job e (np_pmgt s))"

definition powercap_end_job :: "plugin_env \<Rightarrow> node_pc \<Rightarrow> node_pc option" where
  "powercap_end_job e s = map_option (\<lambda>m. s\<lparr>np_pmgt := m\<rparr>) (pmgt_end_job e (np_pmgt s))"

text \<open>A limit is absolute or relative; the second kind is refused with a message.\<close>

datatype limit_type = Absolute | Relative | Other_Type

datatype power_command =
    Red_Power u64 limit_type
  | Set_Power u64
  | Inc_Power u64 limit_type
  | Def_Powercap
  | Set_Powercap_Opt powercap_opt
  | Other_Command

fun dyncon_power_management :: "plugin_env \<Rightarrow> power_command \<Rightarrow> node_pc \<Rightarrow> node_pc option" where
  "dyncon_power_management e (Red_Power limit type) s =
     powermon_report_event RED_POWERCAP limit (if type = Absolute then powercap_reduce_def_power (ucast limit) s else s)"
| "dyncon_power_management e (Set_Power limit) s =
     do { s \<leftarrow> powercap_set_powercap e (ucast limit) s; powermon_report_event SET_POWERCAP limit s }"
| "dyncon_power_management e (Inc_Power limit type) s =
     powermon_report_event INC_POWERCAP limit (if type = Absolute then powercap_increase_def_power (ucast limit) s else s)"
| "dyncon_power_management e Def_Powercap s =
     do { s \<leftarrow> powercap_reset_default_power e s; powermon_report_event RESET_POWERCAP 0 s }"
| "dyncon_power_management e (Set_Powercap_Opt options) s = powercap_set_opt e options (dyncon_filter_opt (np_ip s) options) s"
| "dyncon_power_management e Other_Command s = Some s"

end
