(* ===== verification/Domain_Budget.thy ===== *)
theory Domain_Budget
  imports Power_Mgt
begin

text \<open>
  The power budget of a node kept by \<open>powercap_mgt.c\<close>: what the passes over the domains change, what
  the shares of a limit add up to in single precision, and that every event of the manager, the
  control threads of the plugins included, keeps the sum of the limits of the CPU and GPU domains
  within the limit of the node.
\<close>

subsection \<open>Shares of a limit\<close>

lemma share_up:
  assumes "0 \<le> a" "to_float a = a"
  shows "to_float (to_float (of_nat n) * a) \<le> of_nat n * a * (1 + 1 / 2 ^ 22)"
proof -
  let ?x = "to_float (of_nat n)"
  have x: "0 \<le> ?x" "?x \<le> of_nat n * (1 + 1 / 2 ^ 24)" by (rule fl_nonneg fl_up; simp)+
  have "to_float (?x * a) \<le> ?x * a * (1 + 1 / 2 ^ 24)" using x assms by (intro fl_up) simp_all
  also have "\<dots> \<le> of_nat n * (1 + 1 / 2 ^ 24) * a * (1 + 1 / 2 ^ 24)"
    using x assms by (intro mult_right_mono) simp_all
  also have "\<dots> = of_nat n * a * ((1 + 1 / 2 ^ 24) * (1 + 1 / 2 ^ 24))" by (simp only: mult_ac)
  also have "\<dots> \<le> of_nat n * a * (1 + 1 / 2 ^ 22)"
    using assms(1) by (intro mult_left_mono) simp_all
  finally show ?thesis .
qed

text \<open>What a domain gets of the limit of the node, for a share below its default.\<close>

lemma share_le:
  assumes "p \<le> d" "0 \<le> d" "to_float d = d"
  shows "to_float (to_float (of_nat n) * p) \<le> of_nat n * d * (1 + 1 / 2 ^ 22)"
proof -
  have "to_float (of_nat n) * p \<le> to_float (of_nat n) * d"
    using assms(1) fl_nonneg [of "of_nat n" 24] by (intro mult_left_mono) simp_all
  then have "to_float (to_float (of_nat n) * p) \<le> to_float (to_float (of_nat n) * d)" by (intro fl_mono_le) simp_all
  then show ?thesis using share_up [OF assms(2,3)] by (rule order_trans)
qed

lemma shares_less:
  assumes "p \<le> d" "0 \<le> d" "to_float d = d" "p' \<le> d'" "0 \<le> d'" "to_float d' = d'" "d + d' \<le> 1 - 1 / 2 ^ 20" "0 < n"
  shows "to_float (to_float (of_nat n) * p) + to_float (to_float (of_nat n) * p') < of_nat n"
proof -
  have "to_float (to_float (of_nat n) * p) + to_float (to_float (of_nat n) * p') \<le>
      of_nat n * d * (1 + 1 / 2 ^ 22) + of_nat n * d' * (1 + 1 / 2 ^ 22)"
    using share_le [OF assms(1-3), of n] share_le [OF assms(4-6), of n] by simp
  also have "\<dots> = of_nat n * ((d + d') * (1 + 1 / 2 ^ 22))" by (simp only: algebra_simps)
  also have "\<dots> < of_nat n * 1"
  proof (rule mult_strict_left_mono)
    have "(d + d') * (1 + 1 / 2 ^ 22) \<le> (1 - 1 / 2 ^ 20) * (1 + 1 / 2 ^ 22)" using assms(7) by (intro mult_right_mono) simp_all
    also have "\<dots> < 1" by simp
    finally show "(d + d') * (1 + 1 / 2 ^ 22) < 1" .
  qed (use assms(8) in simp)
  finally show ?thesis by simp
qed

text \<open>A limit as it is sent to a domain, and the sum of two of them.\<close>

lemma float_to_uint_le: "float_to_uint x = Some v \<Longrightarrow> unat v = nat \<lfloor>x\<rfloor>"
  by (auto simp: float_to_uint_def unat_trunc_word split: if_splits)

lemma sent_within:
  assumes "float_to_uint x = Some v" "float_to_uint y = Some w" "x + y < of_nat n"
    and "x < of_nat n" "y < of_nat n"
  shows "unat v + unat w \<le> n"
proof -
  have "nat \<lfloor>x\<rfloor> + nat \<lfloor>y\<rfloor> \<le> n" using assms(3-5) by linarith
  then show ?thesis using float_to_uint_le assms(1,2) by simp
qed

lemma sent_at_least_one_within:
  assumes "float_to_uint (ear_max x 1) = Some v" "float_to_uint (ear_max y 1) = Some w" "x + y < of_nat n"
    and "x < of_nat n" "y < of_nat n" "2 \<le> n"
  shows "unat v + unat w \<le> n"
proof -
  have "nat \<lfloor>ear_max x 1\<rfloor> + nat \<lfloor>ear_max y 1\<rfloor> \<le> n"
    using assms(3-6) by (auto simp: ear_max_def) linarith+
  then show ?thesis using float_to_uint_le assms(1,2) by simp
qed

subsection \<open>Passes over the domains\<close>

text \<open>Each pass treats every domain once, on its own plugin; nothing else of the state changes.\<close>

lemma set_domain_Some:
  "set_domain e level limits i s = Some (r, s') \<longleftrightarrow>
   (\<exists>p. plugin_set_powercap_value e level limits (pg_current_util s ! i) (pg_plugins s ! i) = Some (r, p) \<and>
        s' = s\<lparr>pg_plugins := (pg_plugins s)[i := p]\<rparr>)"
  by (auto simp: set_domain_def)

definition frame :: "pmgt \<Rightarrow> pmgt \<Rightarrow> bool" where
  "frame s s' \<longleftrightarrow>
     s' = s\<lparr>pg_plugins := pg_plugins s', pg_status := pg_status s', pg_burst := pg_burst s', pg_pper_domain := pg_pper_domain s'\<rparr>"

lemma frame_fields:
  assumes "frame s s'"
  shows "pg_current_mode s' = pg_current_mode s" "pg_limit s' = pg_limit s" "pg_current_util s' = pg_current_util s"
    "pg_pdomains s' = pg_pdomains s" "pg_pdomains_idle s' = pg_pdomains_idle s" "pg_pdomains_def s' = pg_pdomains_def s"
    "pg_loaded s' = pg_loaded s"
  using assms by (cases s; cases s'; simp add: frame_def)+

lemma frame_refl: "frame s s"
  by (simp add: frame_def)

lemma frame_trans: "frame s s1 \<Longrightarrow> frame s1 s2 \<Longrightarrow> frame s s2"
  by (cases s; cases s1; cases s2) (simp add: frame_def)

definition visited :: "(pmgt \<Rightarrow> nat \<Rightarrow> domain_status \<Rightarrow> plugin \<Rightarrow> bool) \<Rightarrow> nat \<Rightarrow> pmgt \<Rightarrow> pmgt \<Rightarrow> bool" where
  "visited effect i s s' \<longleftrightarrow> frame s s' \<and>
     (\<exists>st p. effect s i st p \<and> pg_plugins s' = (pg_plugins s)[i := p] \<and> pg_status s' = (pg_status s)[i := st])"

locale domain_pass =
  fixes pass :: "nat list \<Rightarrow> pmgt \<Rightarrow> pmgt \<Rightarrow> bool"
    and effect :: "pmgt \<Rightarrow> nat \<Rightarrow> domain_status \<Rightarrow> plugin \<Rightarrow> bool"
  assumes pass_Nil: "pass [] s s' \<Longrightarrow> s' = s"
    and pass_Cons: "pass (i # is) s s' \<Longrightarrow> \<exists>s1. visited effect i s s1 \<and> pass is s1 s'"
    and effect_cong: "frame s s' \<Longrightarrow> pg_plugins s' ! i = pg_plugins s ! i \<Longrightarrow> pg_status s' ! i = pg_status s ! i \<Longrightarrow>
      effect s' i st p = effect s i st p"
begin

lemma pass_frame:
  "pass is s s' \<Longrightarrow> frame s s' \<and> length (pg_plugins s') = length (pg_plugins s) \<and> length (pg_status s') = length (pg_status s) \<and>
   (\<forall>i. i \<notin> set is \<longrightarrow> pg_plugins s' ! i = pg_plugins s ! i \<and> pg_status s' ! i = pg_status s ! i)"
proof (induction "is" arbitrary: s)
  case Nil
  then show ?case using pass_Nil frame_refl by auto
next
  case (Cons i "is")
  then obtain s1 where "visited effect i s s1" "pass is s1 s'" using pass_Cons by blast
  then show ?case using Cons.IH [of s1] frame_trans [of s s1 s'] by (auto simp: visited_def)
qed

lemma pass_effect:
  assumes "pass is s s'" "distinct is" "i \<in> set is" "i < length (pg_plugins s)" "i < length (pg_status s)"
  shows "effect s i (pg_status s' ! i) (pg_plugins s' ! i)"
  using assms
proof (induction "is" arbitrary: s)
  case (Cons j "is")
  then obtain s1 where v: "visited effect j s s1" and run: "pass is s1 s'" using pass_Cons by blast
  then obtain st p where eff: "frame s s1" "effect s j st p" "pg_plugins s1 = (pg_plugins s)[j := p]" "pg_status s1 = (pg_status s)[j := st]"
    by (auto simp: visited_def)
  show ?case
  proof (cases "i = j")
    case True
    then show ?thesis using pass_frame [OF run] eff Cons.prems(2,4,5) by simp
  next
    case False
    then have "effect s1 i (pg_status s' ! i) (pg_plugins s' ! i)" using Cons.IH [OF run] Cons.prems(2-5) eff by simp
    then show ?thesis using effect_cong [OF eff(1)] eff(3,4) False by simp
  qed
qed simp

end

definition share_sent :: "plugin_env \<Rightarrow> (rat \<Rightarrow> rat) \<Rightarrow> u64 \<Rightarrow> pmgt \<Rightarrow> nat \<Rightarrow> domain_status \<Rightarrow> plugin \<Rightarrow> bool" where
  "share_sent e f limit s i st p \<longleftrightarrow> st = pg_status s ! i \<and>
     (\<exists>v r. float_to_uint (f (domain_share s limit i)) = Some v \<and>
        plugin_set_powercap_value e LEVEL_NODE [v] (pg_current_util s ! i) (pg_plugins s ! i) = Some (r, p))"

definition status_read :: "plugin_env \<Rightarrow> pmgt \<Rightarrow> nat \<Rightarrow> domain_status \<Rightarrow> plugin \<Rightarrow> bool" where
  "status_read e s i st p \<longleftrightarrow> plugin_get_powercap_status e zero_domain_status (pg_plugins s ! i) = Some (st, p)"

lemma share_sent_cong:
  "frame s s' \<Longrightarrow> pg_plugins s' ! i = pg_plugins s ! i \<Longrightarrow> pg_status s' ! i = pg_status s ! i \<Longrightarrow>
   share_sent e f limit s' i st p = share_sent e f limit s i st p"
  by (simp add: share_sent_def domain_share_def frame_fields)

interpretation rl: domain_pass "\<lambda>is s s'. reallocate_loop e is s = Some s' \<and> pg_limit s = l" "share_sent e (\<lambda>x. x) (ucast l)" for e l
proof
  fix i "is" s s' assume "reallocate_loop e (i # is) s = Some s' \<and> pg_limit s = l"
  then obtain v r p where "float_to_uint (domain_share s (ucast l) i) = Some v"
    and "plugin_set_powercap_value e LEVEL_NODE [v] (pg_current_util s ! i) (pg_plugins s ! i) = Some (r, p)"
    and "reallocate_loop e is (s\<lparr>pg_plugins := (pg_plugins s)[i := p]\<rparr>) = Some s'" "pg_limit s = l"
    by (auto simp: bind_eq_Some_conv set_domain_Some)
  then show "\<exists>s1. visited (share_sent e (\<lambda>x. x) (ucast l)) i s s1 \<and> reallocate_loop e is s1 = Some s' \<and> pg_limit s1 = l"
    by (intro exI [of _ "s\<lparr>pg_plugins := (pg_plugins s)[i := p]\<rparr>"]) (auto simp: visited_def share_sent_def frame_def)
qed (auto simp: share_sent_cong)

interpretation sl: domain_pass "\<lambda>is s s'. status_loop e is s = Some s'" "status_read e" for e
proof
  fix i "is" s s' assume "status_loop e (i # is) s = Some s'"
  then obtain st p where "status_read e s i st p"
    and "status_loop e is (s\<lparr>pg_status := (pg_status s)[i := st], pg_plugins := (pg_plugins s)[i := p]\<rparr>) = Some s'"
    by (auto simp: bind_eq_Some_conv status_read_def)
  then show "\<exists>s1. visited (status_read e) i s s1 \<and> status_loop e is s1 = Some s'"
    by (intro exI [of _ "s\<lparr>pg_status := (pg_status s)[i := st], pg_plugins := (pg_plugins s)[i := p]\<rparr>"])
      (auto simp: visited_def frame_def)
qed (auto simp: status_read_def)

lemma set_pper_domain_frame: "set_pper_domain n limit i s = Some s' \<Longrightarrow> \<exists>x. s' = s\<lparr>pg_pper_domain := x\<rparr>"
  by (auto simp: set_pper_domain_def split: if_splits intro: exI [of _ "pg_pper_domain s"])

interpretation sv: domain_pass "\<lambda>is s s'. \<exists>g g'. set_value_loop e n limit is g s = Some (g', s')" "share_sent e (\<lambda>x. ear_max x 1) limit"
  for e n limit
proof
  fix i "is" s s' assume "\<exists>g g'. set_value_loop e n limit (i # is) g s = Some (g', s')"
  then obtain v r p s2 s3 g g' where "float_to_uint (ear_max (domain_share s limit i) 1) = Some v"
    and "plugin_set_powercap_value e LEVEL_NODE [v] (pg_current_util s ! i) (pg_plugins s ! i) = Some (r, p)"
    and s2: "set_pper_domain n limit i (s\<lparr>pg_plugins := (pg_plugins s)[i := p]\<rparr>) = Some s2"
    and s3: "s3 = (if pg_plugins s2 ! i = P_Null then s2 else s2\<lparr>pg_burst := (pg_burst s2)[i := (v \<noteq> 1)]\<rparr>)"
    and run: "set_value_loop e n limit is g s3 = Some (g', s')"
    by (auto simp: bind_eq_Some_conv set_domain_Some Let_def)
  moreover have "frame s s3" "pg_plugins s3 = (pg_plugins s)[i := p]" "pg_status s3 = pg_status s"
    using s3 set_pper_domain_frame [OF s2] by (auto simp: frame_def split: if_splits)
  ultimately have "visited (share_sent e (\<lambda>x. ear_max x 1) limit) i s s3" by (auto simp: visited_def share_sent_def)
  then show "\<exists>s1. visited (share_sent e (\<lambda>x. ear_max x 1) limit) i s s1 \<and> (\<exists>g g'. set_value_loop e n limit is g s1 = Some (g', s'))"
    using run by blast
qed (auto simp: share_sent_cong)

subsection \<open>The budget of the node\<close>

text \<open>Hardware that answers: the GPU driver accepts limits and the power of the GPUs can be read.\<close>

definition answers :: "plugin_env \<Rightarrow> bool" where
  "answers e \<longleftrightarrow> pe_driver e = EAR_SUCCESS \<and> pe_gpu_idle e \<noteq> None"

definition settled :: "plugin \<Rightarrow> bool" where
  "settled p \<longleftrightarrow> keeps_contract p \<and> plugin_default p = plugin_limit p"

definition limits_sum :: "pmgt \<Rightarrow> nat" where
  "limits_sum s = unat (plugin_limit (pg_plugins s ! DOMAIN_CPU)) + unat (plugin_limit (pg_plugins s ! DOMAIN_GPU))"

definition share_ok :: "pmgt \<Rightarrow> nat \<Rightarrow> bool" where
  "share_ok s i \<longleftrightarrow> (let d = pg_pdomains_def s ! i in 0 \<le> d \<and> to_float d = d \<and>
     pg_pdomains s ! i \<le> d \<and> to_float (pg_pdomains s ! i) = pg_pdomains s ! i \<and>
     pg_pdomains_idle s ! i \<le> d \<and> to_float (pg_pdomains_idle s ! i) = pg_pdomains_idle s ! i)"

definition shares_ok :: "pmgt \<Rightarrow> bool" where
  "shares_ok s \<longleftrightarrow> length (pg_pdomains s) = 4 \<and> length (pg_pdomains_def s) = 4 \<and> length (pg_pdomains_idle s) = 4 \<and>
     share_ok s DOMAIN_CPU \<and> share_ok s DOMAIN_GPU \<and>
     pg_pdomains_def s ! DOMAIN_CPU + pg_pdomains_def s ! DOMAIN_GPU \<le> 1 - 1 / 2 ^ 20"

definition domains_settled :: "pmgt \<Rightarrow> bool" where
  "domains_settled s \<longleftrightarrow> length (pg_plugins s) = 4 \<and> length (pg_status s) = 4 \<and>
     settled (pg_plugins s ! DOMAIN_CPU) \<and> settled (pg_plugins s ! DOMAIN_GPU)"

definition within_budget :: "pmgt \<Rightarrow> bool" where
  "within_budget s \<longleftrightarrow> (2 \<le> unat (pg_limit s) \<longrightarrow> limits_sum s \<le> unat (pg_limit s))"

definition budget_ok :: "pmgt \<Rightarrow> bool" where
  "budget_ok s \<longleftrightarrow> domains_settled s \<and> shares_ok s \<and> within_budget s"

lemma plugin_set_succeeds:
  assumes "answers e" "keeps_contract p" "level = LEVEL_NODE \<or> level = LEVEL_DOMAIN"
    and "plugin_set_powercap_value e level [w] util p = Some (r, p')"
  shows "r = EAR_SUCCESS"
  using assms(2)
proof (cases p rule: keeps_contract.cases)
  case (1 s fs)
  then show ?thesis using assms(4) by (auto split: option.splits)
next
  case (2 s)
  have "fst (gpu_int_set_powercap_value 0 l u s) = 0" for l u
    by (simp add: gpu_int_set_powercap_value_def restore_powercap_def Let_def)
  then show ?thesis using 2 assms(1,3,4) by (auto simp: answers_def gpu_set_powercap_value_def map_prod_def split: prod.splits) (metis fst_conv)+
next
  case (3 s)
  have "fst (gpudvfs_int_set_powercap_value q (Some idle) l u s) = 0" for q idle l u s
    by (simp add: gpudvfs_int_set_powercap_value_def Let_def split: prod.split)
  then show ?thesis using 3 assms(1,4) by (auto simp: answers_def gpudvfs_set_powercap_value_def map_prod_def split: prod.splits) (metis fst_conv)+
qed simp_all

lemma share_sent_limit:
  assumes "share_sent e f limit s i st p" "keeps_contract (pg_plugins s ! i)" "answers e"
  shows "settled p" "float_to_uint (f (domain_share s limit i)) = Some (plugin_limit p)"
proof -
  obtain v r where v: "float_to_uint (f (domain_share s limit i)) = Some v"
    and set: "plugin_set_powercap_value e LEVEL_NODE [v] (pg_current_util s ! i) (pg_plugins s ! i) = Some (r, p)"
    using assms(1) by (auto simp: share_sent_def)
  have level: "LEVEL_NODE = LEVEL_NODE \<or> LEVEL_NODE = LEVEL_DOMAIN" by simp
  have "r = EAR_SUCCESS" by (rule plugin_set_succeeds [OF assms(3,2) level set])
  then show "settled p" "float_to_uint (f (domain_share s limit i)) = Some (plugin_limit p)"
    using plugin_set_limits [OF assms(2) level set] v by (simp_all add: settled_def)
qed

lemma domain_shares:
  assumes "shares_ok s" "0 < unat limit"
  shows "domain_share s limit DOMAIN_CPU + domain_share s limit DOMAIN_GPU < of_nat (unat limit)"
    "domain_share s limit DOMAIN_CPU < of_nat (unat limit)" "domain_share s limit DOMAIN_GPU < of_nat (unat limit)"
proof -
  let ?d = "pg_pdomains_def s" and ?p = "pg_pdomains s"
  have s: "?p ! 1 \<le> ?d ! 1" "0 \<le> ?d ! 1" "to_float (?d ! 1) = ?d ! 1" "?p ! 3 \<le> ?d ! 3" "0 \<le> ?d ! 3" "to_float (?d ! 3) = ?d ! 3"
    "?d ! 1 + ?d ! 3 \<le> 1 - 1 / 2 ^ 20"
    using assms(1) by (simp_all add: shares_ok_def share_ok_def Let_def)
  show "domain_share s limit DOMAIN_CPU + domain_share s limit DOMAIN_GPU < of_nat (unat limit)"
    using shares_less [OF s assms(2)] by (simp add: domain_share_def rat_of_word_def)
  have "?d ! 1 + 0 \<le> 1 - 1 / 2 ^ 20" "?d ! 3 + 0 \<le> 1 - 1 / 2 ^ 20" using s(2,5,7) by linarith+
  from shares_less [OF s(1-3) _ _ _ this(1) assms(2), of 0] shares_less [OF s(4-6) _ _ _ this(2) assms(2), of 0]
  show "domain_share s limit DOMAIN_CPU < of_nat (unat limit)" "domain_share s limit DOMAIN_GPU < of_nat (unat limit)"
    by (simp_all add: domain_share_def rat_of_word_def)
qed

lemma frame_shares: "frame s s' \<Longrightarrow> shares_ok s' = shares_ok s"
  by (simp add: shares_ok_def share_ok_def frame_fields)

lemma domains_distinct: "distinct domains" "DOMAIN_CPU \<in> set domains" "DOMAIN_GPU \<in> set domains"
  by (simp_all add: domains_def)

lemma reallocate_budget:
  assumes ok: "budget_ok s" and e: "answers e" and run: "reallocate_power_between_domains e s = Some s'"
  shows "budget_ok s'"
proof (cases "pg_limit s = POWER_CAP_UNLIMITED \<or> pg_current_mode s = PC_MODE_MANUAL")
  case True
  then show ?thesis using ok run by (auto simp: reallocate_power_between_domains_def split: if_splits)
next
  case False
  then have loop: "reallocate_loop e domains s = Some s' \<and> pg_limit s = pg_limit s"
    using run by (simp add: reallocate_power_between_domains_def split: if_splits)
  note fr = rl.pass_frame [OF loop]
  then have same: "pg_limit s' = pg_limit s" using frame_fields(2) by blast
  have len: "length (pg_plugins s) = 4" "length (pg_status s) = 4" and set: "settled (pg_plugins s ! 1)" "settled (pg_plugins s ! 3)"
    using ok by (simp_all add: budget_ok_def domains_settled_def)
  have sent: "share_sent e (\<lambda>x. x) (ucast (pg_limit s)) s i (pg_status s' ! i) (pg_plugins s' ! i)" if "i = 1 \<or> i = 3" for i
    using that len domains_distinct by (intro rl.pass_effect [OF loop]) auto
  have lim: "settled (pg_plugins s' ! i)" "float_to_uint (domain_share s (ucast (pg_limit s)) i) = Some (plugin_limit (pg_plugins s' ! i))"
    if "i = 1 \<or> i = 3" for i
    using share_sent_limit [OF sent [OF that] _ e] set that by (auto simp: settled_def)
  have "within_budget s'"
    unfolding within_budget_def
  proof
    assume "2 \<le> unat (pg_limit s')"
    then have pos: "0 < unat (ucast (pg_limit s) :: u64)" using same by (simp add: unat_ucast_up)
    have "shares_ok s" using ok by (simp add: budget_ok_def)
    from sent_within [OF lim(2) [of 1] lim(2) [of 3] domain_shares(1,2,3) [OF this pos]]
    show "limits_sum s' \<le> unat (pg_limit s')" using same by (simp add: limits_sum_def unat_ucast_up)
  qed
  then show ?thesis
    using ok fr lim(1) [of 1] lim(1) [of 3] len frame_shares [of s s'] by (simp add: budget_ok_def domains_settled_def)
qed

lemma set_powercap_budget:
  assumes ok: "budget_ok s" and e: "answers e" and run: "pmgt_set_powercap_value e n limit s = Some (r, s')" and "unat limit < 2 ^ 32"
  shows "budget_ok s'"
proof (cases "pg_current_mode s = PC_MODE_MANUAL")
  case True
  then show ?thesis using ok run by (simp add: pmgt_set_powercap_value_def)
next
  case False
  then obtain s1 where loop: "\<exists>g g'. set_value_loop e n limit domains g s = Some (g', s1)" and s': "s' = s1\<lparr>pg_limit := ucast limit\<rparr>"
    using run by (auto simp: pmgt_set_powercap_value_def bind_eq_Some_conv)
  note fr = sv.pass_frame [OF loop]
  have len: "length (pg_plugins s) = 4" "length (pg_status s) = 4" and set: "settled (pg_plugins s ! 1)" "settled (pg_plugins s ! 3)"
    using ok by (simp_all add: budget_ok_def domains_settled_def)
  have sent: "share_sent e (\<lambda>x. ear_max x 1) limit s i (pg_status s1 ! i) (pg_plugins s1 ! i)" if "i = 1 \<or> i = 3" for i
    using that len domains_distinct by (intro sv.pass_effect [OF loop]) auto
  have lim: "settled (pg_plugins s1 ! i)" "float_to_uint (ear_max (domain_share s limit i) 1) = Some (plugin_limit (pg_plugins s1 ! i))"
    if "i = 1 \<or> i = 3" for i
    using share_sent_limit [OF sent [OF that] _ e] set that by (auto simp: settled_def)
  have new: "unat (ucast limit :: u32) = unat limit" using assms(4) by (simp add: unsigned_ucast_eq take_bit_nat_eq_self)
  have "within_budget s'"
    unfolding within_budget_def
  proof
    assume "2 \<le> unat (pg_limit s')"
    then have two: "2 \<le> unat limit" and pos: "0 < unat limit" using s' new by simp_all
    have "shares_ok s" using ok by (simp add: budget_ok_def)
    from sent_at_least_one_within [OF lim(2) [of 1] lim(2) [of 3] domain_shares(1,2,3) [OF this pos] two]
    show "limits_sum s' \<le> unat (pg_limit s')" using s' new by (simp add: limits_sum_def)
  qed
  moreover have "shares_ok s'" using ok fr s' frame_shares [of s s1] by (simp add: budget_ok_def shares_ok_def share_ok_def)
  ultimately show ?thesis
    using s' fr lim(1) [of 1] lim(1) [of 3] len by (simp add: budget_ok_def domains_settled_def)
qed

text \<open>Both corrections of the shares keep them below the defaults.\<close>

lemma correct_shares:
  assumes "shares_ok s" "length xs = 4"
    and "\<And>i. i = DOMAIN_CPU \<or> i = DOMAIN_GPU \<Longrightarrow> xs ! i \<le> pg_pdomains_def s ! i \<and> to_float (xs ! i) = xs ! i"
  shows "shares_ok (s\<lparr>pg_pdomains := xs\<rparr>)"
  using assms by (simp add: shares_ok_def share_ok_def Let_def)

lemma budget_of_shares:
  "budget_ok s \<Longrightarrow> shares_ok (s\<lparr>pg_pdomains := xs\<rparr>) \<Longrightarrow> budget_ok (s\<lparr>pg_pdomains := xs\<rparr>)"
  by (simp add: budget_ok_def domains_settled_def within_budget_def limits_sum_def)

lemma reduced_share:
  assumes "to_float p = p" "p \<le> d" "0 \<le> x"
  shows "(if p > 0 then to_float (p - to_float (x * p)) else p) \<le> d"
proof (cases "p > 0")
  case True
  then have "0 \<le> to_float (x * p)" using assms(3) by (intro fl_nonneg) simp_all
  then have "to_float (p - to_float (x * p)) \<le> to_float p" by (intro fl_mono_le) simp_all
  then show ?thesis using True assms by simp
qed (use assms in simp)

lemma set_power_per_domain_budget:
  assumes ok: "budget_ok s" and e: "answers e" and run: "pmgt_set_power_per_domain e opt pdomain s = Some s'"
  shows "budget_ok s'"
proof -
  have sh: "shares_ok s" using ok by (simp add: budget_ok_def)
  have len: "length (pg_pdomains s) = 4" "length (pg_pdomains_def s) = 4"
    and p: "\<And>i. i = 1 \<or> i = 3 \<Longrightarrow> to_float (pg_pdomains s ! i) = pg_pdomains s ! i \<and> pg_pdomains s ! i \<le> pg_pdomains_def s ! i \<and>
      to_float (pg_pdomains_def s ! i) = pg_pdomains_def s ! i"
    using sh by (auto simp: shares_ok_def share_ok_def Let_def)
  define x where "x = to_float (to_float (rat_of_word (dp_platform pdomain - pg_limit s)) / to_float (rat_of_word (pg_limit s)))"
  have "0 \<le> x" unfolding x_def rat_of_word_def by (intro fl_nonneg divide_nonneg_nonneg) simp_all
  then have "shares_ok (s\<lparr>pg_pdomains := map (\<lambda>p. if p > 0 then to_float (p - to_float (x * p)) else p) (pg_pdomains s)\<rparr>)"
    using len p reduced_share by (intro correct_shares [OF sh]) (auto simp: fl_idem)
  note reduced = budget_of_shares [OF ok this]
  have "to_float (ear_min y d) \<le> d" if "to_float d = d" for y d
    using that fl_mono_le [of "ear_min y d" d 24] by (simp add: ear_min_def)
  then have "shares_ok (s\<lparr>pg_pdomains := map2 (\<lambda>p d. to_float (ear_min (to_double (p + to_double (2 / 100))) d)) (pg_pdomains s) (pg_pdomains_def s)\<rparr>)"
    using len p by (intro correct_shares [OF sh]) (auto simp: fl_idem)
  note raised = budget_of_shares [OF ok this]
  show ?thesis
    using run ok reallocate_budget [OF reduced e] reallocate_budget [OF raised e]
    by (auto simp: pmgt_set_power_per_domain_def pmgt_reset_pdomain_def Let_def simp flip: x_def split: if_splits)
qed

subsection \<open>Moves between the domains\<close>

lemma redistribution_le: "redistribution r c \<le> c"
proof -
  define n :: rat where "n = rat_of_word c"
  define t where "t = to_double (n * to_double (1 / 10))"
  have "unat c < 2 ^ 53" using unsigned_less [of c, where 'a = nat] by simp
  then have n: "to_double n = n" "0 \<le> n" by (simp_all add: n_def rat_of_word_def fl_of_nat)
  have tenth: "0 \<le> to_double (1 / 10)" by (rule fl_nonneg) simp_all
  have "to_double (1 / 10) \<le> to_double 1" by (rule fl_mono_le) simp_all
  then have "n * to_double (1 / 10) \<le> n * 1" using n(2) by (intro mult_left_mono) (simp_all add: fl_one)
  then have "t \<le> to_double n" unfolding t_def by (intro fl_mono_le) simp_all
  then have t: "t \<le> n" "0 \<le> t" using n tenth by (simp_all add: t_def fl_nonneg)
  define x where "x = ear_min (rat_of_word r) (ear_min t 20)"
  have x: "0 \<le> x" "x \<le> n" "x \<le> 20" using t by (auto simp: x_def ear_min_def rat_of_word_def)
  have "unat (trunc_word x :: u32) = nat \<lfloor>x\<rfloor>" using x by (intro unat_trunc_word) simp_all
  also have "\<dots> \<le> unat c" using x(1,2) unfolding n_def rat_of_word_def by linarith
  finally have "trunc_word x \<le> c" by (simp add: word_le_nat_alt)
  then show ?thesis using n(1) by (simp add: redistribution_def x_def t_def n_def)
qed

lemma choose_move_Some:
  assumes "choose_move ds = Some (Move src dst w)"
  shows "src = DOMAIN_CPU \<and> dst = DOMAIN_GPU \<or> src = DOMAIN_GPU \<and> dst = DOMAIN_CPU"
    and "ds_ok (ds ! src) = PC_STATUS_RELEASE \<and> w = ds_exceed (ds ! src) \<or> w \<le> ds_current_pc (ds ! src)"
  using assms redistribution_le by (auto simp: choose_move_def Let_def split: if_splits)

definition total_power :: "domain_status list \<Rightarrow> u64" where
  "total_power ds = foldl (\<lambda>t i. t + ucast (ds_current_pc (ds ! i))) 0 domains"

lemma total_power_le:
  assumes "total_power ds \<le> ucast (l :: u32)"
  shows "unat (ds_current_pc (ds ! DOMAIN_CPU)) + unat (ds_current_pc (ds ! DOMAIN_GPU)) \<le> unat l"
proof -
  have lt: "unat (ds_current_pc (ds ! i)) < 2 ^ 32" for i using unsigned_less [of "ds_current_pc (ds ! i)", where 'a = nat] by simp
  have "unat (total_power ds) = unat (ds_current_pc (ds ! 0)) + unat (ds_current_pc (ds ! 1)) + unat (ds_current_pc (ds ! 2)) + unat (ds_current_pc (ds ! 3))"
    using lt [of 0] lt [of 1] lt [of 2] lt [of 3] by (simp add: total_power_def domains_def unat_plus unat_ucast_up)
  then show ?thesis using assms by (simp add: word_le_nat_alt unat_ucast_up)
qed

lemma exceed_update_limits:
  "ds_current_pc (ds[i := (ds ! i)\<lparr>ds_exceed := w\<rparr>] ! j) = ds_current_pc (ds ! j)"
  by (cases "i < length ds"; cases "i = j") (simp_all add: list_update_beyond)

lemma apply_move_Some:
  assumes run: "apply_move e (Move src dst w) s = Some s'" and "src \<noteq> dst"
  shows "\<exists>r p. plugin_set_powercap_value e LEVEL_DOMAIN [ds_current_pc (pg_status s ! src) - w] (pg_current_util s ! src) (pg_plugins s ! src) = Some (r, p) \<and>
     (if r = EAR_ERROR then pg_plugins s' = (pg_plugins s)[src := p]
      else \<exists>r' p'. plugin_set_powercap_value e LEVEL_DOMAIN [ds_current_pc (pg_status s ! dst) + w] (pg_current_util s ! dst) (pg_plugins s ! dst) = Some (r', p') \<and>
        pg_plugins s' = (pg_plugins s)[src := p, dst := p'])"
    and "frame s s'" "pg_status s' = (pg_status s)[src := (pg_status s ! src)\<lparr>ds_exceed := w\<rparr>]"
proof -
  define s0 where "s0 = s\<lparr>pg_status := (pg_status s)[src := (pg_status s ! src)\<lparr>ds_exceed := w\<rparr>]\<rparr>"
  have s0: "pg_plugins s0 = pg_plugins s" "pg_current_util s0 = pg_current_util s" "frame s s0" by (simp_all add: s0_def frame_def)
  have cur: "ds_current_pc (pg_status s0 ! j) = ds_current_pc (pg_status s ! j)" for j by (simp add: s0_def exceed_update_limits)
  have "set_domain e LEVEL_DOMAIN [ds_current_pc (pg_status s ! src) - w] src s0 \<bind>
      (\<lambda>(ret, s1). if ret = EAR_ERROR then Some s1
         else set_domain e LEVEL_DOMAIN [ds_current_pc (pg_status s ! dst) + w] dst s1 \<bind> (\<lambda>(ret, s2). Some s2)) = Some s'"
    using run by (simp add: Let_def cur flip: s0_def cong: if_cong)
  then obtain r s1 where s1: "set_domain e LEVEL_DOMAIN [ds_current_pc (pg_status s ! src) - w] src s0 = Some (r, s1)"
    and "(if r = EAR_ERROR then Some s1
         else set_domain e LEVEL_DOMAIN [ds_current_pc (pg_status s ! dst) + w] dst s1 \<bind> (\<lambda>(ret, s2). Some s2)) = Some s'"
    by (auto simp only: bind_eq_Some_conv split_paired_Ex prod.case)
  then have rest: "if r = EAR_ERROR then s' = s1
      else \<exists>r'. set_domain e LEVEL_DOMAIN [ds_current_pc (pg_status s ! dst) + w] dst s1 = Some (r', s')"
    by (auto simp: bind_eq_Some_conv split: if_splits)
  obtain p where p: "plugin_set_powercap_value e LEVEL_DOMAIN [ds_current_pc (pg_status s ! src) - w] (pg_current_util s ! src) (pg_plugins s ! src) = Some (r, p)"
    and s1: "s1 = s0\<lparr>pg_plugins := (pg_plugins s)[src := p]\<rparr>"
    using s1 s0 by (auto simp: set_domain_Some)
  show "\<exists>r p. plugin_set_powercap_value e LEVEL_DOMAIN [ds_current_pc (pg_status s ! src) - w] (pg_current_util s ! src) (pg_plugins s ! src) = Some (r, p) \<and>
     (if r = EAR_ERROR then pg_plugins s' = (pg_plugins s)[src := p]
      else \<exists>r' p'. plugin_set_powercap_value e LEVEL_DOMAIN [ds_current_pc (pg_status s ! dst) + w] (pg_current_util s ! dst) (pg_plugins s ! dst) = Some (r', p') \<and>
        pg_plugins s' = (pg_plugins s)[src := p, dst := p'])"
  proof (intro exI conjI)
    show "if r = EAR_ERROR then pg_plugins s' = (pg_plugins s)[src := p]
      else \<exists>r' p'. plugin_set_powercap_value e LEVEL_DOMAIN [ds_current_pc (pg_status s ! dst) + w] (pg_current_util s ! dst) (pg_plugins s ! dst) = Some (r', p') \<and>
        pg_plugins s' = (pg_plugins s)[src := p, dst := p']"
      using rest s1 s0 assms(2) by (auto simp: set_domain_Some split: if_splits)
  qed (rule p)
  show "frame s s'" "pg_status s' = (pg_status s)[src := (pg_status s ! src)\<lparr>ds_exceed := w\<rparr>]"
    using rest s1 by (auto simp: set_domain_Some s0_def frame_def split: if_splits)
qed

text \<open>
  The pass over the statuses, then a move of watts that the sender has: with answering hardware
  both domains end settled and the sum of their limits is the one before the pass.
\<close>

definition reads_ok :: "plugin_env \<Rightarrow> pmgt \<Rightarrow> pmgt \<Rightarrow> bool" where
  "reads_ok e s s1 \<longleftrightarrow> domains_settled s \<and> status_loop e domains s = Some s1"

lemma reads_ok_facts:
  assumes "reads_ok e s s1" "i = DOMAIN_CPU \<or> i = DOMAIN_GPU"
  shows "status_read e s i (pg_status s1 ! i) (pg_plugins s1 ! i)" "frame s s1" "settled (pg_plugins s1 ! i)"
    "plugin_limit (pg_plugins s1 ! i) = plugin_limit (pg_plugins s ! i)" "ds_current_pc (pg_status s1 ! i) = plugin_limit (pg_plugins s ! i)"
    "length (pg_plugins s1) = 4" "length (pg_status s1) = 4"
proof -
  have loop: "status_loop e domains s = Some s1" and len: "length (pg_plugins s) = 4" "length (pg_status s) = 4"
    and set: "settled (pg_plugins s ! i)"
    using assms by (auto simp: reads_ok_def domains_settled_def)
  show read: "status_read e s i (pg_status s1 ! i) (pg_plugins s1 ! i)"
    using assms(2) len domains_distinct by (intro sl.pass_effect [OF loop]) auto
  have k: "keeps_contract (pg_plugins s ! i)" using set by (simp add: settled_def)
  note lim = plugin_status_limits [OF k read [unfolded status_read_def]]
  show "frame s s1" "settled (pg_plugins s1 ! i)" "plugin_limit (pg_plugins s1 ! i) = plugin_limit (pg_plugins s ! i)"
    "ds_current_pc (pg_status s1 ! i) = plugin_limit (pg_plugins s ! i)" "length (pg_plugins s1) = 4" "length (pg_status s1) = 4"
    using sl.pass_frame [OF loop] lim set len by (simp_all add: settled_def)
qed

lemma move_conserves:
  assumes rd: "reads_ok e s s1" and e: "answers e" and run: "apply_move e (Move src dst w) s1 = Some s2"
    and dom: "src = DOMAIN_CPU \<and> dst = DOMAIN_GPU \<or> src = DOMAIN_GPU \<and> dst = DOMAIN_CPU"
    and w: "w \<le> ds_current_pc (pg_status s1 ! src)" and room: "limits_sum s < 2 ^ 32"
  shows "domains_settled s2" "limits_sum s2 = limits_sum s"
proof -
  have ne: "src \<noteq> dst" "src < 4" "dst < 4" using dom by auto
  have d: "src = DOMAIN_CPU \<or> src = DOMAIN_GPU" "dst = DOMAIN_CPU \<or> dst = DOMAIN_GPU" using dom by auto
  note fs = reads_ok_facts [OF rd d(1)] and fd = reads_ok_facts [OF rd d(2)]
  have k: "keeps_contract (pg_plugins s1 ! src)" "keeps_contract (pg_plugins s1 ! dst)" using fs(3) fd(3) by (simp_all add: settled_def)
  have level: "LEVEL_DOMAIN = LEVEL_NODE \<or> LEVEL_DOMAIN = LEVEL_DOMAIN" by simp
  obtain r p where p: "plugin_set_powercap_value e LEVEL_DOMAIN [ds_current_pc (pg_status s1 ! src) - w] (pg_current_util s1 ! src) (pg_plugins s1 ! src) = Some (r, p)"
    and rest: "if r = EAR_ERROR then pg_plugins s2 = (pg_plugins s1)[src := p]
      else \<exists>r' p'. plugin_set_powercap_value e LEVEL_DOMAIN [ds_current_pc (pg_status s1 ! dst) + w] (pg_current_util s1 ! dst) (pg_plugins s1 ! dst) = Some (r', p') \<and>
        pg_plugins s2 = (pg_plugins s1)[src := p, dst := p']"
    using apply_move_Some(1) [OF run ne(1)] by blast
  have r: "r = EAR_SUCCESS" by (rule plugin_set_succeeds [OF e k(1) level p])
  then obtain r' p' where p': "plugin_set_powercap_value e LEVEL_DOMAIN [ds_current_pc (pg_status s1 ! dst) + w] (pg_current_util s1 ! dst) (pg_plugins s1 ! dst) = Some (r', p')"
    and pl: "pg_plugins s2 = (pg_plugins s1)[src := p, dst := p']"
    using rest by auto
  have r': "r' = EAR_SUCCESS" by (rule plugin_set_succeeds [OF e k(2) level p'])
  have st: "settled p" "settled p'"
    using plugin_set_limits [OF k(1) level p] plugin_set_limits [OF k(2) level p'] r r' by (simp_all add: settled_def)
  have len2: "length (pg_status s2) = 4" using apply_move_Some(3) [OF run ne(1)] fs(7) by simp
  show "domains_settled s2" using st pl len2 fs(6) dom by (auto simp: domains_settled_def)
  have kk: "keeps_contract (pg_plugins s ! src)" "keeps_contract (pg_plugins s ! dst)"
    using rd d by (auto simp: reads_ok_def domains_settled_def settled_def)
  have sum: "unat (plugin_limit (pg_plugins s ! src)) + unat (plugin_limit (pg_plugins s ! dst)) = limits_sum s" using dom by (auto simp: limits_sum_def)
  have "unat (plugin_limit p) + unat (plugin_limit p') = limits_sum s"
    using pp.moved [OF kk fs(1) [unfolded status_read_def] fd(1) [unfolded status_read_def] p p'] w fs(5) room sum by simp
  then show "limits_sum s2 = limits_sum s" using pl fs(6) dom by (auto simp: limits_sum_def)
qed

lemma limits_of_reads: "reads_ok e s s1 \<Longrightarrow> domains_settled s1 \<and> limits_sum s1 = limits_sum s"
  using reads_ok_facts [of e s s1 DOMAIN_CPU] reads_ok_facts [of e s s1 DOMAIN_GPU] by (simp add: domains_settled_def limits_sum_def)

lemma reset_stays_settled: "settled p \<Longrightarrow> settled (plugin_reset_powercap_value e p) \<and> plugin_limit (plugin_reset_powercap_value e p) = plugin_limit p"
  using pl.reset_settled [of p e] plugin_reset_limits(1) [of p e] by (simp add: settled_def)

lemma update_plugins_settled:
  assumes "domains_settled s" "\<And>p. settled p \<Longrightarrow> settled (f p) \<and> plugin_limit (f p) = plugin_limit p"
  shows "domains_settled (update_plugins f s)" "limits_sum (update_plugins f s) = limits_sum s"
  using assms by (simp_all add: domains_settled_def update_plugins_def limits_sum_def)

text \<open>Honest domains do not offer more power than they have.\<close>

definition honest :: "plugin_env \<Rightarrow> pmgt \<Rightarrow> bool" where
  "honest e s \<longleftrightarrow> (\<forall>i st p. i = DOMAIN_CPU \<or> i = DOMAIN_GPU \<longrightarrow> status_read e s i st p \<longrightarrow>
     ds_ok st = PC_STATUS_RELEASE \<longrightarrow> ds_exceed st \<le> ds_current_pc st)"

lemma chosen_move_conserves:
  assumes rd: "reads_ok e s s1" and e: "answers e" and h: "honest e s" and m: "choose_move (pg_status s1) = Some m"
    and run: "apply_move e m s1 = Some s2" and total: "total_power (pg_status s2) \<le> ucast l"
  shows "domains_settled s2 \<and> limits_sum s2 = limits_sum s \<and> limits_sum s \<le> unat (l :: u32) \<and> frame s s2"
proof -
  have fr: "frame s s1" using reads_ok_facts(2) [OF rd, of DOMAIN_CPU] by simp
  have cur: "unat (ds_current_pc (pg_status s1 ! DOMAIN_CPU)) + unat (ds_current_pc (pg_status s1 ! DOMAIN_GPU)) = limits_sum s"
    using reads_ok_facts(5) [OF rd] by (simp add: limits_sum_def)
  show ?thesis
  proof (cases m)
    case No_Move
    then have "s2 = s1" using run by simp
    then show ?thesis using limits_of_reads [OF rd] total_power_le [OF total] cur fr by simp
  next
    case (Move src dst w)
    note ch = choose_move_Some [OF m [unfolded Move]]
    have ne: "src \<noteq> dst" and d: "src = DOMAIN_CPU \<or> src = DOMAIN_GPU" using ch(1) by auto
    note mv = apply_move_Some [OF run [unfolded Move] ne]
    have sum: "limits_sum s \<le> unat l" using total_power_le [OF total] cur by (simp add: mv(3) exceed_update_limits)
    then have room: "limits_sum s < 2 ^ 32" using unsigned_less [of l, where 'a = nat] by simp
    have "w \<le> ds_current_pc (pg_status s1 ! src)"
      using ch(2) h reads_ok_facts(1) [OF rd d] d by (auto simp: honest_def)
    from move_conserves [OF rd e run [unfolded Move] ch(1) this room] sum mv(2) fr show ?thesis using frame_trans by blast
  qed
qed

lemma status_per_domain_facts:
  assumes set: "domains_settled s" and e: "answers e" and h: "honest e s"
    and run: "pmgt_powercap_status_per_domain e action s = Some (r, s')"
  shows "domains_settled s' \<and> limits_sum s' = limits_sum s \<and> frame s s'"
proof -
  define z where "z = s\<lparr>pg_status := replicate 4 zero_domain_status\<rparr>"
  have z: "frame s z" "domains_settled z" "limits_sum z = limits_sum s" "pg_limit z = pg_limit s" "honest e z"
    using set h by (simp_all add: z_def frame_def domains_settled_def limits_sum_def honest_def status_read_def)
  show ?thesis
  proof (cases "pg_limit s = POWER_CAP_UNLIMITED")
    case True
    then have "s' = z" using run by (simp add: pmgt_powercap_status_per_domain_def z_def)
    then show ?thesis using z by simp
  next
    case False
    then obtain s1 where loop: "status_loop e domains z = Some s1"
      and rest: "s' = s1 \<or> s' = pmgt_set_default_powercap e s1 \<or>
        (\<exists>m. choose_move (pg_status s1) = Some m \<and> apply_move e m s1 = Some s' \<and> total_power (pg_status s') \<le> ucast (pg_limit s'))"
      using run unfolding pmgt_powercap_status_per_domain_def total_power_def z_def Let_def
      by (auto simp: bind_eq_Some_conv split: if_splits option.splits)
    have rd: "reads_ok e z s1" using z(2) loop by (simp add: reads_ok_def)
    have fr: "frame s s1" using frame_trans [OF z(1)] reads_ok_facts(2) [OF rd, of DOMAIN_CPU] by simp
    have s1: "domains_settled s1" "limits_sum s1 = limits_sum s" using limits_of_reads [OF rd] z(3) by simp_all
    note reset = update_plugins_settled [OF s1(1), of "plugin_reset_powercap_value e"]
    have frr: "frame s1 (pmgt_set_default_powercap e s1)" by (simp add: pmgt_set_default_powercap_def update_plugins_def frame_def)
    from rest consider "s' = s1" | "s' = pmgt_set_default_powercap e s1"
      | m where "choose_move (pg_status s1) = Some m" "apply_move e m s1 = Some s'" "total_power (pg_status s') \<le> ucast (pg_limit s')" by blast
    then show ?thesis
    proof cases
      case 1
      then show ?thesis using s1 fr by simp
    next
      case 2
      then show ?thesis using reset s1(2) reset_stays_settled frame_trans [OF fr frr] by (simp add: pmgt_set_default_powercap_def)
    next
      case (3 m)
      from chosen_move_conserves [OF rd e z(5) 3] show ?thesis using z(3) frame_trans [OF z(1)] by auto
    qed
  qed
qed

lemma budget_cong:
  assumes "budget_ok s" "domains_settled s'" "limits_sum s' = limits_sum s" "frame s s'"
  shows "budget_ok s'"
proof -
  have "pg_limit s' = pg_limit s" using frame_fields(2) [OF assms(4)] .
  then show ?thesis using assms frame_shares [OF assms(4)] by (simp add: budget_ok_def within_budget_def)
qed

lemma default_shares:
  assumes "budget_ok s"
  shows "budget_ok (s\<lparr>pg_pdomains := pg_pdomains_def s\<rparr>)" "budget_ok (s\<lparr>pg_pdomains := pg_pdomains_idle s\<rparr>)"
proof -
  have sh: "shares_ok s" using assms by (simp add: budget_ok_def)
  then show "budget_ok (s\<lparr>pg_pdomains := pg_pdomains_def s\<rparr>)" "budget_ok (s\<lparr>pg_pdomains := pg_pdomains_idle s\<rparr>)"
    by (intro budget_of_shares [OF assms] correct_shares [OF sh]; auto simp: shares_ok_def share_ok_def Let_def)+
qed

lemma set_status_budget:
  assumes "budget_ok s"
  shows "budget_ok (pmgt_set_status v s)"
proof (rule budget_cong [OF assms])
  have "domains_settled s" using assms by (simp add: budget_ok_def)
  then show "domains_settled (pmgt_set_status v s)" "limits_sum (pmgt_set_status v s) = limits_sum s"
    by (simp_all add: domains_settled_def limits_sum_def pmgt_set_status_def domains_def settled_def plugin_field_limits)
qed (simp add: pmgt_set_status_def frame_def)

lemma set_pc_mode_budget:
  assumes "budget_ok s"
  shows "budget_ok (pmgt_set_pc_mode v s)"
proof (rule budget_cong [OF assms])
  have "domains_settled s" using assms by (simp add: budget_ok_def)
  then show "domains_settled (pmgt_set_pc_mode v s)" "limits_sum (pmgt_set_pc_mode v s) = limits_sum s"
    by (simp_all add: domains_settled_def limits_sum_def pmgt_set_pc_mode_def update_plugins_def settled_def plugin_field_limits)
qed (simp add: pmgt_set_pc_mode_def update_plugins_def frame_def)

lemma set_app_req_freq_budget:
  assumes "budget_ok s"
  shows "budget_ok (pmgt_set_app_req_freq e s)"
proof (rule budget_cong [OF assms])
  have "domains_settled s" using assms by (simp add: budget_ok_def)
  then show "domains_settled (pmgt_set_app_req_freq e s)" "limits_sum (pmgt_set_app_req_freq e s) = limits_sum s"
    by (simp_all add: domains_settled_def limits_sum_def pmgt_set_app_req_freq_def settled_def plugin_field_limits Let_def)
qed (simp add: pmgt_set_app_req_freq_def frame_def Let_def)

lemma get_status_budget:
  assumes ok: "budget_ok s" and run: "pmgt_get_status e s = Some (st, s')"
  shows "budget_ok s'"
proof -
  define z where "z = s\<lparr>pg_status := replicate 4 zero_domain_status\<rparr>"
  have z: "frame s z" "domains_settled z" "limits_sum z = limits_sum s"
    using ok by (simp_all add: z_def frame_def domains_settled_def limits_sum_def budget_ok_def)
  have "s' = z \<or> reads_ok e z s'"
    using run z(2) by (auto simp: pmgt_get_status_def bind_eq_Some_conv Let_def reads_ok_def z_def split: if_splits)
  then show ?thesis
    using z limits_of_reads [of e z s'] frame_trans [of s z s'] reads_ok_facts(2) [of e z s' DOMAIN_CPU] by (intro budget_cong [OF ok]) auto
qed

lemma utilization_budget:
  assumes "budget_ok s"
  shows "budget_ok (pmgt_powercap_node_reallocation e s)" "budget_ok (snd (pmgt_utilization_changed s))"
proof -
  show "budget_ok (pmgt_powercap_node_reallocation e s)"
    using assms plugin_utilization_limits
    by (simp add: budget_ok_def within_budget_def shares_ok_def share_ok_def domains_settled_def limits_sum_def
        pmgt_powercap_node_reallocation_def domains_def settled_def)
  show "budget_ok (snd (pmgt_utilization_changed s))"
    using assms by (simp add: budget_ok_def within_budget_def shares_ok_def share_ok_def domains_settled_def limits_sum_def
        pmgt_utilization_changed_def Let_def)
qed

text \<open>A step of the detection, provided the domains are honest when the moves are decided.\<close>

definition honest_detection :: "plugin_env \<Rightarrow> pmgt \<Rightarrow> bool" where
  "honest_detection e s \<longleftrightarrow> honest e s \<and> (\<forall>r s1. pmgt_powercap_status_per_domain e CHECK_ASK_DEFAULT s = Some (r, s1) \<longrightarrow> honest e s1)"

lemma period_budget: "budget_ok (s\<lparr>pg_util_period := t\<rparr>) = budget_ok s" "budget_ok (s\<lparr>pg_last_dom_util := u\<rparr>) = budget_ok s"
  by (simp_all add: budget_ok_def within_budget_def shares_ok_def share_ok_def domains_settled_def limits_sum_def)

lemma status_step_budget:
  assumes "budget_ok s" "answers e" "honest e s" "pmgt_powercap_status_per_domain e action s = Some (r, s')"
  shows "budget_ok s'"
  using status_per_domain_facts [OF _ assms(2-4)] assms(1) budget_cong [OF assms(1)] by (simp add: budget_ok_def)

lemma dvfs_thread_limits:
  assumes "dvfs_pc_thread_main r s = Some (s', f)"
  shows "dv_current_pc s' = dv_current_pc s" "dv_default_pc s' = dv_default_pc s"
proof -
  have below: "dvfs_below x = Some (y, g) \<Longrightarrow> dv_current_pc y = dv_current_pc x \<and> dv_default_pc y = dv_default_pc x" for x y g
    by (auto simp: dvfs_below_def dvfs_raise_def bind_eq_Some_conv map_prod_def Let_def split: if_splits prod.splits)
  have reduce: "dv_current_pc (fst (dvfs_reduce x)) = dv_current_pc x \<and> dv_default_pc (fst (dvfs_reduce x)) = dv_default_pc x" for x
    by (simp add: dvfs_reduce_def Let_def)
  have rest: "dv_current_pc (dvfs_pstates r x) = dv_current_pc x" "dv_default_pc (dvfs_pstates r x) = dv_default_pc x"
    "dv_current_pc (dvfs_measure r x) = dv_current_pc x" "dv_default_pc (dvfs_measure r x) = dv_default_pc x"
    "dv_current_pc (dvfs_targets r x) = dv_current_pc x" "dv_default_pc (dvfs_targets r x) = dv_default_pc x" for x
    by (simp_all add: dvfs_pstates_def dvfs_measure_def dvfs_targets_def Let_def)
  show "dv_current_pc s' = dv_current_pc s" "dv_default_pc s' = dv_default_pc s"
    using assms below reduce rest
    by (auto simp: dvfs_pc_thread_main_def Let_def map_prod_def split: if_splits prod.splits) (metis fst_conv)+
qed

lemma gpu_thread_limits:
  "gp_current_pc (snd (gpu_pc_thread_main driver req_f samples s)) = gp_current_pc s"
  "gp_default_pc (snd (gpu_pc_thread_main driver req_f samples s)) = gp_default_pc s"
  by (simp_all add: gpu_pc_thread_main_def Let_def gpu_int_set_limits case_prod_unfold split: option.split)

lemma gpudvfs_control_limits:
  "gd_current_pc (gpudvfs_control i s) = gd_current_pc s" "gd_default_pc (gpudvfs_control i s) = gd_default_pc s"
  by (simp_all add: gpudvfs_control_def gpudvfs_above_def gpudvfs_below_def Let_def)

lemma gpudvfs_thread_limits:
  "gd_current_pc (snd (gpu_dvfs_pc_thread_main req_f samples idle limits s)) = gd_current_pc s"
  "gd_default_pc (snd (gpu_dvfs_pc_thread_main req_f samples idle limits s)) = gd_default_pc s"
proof -
  have "gd_current_pc (foldl (\<lambda>s i. gpudvfs_control i s) x is) = gd_current_pc x"
    "gd_default_pc (foldl (\<lambda>s i. gpudvfs_control i s) x is) = gd_default_pc x" for x "is"
    by (rule foldl_keeps, rule gpudvfs_control_limits)+
  then show "gd_current_pc (snd (gpu_dvfs_pc_thread_main req_f samples idle limits s)) = gd_current_pc s"
    "gd_default_pc (snd (gpu_dvfs_pc_thread_main req_f samples idle limits s)) = gd_default_pc s"
    by (simp_all add: gpu_dvfs_pc_thread_main_def Let_def gpudvfs_int_set_limits case_prod_unfold split: option.split)
qed

inductive plugin_thread :: "plugin \<Rightarrow> plugin \<Rightarrow> bool" where
  "dvfs_pc_thread_main r d = Some (d', f) \<Longrightarrow> plugin_thread (P_Dvfs d w) (P_Dvfs d' (case f of None \<Rightarrow> w | Some f \<Rightarrow> w @ [f]))"
| "plugin_thread (P_Gpu g) (P_Gpu (snd (gpu_pc_thread_main driver req_f samples g)))"
| "plugin_thread (P_Gpu_Dvfs g) (P_Gpu_Dvfs (snd (gpu_dvfs_pc_thread_main req_f samples idle limits g)))"

lemma thread_settled: "plugin_thread p p' \<Longrightarrow> settled p \<Longrightarrow> settled p' \<and> plugin_limit p' = plugin_limit p"
  by (induction rule: plugin_thread.induct)
    (simp_all add: settled_def dvfs_thread_limits gpu_thread_limits gpudvfs_thread_limits)

lemma detect_budget:
  assumes ok: "budget_ok s" and e: "answers e" and h: "honest_detection e (s\<lparr>pg_util_period := pg_util_period s + 500\<rparr>)"
    and run: "util_detect_main e load samples s = Some s'"
  shows "budget_ok s'"
proof (cases "pg_current_mode s = PC_MODE_MANUAL")
  case True
  then show ?thesis using ok run by (simp add: util_detect_main_def)
next
  case False
  define s0 where "s0 = s\<lparr>pg_util_period := pg_util_period s + 500\<rparr>"
  have ok0: "budget_ok s0" and h0: "honest e s0" using ok h by (simp_all add: s0_def period_budget honest_detection_def)
  from False run obtain r s1 where s1: "pmgt_powercap_status_per_domain e CHECK_ASK_DEFAULT s0 = Some (r, s1)"
    and rest: "(if r = 0 \<and> pg_util_period s1 mod 1000 = 0
        then do {
          s \<leftarrow> read_utilization load samples (s1\<lparr>pg_util_period := 0\<rparr>);
          (r, s) \<leftarrow> pmgt_powercap_status_per_domain e CHECK_POWER_RED s;
          let (changed, s) = pmgt_utilization_changed s;
          let s = (if changed then pmgt_powercap_node_reallocation e s else s);
          Some (s\<lparr>pg_last_dom_util := pg_dom_util s\<rparr>)
        }
        else Some s1) = Some s'"
    by (auto simp: util_detect_main_def Let_def bind_eq_Some_conv simp flip: s0_def)
  have ok1: "budget_ok s1" by (rule status_step_budget [OF ok0 e h0 s1])
  have h1: "honest e s1" using h s1 by (auto simp: honest_detection_def s0_def)
  show ?thesis
  proof (cases "r = 0 \<and> pg_util_period s1 mod 1000 = 0")
    case True
    then obtain s2 r3 s3 where s2: "read_utilization load samples (s1\<lparr>pg_util_period := 0\<rparr>) = Some s2"
      and s3: "pmgt_powercap_status_per_domain e CHECK_POWER_RED s2 = Some (r3, s3)"
      and end_state: "s' = (let s4 = snd (pmgt_utilization_changed s3);
          s5 = (if fst (pmgt_utilization_changed s3) then pmgt_powercap_node_reallocation e s4 else s4) in s5\<lparr>pg_last_dom_util := pg_dom_util s5\<rparr>)"
      using rest by (auto simp: bind_eq_Some_conv Let_def case_prod_unfold)
    have "budget_ok s2" "honest e s2"
      using s2 ok1 h1 by (auto simp: read_utilization_def Let_def honest_def status_read_def budget_ok_def within_budget_def
          shares_ok_def share_ok_def domains_settled_def limits_sum_def split: if_splits)
    then have "budget_ok s3" using status_step_budget [OF _ e _ s3] by simp
    then show ?thesis using end_state by (simp add: utilization_budget period_budget Let_def)
  next
    case False
    then show ?thesis using rest ok1 by auto
  qed
qed

subsection \<open>The start of the manager\<close>

text \<open>
  The shares of CPU and GPU leave room for the rest of the node: the total counts a tenth of the
  power of the packages on top of both.
\<close>

lemma initial_total:
  fixes p g :: nat
  assumes "100 \<le> p" "p + g < 2 ^ 22" "float_to_uint (to_float (to_float (of_nat (p + g)) + to_float (to_float (of_nat p) * to_float (1 / 10)))) = Some t"
  shows "p + g + 9 \<le> unat t" "unat t < 2 ^ 24"
proof -
  have exact: "to_float (of_nat n) = of_nat n" if "n < 2 ^ 24" for n using that by (intro fl_of_nat) simp_all
  define y where "y = to_float (to_float (of_nat p) * to_float (1 / 10))"
  define x where "x = to_float (to_float (of_nat (p + g)) + y)"
  have sum: "to_float (of_nat (p + g)) = of_nat (p + g)" "to_float (of_nat p) = of_nat p" using assms(2) by (intro exact; simp)+
  have "\<bar>to_float (1 / 10) - 1 / 10\<bar> \<le> \<bar>1 / 10\<bar> / 2 ^ 24" by (rule fl_err) simp
  then have tenth: "9 / 100 \<le> to_float (1 / 10)" "to_float (1 / 10) \<le> 1" by (simp_all add: abs_if split: if_splits)
  have "of_nat 100 * (9 / 100) \<le> of_nat p * to_float (1 / 10)" using assms(1) tenth by (intro mult_mono) simp_all
  then have "to_float (of_nat 9) \<le> y" unfolding y_def sum by (intro fl_mono_le) simp_all
  then have "of_nat (p + g + 9) \<le> of_nat (p + g) + y" using exact [of 9] by simp
  then have "to_float (of_nat (p + g + 9)) \<le> x" unfolding x_def sum by (rule fl_mono_le) simp
  then have lower: "of_nat (p + g + 9) \<le> x" using exact [of "p + g + 9"] assms(2) by simp
  have "of_nat p * to_float (1 / 10) \<le> of_nat p * 1" using tenth by (intro mult_left_mono) simp_all
  then have "to_float (of_nat p * to_float (1 / 10)) \<le> to_float (of_nat p)" by (intro fl_mono_le) simp_all
  then have "y \<le> of_nat p" by (simp only: y_def sum)
  moreover have "(of_nat (p + g) :: rat) < of_nat (2 ^ 22)" using assms(2) by (simp only: of_nat_less_iff)
  moreover have "(of_nat p :: rat) \<le> of_nat (p + g)" by simp
  ultimately have "of_nat (p + g) + y \<le> 2 ^ 23" by simp
  then have "x \<le> to_float (2 ^ 23)" unfolding x_def sum by (rule fl_mono_le) simp
  then have upper: "x \<le> 2 ^ 23" by (simp only: fl_pow)
  have t: "unat t = nat \<lfloor>x\<rfloor>" unfolding x_def y_def by (rule float_to_uint_le [OF assms(3)])
  have "int (p + g + 9) \<le> \<lfloor>x\<rfloor>" using lower by (simp add: le_floor_iff)
  then show "p + g + 9 \<le> unat t" unfolding t by linarith
  have "\<lfloor>x\<rfloor> \<le> \<lfloor>2 ^ 23 :: rat\<rfloor>" using upper by (rule floor_mono)
  then have "\<lfloor>x\<rfloor> \<le> 8388608" by simp
  then have "unat t \<le> nat 8388608" unfolding t by (rule nat_mono)
  then show "unat t < 2 ^ 24" by simp
qed

lemma share_fraction:
  assumes "p + g + 9 \<le> t" "p + g < 2 ^ 22"
  shows "to_float (of_nat p / of_nat t) + to_float (of_nat g / of_nat t) \<le> 1 - 1 / 2 ^ 20"
proof -
  have t: "(0 :: rat) < of_nat t" using assms(1) by simp
  have up: "to_float (of_nat n / of_nat t) \<le> of_nat n / of_nat t * (1 + 1 / 2 ^ 24)" for n by (rule fl_up) simp_all
  have "to_float (of_nat p / of_nat t) + to_float (of_nat g / of_nat t) \<le> of_nat (p + g) / of_nat t * (1 + 1 / 2 ^ 24)"
    using up [of p] up [of g] by (simp add: add_divide_distrib algebra_simps)
  also have "\<dots> \<le> 1 - 1 / 2 ^ 20"
  proof -
    have "of_nat (p + g) * (1 + 1 / 2 ^ 24) \<le> (1 - 1 / 2 ^ 20) * (of_nat (p + g) + 9 :: rat)"
      using assms(2) by (simp add: field_simps)
    also have "\<dots> \<le> (1 - 1 / 2 ^ 20) * of_nat t" using assms(1) by (intro mult_left_mono) simp_all
    finally show ?thesis using t by (simp add: pos_divide_le_eq mult.commute)
  qed
  finally show ?thesis .
qed

lemma init_budget:
  assumes run: "pmgt_init opened False cpus sockets gpus mode bpd_cpu bpd_dram gpu_tdp = Some (r, s)"
    and plugins: "opened ! DOMAIN_NODE = P_Null" "opened ! DOMAIN_CPU = P_Dvfs d w" "settled (opened ! DOMAIN_CPU)" "settled (opened ! DOMAIN_GPU)"
    and size: "sockets < 2 ^ 16" "gpus < 2 ^ 16" "100 \<le> (unat bpd_cpu + unat bpd_dram) * sockets"
      "(unat bpd_cpu + unat bpd_dram) * sockets + unat gpu_tdp * gpus < 2 ^ 22"
  shows "budget_ok s"
proof -
  define p g where "p = (unat bpd_cpu + unat bpd_dram) * sockets" and "g = unat gpu_tdp * gpus"
  have loaded: "opened ! DOMAIN_GPU \<noteq> P_Null" using plugins(4) by (auto simp: settled_def)
  have sz: "unat (of_nat sockets :: u32) = sockets" "unat (of_nat gpus :: u32) = gpus" using size(1,2) by (simp_all add: unat_of_nat_less)
  have mult: "unat bpd_cpu * sockets + unat bpd_dram * sockets = p" by (simp add: p_def add_mult_distrib)
  have bound: "p + g < 2 ^ 22" using size(4) by (simp add: p_def g_def)
  have cpu: "unat (bpd_cpu * of_nat sockets) = unat bpd_cpu * sockets" using sz mult bound by (subst unat_times) auto
  have dram: "unat (bpd_dram * of_nat sockets) = unat bpd_dram * sockets" using sz mult bound by (subst unat_times) auto
  have pckg: "unat (bpd_cpu * of_nat sockets + bpd_dram * of_nat sockets) = p" using cpu dram mult bound by (subst unat_plus) auto
  have gpu: "unat (gpu_tdp * of_nat gpus) = g" using sz bound by (subst unat_times) (auto simp: g_def)
  have tot: "unat (bpd_cpu * of_nat sockets + bpd_dram * of_nat sockets + gpu_tdp * of_nat gpus) = p + g" using pckg gpu bound by (subst unat_plus) auto
  have exact: "to_float (of_nat n) = of_nat n" if "n < 2 ^ 24" for n using that by (intro fl_of_nat) simp_all
  from run obtain t s1 where t: "float_to_uint (to_float (to_float (of_nat (p + g)) + to_float (to_float (of_nat p) * to_float (1 / 10)))) = Some t" "t \<noteq> 0"
    and s: "pg_plugins s = [P_Null, opened ! 1, opened ! 2, opened ! 3]" "length (pg_status s) = 4" "pg_limit s = 0"
      "pg_pdomains_def s = [to_float (to_float (of_nat (unat t)) / to_float (of_nat (unat t))), to_float (to_float (of_nat p) / to_float (of_nat (unat t))),
         to_float (to_float (of_nat (unat bpd_dram * sockets)) / to_float (of_nat (unat t))), to_float (to_float (of_nat g) / to_float (of_nat (unat t)))]"
      "pg_pdomains s = pg_pdomains_def s" "pg_pdomains_idle s = pg_pdomains_def s"
    using plugins(1,2) loaded
    by (auto simp: pmgt_init_def compute_power_distribution_def Let_def bind_eq_Some_conv domain_loaded_def rat_of_word_def
        pckg gpu tot dram dvfs_plugin_get_settings_def split: if_splits)
  note ge = initial_total [OF size(3) [folded p_def] bound t(1)]
  have f: "to_float (of_nat (unat t)) = of_nat (unat t)" "to_float (of_nat p) = of_nat p" "to_float (of_nat g) = of_nat g"
    using ge(2) bound by (simp_all add: exact)
  have "shares_ok s"
    using share_fraction [OF ge(1) bound] by (simp add: shares_ok_def share_ok_def s f fl_idem fl_nonneg)
  moreover have "domains_settled s" using plugins(3,4) s by (simp add: domains_settled_def)
  moreover have "within_budget s" using s by (simp add: within_budget_def)
  ultimately show ?thesis by (simp add: budget_ok_def)
qed

subsection \<open>The manager in operation\<close>

text \<open>
  The events of the manager, in any order: a limit from the node, the periodic correction, the jobs,
  the requests, the detection, and the control threads of the plugins in between.  The
  messages of the manual mode (\<open>pmgt_process_message\<close>), which set the limits of domains and devices to
  any values a client sends, are not among them: the budget is a property of the automatic mode.
\<close>

inductive pmgt_step :: "pmgt \<Rightarrow> pmgt \<Rightarrow> bool" where
  "answers e \<Longrightarrow> unat limit < 2 ^ 32 \<Longrightarrow> pmgt_set_powercap_value e n limit s = Some (r, s') \<Longrightarrow> pmgt_step s s'"
| "answers e \<Longrightarrow> pmgt_set_power_per_domain e opt pdomain s = Some s' \<Longrightarrow> pmgt_step s s'"
| "answers e \<Longrightarrow> pmgt_new_job e s = Some s' \<Longrightarrow> pmgt_step s s'"
| "answers e \<Longrightarrow> pmgt_end_job e s = Some s' \<Longrightarrow> pmgt_step s s'"
| "answers e \<Longrightarrow> pmgt_idle_to_run e s = Some s' \<Longrightarrow> pmgt_step s s'"
| "answers e \<Longrightarrow> pmgt_run_to_idle e s = Some s' \<Longrightarrow> pmgt_step s s'"
| "pmgt_step s (pmgt_set_status v s)"
| "pmgt_step s (pmgt_set_pc_mode v s)"
| "pmgt_step s (pmgt_set_app_req_freq e s)"
| "pmgt_get_status e s = Some (st, s') \<Longrightarrow> pmgt_step s s'"
| "answers e \<Longrightarrow> honest_detection e (s\<lparr>pg_util_period := pg_util_period s + 500\<rparr>) \<Longrightarrow>
   util_detect_main e load samples s = Some s' \<Longrightarrow> pmgt_step s s'"
| "plugin_thread (pg_plugins s ! i) p \<Longrightarrow> pmgt_step s (s\<lparr>pg_plugins := (pg_plugins s)[i := p]\<rparr>)"

lemma thread_budget:
  assumes "budget_ok s" "plugin_thread (pg_plugins s ! i) p"
  shows "budget_ok (s\<lparr>pg_plugins := (pg_plugins s)[i := p]\<rparr>)"
proof (rule budget_cong [OF assms(1)])
  have "domains_settled s" using assms(1) by (simp add: budget_ok_def)
  then show "domains_settled (s\<lparr>pg_plugins := (pg_plugins s)[i := p]\<rparr>)" "limits_sum (s\<lparr>pg_plugins := (pg_plugins s)[i := p]\<rparr>) = limits_sum s"
    using thread_settled [OF assms(2)]
    by (cases "i < length (pg_plugins s)"; auto simp: domains_settled_def limits_sum_def nth_list_update list_update_beyond)+
qed (simp add: frame_def)

lemma step_budget:
  assumes "pmgt_step s s'" "budget_ok s"
  shows "budget_ok s'"
  using assms(1)
proof cases
  case (1 e limit n r)
  then show ?thesis using set_powercap_budget [OF assms(2)] by blast
next
  case (2 e opt pdomain)
  then show ?thesis using set_power_per_domain_budget [OF assms(2)] by blast
next
  case (3 e)
  then show ?thesis using reallocate_budget [OF default_shares(1) [OF assms(2)], of e s'] by (simp add: pmgt_new_job_def)
next
  case (4 e)
  then show ?thesis using reallocate_budget [OF default_shares(1) [OF assms(2)], of e s'] by (simp add: pmgt_end_job_def)
next
  case (5 e)
  then show ?thesis using reallocate_budget [OF default_shares(1) [OF assms(2)], of e] set_status_budget by (auto simp: pmgt_idle_to_run_def)
next
  case (6 e)
  then show ?thesis using reallocate_budget [OF default_shares(2) [OF assms(2)], of e] set_status_budget by (auto simp: pmgt_run_to_idle_def)
next
  case (10 e st)
  then show ?thesis using get_status_budget [OF assms(2)] by blast
next
  case (11 e load samples)
  then show ?thesis using detect_budget [OF assms(2)] by blast
next
  case (12 i p)
  then show ?thesis using thread_budget [OF assms(2)] by blast
qed (use assms(2) in \<open>simp_all add: set_status_budget set_pc_mode_budget set_app_req_freq_budget\<close>)

lemma steps_budget: "pmgt_step\<^sup>*\<^sup>* s s' \<Longrightarrow> budget_ok s \<Longrightarrow> budget_ok s'"
  by (induction rule: rtranclp_induct) (simp_all add: step_budget)

lemma conserves_within:
  assumes set: "domains_settled s" and e: "answers e" and h: "honest e s" and lim: "pg_limit s \<noteq> POWER_CAP_UNLIMITED"
    and run: "pmgt_powercap_status_per_domain e CHECK_POWER_RED s = Some (0, s')"
  shows "limits_sum s' = limits_sum s \<and> limits_sum s \<le> unat (pg_limit s)"
proof -
  define z where "z = s\<lparr>pg_status := replicate 4 zero_domain_status\<rparr>"
  have z: "domains_settled z" "limits_sum z = limits_sum s" "honest e z" "frame s z"
    using set h by (simp_all add: z_def domains_settled_def limits_sum_def honest_def status_read_def frame_def)
  from run lim obtain s1 m where loop: "status_loop e domains z = Some s1" and m: "choose_move (pg_status s1) = Some m"
    and mv: "apply_move e m s1 = Some s'" "total_power (pg_status s') \<le> ucast (pg_limit s')"
    unfolding pmgt_powercap_status_per_domain_def total_power_def z_def Let_def
    by (auto simp: bind_eq_Some_conv split: if_splits option.splits)
  from chosen_move_conserves [OF _ e z(3) m mv] loop z
  have c: "limits_sum s' = limits_sum s \<and> limits_sum s \<le> unat (pg_limit s') \<and> frame z s'" by (simp add: reads_ok_def)
  then have "pg_limit s' = pg_limit s" using frame_fields(2) [of z s'] by (simp add: z_def)
  then show ?thesis using c by simp
qed

lemma overdrawn:
  assumes "pg_current_mode s \<noteq> PC_MODE_MANUAL" "2 \<le> unat (pg_limit s)" "pc_def_powercap opt \<le> pc_last_t1_allocated opt"
    and "length (pg_pdomains s) = 4" "pg_pdomains s ! DOMAIN_NODE = 1" "4 * unat (pg_limit s) \<le> unat (dp_platform pdomain)"
  shows "pmgt_set_power_per_domain e opt pdomain s = None"
proof -
  define l n where "l = unat (pg_limit s)" and "n = unat (dp_platform pdomain)"
  have l: "2 \<le> l" "4 * l \<le> n" using assms(2,6) by (simp_all add: l_def n_def)
  define k where "k = unat (dp_platform pdomain - pg_limit s)"
  have "k = n - l" using l by (simp add: unat_dist l_def n_def k_def)
  then have k: "3 * l \<le> k" using l by simp
  define x where "x = to_float (to_float (of_nat k) / to_float (of_nat l))"
  have fl: "2 \<le> to_float (of_nat l)" using fl_mono_le [of 2 "of_nat l" 24] l(1) by (simp add: fl_numeral)
  have up: "to_float (of_nat l) \<le> of_nat l * (1 + 1 / 2 ^ 24)" by (rule fl_up) simp_all
  have "\<bar>to_float (of_nat k) - of_nat k\<bar> \<le> \<bar>of_nat k\<bar> / 2 ^ 24" by (rule fl_err) simp
  then have "of_nat k * (1 - 1 / 2 ^ 24) \<le> to_float (of_nat k)" by (simp add: abs_if algebra_simps split: if_splits)
  moreover have "of_nat (3 * l) \<le> (of_nat k :: rat)" using k by (simp only: of_nat_le_iff)
  ultimately have "2 * to_float (of_nat l) \<le> to_float (of_nat k)" using up by simp
  then have "to_float 2 \<le> x" unfolding x_def using fl by (intro fl_mono_le) (simp_all add: pos_le_divide_eq)
  then have x: "2 \<le> x" by (simp add: fl_numeral)
  have "1 - x \<le> - 1" using x by simp
  then have neg: "to_float (1 - x) \<le> - 1" using fl_mono_le [of "1 - x" "- 1" 24] by (simp add: fl_minus fl_one)
  have "to_float (of_nat l) * to_float (1 - x) \<le> - 2" using fl neg mult_mono [of 2 "to_float (of_nat l)" 1 "- to_float (1 - x)"] by simp
  then have "to_float (to_float (of_nat l) * to_float (1 - x)) \<le> - 2" using fl_mono_le [of _ "- 2" 24] by (simp add: fl_minus fl_numeral)
  then have none: "float_to_uint (to_float (to_float (of_nat l) * to_float (1 - x))) = None" by (simp add: float_to_uint_def)
  have xx: "to_float x = x" by (simp add: x_def fl_idem)
  have gt: "pg_limit s < dp_platform pdomain" "pg_limit s \<noteq> 1" "pg_limit s \<noteq> 0" using l by (auto simp: word_less_nat_alt l_def n_def)
  obtain ds where head: "pg_pdomains s = 1 # ds" using assms(4,5) by (cases "pg_pdomains s") auto
  show ?thesis
    using assms(1,3) gt none
    by (subst pmgt_set_power_per_domain_def)
      (simp add: pmgt_reset_pdomain_def reallocate_power_between_domains_def domains_def domain_share_def rat_of_word_def unat_ucast_up
        head xx Let_def flip: l_def k_def x_def)
qed

lemma request_wraps:
  assumes "ds_ok (ds ! DOMAIN_CPU) = PC_STATUS_GREEDY \<or> ds_ok (ds ! DOMAIN_GPU) = PC_STATUS_GREEDY"
    and "ds_ok (ds ! DOMAIN_CPU) \<noteq> PC_STATUS_RELEASE" "ds_ok (ds ! DOMAIN_GPU) \<noteq> PC_STATUS_RELEASE"
    and "256 \<le> unat (ds_requested (ds ! DOMAIN_CPU)) + unat (ds_requested (ds ! DOMAIN_GPU))"
  shows "unat (ps_requested (node_status ds)) = unat (ds_requested (ds ! DOMAIN_CPU)) + unat (ds_requested (ds ! DOMAIN_GPU)) - 256"
proof -
  let ?a = "ds_requested (ds ! DOMAIN_CPU)" and ?b = "ds_requested (ds ! DOMAIN_GPU)"
  have "unat (?a + ?b) = unat ?a + unat ?b - 256" using assms(4) unat_u8_le [of ?a] unat_u8_le [of ?b] by (simp add: unat_word_ariths mod_if)
  moreover have "ear_min (?a + ?b) 255 = ?a + ?b"
    using calculation unat_u8_le [of ?a] unat_u8_le [of ?b] by (simp add: ear_min_def word_less_nat_alt word_unat_eq_iff)
  ultimately show ?thesis using assms(1-3) by (auto simp: node_status_def zero_pmgt_status_def Let_def)
qed

lemma overstated:
  assumes set: "domains_settled s" and e: "answers e" and lim: "pg_limit s \<noteq> POWER_CAP_UNLIMITED"
    and cpu: "plugin_get_powercap_status e zero_domain_status (pg_plugins s ! DOMAIN_CPU) = Some (st, p)"
    and gpu: "plugin_get_powercap_status e zero_domain_status (pg_plugins s ! DOMAIN_GPU) = Some (st', p')"
    and ok: "ds_ok st = PC_STATUS_RELEASE" "ds_ok st' = PC_STATUS_GREEDY" "ds_current_pc st < ds_exceed st"
    and run: "pmgt_powercap_status_per_domain e CHECK_POWER_RED s = Some (0, s')"
  shows "unat (plugin_limit (pg_plugins s' ! DOMAIN_CPU)) = 2 ^ 32 + unat (plugin_limit (pg_plugins s ! DOMAIN_CPU)) - unat (ds_exceed st)"
proof -
  define z where "z = s\<lparr>pg_status := replicate 4 zero_domain_status\<rparr>"
  have z: "domains_settled z" "pg_plugins z = pg_plugins s" using set by (simp_all add: z_def domains_settled_def)
  from run lim obtain s1 m where loop: "status_loop e domains z = Some s1" and m: "choose_move (pg_status s1) = Some m"
    and mv: "apply_move e m s1 = Some s'"
    unfolding pmgt_powercap_status_per_domain_def z_def Let_def by (auto simp: bind_eq_Some_conv split: if_splits option.splits)
  have rd: "reads_ok e z s1" using loop z by (simp add: reads_ok_def)
  note fc = reads_ok_facts [OF rd, of DOMAIN_CPU, simplified] and fg = reads_ok_facts [OF rd, of DOMAIN_GPU, simplified]
  have st: "pg_status s1 ! DOMAIN_CPU = st" "pg_status s1 ! DOMAIN_GPU = st'" using fc(1) fg(1) cpu gpu z(2) by (simp_all add: status_read_def)
  then have "m = Move DOMAIN_CPU DOMAIN_GPU (ds_exceed st)" using m ok by (simp add: choose_move_def)
  then obtain r q where q: "plugin_set_powercap_value e LEVEL_DOMAIN [ds_current_pc st - ds_exceed st] (pg_current_util s1 ! DOMAIN_CPU) (pg_plugins s1 ! DOMAIN_CPU) = Some (r, q)"
    and pl: "pg_plugins s' ! DOMAIN_CPU = q"
    using apply_move_Some(1) [of e DOMAIN_CPU DOMAIN_GPU "ds_exceed st" s1 s'] mv st fc(6) by (auto split: if_splits)
  have "keeps_contract (pg_plugins s1 ! DOMAIN_CPU)" using fc(3) by (simp add: settled_def)
  from plugin_set_limits(2) [OF this _ q] pl have "plugin_limit (pg_plugins s' ! DOMAIN_CPU) = ds_current_pc st - ds_exceed st" by simp
  moreover have "ds_current_pc st = plugin_limit (pg_plugins s ! DOMAIN_CPU)" using fc(5) st z(2) by simp
  ultimately show ?thesis using ok(3) unat_sub_if_size [of "ds_current_pc st" "ds_exceed st"] by (simp add: word_size word_less_nat_alt)
qed

end
