(* ===== verification/Node_Budget.thy ===== *)
theory Node_Budget
  imports Domain_Budget
begin

text \<open>
  What the manager of the domains of a node promises, and where it does not keep it: the budget of
  the node, the moves between the domains, and the values that leave the ranges of their types.
\<close>

subsection \<open>A node of two sockets and four GPUs\<close>

definition plugins_env :: plugin_env where
  "plugins_env = \<lparr>pe_cpu_req_f = [2400000, 2400000, 0, 0], pe_gpu_req_f = [1410], pe_current = Some [2200000, 2200000], pe_pstates = [],
     pe_energy = None, pe_ms = 0, pe_requested = 0, pe_driver = EAR_SUCCESS, pe_cpupow = \<lparr>cd_socket = EAR_SUCCESS, cd_dram = EAR_SUCCESS, cd_reset = EAR_SUCCESS\<rparr>,
     pe_gpu_idle = Some [\<lparr>gs_util = 0, gs_power = 30, gs_freq = 1365, gs_working = 0\<rparr>], pe_gh = (\<lambda>_. True), pe_inm = (\<lambda>_. True)\<rparr>"

definition opened_example :: "plugin list" where
  "opened_example = [P_Null, P_Dvfs dvfs_example [], P_Null, P_Gpu_Dvfs (gpudvfs_example 150)]"

definition manager_example :: pmgt where
  "manager_example = \<lparr>pg_current_mode = PC_MODE_AUTO, pg_limit = 0, pg_status = replicate 4 zero_domain_status,
     pg_settings = map plugin_get_settings opened_example,
     pg_current_util = [[100], replicate 2 100, replicate 2 100, replicate 4 0], pg_prev_util = [[100], replicate 2 100, replicate 2 100, replicate 4 0],
     pg_dom_util = [0, 0, 0, 0], pg_last_dom_util = [0, 0, 0, 0], pg_dom_changed = [False, False, False, False],
     pg_pdomains = [1, 25 / 128, 25 / 512, 201 / 256], pg_pdomains_idle = [1, 25 / 128, 25 / 512, 201 / 256],
     pg_pdomains_def = [1, 25 / 128, 25 / 512, 201 / 256],
     pg_loaded = [False, True, False, True], pg_plugins = opened_example, pg_security_range = to_float (to_float (1 - to_float (1 / 20)) - to_float (1 / 100)), pg_num_gpus = 4, pg_sockets = 2,
     pg_cpus = 2, pg_manual_power = [0, 0, 0, 0], pg_burst = [False, False, False, False], pg_pper_domain = [0, 0, 0, 0],
     pg_util_period = 0\<rparr>"

lemma example_shares:
  "to_float (25 / 128) = 25 / 128" "to_float (25 / 512) = 25 / 512" "to_float (201 / 256) = 201 / 256"
  using fl_dyadic [of 25 24 "- 7"] fl_dyadic [of 25 24 "- 9"] fl_dyadic [of 201 24 "- 8"] by (simp_all add: pow2_def)

lemma rne_above: "of_int k \<le> x \<Longrightarrow> x < of_int k + 1 / 2 \<Longrightarrow> rne x = k"
  using floor_unique [of k x] by (simp add: rne_def Let_def)

lemma rne_below: "of_int k - 1 / 2 < x \<Longrightarrow> x < of_int k \<Longrightarrow> rne x = k"
  using floor_unique [of "k - 1" x] by (simp add: rne_def Let_def)

lemma tenth_of_400: "to_float (400 * to_float (1 / 10)) = 40"
proof -
  have "ilog2 \<bar>1 / 10\<bar> = - 4" by (rule ilog2_unique) (simp_all add: pow2_def)
  then have u: "ulp 24 (1 / 10) = 1 / 134217728" by (simp add: ulp_def pow2_def)
  have "rne (1 / 10 / (1 / 134217728)) = 13421773" by (rule rne_below) simp_all
  then have a: "to_float (1 / 10) = 13421773 / 134217728" by (simp add: fl_def u)
  have "ilog2 \<bar>335544325 / 8388608\<bar> = 5" by (rule ilog2_unique) (simp_all add: pow2_def)
  then have v: "ulp 24 (335544325 / 8388608) = 1 / 262144" by (simp add: ulp_def pow2_def)
  have "rne (335544325 / 8388608 / (1 / 262144)) = 10485760" by (rule rne_above) simp_all
  then have "to_float (335544325 / 8388608) = 40" by (simp add: fl_def v)
  then show ?thesis by (simp add: a)
qed

lemma example_init: "pmgt_init opened_example False 2 2 4 PC_MODE_AUTO 150 50 402 = Some (EAR_SUCCESS, manager_example)"
proof -
  have "float_to_uint (to_float 2048) = Some 2048" "to_float (to_float (400 + 1608) + 40) = to_float 2048"
    by (simp_all add: float_to_uint_def trunc_word_def fl_numeral)
  then show ?thesis
    by (simp add: pmgt_init_def opened_example_def compute_power_distribution_def Let_def domain_loaded_def rat_of_word_def
       dvfs_plugin_get_settings_def manager_example_def fl_numeral fl_one example_shares tenth_of_400 domains_def)
qed

lemma example_settled: "settled (opened_example ! DOMAIN_CPU)" "settled (opened_example ! DOMAIN_GPU)" "answers plugins_env"
  by (simp_all add: settled_def opened_example_def dvfs_example_def gpudvfs_example_def answers_def plugins_env_def)

definition two_domains :: "pmgt \<Rightarrow> bool" where
  "two_domains m \<longleftrightarrow> (\<exists>d w g. pg_plugins m = [P_Null, P_Dvfs d w, P_Null, P_Gpu_Dvfs g]) \<and> pg_current_mode m = PC_MODE_AUTO \<and>
     pg_pdomains m = [1, 25 / 128, 25 / 512, 201 / 256] \<and> pg_pdomains_idle m = pg_pdomains m"

lemma share_watts: "float_to_uint 200 = Some 200" "float_to_uint 804 = Some 804" "float_to_uint 1024 = Some 1024" "float_to_uint 50 = Some 50"
  by (simp_all add: float_to_uint_def trunc_word_def)

lemma shares_grant:
  assumes "two_domains m"
  shows "\<exists>r m'. pmgt_set_powercap_value e 0 1024 m = Some (r, m') \<and> pg_limit m' = 1024 \<and> limits_sum m' = 1004 \<and> two_domains m'"
proof -
  obtain d w g where p: "pg_plugins m = [P_Null, P_Dvfs d w, P_Null, P_Gpu_Dvfs g]" using assms by (auto simp: two_domains_def)
  obtain r g' where g: "gpudvfs_set_powercap_value (pe_gpu_req_f e) (pe_gpu_idle e) LEVEL_NODE [804] (pg_current_util m ! 3) g = (r, g')"
    by (cases "gpudvfs_set_powercap_value (pe_gpu_req_f e) (pe_gpu_idle e) LEVEL_NODE [804] (pg_current_util m ! 3) g")
  then have "ucast (gd_current_pc g') = (804 :: u32)"
    using plugin_set_limits(2) [of "P_Gpu_Dvfs g" LEVEL_NODE e 804 "pg_current_util m ! 3" r "P_Gpu_Dvfs g'"] by simp
  with share_watts g p assms show ?thesis
    by (auto simp: pmgt_set_powercap_value_def domains_def domain_share_def rat_of_word_def fl_numeral set_domain_def set_pper_domain_def
        domain_loaded_def Let_def ear_max_def dvfs_set_powercap_value_def dvfs_apply_def reset_prev_def limits_sum_def two_domains_def)
qed

lemma shares_reallocate:
  assumes "two_domains m" "pg_limit m = 1024"
  shows "\<exists>m'. reallocate_power_between_domains e m = Some m'"
proof -
  obtain d w g where p: "pg_plugins m = [P_Null, P_Dvfs d w, P_Null, P_Gpu_Dvfs g]" using assms by (auto simp: two_domains_def)
  with share_watts assms show ?thesis
    by (auto simp: reallocate_power_between_domains_def domains_def domain_share_def rat_of_word_def fl_numeral set_domain_def
        dvfs_set_powercap_value_def two_domains_def split: prod.splits)
qed

lemma manager_example_domains: "two_domains manager_example" "pg_current_mode manager_example = PC_MODE_AUTO"
  by (simp_all add: two_domains_def manager_example_def opened_example_def)

lemma example_grant:
  "\<exists>r s. pmgt_set_powercap_value plugins_env 0 1024 manager_example = Some (r, s) \<and> pg_limit s = 1024 \<and> limits_sum s = 1004"
  using shares_grant [OF manager_example_domains(1)] by blast

subsection \<open>The budget of the node\<close>

text \<open>
  C5. Once the manager of the domains is initialised for DVFS on the CPUs and a plugin on the GPUs,
  and the node has a limit, the limits of the two domains never add up to more than it, whatever the
  order of new limits, jobs, requests, status reports, detections and control threads, as long as no
  domain offers more power than it has.
\<close>

theorem node_budget_kept:
  assumes "pmgt_init opened False cpus sockets gpus mode bpd_cpu bpd_dram gpu_tdp = Some (r, s0)"
    and "opened ! DOMAIN_NODE = P_Null" "opened ! DOMAIN_CPU = P_Dvfs d w" "settled (opened ! DOMAIN_CPU)" "settled (opened ! DOMAIN_GPU)"
    and "sockets < 2 ^ 16" "gpus < 2 ^ 16" "100 \<le> (unat bpd_cpu + unat bpd_dram) * sockets"
      "(unat bpd_cpu + unat bpd_dram) * sockets + unat gpu_tdp * gpus < 2 ^ 22"
    and "pmgt_step\<^sup>*\<^sup>* s0 s" "2 \<le> unat (pg_limit s)"
  shows "limits_sum s \<le> unat (pg_limit s)"
  using steps_budget [OF assms(10) init_budget [OF assms(1-9)]] assms(11) by (simp add: budget_ok_def within_budget_def)

lemma node_budget_kept_witness:
  "\<exists>s. pmgt_step\<^sup>*\<^sup>* manager_example s \<and> pg_limit s = 1024 \<and> limits_sum s = 1004 \<and> limits_sum s \<le> unat (pg_limit s)"
proof -
  obtain r s where s: "pmgt_set_powercap_value plugins_env 0 1024 manager_example = Some (r, s)" "pg_limit s = 1024" "limits_sum s = 1004"
    using example_grant by blast
  have st: "pmgt_step\<^sup>*\<^sup>* manager_example s" using pmgt_step.intros(1) [OF example_settled(3) _ s(1)] by simp
  have "limits_sum s \<le> unat (pg_limit s)"
    by (rule node_budget_kept [OF example_init _ _ example_settled(1,2) _ _ _ _ st]) (simp_all add: opened_example_def s)
  then show ?thesis using st s by blast
qed

text \<open>
  C33. When the manager moves power between the domains, what one domain loses is what the other
  gains, and the limits of both were within the limit of the node, as long as no domain offers more
  power than it has.
\<close>

theorem domain_move_conserves:
  assumes "domains_settled s" "answers e" "honest e s" "pg_limit s \<noteq> POWER_CAP_UNLIMITED"
    and "pmgt_powercap_status_per_domain e CHECK_POWER_RED s = Some (0, s')"
  shows "limits_sum s' = limits_sum s \<and> limits_sum s \<le> unat (pg_limit s)"
  by (rule conserves_within [OF assms])

lemma greedy_gpu_status: "snd (gpudvfs_get_powercap_status (gpudvfs_example 204)) =
   \<lparr>ds_ok = PC_STATUS_GREEDY, ds_exceed = 0, ds_current_pc = 200, ds_stress = ucast (powercap_get_stress 1410 1320 1410 1365), ds_requested = 253\<rparr>"
  by (simp add: gpudvfs_get_powercap_status_def gpudvfs_example_def gpudvfs_freq_to_pstate_def Let_def)

definition moving_example :: "plugin \<Rightarrow> pmgt" where
  "moving_example p = manager_example\<lparr>pg_limit := 600, pg_plugins := [P_Null, p, P_Null, P_Gpu_Dvfs (gpudvfs_example 204)]\<rparr>"

lemma example_move:
  assumes "plugin_get_powercap_status plugins_env zero_domain_status p = Some (st, P_Dvfs d' [])"
    and "ds_ok st = PC_STATUS_OK \<or> ds_ok st = PC_STATUS_RELEASE" "ds_current_pc st = 100"
  shows "\<exists>s'. pmgt_powercap_status_per_domain plugins_env CHECK_POWER_RED (moving_example p) = Some (0, s')"
proof -
  have ok: "ds_ok st \<noteq> PC_STATUS_GREEDY" "ds_ok st \<noteq> PC_STATUS_ASK_DEF" using assms(2) by auto
  have four: "replicate 4 z = [z, z, z, z]" for z :: domain_status by (simp add: numeral_eq_Suc)
  show ?thesis using assms ok
    by (auto simp: pmgt_powercap_status_per_domain_def moving_example_def manager_example_def greedy_gpu_status domains_def zero_domain_status_def
        status_count_def choose_move_def set_domain_def dvfs_set_powercap_value_def Let_def four split: prod.splits)
qed

lemma moving_example_settled:
  "settled p \<Longrightarrow> domains_settled (moving_example p) \<and> limits_sum (moving_example p) = unat (plugin_limit p) + 200 \<and> pg_limit (moving_example p) = 600 \<and>
   pg_plugins (moving_example p) = [P_Null, p, P_Null, P_Gpu_Dvfs (gpudvfs_example 204)]"
  by (simp add: domains_settled_def moving_example_def manager_example_def settled_def limits_sum_def gpudvfs_example_def)

definition stopped_cpu :: dvfs where
  "stopped_cpu = dvfs_example\<lparr>dv_initialized := False\<rparr>"

lemma stopped_status: "plugin_get_powercap_status e z (P_Dvfs stopped_cpu []) =
   Some (\<lparr>ds_ok = PC_STATUS_OK, ds_exceed = 0, ds_current_pc = 100, ds_stress = 0, ds_requested = 0\<rparr>, P_Dvfs stopped_cpu [])"
  by (simp add: stopped_cpu_def dvfs_get_powercap_status_def dvfs_example_def)

lemma domain_move_conserves_witness:
  "\<exists>s'. pmgt_powercap_status_per_domain plugins_env CHECK_POWER_RED (moving_example (P_Dvfs stopped_cpu [])) = Some (0, s') \<and> limits_sum s' = 300"
proof -
  have set: "settled (P_Dvfs stopped_cpu [])" "plugin_limit (P_Dvfs stopped_cpu []) = 100" by (simp_all add: stopped_cpu_def settled_def dvfs_example_def)
  note m = moving_example_settled [OF set(1)]
  from example_move [OF stopped_status] obtain s'
    where s': "pmgt_powercap_status_per_domain plugins_env CHECK_POWER_RED (moving_example (P_Dvfs stopped_cpu [])) = Some (0, s')"
    by auto
  have "honest plugins_env (moving_example (P_Dvfs stopped_cpu []))"
    using m stopped_status [of plugins_env zero_domain_status]
    by (auto simp: honest_def status_read_def greedy_gpu_status simp del: plugin_get_powercap_status.simps(2))
  from domain_move_conserves [OF _ example_settled(3) this _ s'] m set(2) s' show ?thesis by auto
qed

text \<open>
  C38. A domain that offers more power than its limit, as the DVFS plugin does when the limit it
  compares with is an older and higher one, is left with a limit near the top of the range of the
  type when the other domain is greedy.
\<close>

theorem overstated_release_lifts_limit:
  assumes "domains_settled s" "answers e" "pg_limit s \<noteq> POWER_CAP_UNLIMITED"
    and "plugin_get_powercap_status e zero_domain_status (pg_plugins s ! DOMAIN_CPU) = Some (st, p)"
    and "plugin_get_powercap_status e zero_domain_status (pg_plugins s ! DOMAIN_GPU) = Some (st', p')"
    and "ds_ok st = PC_STATUS_RELEASE" "ds_ok st' = PC_STATUS_GREEDY" "ds_current_pc st < ds_exceed st"
    and "pmgt_powercap_status_per_domain e CHECK_POWER_RED s = Some (0, s')"
  shows "unat (plugin_limit (pg_plugins s' ! DOMAIN_CPU)) = 2 ^ 32 + unat (plugin_limit (pg_plugins s ! DOMAIN_CPU)) - unat (ds_exceed st)"
  by (rule overstated [OF assms])

definition stale_cpu :: dvfs where
  "stale_cpu = (dvfs_at_request 60)\<lparr>dv_my_limit := 400\<rparr>"

lemma stale_status: "plugin_get_powercap_status plugins_env z (P_Dvfs stale_cpu []) =
   Some (\<lparr>ds_ok = PC_STATUS_RELEASE, ds_exceed = 170, ds_current_pc = 100, ds_stress = 0, ds_requested = 0\<rparr>,
     P_Dvfs (stale_cpu\<lparr>dv_c_freq := [2200000, 2200000, 0, 0], dv_status := PC_STATUS_RELEASE\<rparr>) [])"
proof -
  have "float_to_uint (to_double (to_float (400 - 60) * (1 / 2))) = Some 170"
    by (simp add: float_to_uint_def trunc_word_def fl_numeral)
  then show ?thesis
    by (simp add: dvfs_get_powercap_status_def dvfs_at_request_def stale_cpu_def plugins_env_def Let_def is_null_f_def at_request)
qed

lemma overstated_release_lifts_limit_witness:
  "\<exists>s'. pmgt_powercap_status_per_domain plugins_env CHECK_POWER_RED (moving_example (P_Dvfs stale_cpu [])) = Some (0, s') \<and>
     unat (plugin_limit (pg_plugins s' ! DOMAIN_CPU)) = 2 ^ 32 + 100 - 170"
proof -
  have set: "settled (P_Dvfs stale_cpu [])" "plugin_limit (P_Dvfs stale_cpu []) = 100"
    by (simp_all add: stale_cpu_def dvfs_at_request_def settled_def dvfs_example_def)
  note m = moving_example_settled [OF set(1)]
  from example_move [OF stale_status] obtain s'
    where s': "pmgt_powercap_status_per_domain plugins_env CHECK_POWER_RED (moving_example (P_Dvfs stale_cpu [])) = Some (0, s')" by auto
  have "plugin_get_powercap_status plugins_env zero_domain_status (pg_plugins (moving_example (P_Dvfs stale_cpu [])) ! DOMAIN_CPU) =
      Some (\<lparr>ds_ok = PC_STATUS_RELEASE, ds_exceed = 170, ds_current_pc = 100, ds_stress = 0, ds_requested = 0\<rparr>,
        P_Dvfs (stale_cpu\<lparr>dv_c_freq := [2200000, 2200000, 0, 0], dv_status := PC_STATUS_RELEASE\<rparr>) [])"
    using m stale_status by (simp del: plugin_get_powercap_status.simps(2))
  from overstated_release_lifts_limit [OF _ example_settled(3) _ this _ _ _ _ s'] m set(2) s' show ?thesis
    by (simp add: greedy_gpu_status)
qed

text \<open>
  The power that a node requests for its greedy domains is summed in eight bits before the
  maximum of 255 is applied: two requests of 256 W or more together report 256 W less.
\<close>

theorem node_request_wraps:
  assumes "ds_ok (ds ! DOMAIN_CPU) = PC_STATUS_GREEDY \<or> ds_ok (ds ! DOMAIN_GPU) = PC_STATUS_GREEDY"
    and "ds_ok (ds ! DOMAIN_CPU) \<noteq> PC_STATUS_RELEASE" "ds_ok (ds ! DOMAIN_GPU) \<noteq> PC_STATUS_RELEASE"
    and "256 \<le> unat (ds_requested (ds ! DOMAIN_CPU)) + unat (ds_requested (ds ! DOMAIN_GPU))"
  shows "unat (ps_requested (node_status ds)) = unat (ds_requested (ds ! DOMAIN_CPU)) + unat (ds_requested (ds ! DOMAIN_GPU)) - 256"
  by (rule request_wraps [OF assms])

text \<open>
  A node that draws four times its limit or more has no defined correction: the excess makes
  the share of the node negative, and its product with the limit is converted to an unsigned number.
\<close>

theorem overdraw_correction_undefined:
  assumes "pg_current_mode s \<noteq> PC_MODE_MANUAL" "2 \<le> unat (pg_limit s)" "pc_def_powercap opt \<le> pc_last_t1_allocated opt"
    and "length (pg_pdomains s) = 4" "pg_pdomains s ! DOMAIN_NODE = 1" "4 * unat (pg_limit s) \<le> unat (dp_platform pdomain)"
  shows "pmgt_set_power_per_domain e opt pdomain s = None"
  by (rule overdrawn [OF assms])

end
