(* ===== verification/Node_Limits.thy ===== *)
theory Node_Limits
  imports Node_Powercap Node_Budget
begin

text \<open>
  The powercap of a node in operation: the limits of the domains follow the limit of the node, which
  never exceeds its maximum, through every order of jobs, periods, requests of the cluster manager and
  control threads; and what happens to a limit that the cluster manager has changed.
\<close>

subsection \<open>The manager of the domains as the node uses it\<close>

definition manages :: "u32 \<Rightarrow> pmgt \<Rightarrow> bool" where
  "manages l m \<longleftrightarrow> budget_ok m \<and> pg_current_mode m = PC_MODE_AUTO \<and> pg_limit m = l"

lemma realloc_frame: "reallocate_power_between_domains e m = Some m' \<Longrightarrow> frame m m'"
  using rl.pass_frame [of e domains m m' "pg_limit m"] frame_refl
  by (auto simp: reallocate_power_between_domains_def split: if_splits)

lemma manages_realloc:
  assumes "manages l m" "answers e" "reallocate_power_between_domains e (m\<lparr>pg_pdomains := d\<rparr>) = Some m'" "d = pg_pdomains_def m \<or> d = pg_pdomains_idle m"
  shows "manages l m'"
  using assms default_shares [of m] reallocate_budget [OF _ assms(2,3)] frame_fields(1,2) [OF realloc_frame [OF assms(3)]]
  by (auto simp: manages_def)

lemma manages_set_status [simp]: "manages l m \<Longrightarrow> manages l (pmgt_set_status v m)"
  using set_status_budget [of m v] by (simp add: manages_def pmgt_set_status_def)

lemma manages_simple:
  assumes "manages l m"
  shows "manages l (pmgt_set_pc_mode v m)" "manages l (pmgt_set_app_req_freq e m)"
  using assms set_pc_mode_budget [of m v] set_app_req_freq_budget [of m e]
  by (simp_all add: manages_def pmgt_set_pc_mode_def update_plugins_def pmgt_set_app_req_freq_def Let_def)

lemma manages_jobs:
  assumes "manages l m" "answers e"
  shows "pmgt_new_job e m = Some m' \<Longrightarrow> manages l m'" "pmgt_end_job e m = Some m' \<Longrightarrow> manages l m'"
    "pmgt_idle_to_run e m = Some m' \<Longrightarrow> manages l m'" "pmgt_run_to_idle e m = Some m' \<Longrightarrow> manages l m'"
  using manages_realloc [OF assms]
  by (auto simp: pmgt_new_job_def pmgt_end_job_def pmgt_idle_to_run_def pmgt_run_to_idle_def)

lemma manages_set:
  assumes "manages l m" "answers e" "pmgt_set_powercap_value e n (ucast v) m = Some (r, m')"
  shows "manages v m'"
proof -
  have "unat (ucast v :: u64) < 2 ^ 32" using unsigned_less [of v, where 'a = nat] by (simp add: unat_ucast_up)
  then have "budget_ok m'" using assms set_powercap_budget [of m e n "ucast v" r m'] by (simp add: manages_def)
  moreover obtain m1 where "\<exists>g g'. set_value_loop e n (ucast v) domains g m = Some (g', m1)" "m' = m1\<lparr>pg_limit := ucast (ucast v :: u64)\<rparr>"
    using assms(1,3) by (auto simp: pmgt_set_powercap_value_def manages_def bind_eq_Some_conv)
  moreover from this have "frame m m1" using sv.pass_frame by blast
  ultimately show ?thesis using assms(1) frame_fields(1) [of m m1] by (simp add: manages_def ucast_up_down)
qed

lemma manages_per_domain:
  assumes "manages l m" "answers e" "pmgt_set_power_per_domain e opt p m = Some m'"
  shows "manages l m'"
proof -
  have "budget_ok m'" using assms set_power_per_domain_budget by (auto simp: manages_def)
  moreover have "pg_current_mode m' = pg_current_mode m \<and> pg_limit m' = pg_limit m"
    using assms(3) frame_fields(1,2) [OF realloc_frame]
    by (fastforce simp: pmgt_set_power_per_domain_def pmgt_reset_pdomain_def Let_def split: if_splits)
  ultimately show ?thesis using assms(1) by (simp add: manages_def)
qed

lemma manages_get_status:
  assumes "manages l m" "pmgt_get_status e m = Some (st, m')"
  shows "manages l m'"
proof -
  have "budget_ok m'" using assms get_status_budget by (auto simp: manages_def)
  moreover have "pg_current_mode m' = pg_current_mode m \<and> pg_limit m' = pg_limit m"
    using assms(2) sl.pass_frame [of e domains "m\<lparr>pg_status := replicate 4 zero_domain_status\<rparr>"] frame_fields(1,2)
    by (fastforce simp: pmgt_get_status_def Let_def bind_eq_Some_conv split: if_splits)
  ultimately show ?thesis using assms(1) by (simp add: manages_def)
qed

lemma status_per_domain_keeps:
  assumes "pmgt_powercap_status_per_domain e action m = Some (r, m')"
  shows "pg_current_mode m' = pg_current_mode m \<and> pg_limit m' = pg_limit m"
proof -
  have mv: "pg_current_mode y = pg_current_mode x \<and> pg_limit y = pg_limit x" if "apply_move e mv x = Some y" for mv x y
  proof (cases mv)
    case (Move src dst w)
    have st: "pg_current_mode b = pg_current_mode a \<and> pg_limit b = pg_limit a" if "set_domain e level ls i a = Some (r, b)" for level ls i a b r
      using that by (auto simp: set_domain_Some)
    from that [unfolded Move apply_move.simps Let_def] show ?thesis
      by (auto simp: bind_eq_Some_conv dest!: st split: if_splits)
  qed (use that in simp)
  define z where "z = m\<lparr>pg_status := replicate 4 zero_domain_status\<rparr>"
  have z: "pg_current_mode z = pg_current_mode m" "pg_limit z = pg_limit m" by (simp_all add: z_def)
  have loop: "pg_current_mode y = pg_current_mode m \<and> pg_limit y = pg_limit m" if "status_loop e domains z = Some y" for y
    using sl.pass_frame [OF that] frame_fields(1,2) [of z y] z by simp
  have dflt: "pg_current_mode (pmgt_set_default_powercap e y) = pg_current_mode y" "pg_limit (pmgt_set_default_powercap e y) = pg_limit y" for y
    by (simp_all add: pmgt_set_default_powercap_def update_plugins_def)
  from assms z show ?thesis
    unfolding pmgt_powercap_status_per_domain_def Let_def z_def [symmetric]
    by (auto simp: bind_eq_Some_conv dflt dest!: loop dest: mv split: if_splits option.splits)
qed

lemma util_keeps:
  "read_utilization load samples x = Some y \<Longrightarrow> pg_current_mode y = pg_current_mode x \<and> pg_limit y = pg_limit x"
  "pg_current_mode (snd (pmgt_utilization_changed x)) = pg_current_mode x" "pg_limit (snd (pmgt_utilization_changed x)) = pg_limit x"
  "pg_current_mode (pmgt_powercap_node_reallocation e x) = pg_current_mode x" "pg_limit (pmgt_powercap_node_reallocation e x) = pg_limit x"
  by (auto simp: read_utilization_def pmgt_utilization_changed_def pmgt_powercap_node_reallocation_def Let_def split: if_splits)

lemma detect_keeps:
  assumes "util_detect_main e load samples m = Some m'"
  shows "pg_current_mode m' = pg_current_mode m \<and> pg_limit m' = pg_limit m"
proof (cases "pg_current_mode m = PC_MODE_MANUAL")
  case False
  with assms obtain r s1 where s1: "pmgt_powercap_status_per_domain e CHECK_ASK_DEFAULT (m\<lparr>pg_util_period := pg_util_period m + 500\<rparr>) = Some (r, s1)"
    and rest: "(if r = 0 \<and> pg_util_period s1 mod 1000 = 0
        then do {
          s \<leftarrow> read_utilization load samples (s1\<lparr>pg_util_period := 0\<rparr>);
          (r, s) \<leftarrow> pmgt_powercap_status_per_domain e CHECK_POWER_RED s;
          let (changed, s) = pmgt_utilization_changed s;
          let s = (if changed then pmgt_powercap_node_reallocation e s else s);
          Some (s\<lparr>pg_last_dom_util := pg_dom_util s\<rparr>)
        } else Some s1) = Some m'"
    by (auto simp: util_detect_main_def bind_eq_Some_conv Let_def)
  have k1: "pg_current_mode s1 = pg_current_mode m" "pg_limit s1 = pg_limit m" using status_per_domain_keeps [OF s1] by simp_all
  show ?thesis
  proof (cases "r = 0 \<and> pg_util_period s1 mod 1000 = 0")
    case True
    with rest obtain s2 r3 s3 where s2: "read_utilization load samples (s1\<lparr>pg_util_period := 0\<rparr>) = Some s2"
      and s3: "pmgt_powercap_status_per_domain e CHECK_POWER_RED s2 = Some (r3, s3)"
      and m': "pg_current_mode m' = pg_current_mode s3" "pg_limit m' = pg_limit s3"
      using util_keeps(2-5) by (auto simp: bind_eq_Some_conv Let_def case_prod_beta)
    then show ?thesis using util_keeps(1) [OF s2] status_per_domain_keeps [OF s3] k1 by simp
  qed (use rest k1 in auto)
qed (use assms in \<open>simp add: util_detect_main_def\<close>)

lemma manages_detect:
  assumes "manages l m" "answers e" "honest_detection e (m\<lparr>pg_util_period := pg_util_period m + 500\<rparr>)" "util_detect_main e load samples m = Some m'"
  shows "manages l m'"
  using detect_budget [OF _ assms(2-4)] detect_keeps [OF assms(4)] assms(1) by (simp add: manages_def)

lemma manages_thread: "manages l m \<Longrightarrow> plugin_thread (pg_plugins m ! i) p \<Longrightarrow> manages l (m\<lparr>pg_plugins := (pg_plugins m)[i := p]\<rparr>)"
  by (simp add: manages_def thread_budget)

subsection \<open>Setting the limit of the node\<close>

definition clipped :: "node_pc \<Rightarrow> u32 \<Rightarrow> u32" where
  "clipped s v = (if np_max_powercap s > 1 then ear_min v (np_max_powercap s) else v)"

definition node_inv :: "node_pc \<Rightarrow> bool" where
  "node_inv s \<longleftrightarrow> manages (pc_current_pc (np_opt s)) (np_pmgt s) \<and>
     (np_max_powercap s > 1 \<longrightarrow> pc_current_pc (np_opt s) \<le> np_max_powercap s)"

text \<open>What no operation of a node changes.\<close>

definition same_node :: "node_pc \<Rightarrow> node_pc \<Rightarrow> bool" where
  "same_node s s' \<longleftrightarrow> np_max_powercap s' = np_max_powercap s \<and> np_powercap_def s' = np_powercap_def s \<and>
     np_num_contexts s' = np_num_contexts s \<and> np_max_context s' = np_max_context s \<and> np_ip s' = np_ip s \<and>
     map (\<lambda>c. c = None) (np_contexts s') = map (\<lambda>c. c = None) (np_contexts s)"

lemma same_node_refl: "same_node s s"
  by (simp add: same_node_def)

lemma same_node_trans: "same_node s s1 \<Longrightarrow> same_node s1 s2 \<Longrightarrow> same_node s s2"
  by (simp add: same_node_def)

lemma set_node_limit_cases:
  assumes "set_node_limit e v s = Some s'"
  obtains "clipped s v = pc_current_pc (np_opt s)"
      "s' = with_opt (\<lambda>opt. opt\<lparr>pc_def_powercap := clipped s v, pc_last_t1_allocated := clipped s v\<rparr>) s"
  | cs m where "map (\<lambda>c. c = None) cs = map (\<lambda>c. c = None) (np_contexts s)"
      "s' = s\<lparr>np_opt := (np_opt s)\<lparr>pc_def_powercap := clipped s v, pc_last_t1_allocated := clipped s v, pc_current_pc := clipped s v\<rparr>,
         np_contexts := cs, np_pmgt := m\<rparr>"
      "if pg_current_mode (pmgt_set_app_req_freq e (np_pmgt s)) = PC_MODE_AUTO
       then \<exists>r. pmgt_set_powercap_value e (np_num_contexts s) (ucast (clipped s v)) (pmgt_set_app_req_freq e (np_pmgt s)) = Some (r, m)
       else m = pmgt_set_app_req_freq e (np_pmgt s)"
proof -
  define l where "l = clipped s v"
  define s1 where "s1 = s\<lparr>np_opt := (np_opt s)\<lparr>pc_def_powercap := l, pc_last_t1_allocated := l, pc_current_pc := l\<rparr>\<rparr>"
  define s2 where "s2 = update_node_powercap_opt_shared_info s1"
  define cs where "cs = map (\<lambda>i. if 1 \<le> i \<and> i \<le> np_max_context s
      then map_option (\<lambda>c. c\<lparr>sp_pc_opt := (sp_pc_opt c)\<lparr>pc_current_pc := l\<rparr>\<rparr>) (np_contexts s2 ! i) else np_contexts s2 ! i) [0..<length (np_contexts s2)]"
  have "map (\<lambda>c. c = None) (np_contexts s2) = map (\<lambda>c. c = None) (np_contexts s)"
    by (rule nth_equalityI) (simp_all add: s2_def update_node_powercap_opt_shared_info_def s1_def)
  moreover have "map (\<lambda>c. c = None) cs = map (\<lambda>c. c = None) (np_contexts s2)" by (rule nth_equalityI) (simp_all add: cs_def)
  ultimately have cs: "map (\<lambda>c. c = None) cs = map (\<lambda>c. c = None) (np_contexts s)" by simp
  have s2: "s2 = s1\<lparr>np_contexts := np_contexts s2\<rparr>" by (simp add: s2_def update_node_powercap_opt_shared_info_def)
  define m1 where "m1 = pmgt_set_app_req_freq e (np_pmgt s)"
  have run: "set_node_limit e v s = (if l = pc_current_pc (np_opt s)
      then Some (with_opt (\<lambda>opt. opt\<lparr>pc_def_powercap := l, pc_last_t1_allocated := l\<rparr>) s)
      else if pg_current_mode m1 = PC_MODE_AUTO
      then map_option (\<lambda>(r, m). s1\<lparr>np_contexts := cs, np_pmgt := m\<rparr>) (pmgt_set_powercap_value e (np_num_contexts s) (ucast l) m1)
      else Some (s1\<lparr>np_contexts := cs, np_pmgt := m1\<rparr>))"
    by (cases "pmgt_set_powercap_value e (np_num_contexts s) (ucast l) m1")
      (auto simp: set_node_limit_def set_powercap_value_def clipped_def [symmetric] l_def [symmetric] with_opt_def Let_def m1_def cs_def s2_def
        update_node_powercap_opt_shared_info_def s1_def powercap_get_value_def option.map_comp comp_def case_prod_beta)
  show ?thesis
  proof (cases "l = pc_current_pc (np_opt s)")
    case True
    then show ?thesis using that(1) assms run by (simp add: l_def)
  next
    case False
    then obtain m where "s' = s1\<lparr>np_contexts := cs, np_pmgt := m\<rparr>"
      "if pg_current_mode m1 = PC_MODE_AUTO then \<exists>r. pmgt_set_powercap_value e (np_num_contexts s) (ucast l) m1 = Some (r, m) else m = m1"
      using assms run by (auto split: if_splits)
    then show ?thesis unfolding s1_def l_def m1_def by (rule that(2) [OF cs])
  qed
qed

lemma set_node_limit_Some:
  assumes "set_node_limit e v s = Some s'"
  shows "same_node s s'" "np_opt s' = (np_opt s)\<lparr>pc_def_powercap := clipped s v, pc_last_t1_allocated := clipped s v, pc_current_pc := clipped s v\<rparr>"
    "np_last_cluster_perc s' = np_last_cluster_perc s" "np_events s' = np_events s"
  using assms by (rule set_node_limit_cases; simp add: with_opt_def same_node_def)+

lemma clipped_le: "np_max_powercap s > 1 \<Longrightarrow> clipped s v \<le> np_max_powercap s"
  by (simp add: clipped_def ear_min_def less_imp_le)

lemma set_node_limit_inv:
  assumes "set_node_limit e v s = Some s'" "answers e" "node_inv s"
  shows "node_inv s'"
  using assms(1)
proof (rule set_node_limit_cases)
  fix cs m
  assume s': "s' = s\<lparr>np_opt := (np_opt s)\<lparr>pc_def_powercap := clipped s v, pc_last_t1_allocated := clipped s v, pc_current_pc := clipped s v\<rparr>,
      np_contexts := cs, np_pmgt := m\<rparr>"
    and m: "if pg_current_mode (pmgt_set_app_req_freq e (np_pmgt s)) = PC_MODE_AUTO
       then \<exists>r. pmgt_set_powercap_value e (np_num_contexts s) (ucast (clipped s v)) (pmgt_set_app_req_freq e (np_pmgt s)) = Some (r, m)
       else m = pmgt_set_app_req_freq e (np_pmgt s)"
  have k: "manages (pc_current_pc (np_opt s)) (pmgt_set_app_req_freq e (np_pmgt s))" using assms(3) by (simp add: node_inv_def manages_simple)
  then obtain r where r: "pmgt_set_powercap_value e (np_num_contexts s) (ucast (clipped s v)) (pmgt_set_app_req_freq e (np_pmgt s)) = Some (r, m)"
    using m by (auto simp: manages_def)
  show ?thesis using manages_set [OF k assms(2) r] clipped_le [of s v] by (simp add: node_inv_def s')
qed (use assms(3) clipped_le [of s v] in \<open>simp add: node_inv_def with_opt_def\<close>)

subsection \<open>Operations\<close>

lemma with_opt_simps [simp]:
  "np_opt (with_opt f s) = f (np_opt s)" "np_pmgt (with_opt f s) = np_pmgt s" "np_max_powercap (with_opt f s) = np_max_powercap s"
  "np_last_cluster_perc (with_opt f s) = np_last_cluster_perc s" "same_node (with_opt f s) s' = same_node s s'" "same_node s' (with_opt f s) = same_node s' s"
  "clipped (with_opt f s) v = clipped s v"
  by (simp_all add: with_opt_def same_node_def clipped_def)

lemma node_inv_with_opt: "pc_current_pc (f (np_opt s)) = pc_current_pc (np_opt s) \<Longrightarrow> node_inv (with_opt f s) = node_inv s"
  by (simp add: node_inv_def)

lemma node_inv_pmgt: "manages (pc_current_pc (np_opt s)) m \<Longrightarrow> node_inv s \<Longrightarrow> node_inv (s\<lparr>np_pmgt := m\<rparr>)"
  by (simp add: node_inv_def)

lemma report_event_inv: "powermon_report_event ev v s = Some s' \<Longrightarrow> node_inv s' = node_inv s \<and> same_node s s' \<and> np_opt s' = np_opt s"
  by (auto simp: powermon_report_event_def node_inv_def same_node_def split: option.splits)

lemma with_opt_twice: "with_opt f (with_opt g s) = with_opt (\<lambda>opt. f (g opt)) s"
  by (simp add: with_opt_def)

lemma set_with_opt:
  assumes "set_node_limit e v (with_opt f s) = Some s'" "answers e" "node_inv s" "pc_current_pc (f (np_opt s)) = pc_current_pc (np_opt s)"
  shows "node_inv s' \<and> same_node s s'"
  using set_node_limit_inv [OF assms(1,2)] set_node_limit_Some(1) [OF assms(1)] assms(3,4) by (simp add: node_inv_with_opt)

text \<open>A new limit, after a change of the options that leaves the current limit.\<close>

definition limit_change :: "plugin_env \<Rightarrow> node_pc \<Rightarrow> node_pc \<Rightarrow> bool" where
  "limit_change e s s' \<longleftrightarrow> s' = s \<or> (\<exists>v f. set_node_limit e v (with_opt f s) = Some s' \<and> pc_current_pc (f (np_opt s)) = pc_current_pc (np_opt s))"

lemma limit_changeI:
  "set_node_limit e v (with_opt f s) = Some s' \<Longrightarrow> pc_current_pc (f (np_opt s)) = pc_current_pc (np_opt s) \<Longrightarrow> limit_change e s s'"
  "limit_change e s s"
  by (auto simp: limit_change_def)

lemma limit_change_inv: "limit_change e s s' \<Longrightarrow> answers e \<Longrightarrow> node_inv s \<Longrightarrow> node_inv s' \<and> same_node s s'"
  using set_with_opt [of e _ _ s s'] same_node_refl by (auto simp: limit_change_def)

lemma limit_changes:
  "powercap_reset_default_power e s = Some s' \<Longrightarrow> limit_change e s s'"
  "idle_to_run_switch e s = Some s' \<Longrightarrow> limit_change e s s'"
  "run_to_idle_switch e s = Some s' \<Longrightarrow> limit_change e s s'"
  "apply_extra e extra s = Some s' \<Longrightarrow> limit_change e s s'"
  unfolding powercap_reset_default_power_def idle_to_run_switch_def run_to_idle_switch_def apply_extra_def Let_def with_opt_twice
  by (auto simp: limit_changeI(2) elim!: limit_changeI(1) split: if_splits)

lemmas limit_changes_inv = limit_changes [THEN limit_change_inv]

lemma idle_to_run_inv:
  assumes "powercap_idle_to_run e s = Some s'" "answers e" "node_inv s"
  shows "node_inv s' \<and> same_node s s'"
proof (cases "\<not> is_powercap_on (np_opt s) \<or> is_powercap_unlimited s")
  case False
  define s0 where "s0 = s\<lparr>np_pmgt := pmgt_set_status PC_STATUS_RUN (np_pmgt s), np_last_status := PC_STATUS_IDLE\<rparr>"
  have "node_inv s0" using assms(3) by (simp add: node_inv_def s0_def)
  moreover obtain s1 m where "idle_to_run_switch e s0 = Some s1" "pmgt_idle_to_run e (np_pmgt s1) = Some m" "s' = s1\<lparr>np_pmgt := m\<rparr>"
    using assms(1) False by (auto simp: powercap_idle_to_run_def Let_def bind_eq_Some_conv s0_def)
  ultimately show ?thesis
    using limit_changes_inv(2) [OF _ assms(2), of s0 s1] manages_jobs(3) [OF _ assms(2), of _ "np_pmgt s1" m] by (auto simp: node_inv_def same_node_def s0_def)
next
  case True
  then have "s' = s" using assms(1) by (simp add: powercap_idle_to_run_def split: if_splits)
  then show ?thesis using assms(3) same_node_refl by simp
qed

lemma run_to_idle_inv:
  assumes "powercap_run_to_idle e s = Some s'" "answers e" "node_inv s"
  shows "node_inv s' \<and> same_node s s'"
proof (cases "\<not> is_powercap_on (np_opt s) \<or> is_powercap_unlimited s")
  case False
  then obtain s1 m where s1: "run_to_idle_switch e s = Some s1" "pmgt_run_to_idle e (pmgt_set_status PC_STATUS_IDLE (np_pmgt s1)) = Some m"
    and s': "(if np_last_cluster_perc s1 > MAX_PERC_POWER then powercap_reset_default_power e (s1\<lparr>np_pmgt := m\<rparr>) else Some (s1\<lparr>np_pmgt := m\<rparr>)) = Some s'"
    using assms(1) by (auto simp: powercap_run_to_idle_def Let_def bind_eq_Some_conv)
  have k: "node_inv s1" "same_node s s1" using limit_changes_inv(3) [OF s1(1) assms(2,3)] by simp_all
  then have "node_inv (s1\<lparr>np_pmgt := m\<rparr>)" "same_node s (s1\<lparr>np_pmgt := m\<rparr>)"
    using manages_jobs(4) [OF _ assms(2) s1(2), of "pc_current_pc (np_opt s1)"] by (auto simp: node_inv_def same_node_def)
  then show ?thesis using s' limit_changes_inv(1) [OF _ assms(2)] same_node_trans by (auto split: if_splits)
next
  case True
  then have "s' = s" using assms(1) by (simp add: powercap_run_to_idle_def split: if_splits)
  then show ?thesis using assms(3) same_node_refl by simp
qed

lemma per_domain_inv:
  assumes "powercap_set_power_per_domain e cp s = Some s'" "answers e" "node_inv s"
  shows "node_inv s' \<and> same_node s s'"
proof -
  have k: "manages (pc_current_pc (np_opt s)) (np_pmgt s)" "pg_current_mode (np_pmgt s) = PC_MODE_AUTO"
    using assms(3) by (auto simp: node_inv_def manages_def)
  show ?thesis
  proof (cases "is_powercap_on (np_opt s)")
    case True
    then obtain m where m: "pmgt_set_power_per_domain e (np_opt s) cp (np_pmgt s) = Some m"
      and s': "s' = powercap_set_app_req_freq e (s\<lparr>np_current_power := dp_platform cp, np_pmgt := m\<rparr>)"
      using assms(1) k(2) by (auto simp: powercap_set_power_per_domain_def Let_def bind_eq_Some_conv)
    have "manages (pc_current_pc (np_opt s)) (pmgt_set_app_req_freq e m)" using manages_simple(2) manages_per_domain [OF k(1) assms(2) m] by blast
    then show ?thesis using assms(3) by (simp add: s' powercap_set_app_req_freq_def node_inv_def same_node_def)
  next
    case False
    then have "s' = s\<lparr>np_current_power := dp_platform cp\<rparr>" using assms(1) by (simp add: powercap_set_power_per_domain_def Let_def)
    then show ?thesis using assms(3) by (simp add: node_inv_def same_node_def)
  qed
qed

lemma release_power_inv:
  assumes "powercap_release_power e s = Some s'" "answers e" "manages l (np_pmgt s)" "np_max_powercap s > 1 \<longrightarrow> pc_current_pc (np_opt s) \<le> np_max_powercap s"
  shows "node_inv s' \<and> same_node s s'"
proof -
  define s0 where "s0 = with_opt (\<lambda>opt. opt\<lparr>pc_powercap_status := PC_STATUS_OK, pc_released := 0, pc_last_t1_allocated := pc_current_pc opt\<rparr>) s"
  have "pg_current_mode (np_pmgt s0) = PC_MODE_AUTO" using assms(3) by (simp add: s0_def manages_def)
  then obtain r m where m: "pmgt_set_powercap_value e (np_num_contexts s0) (ucast (pc_current_pc (np_opt s0))) (np_pmgt s) = Some (r, m)"
    and s': "s' = s0\<lparr>np_pmgt := m\<rparr>"
    using assms(1) by (auto simp: powercap_release_power_def bind_eq_Some_conv s0_def [symmetric] Let_def) (simp add: s0_def)
  have "same_node s s0" by (simp add: s0_def same_node_refl)
  then show ?thesis using manages_set [OF assms(3,2) m] assms(4) by (simp add: s' node_inv_def s0_def same_node_def with_opt_def)
qed

text \<open>The domains of the node do not offer more power than the node has.\<close>

definition modest :: "plugin_env \<Rightarrow> node_pc \<Rightarrow> bool" where
  "modest e s \<longleftrightarrow> (\<forall>st m. pmgt_get_status e (np_pmgt s) = Some (st, m) \<longrightarrow> ps_tbr st \<le> pc_current_pc (np_opt s))"

lemma running_status_inv:
  assumes "running_status e release my_status status s = Some (my', st', s')" "answers e" "node_inv s" "ps_tbr status \<le> pc_current_pc (np_opt s)"
  shows "node_inv s' \<and> same_node s s'"
proof -
  define st where "st = (if pc_last_t1_allocated (np_opt s) < pc_def_powercap (np_opt s) then status\<lparr>ps_status := PC_STATUS_ASK_DEF\<rparr> else status)"
  define s1 where "s1 = with_opt (\<lambda>opt. opt\<lparr>pc_powercap_status := ps_status st\<rparr>) s"
  have s1: "node_inv s1" "same_node s s1" using assms(3) by (simp_all add: s1_def node_inv_with_opt same_node_refl)
  show ?thesis
  proof (cases "ps_status st = PC_STATUS_RELEASE")
    case False
    then have "s' = s1"
      using assms(1) unfolding running_status_def st_def [symmetric] s1_def [symmetric] Let_def by (auto split: if_splits)
    then show ?thesis using s1 by simp
  next
    case True
    define s2 where "s2 = (if release
      then with_opt (\<lambda>opt. opt\<lparr>pc_released := ps_tbr st, pc_current_pc := pc_current_pc opt - ps_tbr st\<rparr>) s1 else s1)"
    have run: "powercap_release_power e s2 = Some s'"
      using assms(1) True unfolding running_status_def st_def [symmetric] s1_def [symmetric] Let_def by (auto simp: bind_eq_Some_conv s2_def)
    have "ps_tbr st = ps_tbr status" by (simp add: st_def)
    then have le: "pc_current_pc (np_opt s2) \<le> pc_current_pc (np_opt s1)"
      using assms(4) by (auto simp: s2_def s1_def word_le_nat_alt unat_dist)
    have s2: "same_node s1 s2" "np_max_powercap s2 = np_max_powercap s1" by (simp_all add: s2_def same_node_refl)
    have mg: "manages (pc_current_pc (np_opt s1)) (np_pmgt s2)" using s1(1) by (simp add: node_inv_def s2_def)
    have "np_max_powercap s2 > 1 \<longrightarrow> pc_current_pc (np_opt s2) \<le> np_max_powercap s2" using s1(1) s2(2) le by (auto simp: node_inv_def)
    from release_power_inv [OF run assms(2) mg this] show ?thesis using s1(2) s2(1) same_node_trans by blast
  qed
qed

lemma get_status_inv:
  assumes "powercap_get_status e watts release my_status status s = Some (my', st', s')" "answers e" "node_inv s" "modest e s"
  shows "node_inv s' \<and> same_node s s'"
proof (cases "pc_powercap_status (np_opt s) = PC_STATUS_IDLE")
  case True
  then obtain v where "powermon_report_event POWERCAP_VALUE v s = Some s'"
    using assms(1) by (auto simp: powercap_get_status_def Let_def bind_eq_Some_conv)
  then show ?thesis using report_event_inv assms(3) by blast
next
  case False
  then obtain st m my1 st1 s1 v where m: "pmgt_get_status e (np_pmgt s) = Some (st, m)"
    and s1: "running_status e release (my_status\<lparr>cs_total_nodes := cs_total_nodes my_status + 1\<rparr>) st (s\<lparr>np_pmgt := m\<rparr>) = Some (my1, st1, s1)"
    and s': "powermon_report_event POWERCAP_VALUE v s1 = Some s'"
    using assms(1) by (auto simp: powercap_get_status_def Let_def bind_eq_Some_conv)
  have "node_inv (s\<lparr>np_pmgt := m\<rparr>)" using assms(3) manages_get_status [OF _ m] by (simp add: node_inv_def)
  moreover have "ps_tbr st \<le> pc_current_pc (np_opt (s\<lparr>np_pmgt := m\<rparr>))" using assms(4) m by (simp add: modest_def)
  ultimately have "node_inv s1 \<and> same_node s s1" using running_status_inv [OF s1 assms(2)] by (simp add: same_node_def)
  then show ?thesis using report_event_inv [OF s'] same_node_trans by blast
qed

lemma set_opt_inv:
  assumes "powercap_set_opt e options idx s = Some s'" "answers e" "node_inv s"
  shows "node_inv s' \<and> same_node s s'"
proof -
  define s0 where "s0 = with_opt (\<lambda>opt. opt\<lparr>pc_cluster_perc_power := ucast (po_cluster_perc_power options)\<rparr>)
    (s\<lparr>np_last_cluster_perc := po_cluster_perc_power options\<rparr>)"
  have s0: "node_inv s0" "same_node s s0" using assms(3) by (simp_all add: s0_def node_inv_def same_node_def with_opt_def)
  define g where "g = (\<lambda>opt :: node_powercap_opt. opt\<lparr>pc_powercap_status := PC_STATUS_OK, pc_requested := 0\<rparr>)"
  define h where "h = (\<lambda>opt :: node_powercap_opt. opt\<lparr>pc_powercap_status := PC_STATUS_OK, pc_last_t1_allocated := pc_def_powercap opt, pc_requested := 0\<rparr>)"
  let ?x = "po_extra_power options ! nat idx"
  have ev: "node_inv y' \<and> same_node s y'" if "powermon_report_event ev v y = Some y'" "node_inv y" "same_node s y" for ev v y y'
    using report_event_inv [OF that(1)] that(2,3) same_node_trans by blast
  have ex: "node_inv y \<and> same_node s y" if "apply_extra e ?x s0 = Some y" for y
    using limit_changes_inv(4) [OF that assms(2) s0(1)] s0(2) same_node_trans by blast
  have df: "node_inv y \<and> same_node s y" if "set_node_limit e v (with_opt h s0) = Some y" for v y
    using set_with_opt [OF that assms(2) s0(1)] s0(2) same_node_trans by (auto simp: h_def)
  have g: "node_inv (with_opt g y) = node_inv y" for y by (simp add: g_def node_inv_with_opt)
  from assms(1) show ?thesis
    unfolding powercap_set_opt_def Let_def s0_def [symmetric] g_def [symmetric] h_def [symmetric]
    using s0 assms(3) same_node_refl
    by (auto simp: bind_eq_Some_conv g split: if_splits dest!: ex df dest: ev)
qed

lemma release_idle_inv:
  assumes "powercap_release_idle_power rel s = Some (rel', s')" "node_inv s"
  shows "node_inv s' \<and> same_node s s'"
  using assms by (auto simp: powercap_release_idle_power_def Let_def node_inv_with_opt split: if_splits dest!: report_event_inv)

lemma command_inv:
  assumes "dyncon_power_management e cmd s = Some s'" "answers e" "node_inv s"
  shows "node_inv s' \<and> same_node s s'"
proof (cases cmd)
  case (Red_Power limit type)
  have "node_inv (powercap_reduce_def_power w s) \<and> same_node s (powercap_reduce_def_power w s)" for w
    using assms(3) by (simp add: powercap_reduce_def_power_def node_inv_with_opt same_node_refl)
  then show ?thesis using assms(1,3) Red_Power report_event_inv same_node_trans same_node_refl by (fastforce split: if_splits)
next
  case (Inc_Power limit type)
  have "node_inv (powercap_increase_def_power w s) \<and> same_node s (powercap_increase_def_power w s)" for w
    using assms(3) by (simp add: powercap_increase_def_power_def node_inv_with_opt same_node_refl)
  then show ?thesis using assms(1,3) Inc_Power report_event_inv same_node_trans same_node_refl by (fastforce split: if_splits)
next
  case (Set_Power limit)
  then obtain s1 where s1: "set_node_limit e (ucast limit) s = Some s1" and s': "powermon_report_event SET_POWERCAP limit s1 = Some s'"
    using assms(1) by (auto simp: powercap_set_powercap_def bind_eq_Some_conv)
  then show ?thesis using set_node_limit_inv [OF s1 assms(2,3)] set_node_limit_Some(1) [OF s1] report_event_inv [OF s'] same_node_trans by blast
next
  case Def_Powercap
  then obtain s1 where s1: "powercap_reset_default_power e s = Some s1" and s': "powermon_report_event RESET_POWERCAP 0 s1 = Some s'"
    using assms(1) by (auto simp: bind_eq_Some_conv)
  then show ?thesis using limit_changes_inv(1) [OF s1 assms(2,3)] report_event_inv [OF s'] same_node_trans by blast
next
  case (Set_Powercap_Opt options)
  then show ?thesis using assms set_opt_inv by simp
qed (use assms same_node_refl in simp)

subsection \<open>The node in operation\<close>

text \<open>
  The events of a node, in any order: its jobs, its periods, the requests of the cluster manager, the
  detection and the control threads of the manager of its domains, and the contexts that the power
  monitor creates and removes.
\<close>

inductive node_step :: "node_pc \<Rightarrow> node_pc \<Rightarrow> bool" where
  "answers e \<Longrightarrow> powercap_idle_to_run e s = Some s' \<Longrightarrow> node_step s s'"
| "answers e \<Longrightarrow> powercap_run_to_idle e s = Some s' \<Longrightarrow> node_step s s'"
| "answers e \<Longrightarrow> powercap_new_job e s = Some s' \<Longrightarrow> node_step s s'"
| "answers e \<Longrightarrow> powercap_end_job e s = Some s' \<Longrightarrow> node_step s s'"
| "answers e \<Longrightarrow> powercap_set_power_per_domain e cp s = Some s' \<Longrightarrow> node_step s s'"
| "node_step s (powercap_set_app_req_freq e s)"
| "answers e \<Longrightarrow> modest e s \<Longrightarrow> dyncon_get_powerstatus e watts release below memory s = Some (st, s') \<Longrightarrow> node_step s s'"
| "powercap_release_idle_power rel s = Some (rel', s') \<Longrightarrow> node_step s s'"
| "answers e \<Longrightarrow> dyncon_power_management e cmd s = Some s' \<Longrightarrow> node_step s s'"
| "answers e \<Longrightarrow> honest_detection e ((np_pmgt s)\<lparr>pg_util_period := pg_util_period (np_pmgt s) + 500\<rparr>) \<Longrightarrow>
   util_detect_main e load samples (np_pmgt s) = Some m \<Longrightarrow> node_step s (s\<lparr>np_pmgt := m\<rparr>)"
| "plugin_thread (pg_plugins (np_pmgt s) ! i) p \<Longrightarrow>
   node_step s (s\<lparr>np_pmgt := (np_pmgt s)\<lparr>pg_plugins := (pg_plugins (np_pmgt s))[i := p]\<rparr>\<rparr>)"
| "node_step s (s\<lparr>np_contexts := cs, np_max_context := k, np_num_contexts := n\<rparr>)"

lemma node_step_inv:
  assumes "node_step s s'" "node_inv s"
  shows "node_inv s' \<and> np_max_powercap s' = np_max_powercap s"
  using assms(1)
proof cases
  case (3 e)
  then show ?thesis using assms(2) manages_jobs(1) by (auto simp: powercap_new_job_def node_inv_def)
next
  case (4 e)
  then show ?thesis using assms(2) manages_jobs(2) by (auto simp: powercap_end_job_def node_inv_def)
next
  case (7 e watts release below memory st)
  then obtain my' st1 where "powercap_get_status e watts release below memory s = Some (my', st1, s')"
    by (auto simp: dyncon_get_powerstatus_def bind_eq_Some_conv)
  then show ?thesis using get_status_inv 7 assms(2) by (auto simp: same_node_def)
next
  case (10 e load samples m)
  then show ?thesis using assms(2) manages_detect by (auto simp: node_inv_def)
next
  case (11 i p)
  then show ?thesis using assms(2) manages_thread by (auto simp: node_inv_def)
next
  case (6 e)
  then show ?thesis using assms(2) manages_simple(2) by (auto simp: node_inv_def powercap_set_app_req_freq_def)
next
  case (12 cs k n)
  then show ?thesis using assms(2) by (simp add: node_inv_def)
qed (use assms(2) idle_to_run_inv run_to_idle_inv per_domain_inv release_idle_inv command_inv in \<open>auto simp: same_node_def\<close>)

lemma node_steps_inv: "node_step\<^sup>*\<^sup>* s s' \<Longrightarrow> node_inv s \<Longrightarrow> node_inv s' \<and> np_max_powercap s' = np_max_powercap s"
  by (induction rule: rtranclp_induct) (auto dest: node_step_inv)

text \<open>Enabling the plugins starts them; it keeps the limits of those that have one.\<close>

definition enables :: "(pmgt \<Rightarrow> state_t \<times> pmgt) \<Rightarrow> bool" where
  "enables f \<longleftrightarrow> (\<forall>m. frame m (snd (f m)) \<and> (domains_settled m \<longrightarrow> domains_settled (snd (f m))))"

lemma distribution_fields:
  "compute_power_distribution bpd_cpu bpd_dram gpu_tdp m = Some m' \<Longrightarrow> pg_current_mode m' = pg_current_mode m \<and> pg_limit m' = pg_limit m"
  by (auto simp: compute_power_distribution_def Let_def bind_eq_Some_conv split: if_splits)

lemma init_fields:
  assumes "pmgt_init opened dummy cpus sockets gpus mode bpd_cpu bpd_dram gpu_tdp = Some (r, m)"
  shows "pg_current_mode m = mode" "pg_limit m = 0"
proof -
  obtain m0 where "pg_current_mode m0 = mode" "pg_limit m0 = 0" "compute_power_distribution bpd_cpu bpd_dram gpu_tdp m0 = Some m"
    using assms by (simp only: pmgt_init_def Let_def bind_eq_Some_conv option.inject prod.inject) (elim exE conjE, rule that, simp_all only: pmgt.simps)
  then show "pg_current_mode m = mode" "pg_limit m = 0" using distribution_fields by auto
qed

lemma powercap_init_inv:
  assumes run: "powercap_init e hw s = Some (EAR_SUCCESS, s')" and e: "answers e" "enables (hw_enable hw)"
    and node: "np_powercap_def s \<noteq> 0" "pg_current_mode (np_pmgt s) = PC_MODE_AUTO" "\<not> hw_gpu_dummy hw"
    and plugins: "hw_opened hw ! DOMAIN_NODE = P_Null" "hw_opened hw ! DOMAIN_CPU = P_Dvfs d w" "settled (hw_opened hw ! DOMAIN_CPU)" "settled (hw_opened hw ! DOMAIN_GPU)"
    and size: "hw_sockets hw < 2 ^ 16" "hw_gpus hw < 2 ^ 16" "100 \<le> (unat (hw_bpd_cpu hw) + unat (hw_bpd_dram hw)) * hw_sockets hw"
      "(unat (hw_bpd_cpu hw) + unat (hw_bpd_dram hw)) * hw_sockets hw + unat (hw_gpu_tdp hw) * hw_gpus hw < 2 ^ 22"
  shows "node_inv s'" "np_max_powercap s' = np_max_powercap s"
proof -
  define s0 where "s0 = with_opt (set_default_node_powercap_opt (np_powercap_def s) (np_max_powercap s)) s"
  have s0: "np_powercap_def s0 = np_powercap_def s" "np_pmgt s0 = np_pmgt s" "np_max_powercap s0 = np_max_powercap s" "pc_current_pc (np_opt s0) = 0"
    by (simp_all add: s0_def with_opt_def set_default_node_powercap_opt_def)
  have err: "EAR_ERROR \<noteq> EAR_SUCCESS" by simp
  define i where "i = pmgt_init (hw_opened hw) False (hw_cpus hw) (hw_sockets hw) (hw_gpus hw) PC_MODE_AUTO (hw_bpd_cpu hw) (hw_bpd_dram hw) (hw_gpu_tdp hw)"
  have "powercap_init e hw s = (case i of None \<Rightarrow> None
      | Some (ret, m) \<Rightarrow>
          if ret \<noteq> EAR_SUCCESS then Some (EAR_ERROR, s0\<lparr>np_pmgt := m\<rparr>)
          else if \<not> hw_handler hw then Some (EAR_ERROR, s0\<lparr>np_pmgt := m\<rparr>)
          else if fst (hw_enable hw m) \<noteq> EAR_SUCCESS then Some (EAR_ERROR, s0\<lparr>np_pmgt := snd (hw_enable hw m)\<rparr>)
          else map_option (Pair EAR_SUCCESS) (powercap_started e (s0\<lparr>np_pmgt := snd (hw_enable hw m)\<rparr>)))"
    using node by (simp only: powercap_init_def s0_def [symmetric] Let_def s0 i_def if_False HOL.simp_thms)
  with run err obtain r m where m: "pmgt_init (hw_opened hw) False (hw_cpus hw) (hw_sockets hw) (hw_gpus hw)
      PC_MODE_AUTO (hw_bpd_cpu hw) (hw_bpd_dram hw) (hw_gpu_tdp hw) = Some (r, m)"
    and rest: "powercap_started e (s0\<lparr>np_pmgt := snd (hw_enable hw m)\<rparr>) = Some s'"
    unfolding i_def [symmetric] by (cases i) (auto split: if_splits)
  have b: "budget_ok m" using init_budget [OF m plugins size] .
  define m1 where "m1 = snd (hw_enable hw m)"
  have fr: "frame m m1" "domains_settled m1" using e(2) b by (simp_all add: enables_def m1_def budget_ok_def)
  have "budget_ok m1" using b init_fields(2) [OF m] frame_fields(2) [OF fr(1)] frame_shares [OF fr(1)] fr(2)
    by (simp add: budget_ok_def within_budget_def)
  then have mg: "manages 0 (pmgt_set_pc_mode PC_MODE_TARGET m1)"
    using manages_simple(1) init_fields [OF m] frame_fields(1,2) [OF fr(1)] by (simp add: manages_def)
  define s1 where "s1 = (with_opt (\<lambda>opt. opt\<lparr>pc_powercap_status := PC_STATUS_IDLE\<rparr>) (s0\<lparr>np_last_status := PC_STATUS_IDLE\<rparr>))
    \<lparr>np_pmgt := pmgt_set_pc_mode PC_MODE_TARGET m1\<rparr>"
  obtain v s2 where s2: "set_node_limit e v s1 = Some s2" and s': "s' = update_node_powercap_opt_shared_info s2"
    using rest by (auto simp: powercap_started_def Let_def s1_def m1_def with_opt_def)
  have "node_inv s1" using mg s0(4) by (simp add: node_inv_def s1_def)
  then have "node_inv s2" "np_max_powercap s2 = np_max_powercap s" using set_node_limit_inv [OF s2 e(1)] set_node_limit_Some(1) [OF s2] s0(3) by (simp_all add: same_node_def s1_def)
  then show "node_inv s'" "np_max_powercap s' = np_max_powercap s"
    by (simp_all add: s' update_node_powercap_opt_shared_info_def node_inv_def)
qed

text \<open>
  C6. From its start on, through every order of its events, the limit of a node never exceeds the
  maximum of its configuration, and the limits of its CPU and GPU domains never add up to more than
  the limit of the node.  The events are restricted in two ways, without which the limit can be
  exceeded: a status is taken only while the domains offer to release no more than the current limit
  of the node (\<open>modest\<close>), and the detection moves power only while neither domain offers more than it
  has (\<open>honest_detection\<close>).
\<close>

theorem node_limit_respected:
  assumes "powercap_init e hw s = Some (EAR_SUCCESS, s1)" and "answers e" "enables (hw_enable hw)"
    and "np_powercap_def s \<noteq> 0" "pg_current_mode (np_pmgt s) = PC_MODE_AUTO" "\<not> hw_gpu_dummy hw"
    and "hw_opened hw ! DOMAIN_NODE = P_Null" "hw_opened hw ! DOMAIN_CPU = P_Dvfs d w" "settled (hw_opened hw ! DOMAIN_CPU)" "settled (hw_opened hw ! DOMAIN_GPU)"
    and "hw_sockets hw < 2 ^ 16" "hw_gpus hw < 2 ^ 16" "100 \<le> (unat (hw_bpd_cpu hw) + unat (hw_bpd_dram hw)) * hw_sockets hw"
      "(unat (hw_bpd_cpu hw) + unat (hw_bpd_dram hw)) * hw_sockets hw + unat (hw_gpu_tdp hw) * hw_gpus hw < 2 ^ 22"
    and "node_step\<^sup>*\<^sup>* s1 s2"
  shows "(1 < np_max_powercap s \<longrightarrow> powercap_get_value s2 \<le> np_max_powercap s) \<and>
    (2 \<le> unat (powercap_get_value s2) \<longrightarrow> limits_sum (np_pmgt s2) \<le> unat (powercap_get_value s2))"
  using node_steps_inv [OF assms(15) powercap_init_inv(1) [OF assms(1-14)]] powercap_init_inv(2) [OF assms(1-14)]
  by (auto simp: node_inv_def manages_def budget_ok_def within_budget_def powercap_get_value_def)

definition hw_example :: node_hw where
  "hw_example = \<lparr>hw_opened = opened_example, hw_gpu_dummy = False, hw_cpus = 2, hw_sockets = 2, hw_gpus = 4, hw_bpd_cpu = 150,
     hw_bpd_dram = 50, hw_gpu_tdp = 402, hw_handler = True, hw_enable = Pair EAR_SUCCESS\<rparr>"

definition off_example :: node_pc where
  [example_states]: "off_example = \<lparr>np_opt = node_example, np_powercap_def = 1024, np_max_powercap = 2000, np_last_status = 0, np_current_power = 0,
     np_last_cluster_perc = 0, np_pmgt = manager_example, np_contexts = [Some \<lparr>sp_pc_opt = node_example, sp_force_rescheduling = False\<rparr>],
     np_max_context = 0, np_num_contexts = 0, np_ip = 7, np_events = []\<rparr>"

lemma two_domains_kept:
  assumes "two_domains m"
  shows "two_domains (pmgt_set_app_req_freq e m)" "two_domains (pmgt_set_pc_mode v m)" "two_domains (pmgt_set_status v m)"
  using assms by (auto simp: two_domains_def pmgt_set_app_req_freq_def pmgt_set_pc_mode_def update_plugins_def pmgt_set_status_def domains_def Let_def)

lemma set_limit_example:
  assumes "two_domains (np_pmgt s)" "clipped s v = 1024" "pc_current_pc (np_opt s) \<noteq> 1024" "np_num_contexts s = 0"
  shows "\<exists>s'. set_node_limit e v s = Some s' \<and> two_domains (np_pmgt s') \<and> pg_limit (np_pmgt s') = 1024"
proof -
  let ?m = "pmgt_set_app_req_freq e (np_pmgt s)"
  have d: "two_domains ?m" using assms(1) by (rule two_domains_kept)
  then have "pg_current_mode ?m = PC_MODE_AUTO" by (simp add: two_domains_def)
  moreover obtain r m where "pmgt_set_powercap_value e 0 1024 ?m = Some (r, m)" "two_domains m" "pg_limit m = 1024" using shares_grant [OF d] by blast
  ultimately show ?thesis
    using assms(2-4)
    by (auto simp: set_node_limit_def set_powercap_value_def clipped_def [symmetric] with_opt_def Let_def update_node_powercap_opt_shared_info_def)
qed

lemma example_start: "\<exists>s. powercap_init plugins_env hw_example off_example = Some (EAR_SUCCESS, s) \<and> powercap_get_value s = 1024"
proof -
  define s where "s = (with_opt (\<lambda>opt. opt\<lparr>pc_powercap_status := PC_STATUS_IDLE\<rparr>)
    ((with_opt (set_default_node_powercap_opt 1024 2000) off_example)\<lparr>np_last_status := PC_STATUS_IDLE\<rparr>))
    \<lparr>np_pmgt := pmgt_set_pc_mode PC_MODE_TARGET manager_example\<rparr>"
  have c: "clipped s 1024 = 1024" "pc_powercap_idle (np_opt s) = 1024"
    by (simp_all add: s_def clipped_def with_opt_def off_example_def ear_min_def ear_max_def set_default_node_powercap_opt_def)
  have "\<exists>s'. set_node_limit plugins_env 1024 s = Some s' \<and> two_domains (np_pmgt s') \<and> pg_limit (np_pmgt s') = 1024"
    using two_domains_kept(2) [OF manager_example_domains(1)] c
    by (intro set_limit_example) (simp_all add: s_def with_opt_def off_example_def set_default_node_powercap_opt_def)
  then obtain s' where s': "set_node_limit plugins_env 1024 s = Some s'" by blast
  have "powercap_init plugins_env hw_example off_example = Some (EAR_SUCCESS, update_node_powercap_opt_shared_info s')"
    using s' c(2) example_init manager_example_domains(2)
    by (simp add: powercap_init_def powercap_started_def hw_example_def off_example_def with_opt_def Let_def s_def)
  then show ?thesis using set_node_limit_Some(2) [OF s'] c(1) by (simp add: powercap_get_value_def update_node_powercap_opt_shared_info_def)
qed

lemma node_limit_respected_witness:
  "\<exists>s. powercap_init plugins_env hw_example off_example = Some (EAR_SUCCESS, s) \<and> powercap_get_value s = 1024 \<and>
     limits_sum (np_pmgt s) \<le> 1024"
proof -
  obtain s where s: "powercap_init plugins_env hw_example off_example = Some (EAR_SUCCESS, s)" "powercap_get_value s = 1024"
    using example_start by blast
  have "enables (hw_enable hw_example)" by (simp add: enables_def hw_example_def frame_refl)
  from node_limit_respected [OF s(1) example_settled(3) this _ _ _ _ _ _ _ _ _ _ _ rtranclp.rtrancl_refl] s
  have "limits_sum (np_pmgt s) \<le> 1024"
    using example_settled by (simp add: off_example_def hw_example_def manager_example_def) (simp add: opened_example_def)
  then show ?thesis using s by blast
qed

subsection \<open>Limits changed by the cluster manager\<close>

definition running :: "node_powercap_opt \<Rightarrow> bool" where
  "running opt \<longleftrightarrow> pc_powercap_status opt \<in> {PC_STATUS_OK, PC_STATUS_GREEDY, PC_STATUS_ASK_DEF, PC_STATUS_RELEASE}"

lemma run_to_idle_opt:
  assumes "powercap_run_to_idle e s = Some s'" "is_powercap_on (np_opt s)" "\<not> is_powercap_unlimited s" "running (np_opt s)"
  shows "np_opt s' = (np_opt s)\<lparr>pc_released := pc_last_t1_allocated (np_opt s) - pc_powercap_idle (np_opt s), pc_requested := 0,
    pc_powercap_status := PC_STATUS_IDLE, pc_def_powercap := clipped s (pc_powercap_idle (np_opt s)),
    pc_last_t1_allocated := clipped s (pc_powercap_idle (np_opt s)), pc_current_pc := clipped s (pc_powercap_idle (np_opt s))\<rparr>"
proof -
  define f where "f = (\<lambda>opt :: node_powercap_opt. opt\<lparr>pc_released := pc_last_t1_allocated opt - pc_powercap_idle opt, pc_requested := 0,
      pc_powercap_status := PC_STATUS_IDLE\<rparr>)"
  from assms obtain s1 m where s1: "set_node_limit e (pc_powercap_idle (np_opt s)) (with_opt f s) = Some s1"
    and s': "(if np_last_cluster_perc s1 > MAX_PERC_POWER then powercap_reset_default_power e (s1\<lparr>np_pmgt := m\<rparr>) else Some (s1\<lparr>np_pmgt := m\<rparr>)) = Some s'"
    by (auto simp: powercap_run_to_idle_def run_to_idle_switch_def running_def Let_def bind_eq_Some_conv f_def)
  have "np_opt s' = np_opt s1" using s' set_node_limit_Some(2) [OF s1] by (auto simp: powercap_reset_default_power_def split: if_splits)
  then show ?thesis using set_node_limit_Some(2) [OF s1] by (simp add: f_def)
qed

text \<open>
  C39. A node whose limit the cluster manager has lowered below the configured one takes the
  configured limit again as soon as it becomes idle, and the power that it then reports as released
  wraps around.
\<close>

theorem idle_forgets_lower_limit:
  assumes "powercap_run_to_idle e s = Some s'" "is_powercap_on (np_opt s)" "\<not> is_powercap_unlimited s" "running (np_opt s)"
    and "pc_last_t1_allocated (np_opt s) < pc_powercap_idle (np_opt s)" "pc_powercap_idle (np_opt s) \<le> np_max_powercap s"
  shows "powercap_get_value s' = pc_powercap_idle (np_opt s) \<and>
    unat (pc_released (np_opt s')) = 2 ^ 32 + unat (pc_last_t1_allocated (np_opt s)) - unat (pc_powercap_idle (np_opt s))"
proof -
  let ?l = "pc_last_t1_allocated (np_opt s)" and ?i = "pc_powercap_idle (np_opt s)"
  have "clipped s ?i = ?i" using assms(6) by (auto simp: clipped_def ear_min_def)
  moreover have "unat (?l - ?i) = 2 ^ 32 + unat ?l - unat ?i"
    using assms(5) unat_sub_if_size [of ?l ?i] by (simp add: word_size word_less_nat_alt)
  ultimately show ?thesis using run_to_idle_opt [OF assms(1-4)] by (simp add: powercap_get_value_def)
qed

lemma apply_extra_opt:
  assumes "apply_extra e x s = Some s'"
  shows "np_opt s' = (let l = clipped s (pc_last_t1_allocated (np_opt s) + x)
    in (np_opt s)\<lparr>pc_def_powercap := l, pc_last_t1_allocated := l, pc_current_pc := l\<rparr>)"
proof -
  define f where "f = (\<lambda>opt :: node_powercap_opt. opt\<lparr>pc_last_t1_allocated := pc_last_t1_allocated opt + x\<rparr>)"
  have "set_node_limit e (pc_last_t1_allocated (np_opt s) + x) (with_opt f s) = Some s'" using assms by (simp add: apply_extra_def f_def Let_def)
  from set_node_limit_Some(2) [OF this] show ?thesis by (simp add: f_def Let_def)
qed

lemma set_opt_greedy:
  assumes "powercap_set_opt e options idx s = Some s'" "is_powercap_on (np_opt s)" "\<not> is_powercap_unlimited s"
    and "pc_powercap_status (np_opt s) = PC_STATUS_GREEDY" "0 \<le> idx"
  defines "l \<equiv> clipped s (pc_last_t1_allocated (np_opt s) + po_extra_power options ! nat idx)"
  shows "pc_def_powercap (np_opt s') = l" "pc_last_t1_allocated (np_opt s') = l" "pc_current_pc (np_opt s') = l" "pc_powercap_status (np_opt s') = PC_STATUS_OK"
proof -
  let ?x = "po_extra_power options ! nat idx"
  define s0 where "s0 = with_opt (\<lambda>opt. opt\<lparr>pc_cluster_perc_power := ucast (po_cluster_perc_power options)\<rparr>)
    (s\<lparr>np_last_cluster_perc := po_cluster_perc_power options\<rparr>)"
  have "apply_extra e ?x s0 \<bind> (\<lambda>s. powermon_report_event (fst (grant_event ?x)) (snd (grant_event ?x))
      (with_opt (\<lambda>opt. opt\<lparr>pc_powercap_status := PC_STATUS_OK, pc_requested := 0\<rparr>) s)) = Some s'"
    using assms(1-5) by (simp add: powercap_set_opt_def Let_def s0_def)
  then obtain s1 where s1: "apply_extra e ?x s0 = Some s1"
    and s': "powermon_report_event (fst (grant_event ?x)) (snd (grant_event ?x))
      (with_opt (\<lambda>opt. opt\<lparr>pc_powercap_status := PC_STATUS_OK, pc_requested := 0\<rparr>) s1) = Some s'"
    by (auto simp: bind_eq_Some_conv)
  have "clipped s0 v = clipped s v" for v by (simp add: s0_def clipped_def with_opt_def)
  then show "pc_def_powercap (np_opt s') = l" "pc_last_t1_allocated (np_opt s') = l" "pc_current_pc (np_opt s') = l" "pc_powercap_status (np_opt s') = PC_STATUS_OK"
    using report_event_inv [OF s'] apply_extra_opt [OF s1] by (simp_all add: s0_def l_def Let_def)
qed

text \<open>
  C40. The power granted to a greedy node becomes its default: after the grant the default is the whole
  new allocation, so the node reports no power over its default, and a reallocation of the cluster
  manager, which takes back the extra power that nodes report, sees nothing to take back.
  What still undoes the grant is setting the limit of the node anew, as a command that lowers it
  or the end of its last job does.
\<close>

theorem granted_power_is_default:
  assumes "powercap_set_opt e options idx s = Some s'" "is_powercap_on (np_opt s)" "\<not> is_powercap_unlimited s"
    and "pc_powercap_status (np_opt s) = PC_STATUS_GREEDY" "0 \<le> idx"
  shows "get_powercap_allocated (np_opt s') = clipped s (pc_last_t1_allocated (np_opt s) + po_extra_power options ! nat idx) \<and>
    pc_def_powercap (np_opt s') = get_powercap_allocated (np_opt s') \<and> extra_of (np_opt s') = 0"
  using set_opt_greedy [OF assms] by (simp add: get_powercap_allocated_def extra_of_def)

definition on_example :: "u32 \<Rightarrow> u32 \<Rightarrow> node_pc" where
  [example_states]: "on_example status limit = off_example\<lparr>np_opt := node_example\<lparr>pc_def_powercap := limit, pc_last_t1_allocated := limit, pc_current_pc := limit,
     pc_powercap_idle := 1024, pc_powercap_status := status\<rparr>\<rparr>"

lemma idle_forgets_lower_limit_witness:
  "\<exists>s'. powercap_run_to_idle plugins_env (on_example PC_STATUS_OK 512) = Some s' \<and> powercap_get_value s' = 1024 \<and>
     unat (pc_released (np_opt s')) = 2 ^ 32 - 512"
proof -
  define s where "s = on_example PC_STATUS_OK 512"
  define f where "f = (\<lambda>opt :: node_powercap_opt. opt\<lparr>pc_released := pc_last_t1_allocated opt - pc_powercap_idle opt, pc_requested := 0,
      pc_powercap_status := PC_STATUS_IDLE\<rparr>)"
  have c: "pc_powercap_idle (np_opt s) = 1024" "pc_last_t1_allocated (np_opt s) = 512" "np_max_powercap s = 2000" "is_powercap_on (np_opt s)"
    "\<not> is_powercap_unlimited s" "running (np_opt s)" "np_last_cluster_perc s = 0"
    by (simp_all add: s_def on_example_def off_example_def is_powercap_on_def is_powercap_set_def is_powercap_unlimited_def running_def)
  have "\<exists>s'. set_node_limit plugins_env 1024 (with_opt f s) = Some s' \<and> two_domains (np_pmgt s') \<and> pg_limit (np_pmgt s') = 1024"
    using manager_example_domains(1)
    by (intro set_limit_example) (simp_all add: s_def on_example_def off_example_def f_def clipped_def ear_min_def, simp_all add: with_opt_def)
  then obtain s1 where s1: "set_node_limit plugins_env 1024 (with_opt f s) = Some s1" "two_domains (np_pmgt s1)" "pg_limit (np_pmgt s1) = 1024" by blast
  define m where "m = pmgt_set_status PC_STATUS_IDLE (np_pmgt s1)"
  have "two_domains (m\<lparr>pg_pdomains := pg_pdomains_idle m\<rparr>)" "pg_limit m = 1024"
    using two_domains_kept(3) [OF s1(2), of PC_STATUS_IDLE] s1(3) by (auto simp: m_def two_domains_def pmgt_set_status_def)
  then obtain m' where m': "pmgt_run_to_idle plugins_env m = Some m'"
    using shares_reallocate [of "m\<lparr>pg_pdomains := pg_pdomains_idle m\<rparr>" plugins_env] by (auto simp: pmgt_run_to_idle_def)
  have "run_to_idle_switch plugins_env s = Some s1"
    using s1(1) c(1,6) by (simp add: run_to_idle_switch_def running_def f_def Let_def)
  then have run: "powercap_run_to_idle plugins_env s = Some (s1\<lparr>np_pmgt := m'\<rparr>)"
    using m' c(4,5,7) set_node_limit_Some(3) [OF s1(1)] by (simp add: powercap_run_to_idle_def m_def)
  from idle_forgets_lower_limit [OF run c(4-6)] run c(1-3) show ?thesis by (simp add: s_def)
qed

definition grant_example :: powercap_opt where
  "grant_example = \<lparr>po_num_greedy = 1, po_greedy_nodes = [7], po_extra_power = [24], po_cluster_perc_power = 50\<rparr>"

lemma report_event_total:
  "same_node s s' \<Longrightarrow> np_max_context s < length (np_contexts s) \<Longrightarrow> np_contexts s ! np_max_context s \<noteq> None \<Longrightarrow> \<exists>s2. powermon_report_event ev v s' = Some s2"
proof -
  assume a: "same_node s s'" "np_max_context s < length (np_contexts s)" "np_contexts s ! np_max_context s \<noteq> None"
  let ?none = "map (\<lambda>c. c = None)" and ?k = "np_max_context s"
  have "?none (np_contexts s') ! ?k = ?none (np_contexts s) ! ?k" "length (np_contexts s') = length (np_contexts s)"
    using a(1) map_eq_imp_length_eq by (auto simp: same_node_def)
  then have "np_contexts s' ! np_max_context s' \<noteq> None" using a by (simp add: same_node_def)
  then show ?thesis by (auto simp: powermon_report_event_def)
qed

lemma granted_power_is_default_witness:
  "\<exists>s'. powercap_set_opt plugins_env grant_example 0 (on_example PC_STATUS_GREEDY 1000) = Some s' \<and>
     get_powercap_allocated (np_opt s') = 1024 \<and> extra_of (np_opt s') = 0"
proof -
  define s where "s = on_example PC_STATUS_GREEDY 1000"
  define s0 where "s0 = with_opt (\<lambda>opt. opt\<lparr>pc_cluster_perc_power := ucast (po_cluster_perc_power grant_example)\<rparr>)
    (s\<lparr>np_last_cluster_perc := po_cluster_perc_power grant_example\<rparr>)"
  define f where "f = (\<lambda>opt :: node_powercap_opt. opt\<lparr>pc_last_t1_allocated := pc_last_t1_allocated opt + 24\<rparr>)"
  define g where "g = (\<lambda>opt :: node_powercap_opt. opt\<lparr>pc_powercap_status := PC_STATUS_OK, pc_requested := 0\<rparr>)"
  have c: "is_powercap_on (np_opt s)" "\<not> is_powercap_unlimited s" "pc_powercap_status (np_opt s) = PC_STATUS_GREEDY"
    "pc_last_t1_allocated (np_opt s) = 1000" "np_max_powercap s = 2000"
    by (simp_all add: s_def on_example_def off_example_def is_powercap_on_def is_powercap_set_def is_powercap_unlimited_def)
  have "\<exists>s'. set_node_limit plugins_env 1024 (with_opt f s0) = Some s' \<and> two_domains (np_pmgt s') \<and> pg_limit (np_pmgt s') = 1024"
    using manager_example_domains(1)
    by (intro set_limit_example) (simp_all add: s0_def s_def on_example_def off_example_def f_def clipped_def ear_min_def, simp_all add: with_opt_def)
  then obtain s1 where s1: "set_node_limit plugins_env 1024 (with_opt f s0) = Some s1" by blast
  have "same_node s0 (with_opt g s1)" using set_node_limit_Some(1) [OF s1] by simp
  then obtain s2 where s2: "powermon_report_event INC_POWERCAP 24 (with_opt g s1) = Some s2"
    using report_event_total [of s0 "with_opt g s1"] by (auto simp: s0_def s_def on_example_def off_example_def with_opt_def)
  have "apply_extra plugins_env 24 s0 = Some s1" using s1 c(4) by (simp add: apply_extra_def f_def Let_def s0_def)
  then have run: "powercap_set_opt plugins_env grant_example 0 s = Some s2"
    using s2 c(1-3) by (simp add: powercap_set_opt_def s0_def Let_def grant_example_def grant_event_def g_def)
  from granted_power_is_default [OF run c(1-3)] run c(4,5) show ?thesis by (simp add: s_def clipped_def ear_min_def grant_example_def)
qed

end
