(* ===== verification/Collection.thy ===== *)
theory Collection
  imports Propagation Node_Limits
begin

text \<open>
  How the data of the daemons comes back (\<^verbatim>\<open>propagate_data\<close> and its callers in
  \<^verbatim>\<open>daemon/remote_api/eard_server_api.c\<close>; \<^verbatim>\<open>correct_data_prop\<close>, \<^verbatim>\<open>data_all_nodes\<close>, \<^verbatim>\<open>data_nodelist\<close> and
  \<^verbatim>\<open>process_data\<close> in \<^verbatim>\<open>common/messaging/msg_internals.c\<close>).  A daemon answers with its own data and that of
  the daemons below it; the sender merges the answers.  The daemons are a parameter: \<open>answer c below\<close>
  is the answer of daemon \<open>c\<close> with the data \<open>below\<close> it, and \<^const>\<open>None\<close> is a daemon that can not be
  contacted, rejects the request or does not answer.  Memory is never exhausted.
\<close>

subsection \<open>Merging\<close>

record power_check =
  pw_power :: u64
  pw_num_nodes :: u64

text \<open>One definition per type of data, for a second answer; \<open>process_data\<close> copies the first one.\<close>

definition merge_power_check :: "power_check \<Rightarrow> power_check \<Rightarrow> power_check" where
  "merge_power_check p n = p\<lparr>pw_power := pw_power p + pw_power n, pw_num_nodes := pw_num_nodes p + pw_num_nodes n\<rparr>"

definition merge_released :: "pc_release_data \<Rightarrow> pc_release_data \<Rightarrow> pc_release_data" where
  "merge_released r n = r\<lparr>rd_released := rd_released r + rd_released n\<rparr>"

definition merge_power_status :: "powercap_status \<Rightarrow> powercap_status \<Rightarrow> powercap_status" where
  "merge_power_status a b =
     \<lparr>cs_total_nodes = cs_total_nodes a + cs_total_nodes b,
      cs_idle_nodes = cs_idle_nodes a + cs_idle_nodes b,
      cs_released = cs_released a + cs_released b,
      cs_requested = cs_requested a + cs_requested b,
      cs_total_idle_power = 0,
      cs_current_power = cs_current_power a + cs_current_power b,
      cs_total_powercap = cs_total_powercap a + cs_total_powercap b,
      cs_num_greedy = cs_num_greedy a + cs_num_greedy b,
      cs_greedy_nodes = take (unat (cs_num_greedy a)) (cs_greedy_nodes a) @ take (unat (cs_num_greedy b)) (cs_greedy_nodes b),
      cs_greedy_data = take (unat (cs_num_greedy a)) (cs_greedy_data a) @ take (unat (cs_num_greedy b)) (cs_greedy_data b)\<rparr>"

definition process_data :: "('d \<Rightarrow> 'd \<Rightarrow> 'd) \<Rightarrow> 'd option \<Rightarrow> 'd \<Rightarrow> 'd option" where
  "process_data merge final_data temp_data = Some (case final_data of None \<Rightarrow> temp_data | Some d \<Rightarrow> merge d temp_data)"

text \<open>The end of every loop over answers: those without data are left out.\<close>

fun collect :: "('d \<Rightarrow> 'd \<Rightarrow> 'd) \<Rightarrow> 'd option \<Rightarrow> 'd option list \<Rightarrow> 'd option" where
  "collect merge final_data [] = final_data"
| "collect merge final_data (None # rs) = collect merge final_data rs"
| "collect merge final_data (Some temp_data # rs) = collect merge (process_data merge final_data temp_data) rs"

subsection \<open>Requests to all the nodes of a range\<close>

text \<open>
  A kind of request: how two answers are merged and the data of a daemon with none below.
  \<open>propagate_below\<close> is the common part of \<open>propagate_powercap_status\<close>, \<open>propagate_get_power\<close> and
  \<open>propagate_release_idle\<close>.
\<close>

record 'd kind =
  kd_merge :: "'d \<Rightarrow> 'd \<Rightarrow> 'd"
  kd_zero :: 'd

definition or_zero :: "'d kind \<Rightarrow> 'd option \<Rightarrow> 'd" where
  "or_zero k r = (case r of None \<Rightarrow> kd_zero k | Some d \<Rightarrow> d)"

function contact_data :: "'d kind \<Rightarrow> i32 list \<Rightarrow> (i32 \<Rightarrow> 'd \<Rightarrow> 'd option) \<Rightarrow> (i32 \<Rightarrow> bool) \<Rightarrow> nat \<Rightarrow> nat \<Rightarrow> 'd option"
  and propagate_below :: "'d kind \<Rightarrow> i32 list \<Rightarrow> (i32 \<Rightarrow> 'd \<Rightarrow> 'd option) \<Rightarrow> (i32 \<Rightarrow> bool) \<Rightarrow> nat \<Rightarrow> nat \<Rightarrow> 'd"
  and correct_data_prop :: "'d kind \<Rightarrow> i32 list \<Rightarrow> (i32 \<Rightarrow> 'd \<Rightarrow> 'd option) \<Rightarrow> (i32 \<Rightarrow> bool) \<Rightarrow> nat \<Rightarrow> 'd option" where
  "contact_data k ips answer ready node_dist c =
     (case answer (ips ! c) (propagate_below k ips answer ready node_dist c) of
        None \<Rightarrow> correct_data_prop k ips answer ready c
      | Some d \<Rightarrow> Some d)"
| "propagate_below k ips answer ready node_dist t =
     (if \<not> can_propagate node_dist (length ips) (ready (ips ! t)) then kd_zero k
      else or_zero k (collect (kd_merge k) None
        (map (\<lambda>c. contact_data k ips answer ready (c - t mod NUM_PROPS) c) (targets (length ips) t))))"
| "correct_data_prop k ips answer ready t =
     collect (kd_merge k) None (map (\<lambda>c. contact_data k ips answer ready (c - t mod NUM_PROPS) c) (targets (length ips) t))"
  by pat_completeness auto
termination
  by (relation "measure (case_sum (\<lambda>(k, ips, a, r, d, c). 2 * (length ips - c) + 1)
        (case_sum (\<lambda>(k, ips, a, r, d, t). 2 * (length ips - t)) (\<lambda>(k, ips, a, r, t). 2 * (length ips - t))))")
    (auto dest!: targets_bounds)

declare contact_data.simps [simp del] propagate_below.simps [simp del] correct_data_prop.simps [simp del]

text \<open>
  \<open>data_all_nodes\<close>: the first daemons of all the ranges are contacted in rounds of
  \<open>MAX_CALLER_CONNECTIONS\<close>; those that reject the request and, after them, those that do not answer
  are noted, and their parts are collected at the end.
\<close>

abbreviation (input) MAX_CALLER_CONNECTIONS :: nat where "MAX_CALLER_CONNECTIONS \<equiv> 50"

definition first_ips :: "i32 list list \<Rightarrow> (i32 list \<times> nat) list" where
  "first_ips ranges = concat (map (\<lambda>ips. map (Pair ips) [0..<min (length ips) NUM_PROPS]) ranges)"

definition first_answer :: "'d kind \<Rightarrow> (i32 \<Rightarrow> 'd \<Rightarrow> 'd option) \<Rightarrow> (i32 \<Rightarrow> bool) \<Rightarrow> i32 list \<times> nat \<Rightarrow> 'd option" where
  "first_answer k answer ready p = (case p of (ips, j) \<Rightarrow> answer (ips ! j) (propagate_below k ips answer ready 0 j))"

function data_rounds :: "('d \<Rightarrow> 'd \<Rightarrow> 'd) \<Rightarrow> (i32 \<Rightarrow> bool) \<Rightarrow> (i32 list \<times> nat \<Rightarrow> 'd option) \<Rightarrow>
    (i32 list \<times> nat) list \<Rightarrow> 'd option \<Rightarrow> (i32 list \<times> nat) list \<Rightarrow> 'd option \<times> (i32 list \<times> nat) list" where
  "data_rounds merge accepts received pending all_data failed =
     (if pending = [] then (all_data, failed)
      else let connections = take MAX_CALLER_CONNECTIONS pending;
               opened = filter (\<lambda>(ips, j). accepts (ips ! j)) connections;
               rejected = filter (\<lambda>(ips, j). \<not> accepts (ips ! j)) connections
           in data_rounds merge accepts received (drop MAX_CALLER_CONNECTIONS pending)
                (collect merge all_data (map received opened))
                (failed @ rejected @ filter (\<lambda>p. received p = None) opened))"
  by pat_completeness auto
termination
  by (relation "measure (\<lambda>(m, a, r, pending, d, f). length pending)") auto

declare data_rounds.simps [simp del]

definition data_all_nodes :: "'d kind \<Rightarrow> i32 list list \<Rightarrow> (i32 \<Rightarrow> bool) \<Rightarrow> (i32 \<Rightarrow> 'd \<Rightarrow> 'd option) \<Rightarrow> (i32 \<Rightarrow> bool) \<Rightarrow> 'd option" where
  "data_all_nodes k ranges accepts answer ready =
     (let (all_data, failed) = data_rounds (kd_merge k) accepts (first_answer k answer ready) (first_ips ranges) None []
      in collect (kd_merge k) all_data (map (\<lambda>(ips, j). correct_data_prop k ips answer ready j) failed))"

subsection \<open>Requests to a list of nodes\<close>

function contact_data_nodes :: "'d kind \<Rightarrow> (i32 \<Rightarrow> 'd \<Rightarrow> 'd option) \<Rightarrow> i32 list \<Rightarrow> 'd option"
  and propagate_below_nodes :: "'d kind \<Rightarrow> (i32 \<Rightarrow> 'd \<Rightarrow> 'd option) \<Rightarrow> i32 list \<Rightarrow> 'd"
  and correct_data_prop_nodes :: "'d kind \<Rightarrow> (i32 \<Rightarrow> 'd \<Rightarrow> 'd option) \<Rightarrow> i32 list \<Rightarrow> 'd option" where
  "contact_data_nodes k answer nodes =
     (if nodes = [] then None
      else case answer (hd nodes) (propagate_below_nodes k answer nodes) of
        None \<Rightarrow> correct_data_prop_nodes k answer nodes
      | Some d \<Rightarrow> Some d)"
| "propagate_below_nodes k answer nodes =
     (case nodes of [] \<Rightarrow> kd_zero k
      | [self_ip] \<Rightarrow> kd_zero k
      | self_ip # n # ns \<Rightarrow>
          let rest = remove_self self_ip 0 nodes
          in or_zero k (collect (kd_merge k) None (map (contact_data_nodes k answer) (parts (length rest div NUM_PROPS + 1) NUM_PROPS rest))))"
| "correct_data_prop_nodes k answer nodes =
     (case nodes of [] \<Rightarrow> None
      | [self_ip] \<Rightarrow> None
      | self_ip # n # ns \<Rightarrow>
          let rest = remove_self self_ip 0 nodes
          in collect (kd_merge k) None (map (contact_data_nodes k answer) (parts (length rest div NUM_PROPS + 1) NUM_PROPS rest)))"
  by pat_completeness auto
termination
proof (relation "measure (case_sum (\<lambda>(k, u, xs). 2 * length xs + 1) (case_sum (\<lambda>(k, u, xs). 2 * length xs) (\<lambda>(k, u, xs). 2 * length xs)))", goal_cases)
  case (4 k answer nodes x ys y zs rest c)
  then show ?case using parts_length [of c "length rest div NUM_PROPS + 1" NUM_PROPS rest] remove_self_first_length [of x "y # zs"] by auto
next
  case (5 k answer nodes x ys y zs rest c)
  then show ?case using parts_length [of c "length rest div NUM_PROPS + 1" NUM_PROPS rest] remove_self_first_length [of x "y # zs"] by auto
qed auto

declare contact_data_nodes.simps [simp del] propagate_below_nodes.simps [simp del] correct_data_prop_nodes.simps [simp del]

definition internal_data_nodes :: "'d kind \<Rightarrow> (i32 \<Rightarrow> 'd \<Rightarrow> 'd option) \<Rightarrow> nat \<Rightarrow> nat \<Rightarrow> i32 list \<Rightarrow> 'd option" where
  "internal_data_nodes k answer base_distance num_sends nodes =
     (if nodes = [] then None
      else let base_distance = (if base_distance < 1 then 1 else base_distance)
           in collect (kd_merge k) None (map (contact_data_nodes k answer) (parts base_distance num_sends nodes)))"

definition data_nodelist :: "'d kind \<Rightarrow> (i32 \<Rightarrow> 'd \<Rightarrow> 'd option) \<Rightarrow> i32 list \<Rightarrow> 'd option" where
  "data_nodelist k answer nodes =
     (let base_distance = get_max_prop_group (length nodes);
          num_sends = length nodes div base_distance + (if length nodes mod base_distance \<noteq> 0 then 1 else 0)
      in internal_data_nodes k answer base_distance num_sends nodes)"

subsection \<open>What the collected data stands for\<close>

text \<open>
  The contract between the daemons and the collection: data \<open>d\<close> totals a multiset of nodes.  A node
  that answers adds itself to what is below it, and two answers are merged as long as no more than
  \<open>bound\<close> nodes take part.
\<close>

definition gives :: "('d \<Rightarrow> i32 multiset \<Rightarrow> bool) \<Rightarrow> 'd option \<Rightarrow> i32 multiset \<Rightarrow> bool" where
  "gives totals r M = (case r of None \<Rightarrow> M = {#} | Some d \<Rightarrow> totals d M)"

text \<open>The nodes that execute a command sent to the first daemon \<open>p\<close> of a range.\<close>

definition up_first :: "(i32 \<Rightarrow> bool) \<Rightarrow> i32 list \<times> nat \<Rightarrow> bool" where
  "up_first up p = (case p of (ips, j) \<Rightarrow> up (ips ! j))"

definition contact_range :: "(i32 \<Rightarrow> bool) \<Rightarrow> (i32 \<Rightarrow> bool) \<Rightarrow> i32 list \<times> nat \<Rightarrow> i32 list" where
  "contact_range up ready p =
     (case p of (ips, j) \<Rightarrow> map ((!) ips) (contact (length ips) (\<lambda>c. up (ips ! c)) (\<lambda>c. ready (ips ! c)) 0 j))"

locale collection =
  fixes k :: "'d kind" and answer :: "i32 \<Rightarrow> 'd \<Rightarrow> 'd option" and up :: "i32 \<Rightarrow> bool"
    and totals :: "'d \<Rightarrow> i32 multiset \<Rightarrow> bool" and bound :: nat
  assumes totals_zero: "totals (kd_zero k) {#}"
    and totals_merge: "totals a M \<Longrightarrow> totals b N \<Longrightarrow> size M + size N \<le> bound \<Longrightarrow> totals (kd_merge k a b) (M + N)"
    and totals_answer: "answer c b = Some d \<Longrightarrow> totals b M \<Longrightarrow> size M < bound \<Longrightarrow> totals d (add_mset c M)"
    and no_answer: "answer c b = None \<longleftrightarrow> \<not> up c"
begin

lemma collect_gives:
  assumes "gives totals r M" "\<And>x. x \<in> set xs \<Longrightarrow> gives totals (f x) (mset (g x))" "size M + length (concat (map g xs)) \<le> bound"
  shows "gives totals (collect (kd_merge k) r (map f xs)) (M + mset (concat (map g xs)))"
  using assms
proof (induction xs arbitrary: r M)
  case (Cons x xs)
  have x: "gives totals (f x) (mset (g x))" using Cons.prems(2) by simp
  show ?case
  proof (cases "f x")
    case None
    then have "g x = []" using x by (simp add: gives_def)
    then show ?thesis using Cons.IH [of r M] Cons.prems None by simp
  next
    case (Some t)
    then have t: "totals t (mset (g x))" using x by (simp add: gives_def)
    have "gives totals (process_data (kd_merge k) r t) (M + mset (g x))"
      using Cons.prems(1,3) t totals_merge by (auto simp: gives_def process_data_def split: option.splits)
    then show ?thesis using Cons.IH [of "process_data (kd_merge k) r t" "M + mset (g x)"] Cons.prems Some by (simp add: add.assoc)
  qed
qed simp

lemma or_zero_totals: "gives totals r M \<Longrightarrow> totals (or_zero k r) M"
  using totals_zero by (auto simp: gives_def or_zero_def split: option.splits)

lemma answer_gives:
  assumes "totals b M" "up c \<Longrightarrow> size M < bound" "\<not> up c \<Longrightarrow> gives totals r N"
  shows "gives totals (case answer c b of None \<Rightarrow> r | Some d \<Rightarrow> Some d) (if up c then add_mset c M else N)"
  using totals_answer [of c b _ M] no_answer [of c b] assms by (cases "answer c b") (auto simp: gives_def)

lemma contact_data_gives:
  fixes ips :: "i32 list" and ready :: "i32 \<Rightarrow> bool"
  defines "n \<equiv> length ips" and "u \<equiv> \<lambda>c. up (ips ! c)" and "r \<equiv> \<lambda>c. ready (ips ! c)"
  assumes "node_dist \<le> n" "length (contact n u r node_dist c) \<le> bound"
  shows "gives totals (contact_data k ips answer ready node_dist c) (image_mset ((!) ips) (mset (contact n u r node_dist c)))"
  using assms(4,5)
proof (induction "n - c" arbitrary: c node_dist rule: less_induct)
  case less
  let ?f = "\<lambda>x. contact_data k ips answer ready (x - c mod NUM_PROPS) x"
  let ?g = "\<lambda>x. contact n u r (x - c mod NUM_PROPS) x"
  let ?B = "concat (map ?g (targets n c))"
  have below: "gives totals (collect (kd_merge k) None (map ?f (targets n c))) (image_mset ((!) ips) (mset ?B))"
    if "length ?B \<le> bound"
  proof -
    have "gives totals (?f x) (mset (map ((!) ips) (?g x)))" if x: "x \<in> set (targets n c)" for x
    proof -
      have "length (?g x) \<le> bound" using member_le_sum_list [of "length (?g x)" "map (length \<circ> ?g) (targets n c)"] x \<open>length ?B \<le> bound\<close>
        by (auto simp: length_concat o_def)
      then show ?thesis using less.hyps [of x "x - c mod NUM_PROPS"] targets_bounds [OF x] by auto
    qed
    from collect_gives [where r = None and M = "{#}" and xs = "targets n c" and f = ?f and g = "\<lambda>x. map ((!) ips) (?g x)", OF _ this] that
    show ?thesis by (simp add: gives_def concat_map_image)
  qed
  have eq: "contact n u r node_dist c = (if u c then c # (if r c then ?B else []) else ?B)"
    using less.prems(1) by (simp add: contact.simps [of n u r node_dist] propagate_req.simps correct_error.simps can_propagate_def)
  have uc: "up (ips ! c) = u c" "ready (ips ! c) = r c" "length ips = n" by (simp_all add: u_def r_def n_def)
  show ?case
  proof (cases "u c")
    case True
    let ?M = "if r c then image_mset ((!) ips) (mset ?B) else {#}"
    have "totals (propagate_below k ips answer ready node_dist c) ?M"
      unfolding propagate_below.simps can_propagate_def uc using less.prems True or_zero_totals [OF below] totals_zero by (cases "r c") (simp_all add: eq)
    moreover have "size ?M < bound" using less.prems True by (auto simp: eq)
    ultimately show ?thesis using True answer_gives [of "propagate_below k ips answer ready node_dist c" ?M "ips ! c" "correct_data_prop k ips answer ready c"]
      by (simp add: eq contact_data.simps [of k] uc split: if_splits)
  next
    case False
    then show ?thesis using less.prems below no_answer [of "ips ! c"] 
      by (simp add: eq contact_data.simps [of k] correct_data_prop.simps uc)
  qed
qed

lemma first_gives:
  assumes "length (contact_range up ready p) \<le> bound"
  shows "first_answer k answer ready p = None \<longleftrightarrow> \<not> up_first up p"
    and "up_first up p \<Longrightarrow> gives totals (first_answer k answer ready p) (mset (contact_range up ready p))"
    and "\<not> up_first up p \<Longrightarrow> gives totals (correct_data_prop k (fst p) answer ready (snd p)) (mset (contact_range up ready p))"
proof -
  obtain ips j where p: "p = (ips, j)" by (cases p)
  show none: "first_answer k answer ready p = None \<longleftrightarrow> \<not> up_first up p" by (simp add: p first_answer_def up_first_def no_answer)
  have "contact_data k ips answer ready 0 j = (if up_first up p then first_answer k answer ready p else correct_data_prop k ips answer ready j)"
    using none by (auto simp: contact_data.simps [of k] first_answer_def p split: option.splits)
  moreover have "gives totals (contact_data k ips answer ready 0 j) (mset (contact_range up ready p))"
    using contact_data_gives [of 0 ips ready j] assms by (simp add: p contact_range_def)
  ultimately show "up_first up p \<Longrightarrow> gives totals (first_answer k answer ready p) (mset (contact_range up ready p))"
    and "\<not> up_first up p \<Longrightarrow> gives totals (correct_data_prop k (fst p) answer ready (snd p)) (mset (contact_range up ready p))"
    by (simp_all add: p)
qed

lemma round_gives:
  assumes "gives totals d M" "size M + length (concat (map (contact_range up ready) ps)) \<le> bound" "\<And>c. up c \<Longrightarrow> accepts c"
  defines "opened \<equiv> filter (\<lambda>(ips, j). accepts (ips ! j)) ps" and "rejected \<equiv> filter (\<lambda>(ips, j). \<not> accepts (ips ! j)) ps"
  shows "gives totals (collect (kd_merge k) d (map (first_answer k answer ready) opened))
      (M + mset (concat (map (contact_range up ready) (filter (up_first up) ps))))"
    and "mset (rejected @ filter (\<lambda>p. first_answer k answer ready p = None) opened) = filter_mset (\<lambda>p. \<not> up_first up p) (mset ps)"
proof -
  let ?g = "\<lambda>p. if up_first up p then contact_range up ready p else []"
  have acc: "filter (up_first up) opened = filter (up_first up) ps"
    using assms(3) by (auto simp: opened_def up_first_def intro!: filter_cong)
  have g: "concat (map ?g xs) = concat (map (contact_range up ready) (filter (up_first up) xs))" for xs by (induction xs) auto
  have len: "length (contact_range up ready p) \<le> bound" if "p \<in> set ps" for p
    using member_le_sum_list [of "length (contact_range up ready p)" "map (length \<circ> contact_range up ready) ps"] that assms(2)
    by (auto simp: length_concat o_def)
  have none: "first_answer k answer ready p = None \<longleftrightarrow> \<not> up_first up p" if "p \<in> set opened" for p
    using that len by (intro first_gives) (auto simp: opened_def)
  have "gives totals (first_answer k answer ready p) (mset (?g p))" if "p \<in> set opened" for p
    using first_gives(2) [of ready p] none [OF that] that len by (auto simp: opened_def gives_def)
  moreover have "length (concat (map (contact_range up ready) (filter Q xs))) \<le> length (concat (map (contact_range up ready) xs))" for Q xs
    by (induction xs) auto
  ultimately show "gives totals (collect (kd_merge k) d (map (first_answer k answer ready) opened))
      (M + mset (concat (map (contact_range up ready) (filter (up_first up) ps))))"
    using collect_gives [OF assms(1), of opened "first_answer k answer ready" ?g] assms(2) unfolding g acc
    by (meson add_left_mono order_trans)
  have "filter (\<lambda>p. first_answer k answer ready p = None) opened = filter (\<lambda>p. \<not> up_first up p) opened"
    using none by (intro filter_cong) auto
  moreover have "mset (filter (\<lambda>(ips, j). \<not> accepts (ips ! j)) xs @ filter (\<lambda>p. \<not> up_first up p) (filter (\<lambda>(ips, j). accepts (ips ! j)) xs)) =
      filter_mset (\<lambda>p. \<not> up_first up p) (mset xs)" for xs
    by (induction xs) (use assms(3) in \<open>auto simp: up_first_def filter_filter_mset conj_commute\<close>)
  ultimately show "mset (rejected @ filter (\<lambda>p. first_answer k answer ready p = None) opened) = filter_mset (\<lambda>p. \<not> up_first up p) (mset ps)"
    unfolding opened_def rejected_def by simp
qed

lemma data_rounds_gives:
  assumes "data_rounds (kd_merge k) accepts (first_answer k answer ready) pending d failed = (d', failed')"
    and "gives totals d M" "size M + length (concat (map (contact_range up ready) pending)) \<le> bound" "\<And>c. up c \<Longrightarrow> accepts c"
  shows "gives totals d' (M + mset (concat (map (contact_range up ready) (filter (up_first up) pending)))) \<and>
    mset failed' = mset failed + filter_mset (\<lambda>p. \<not> up_first up p) (mset pending)"
  using assms(1-3)
proof (induction "length pending" arbitrary: pending d failed M rule: less_induct)
  case less
  show ?case
  proof (cases "pending = []")
    case False
    let ?c = "take MAX_CALLER_CONNECTIONS pending" and ?r = "drop MAX_CALLER_CONNECTIONS pending"
    let ?G = "\<lambda>xs. concat (map (contact_range up ready) xs)"
    have split: "?G pending = ?G ?c @ ?G ?r" "filter (up_first up) pending = filter (up_first up) ?c @ filter (up_first up) ?r"
      "mset pending = mset ?c + mset ?r"
      by (simp_all flip: concat_append map_append filter_append mset_append)
    have "length (?G (filter (up_first up) xs)) \<le> length (?G xs)" for xs by (induction xs) auto
    from this [of ?c] have le: "size (M + mset (?G (filter (up_first up) ?c))) + length (?G ?r) \<le> bound"
      using less.prems(3) unfolding split by simp
    have c: "size M + length (?G ?c) \<le> bound" using less.prems(3) unfolding split by simp
    note r = round_gives [OF less.prems(2) c assms(4)]
    show ?thesis
      using less.hyps [OF _ less.prems(1) [unfolded data_rounds.simps [of _ _ _ pending] Let_def if_not_P [OF False]] r(1) le] False r(2)
      unfolding split by (simp add: ac_simps)
  qed (use less.prems in \<open>simp add: data_rounds.simps\<close>)
qed

theorem data_all_nodes_gives:
  assumes "length (send_command_all ranges up ready) \<le> bound" "\<And>c. up c \<Longrightarrow> accepts c"
  shows "gives totals (data_all_nodes k ranges accepts answer ready) (mset (send_command_all ranges up ready))"
proof -
  let ?G = "\<lambda>xs. concat (map (contact_range up ready) xs)" and ?ps = "first_ips ranges"
  have all: "send_command_all ranges up ready = ?G ?ps"
    unfolding send_command_all_def first_ips_def send_range_def
    by (induction ranges) (auto simp: contact_range_def concat_map_image o_def)
  obtain d failed where r: "data_rounds (kd_merge k) accepts (first_answer k answer ready) ?ps None [] = (d, failed)" by fastforce
  have d: "gives totals d (mset (?G (filter (up_first up) ?ps)))" "mset failed = filter_mset (\<lambda>p. \<not> up_first up p) (mset ?ps)"
    using data_rounds_gives [OF r, of "{#}"] assms all by (auto simp: gives_def)
  have msum: "mset (?G xs) = (\<Sum>p\<in>#mset xs. mset (contact_range up ready p))" for xs by (induction xs) auto
  have total: "mset (?G (filter (up_first up) ?ps)) + mset (?G failed) = mset (?G ?ps)"
    unfolding msum d(2) mset_filter by (simp flip: image_mset_union sum_mset.union multiset_partition)
  have len: "length (?G (filter (up_first up) ?ps)) + length (?G failed) \<le> bound"
    using assms(1) arg_cong [OF total, of size] unfolding all by simp
  have "gives totals (correct_data_prop k (fst p) answer ready (snd p)) (mset (contact_range up ready p))" if "p \<in> set failed" for p
  proof (rule first_gives(3))
    show "\<not> up_first up p" using that d(2) by (metis (mono_tags, lifting) filter_mset_eq_conv set_mset_mset)
    show "length (contact_range up ready p) \<le> bound"
      using member_le_sum_list [of "length (contact_range up ready p)" "map (length \<circ> contact_range up ready) failed"] that len
      by (auto simp: length_concat o_def)
  qed
  from collect_gives [where xs = failed and f = "\<lambda>p. correct_data_prop k (fst p) answer ready (snd p)" and g = "contact_range up ready", OF d(1) this] len
  show ?thesis
    by (simp add: data_all_nodes_def r case_prod_unfold total all)
qed

lemma contact_data_nodes_gives:
  "length (contact_nodes up nodes) \<le> bound \<Longrightarrow> gives totals (contact_data_nodes k answer nodes) (mset (contact_nodes up nodes))"
proof (induction "length nodes" arbitrary: nodes rule: less_induct)
  case less
  show ?case
  proof (cases nodes)
    case (Cons x xs)
    define rest where "rest = remove_self x 0 (x # xs)"
    let ?P = "parts (length rest div NUM_PROPS + 1) NUM_PROPS rest"
    let ?B = "concat (map (contact_nodes up) ?P)"
    have below: "gives totals (collect (kd_merge k) None (map (contact_data_nodes k answer) ?P)) (mset ?B)" if "length ?B \<le> bound"
    proof -
      have "gives totals (contact_data_nodes k answer c) (mset (contact_nodes up c))" if "c \<in> set ?P" for c
      proof (rule less.hyps)
        show "length c < length nodes" using parts_length [OF that] remove_self_first_length [of x xs] Cons by (simp add: rest_def)
        show "length (contact_nodes up c) \<le> bound" 
          using member_le_sum_list [of "length (contact_nodes up c)" "map (length \<circ> contact_nodes up) ?P"] that \<open>length ?B \<le> bound\<close>
          by (auto simp: length_concat o_def)
      qed
      from collect_gives [where r = None and M = "{#}", OF _ this] \<open>length ?B \<le> bound\<close> show ?thesis by (simp add: gives_def)
    qed
    have eq: "contact_nodes up nodes = (if up x then [x] else []) @ (if xs = [] then [] else ?B)"
      by (simp add: Cons contact_nodes_Cons Let_def rest_def)
    have "totals (propagate_below_nodes k answer nodes) (mset (if xs = [] then [] else ?B))"
      using less.prems or_zero_totals [OF below] totals_zero unfolding eq
      by (cases xs) (auto simp: Cons propagate_below_nodes.simps Let_def rest_def)
    moreover have "gives totals (correct_data_prop_nodes k answer nodes) (mset (if xs = [] then [] else ?B))"
      using less.prems below unfolding eq
      by (cases xs) (auto simp: Cons correct_data_prop_nodes.simps Let_def rest_def gives_def)
    moreover have "contact_data_nodes k answer nodes =
        (case answer x (propagate_below_nodes k answer nodes) of None \<Rightarrow> correct_data_prop_nodes k answer nodes | Some d \<Rightarrow> Some d)"
    proof -
      have "nodes \<noteq> []" "hd nodes = x" using Cons by auto
      then show ?thesis by (simp add: contact_data_nodes.simps [of k])
    qed
    ultimately show ?thesis
      using answer_gives [of "propagate_below_nodes k answer nodes" "mset (if xs = [] then [] else ?B)" x "correct_data_prop_nodes k answer nodes"
          "mset (if xs = [] then [] else ?B)"] less.prems
      unfolding eq by (cases "up x") auto
  qed (simp add: contact_nodes.simps contact_data_nodes.simps gives_def)
qed

theorem data_nodelist_gives:
  assumes "length (send_command_nodelist up nodes) \<le> bound"
  shows "gives totals (data_nodelist k answer nodes) (mset (send_command_nodelist up nodes))"
proof -
  define b n where "b = get_max_prop_group (length nodes)" and "n = length nodes div b + (if length nodes mod b \<noteq> 0 then 1 else 0)"
  let ?P = "parts b n nodes"
  have eq: "send_command_nodelist up nodes = concat (map (contact_nodes up) ?P)"
    by (simp add: send_command_nodelist_def internal_send_command_nodes_def b_def n_def Let_def)
  have "gives totals (contact_data_nodes k answer c) (mset (contact_nodes up c))" if "c \<in> set ?P" for c
    using member_le_sum_list [of "length (contact_nodes up c)" "map (length \<circ> contact_nodes up) ?P"] that assms
    by (intro contact_data_nodes_gives) (auto simp: eq length_concat o_def)
  from collect_gives [where r = None and M = "{#}", OF _ this] assms
  have "gives totals (collect (kd_merge k) None (map (contact_data_nodes k answer) ?P)) (mset (concat (map (contact_nodes up) ?P)))"
    by (simp add: gives_def eq)
  moreover have "?P = []" if "nodes = []" using that by (simp add: parts_def takeWhile_eq_Nil_iff)
  moreover have "data_nodelist k answer nodes = (if nodes = [] then None else collect (kd_merge k) None (map (contact_data_nodes k answer) ?P))"
    using max_prop_group_pos [of "length nodes"] unfolding data_nodelist_def internal_data_nodes_def Let_def b_def [symmetric] n_def [symmetric]
    by auto
  ultimately show ?thesis by (auto simp: eq gives_def)
qed

end

subsection \<open>Power of the cluster\<close>

definition dyncon_get_power :: "u32 \<Rightarrow> power_check \<Rightarrow> power_check" where
  "dyncon_get_power watts p = p\<lparr>pw_power := pw_power p + ucast watts, pw_num_nodes := pw_num_nodes p + 1\<rparr>"

definition power_kind :: "power_check kind" where
  "power_kind = \<lparr>kd_merge = merge_power_check, kd_zero = \<lparr>pw_power = 0, pw_num_nodes = 0\<rparr>\<rparr>"

definition power_answer :: "(i32 \<Rightarrow> bool) \<Rightarrow> (i32 \<Rightarrow> u32) \<Rightarrow> i32 \<Rightarrow> power_check \<Rightarrow> power_check option" where
  "power_answer alive watts c below = (if alive c then Some (dyncon_get_power (watts c) below) else None)"

definition power_totals :: "(i32 \<Rightarrow> u32) \<Rightarrow> power_check \<Rightarrow> i32 multiset \<Rightarrow> bool" where
  "power_totals watts d M \<longleftrightarrow> pw_power d = (\<Sum>c\<in>#M. ucast (watts c)) \<and> pw_num_nodes d = of_nat (size M)"

interpretation pw: collection power_kind "power_answer alive watts" alive "power_totals watts" bound for alive watts bound
  by unfold_locales
    (auto simp: power_kind_def power_totals_def power_answer_def dyncon_get_power_def merge_power_check_def add.commute split: if_splits)

subsection \<open>Release of idle power\<close>

definition release_kind :: "pc_release_data kind" where
  "release_kind = \<lparr>kd_merge = merge_released, kd_zero = \<lparr>rd_released = 0\<rparr>\<rparr>"

definition dyncon_release_idle_power :: "pc_release_data \<Rightarrow> node_pc \<Rightarrow> (pc_release_data \<times> node_pc) option" where
  "dyncon_release_idle_power rel_data s = powercap_release_idle_power rel_data s"

definition release_answer :: "(i32 \<Rightarrow> bool) \<Rightarrow> (i32 \<Rightarrow> node_pc) \<Rightarrow> i32 \<Rightarrow> pc_release_data \<Rightarrow> pc_release_data option" where
  "release_answer alive node c below = (if alive c then map_option fst (dyncon_release_idle_power below (node c)) else None)"

definition idle_release :: "node_pc \<Rightarrow> u32" where
  "idle_release s = (if pc_powercap_status (np_opt s) = PC_STATUS_IDLE then pc_released (np_opt s) else 0)"

definition release_totals :: "(i32 \<Rightarrow> node_pc) \<Rightarrow> pc_release_data \<Rightarrow> i32 multiset \<Rightarrow> bool" where
  "release_totals node d M \<longleftrightarrow> rd_released d = (\<Sum>c\<in>#M. idle_release (node c))"

definition serving :: "node_pc \<Rightarrow> bool" where
  "serving s \<longleftrightarrow> np_contexts s ! np_max_context s \<noteq> None"

lemma release_idle_additive:
  "serving s \<Longrightarrow> \<exists>s'. powercap_release_idle_power b s = Some (b\<lparr>rd_released := rd_released b + idle_release s\<rparr>, s')"
  by (auto simp: serving_def powercap_release_idle_power_def powermon_report_event_def idle_release_def with_opt_def Let_def)

lemma release_idle_not_serving: "\<not> serving s \<Longrightarrow> powercap_release_idle_power b s = None"
  by (auto simp: serving_def powercap_release_idle_power_def powermon_report_event_def with_opt_def Let_def)

interpretation rl_all: collection release_kind "release_answer alive node" "\<lambda>c. alive c \<and> serving (node c)" "release_totals node" bound
  for alive node bound
proof unfold_locales
  fix c :: i32 and b d :: pc_release_data and M :: "i32 multiset"
  show "release_answer alive node c b = None \<longleftrightarrow> \<not> (alive c \<and> serving (node c))"
    using release_idle_additive [of "node c" b] release_idle_not_serving [of "node c" b] by (auto simp: release_answer_def dyncon_release_idle_power_def)
  assume "release_answer alive node c b = Some d" "release_totals node b M"
  then show "release_totals node d (add_mset c M)"
    using release_idle_additive [of "node c" b] release_idle_not_serving [of "node c" b]
    by (cases "serving (node c)") (auto simp: release_answer_def dyncon_release_idle_power_def release_totals_def split: if_splits)
qed (auto simp: release_kind_def release_totals_def merge_released_def)

subsection \<open>Status of the cluster\<close>

text \<open>
  What the daemon of a node answers with: the plugins and the state of its powercap, its last power
  and the memory of the status of its domains.
\<close>

record node_site =
  site_env :: plugin_env
  site_watts :: u32
  site_memory :: pmgt_status
  site_state :: node_pc

definition no_status :: powercap_status where
  "no_status = \<lparr>cs_total_nodes = 0, cs_idle_nodes = 0, cs_released = 0, cs_requested = 0, cs_total_idle_power = 0,
     cs_current_power = 0, cs_total_powercap = 0, cs_num_greedy = 0, cs_greedy_nodes = [], cs_greedy_data = []\<rparr>"

definition status_kind :: "powercap_status kind" where
  "status_kind = \<lparr>kd_merge = merge_power_status, kd_zero = no_status\<rparr>"

definition site_status :: "bool \<Rightarrow> node_site \<Rightarrow> powercap_status \<Rightarrow> (powercap_status \<times> node_pc) option" where
  "site_status release_power n below =
     dyncon_get_powerstatus (site_env n) (site_watts n) release_power below (site_memory n) (site_state n)"

definition status_answer :: "(i32 \<Rightarrow> bool) \<Rightarrow> bool \<Rightarrow> (i32 \<Rightarrow> node_site) \<Rightarrow> i32 \<Rightarrow> powercap_status \<Rightarrow> powercap_status option" where
  "status_answer alive release_power sites c below = (if alive c then map_option fst (site_status release_power (sites c) below) else None)"

text \<open>What a node reports of itself, and its state afterwards.\<close>

definition own_status :: "bool \<Rightarrow> node_site \<Rightarrow> powercap_status" where
  "own_status release_power n = (case site_status release_power n no_status of None \<Rightarrow> no_status | Some (d, s) \<Rightarrow> d)"

definition reported :: "bool \<Rightarrow> node_site \<Rightarrow> node_pc" where
  "reported release_power n = (case site_status release_power n no_status of None \<Rightarrow> site_state n | Some (d, s) \<Rightarrow> s)"

definition reports :: "bool \<Rightarrow> node_site \<Rightarrow> bool" where
  "reports release_power n \<longleftrightarrow> site_status release_power n no_status \<noteq> None"

definition greedy_pairs :: "powercap_status \<Rightarrow> (i32 \<times> greedy_bytes) list" where
  "greedy_pairs d = zip (cs_greedy_nodes d) (cs_greedy_data d)"

definition listed_ok :: "powercap_status \<Rightarrow> bool" where
  "listed_ok d \<longleftrightarrow> length (cs_greedy_nodes d) = unat (cs_num_greedy d) \<and> length (cs_greedy_data d) = unat (cs_num_greedy d)"

text \<open>
  The totals of a status over a multiset of nodes.  The idle power is not among them: the merge of two
  answers drops it.
\<close>

definition status_totals :: "bool \<Rightarrow> (i32 \<Rightarrow> node_site) \<Rightarrow> powercap_status \<Rightarrow> i32 multiset \<Rightarrow> bool" where
  "status_totals rp sites d M \<longleftrightarrow>
     (let own = (\<lambda>c. own_status rp (sites c))
      in cs_total_nodes d = (\<Sum>c\<in>#M. cs_total_nodes (own c)) \<and> cs_idle_nodes d = (\<Sum>c\<in>#M. cs_idle_nodes (own c)) \<and>
         cs_released d = (\<Sum>c\<in>#M. cs_released (own c)) \<and> cs_requested d = (\<Sum>c\<in>#M. cs_requested (own c)) \<and>
         cs_current_power d = (\<Sum>c\<in>#M. cs_current_power (own c)) \<and> cs_total_powercap d = (\<Sum>c\<in>#M. cs_total_powercap (own c)) \<and>
         listed_ok d \<and> unat (cs_num_greedy d) \<le> size M \<and> mset (greedy_pairs d) = (\<Sum>c\<in>#M. mset (greedy_pairs (own c))))"

definition add_status :: "powercap_status \<Rightarrow> powercap_status \<Rightarrow> powercap_status" where
  "add_status a b = (merge_power_status a b)\<lparr>cs_total_idle_power := cs_total_idle_power a + cs_total_idle_power b\<rparr>"

lemma running_additive:
  assumes "cs_requested z = 0"
  shows "running_status e rp b st s =
    map_option (\<lambda>(d, p, s'). (b\<lparr>cs_requested := cs_requested b + cs_requested d\<rparr>, p, s')) (running_status e rp z st s)"
  using assms by (cases b; cases z) (simp add: running_status_def Let_def split: bind_split)

lemma running_status_frame: "running_status e rp b st s = Some (d, p, s') \<Longrightarrow> \<exists>r. d = b\<lparr>cs_requested := r\<rparr>"
  by (cases b; cases d) (auto simp: running_status_def Let_def split: if_splits bind_splits)

lemma get_status_additive:
  "powercap_get_status e w rp b mem s =
     map_option (\<lambda>(d, p, s'). (b\<lparr>cs_total_nodes := cs_total_nodes b + cs_total_nodes d, cs_idle_nodes := cs_idle_nodes b + cs_idle_nodes d,
        cs_released := cs_released b + cs_released d, cs_requested := cs_requested b + cs_requested d,
        cs_total_idle_power := cs_total_idle_power b + cs_total_idle_power d, cs_current_power := cs_current_power b + cs_current_power d,
        cs_total_powercap := cs_total_powercap b + cs_total_powercap d\<rparr>, p, s'))
      (powercap_get_status e w rp no_status mem s)"
proof -
  let ?z = "no_status\<lparr>cs_total_nodes := 1\<rparr>"
  have z: "no_status\<lparr>cs_total_nodes := cs_total_nodes no_status + 1\<rparr> = ?z" "cs_requested ?z = 0" by (simp_all add: no_status_def)
  show ?thesis
    using running_status_frame [of e rp ?z]
    unfolding powercap_get_status_def Let_def z running_additive [OF z(2), of e rp "b\<lparr>cs_total_nodes := cs_total_nodes b + 1\<rparr>"]
    by (cases b) (fastforce simp: no_status_def split: bind_splits)
qed

lemma get_status_greedy:
  "powercap_get_status e w rp b mem s = Some (d, p, s') \<Longrightarrow>
   cs_num_greedy d = cs_num_greedy b \<and> cs_greedy_nodes d = cs_greedy_nodes b \<and> cs_greedy_data d = cs_greedy_data b"
  by (subst (asm) get_status_additive) auto

lemma process_additive:
  assumes "listed_ok b" "unat (cs_num_greedy b) < 2 ^ 32 - 1" "cs_num_greedy z = 0"
    and "b' = b\<lparr>cs_total_nodes := cs_total_nodes b + cs_total_nodes z, cs_idle_nodes := cs_idle_nodes b + cs_idle_nodes z,
        cs_released := cs_released b + cs_released z, cs_requested := cs_requested b + cs_requested z,
        cs_total_idle_power := cs_total_idle_power b + cs_total_idle_power z, cs_current_power := cs_current_power b + cs_current_power z,
        cs_total_powercap := cs_total_powercap b + cs_total_powercap z\<rparr>"
    and "cs_greedy_nodes z = []" "cs_greedy_data z = []"
  shows "process_pmgt_status ip b' p = add_status b (process_pmgt_status ip z p)"
    and "listed_ok (process_pmgt_status ip z p)" "unat (cs_num_greedy (process_pmgt_status ip z p)) \<le> 1"
proof -
  have "unat (cs_num_greedy b + 1) = unat (cs_num_greedy b) + 1" using assms(2) by (simp add: unat_word_ariths)
  then have nw: "\<not> cs_num_greedy b + 1 < 1" by (simp add: word_less_nat_alt)
  show "process_pmgt_status ip b' p = add_status b (process_pmgt_status ip z p)"
    using assms(1,3,5,6) nw unfolding assms(4)
    by (cases b; cases z) (simp add: process_pmgt_status_def Let_def add_status_def merge_power_status_def listed_ok_def)
  show "listed_ok (process_pmgt_status ip z p)" "unat (cs_num_greedy (process_pmgt_status ip z p)) \<le> 1"
    using assms(3,5,6) by (simp_all add: process_pmgt_status_def Let_def listed_ok_def)
qed

lemma site_status_own:
  assumes "site_status rp n no_status = Some (d, s')"
  shows "listed_ok d \<and> unat (cs_num_greedy d) \<le> 1"
proof -
  obtain z p where z: "powercap_get_status (site_env n) (site_watts n) rp no_status (site_memory n) (site_state n) = Some (z, p, s')"
      "d = process_pmgt_status (np_ip s') z p"
    using assms by (auto simp: site_status_def dyncon_get_powerstatus_def split: bind_splits)
  show ?thesis
    using get_status_greedy [OF z(1)] process_additive(2,3) [of no_status z, OF _ _ _ refl] unfolding z(2)
    by (simp add: no_status_def listed_ok_def)
qed

lemma site_status_additive:
  assumes "listed_ok b" "unat (cs_num_greedy b) < 2 ^ 32 - 1"
  shows "site_status rp n b = map_option (\<lambda>(d, s'). (add_status b d, s')) (site_status rp n no_status)"
proof (cases "powercap_get_status (site_env n) (site_watts n) rp no_status (site_memory n) (site_state n)")
  case None
  then show ?thesis by (simp add: site_status_def dyncon_get_powerstatus_def get_status_additive [of _ _ _ b])
next
  case (Some r)
  obtain z p s' where r: "r = (z, p, s')" by (cases r)
  have "process_pmgt_status (np_ip s') (b\<lparr>cs_total_nodes := cs_total_nodes b + cs_total_nodes z, cs_idle_nodes := cs_idle_nodes b + cs_idle_nodes z,
        cs_released := cs_released b + cs_released z, cs_requested := cs_requested b + cs_requested z,
        cs_total_idle_power := cs_total_idle_power b + cs_total_idle_power z, cs_current_power := cs_current_power b + cs_current_power z,
        cs_total_powercap := cs_total_powercap b + cs_total_powercap z\<rparr>) p = add_status b (process_pmgt_status (np_ip s') z p)"
    using get_status_greedy [OF Some [unfolded r]] by (intro process_additive(1) [OF assms _ refl]) (simp_all add: no_status_def)
  then show ?thesis by (simp add: site_status_def dyncon_get_powerstatus_def get_status_additive [of _ _ _ b] Some r)
qed

lemma site_status_defined: "site_status rp n b = None \<longleftrightarrow> \<not> reports rp n"
proof -
  have "powercap_get_status e w rp b mem s = None \<longleftrightarrow> powercap_get_status e w rp no_status mem s = None" for e w mem s
    by (subst get_status_additive) simp
  from this [of "site_env n" "site_watts n" "site_memory n" "site_state n"] show ?thesis
    by (auto simp: reports_def site_status_def dyncon_get_powerstatus_def split: bind_splits)
qed

lemma own_status_eq:
  assumes "site_status rp n b = Some (d, s')" "listed_ok b" "unat (cs_num_greedy b) < 2 ^ 32 - 1"
  shows "reports rp n" "d = add_status b (own_status rp n)" "s' = reported rp n" 
  using assms(1) unfolding site_status_additive [OF assms(2,3)] by (auto simp: reports_def own_status_def reported_def)

lemma own_status_listed: "listed_ok (own_status rp n) \<and> unat (cs_num_greedy (own_status rp n)) \<le> 1"
  using site_status_own [of rp n]
  by (cases "site_status rp n no_status") (auto simp: own_status_def no_status_def listed_ok_def)

lemma listed_sum:
  assumes "listed_ok a" "listed_ok b" "unat (cs_num_greedy a) + unat (cs_num_greedy b) < 2 ^ 32"
  shows "listed_ok (add_status a b) \<and> unat (cs_num_greedy (add_status a b)) = unat (cs_num_greedy a) + unat (cs_num_greedy b) \<and>
    greedy_pairs (add_status a b) = greedy_pairs a @ greedy_pairs b"
  using assms by (simp add: listed_ok_def add_status_def merge_power_status_def greedy_pairs_def unat_word_ariths)

lemma merge_add_status:
  "merge_power_status a b = (add_status a b)\<lparr>cs_total_idle_power := 0\<rparr>"
  by (simp add: add_status_def merge_power_status_def)

lemma totals_add:
  assumes "status_totals rp sites a M" "status_totals rp sites b N" "size M + size N \<le> 2 ^ 32 - 1"
  shows "status_totals rp sites (add_status a b) (M + N)"
  using assms listed_sum [of a b] unfolding status_totals_def Let_def
  by (simp add: add_status_def merge_power_status_def)

lemma totals_own: "status_totals rp sites (own_status rp (sites c)) {#c#}"
  using own_status_listed [of rp "sites c"] by (simp add: status_totals_def)

interpretation st: collection status_kind "status_answer alive rp sites" "\<lambda>c. alive c \<and> reports rp (sites c)" "status_totals rp sites" "2 ^ 32 - 1"
  for alive rp sites
proof unfold_locales
  fix c :: i32 and a b d :: powercap_status and M N :: "i32 multiset"
  show "status_totals rp sites (kd_zero status_kind) {#}"
    by (simp add: status_totals_def status_kind_def no_status_def listed_ok_def greedy_pairs_def)
  show "status_totals rp sites (kd_merge status_kind a b) (M + N)"
    if "status_totals rp sites a M" "status_totals rp sites b N" "size M + size N \<le> 2 ^ 32 - 1"
    using totals_add [OF that] by (simp add: status_kind_def merge_add_status status_totals_def listed_ok_def greedy_pairs_def)
  show "status_answer alive rp sites c b = None \<longleftrightarrow> \<not> (alive c \<and> reports rp (sites c))"
    using site_status_defined [of rp "sites c" b] by (auto simp: status_answer_def)
  assume a: "status_answer alive rp sites c b = Some d" "status_totals rp sites b M" "size M < 2 ^ 32 - 1"
  then have "listed_ok b" "unat (cs_num_greedy b) < 2 ^ 32 - 1" by (auto simp: status_totals_def Let_def)
  then have "d = add_status b (own_status rp (sites c))"
    using own_status_eq(2) [of rp "sites c" b] a(1) by (auto simp: status_answer_def split: if_splits)
  then show "status_totals rp sites d (add_mset c M)" using totals_add [OF a(2) totals_own [of rp sites c]] a(3) by simp
qed

subsection \<open>Collected data\<close>

lemma command_length:
  assumes "\<And>c. ready c"
  shows "length (send_command_all ranges up ready) \<le> length (concat ranges)"
proof -
  have "size (mset (send_command_all ranges up ready)) \<le> size (mset (concat ranges))"
    unfolding send_command_all_mset [OF assms] by (rule size_filter_mset_lesseq)
  then show ?thesis by simp
qed

lemma idle_power_collected:
  assumes "\<And>c. ready c" "\<And>c. alive c \<Longrightarrow> accepts c"
    and "data_all_nodes release_kind ranges accepts (release_answer alive node) ready = Some d"
  shows "rd_released d = (\<Sum>c\<leftarrow>filter (\<lambda>c. alive c \<and> serving (node c)) (concat ranges). idle_release (node c))"
proof -
  let ?up = "\<lambda>c. alive c \<and> serving (node c)"
  have "gives (release_totals node) (Some d) (mset (send_command_all ranges ?up ready))"
    using rl_all.data_all_nodes_gives [OF order_refl, of alive node accepts ranges ready] assms(2,3) by auto
  then show ?thesis
    unfolding send_command_all_mset [OF assms(1)] by (simp add: gives_def release_totals_def flip: mset_filter sum_mset_sum_list)
qed

lemma listed_power_collected:
  assumes "distinct nodes" "data_nodelist power_kind (power_answer alive watts) nodes = Some d"
  shows "pw_power d = (\<Sum>c\<leftarrow>filter alive nodes. ucast (watts c)) \<and> pw_num_nodes d = of_nat (length (filter alive nodes))"
proof -
  have "gives (power_totals watts) (Some d) (mset (send_command_nodelist alive nodes))"
    using pw.data_nodelist_gives [OF order_refl, of watts alive nodes] assms(2) by simp
  then show ?thesis
    unfolding send_command_nodelist_mset [OF assms(1)] by (simp add: gives_def power_totals_def flip: mset_filter sum_mset_sum_list)
qed

text \<open>
  C7. The status that the cluster manager collects from the whole cluster counts every node that
  can be reached exactly once: its amounts are the sums of the reports of these nodes, and its list
  of greedy nodes holds exactly the entries that they report.
\<close>

theorem status_counts_every_node:
  assumes "\<And>c. ready c" "\<And>c. alive c \<Longrightarrow> accepts c" "length (concat ranges) < 2 ^ 32"
  shows "case data_all_nodes status_kind ranges accepts (status_answer alive rp sites) ready of
      None \<Rightarrow> \<forall>c \<in> set (concat ranges). \<not> (alive c \<and> reports rp (sites c))
    | Some d \<Rightarrow> status_totals rp sites d (filter_mset (\<lambda>c. alive c \<and> reports rp (sites c)) (mset (concat ranges)))"
proof -
  have "length (send_command_all ranges (\<lambda>c. alive c \<and> reports rp (sites c)) ready) \<le> 2 ^ 32 - 1"
    using command_length [of ready ranges "\<lambda>c. alive c \<and> reports rp (sites c)", OF assms(1)] assms(3) by linarith
  from st.data_all_nodes_gives [OF this, of accepts] assms(2) show ?thesis
    unfolding send_command_all_mset [OF assms(1)] by (auto simp: gives_def filter_empty_conv split: option.splits simp flip: mset_filter)
qed

definition idle_site :: node_site where
  [example_states]: "idle_site = \<lparr>site_env = plugins_env, site_watts = 90,
     site_memory = \<lparr>ps_status = 0, ps_tbr = 0, ps_extra = 0, ps_requested = 0, ps_stress = 0\<rparr>, site_state = on_example PC_STATUS_IDLE 300\<rparr>"

lemma idle_site_status: "\<exists>s. site_status rp idle_site no_status = Some (no_status\<lparr>cs_total_nodes := 1, cs_idle_nodes := 1, cs_total_idle_power := 300,
    cs_current_power := 90, cs_total_powercap := 300\<rparr>, s)"
  by (simp add: site_status_def example_states dyncon_get_powerstatus_def powercap_get_status_def
      powermon_report_event_def process_pmgt_status_def get_powercap_allocated_def no_status_def node_example_def Powercap_Status.node_example_def)

lemma idle_site_facts: "reports rp idle_site" "cs_total_nodes (own_status rp idle_site) = 1" "cs_total_powercap (own_status rp idle_site) = 300"
  using idle_site_status [of rp] by (auto simp: reports_def own_status_def)

lemma status_counts_every_node_witness:
  "\<exists>d. data_all_nodes status_kind [[10, 11, 12, 13], [20]] (\<lambda>_. True) (status_answer (\<lambda>c. c \<noteq> 10) True (\<lambda>_. idle_site)) (\<lambda>_. True) = Some d \<and>
     cs_total_nodes d = 4 \<and> cs_total_powercap d = 1200"
proof -
  let ?r = "data_all_nodes status_kind [[10, 11, 12, 13], [20]] (\<lambda>_. True) (status_answer (\<lambda>c. c \<noteq> 10) True (\<lambda>_. idle_site)) (\<lambda>_. True)"
  have "case ?r of None \<Rightarrow> \<forall>c \<in> set (concat [[10 :: i32, 11, 12, 13], [20]]). \<not> (c \<noteq> 10 \<and> reports True idle_site)
    | Some d \<Rightarrow> status_totals True (\<lambda>_. idle_site) d (filter_mset (\<lambda>c. c \<noteq> 10 \<and> reports True idle_site) (mset (concat [[10, 11, 12, 13], [20]])))"
    by (rule status_counts_every_node) simp_all
  then show ?thesis by (cases ?r) (auto simp: idle_site_facts status_totals_def Let_def)
qed

end
