(* ===== verification/Cluster_Round.thy ===== *)
theory Cluster_Round
  imports Collection Meta_Allocation
begin

text \<open>
  A round of the cluster powercap, from the reports of the nodes to their new limits: the daemons
  report through the propagation tree (\<open>Collection\<close>), the cluster manager computes the options
  (\<open>Cluster_Powercap\<close>) and every daemon applies the part of them that concerns it
  (\<open>Node_Powercap\<close>).  The contracts of the three components are put together: the power allocated
  on the nodes after the round keeps to the limit of the cluster.
\<close>

subsection \<open>What a node reports and how it applies the options\<close>

lemma release_power_status:
  "powercap_release_power e s = Some s' \<Longrightarrow> pc_powercap_status (np_opt s') = PC_STATUS_OK \<and> np_ip s' = np_ip s \<and> np_powercap_def s' = np_powercap_def s"
  by (auto simp: powercap_release_power_def Let_def with_opt_def split: if_splits bind_splits)

lemma report_event_opt: "powermon_report_event ev v s = Some s' \<Longrightarrow> np_opt s' = np_opt s \<and> np_ip s' = np_ip s \<and> np_powercap_def s' = np_powercap_def s"
  by (auto simp: powermon_report_event_def split: option.splits)

text \<open>A report is one of three: a greedy entry, a request of the default power, or neither.\<close>

lemma running_cases:
  assumes "running_status e rp b st s = Some (d, p, s')"
  shows "ps_status p = PC_STATUS_GREEDY \<and> cs_requested d = cs_requested b \<and> ps_extra p = extra_of (np_opt s') \<and> pc_powercap_status (np_opt s') = PC_STATUS_GREEDY \<or>
    ps_status p = PC_STATUS_OK \<and> cs_requested d = cs_requested b \<and> ps_extra p = extra_of (np_opt s') \<and> pc_powercap_status (np_opt s') = PC_STATUS_OK \<or>
    ps_status p = PC_STATUS_ASK_DEF \<and> cs_requested d = cs_requested b + (pc_def_powercap (np_opt s') - pc_last_t1_allocated (np_opt s')) \<and>
      pc_powercap_status (np_opt s') = PC_STATUS_ASK_DEF \<or>
    ps_status p \<notin> {PC_STATUS_OK, PC_STATUS_GREEDY} \<and> cs_requested d = cs_requested b \<and> pc_powercap_status (np_opt s') \<noteq> PC_STATUS_ASK_DEF"
proof -
  define st1 where "st1 = (if pc_last_t1_allocated (np_opt s) < pc_def_powercap (np_opt s) then st\<lparr>ps_status := PC_STATUS_ASK_DEF\<rparr> else st)"
  define s1 where "s1 = with_opt (\<lambda>opt. opt\<lparr>pc_powercap_status := ps_status st1\<rparr>) s"
  have s1: "pc_powercap_status (np_opt s1) = ps_status st1" by (simp add: s1_def)
  note run = assms [unfolded running_status_def Let_def, folded st1_def, folded s1_def]
  consider "ps_status st1 = PC_STATUS_GREEDY" | "ps_status st1 = PC_STATUS_RELEASE" | "ps_status st1 = PC_STATUS_ASK_DEF" | "ps_status st1 = PC_STATUS_OK"
    | "ps_status st1 \<notin> {PC_STATUS_OK, PC_STATUS_GREEDY, PC_STATUS_RELEASE, PC_STATUS_ASK_DEF}" by blast
  then show ?thesis
  proof cases
    case 2
    then obtain s2 where "powercap_release_power e s2 = Some s'" "d = b" "ps_status p = PC_STATUS_RELEASE"
      using run by (auto split: bind_splits)
    then show ?thesis using release_power_status by fastforce
  qed (use run s1 in auto)
qed

definition greedy_report :: "node_pc \<Rightarrow> powercap_status \<Rightarrow> bool" where
  [report_forms]: "greedy_report s d \<longleftrightarrow> (\<exists>g. greedy_pairs d = [(np_ip s, g)] \<and> gb_extra_power g = extra_of (np_opt s)) \<and> cs_requested d = 0 \<and>
     (pc_powercap_status (np_opt s) = PC_STATUS_GREEDY \<or>
      pc_powercap_status (np_opt s) = PC_STATUS_OK \<and> pc_last_t1_allocated (np_opt s) > pc_def_powercap (np_opt s))"

definition default_report :: "node_pc \<Rightarrow> powercap_status \<Rightarrow> bool" where
  [report_forms]: "default_report s d \<longleftrightarrow> greedy_pairs d = [] \<and> pc_powercap_status (np_opt s) = PC_STATUS_ASK_DEF \<and>
     cs_requested d = pc_def_powercap (np_opt s) - pc_last_t1_allocated (np_opt s)"

definition quiet_report :: "node_pc \<Rightarrow> powercap_status \<Rightarrow> bool" where
  [report_forms]: "quiet_report s d \<longleftrightarrow> greedy_pairs d = [] \<and> pc_powercap_status (np_opt s) \<noteq> PC_STATUS_ASK_DEF \<and> cs_requested d = 0"

lemma process_report:
  assumes "cs_num_greedy z = 0" "cs_greedy_nodes z = []" "cs_greedy_data z = []"
  shows "cs_requested (process_pmgt_status ip z p) = cs_requested z" "cs_total_powercap (process_pmgt_status ip z p) = cs_total_powercap z"
    and "if ps_status p = PC_STATUS_GREEDY \<or> ps_status p = PC_STATUS_OK \<and> ps_extra p \<noteq> 0
      then \<exists>g. greedy_pairs (process_pmgt_status ip z p) = [(ip, g)] \<and> gb_extra_power g = ps_extra p
      else greedy_pairs (process_pmgt_status ip z p) = []"
  using assms by (simp_all add: process_pmgt_status_def Let_def greedy_pairs_def)

lemma get_status_running:
  assumes "powercap_get_status e w rp no_status mem s0 = Some (z, p, s)" "pc_powercap_status (np_opt s0) \<noteq> PC_STATUS_IDLE"
  obtains st m d s1 where "running_status e rp (no_status\<lparr>cs_total_nodes := 1\<rparr>) st (s0\<lparr>np_pmgt := m\<rparr>) = Some (d, p, s1)"
    "cs_requested z = cs_requested d" "cs_total_powercap z = cs_total_powercap d + get_powercap_allocated (np_opt s1)" "np_opt s = np_opt s1"
  using assms by (auto simp: powercap_get_status_def Let_def no_status_def dest!: report_event_opt split: bind_splits)

lemma site_report:
  assumes "site_status rp n no_status = Some (d, s)"
  shows "cs_total_powercap d = get_powercap_allocated (np_opt s) \<and> (greedy_report s d \<or> default_report s d \<or> quiet_report s d)"
proof -
  obtain z p where z: "powercap_get_status (site_env n) (site_watts n) rp no_status (site_memory n) (site_state n) = Some (z, p, s)"
      "d = process_pmgt_status (np_ip s) z p"
    using assms by (auto simp: site_status_def dyncon_get_powerstatus_def split: bind_splits)
  have g: "cs_num_greedy z = 0" "cs_greedy_nodes z = []" "cs_greedy_data z = []" using get_status_greedy [OF z(1)] by (simp_all add: no_status_def)
  note r = process_report [OF g, where ip = "np_ip s" and p = p, folded z(2)]
  show ?thesis
  proof (cases "pc_powercap_status (np_opt (site_state n)) = PC_STATUS_IDLE")
    case True
    then have "ps_status p = PC_STATUS_IDLE" "cs_requested z = 0" "cs_total_powercap z = get_powercap_allocated (np_opt s)"
        "pc_powercap_status (np_opt s) = PC_STATUS_IDLE"
      using z(1) by (auto simp: powercap_get_status_def Let_def no_status_def dest!: report_event_opt split: bind_splits)
    then show ?thesis using r by (simp add: quiet_report_def)
  next
    case False
    from get_status_running [OF z(1) False] obtain e st s0 d1 s1
      where run: "running_status (site_env n) rp (no_status\<lparr>cs_total_nodes := 1\<rparr>) st s0 = Some (d1, p, s1)"
        and d1: "cs_requested z = cs_requested d1" "cs_total_powercap z = cs_total_powercap d1 + get_powercap_allocated (np_opt s1)" "np_opt s = np_opt s1"
      by metis
    have t: "cs_total_powercap d1 = 0" using running_status_frame [OF run] by (auto simp: no_status_def)
    have e: "extra_of (np_opt s) \<noteq> 0 \<Longrightarrow> pc_last_t1_allocated (np_opt s) > pc_def_powercap (np_opt s)" by (simp add: extra_of_def split: if_splits)
    have z0: "cs_requested (no_status\<lparr>cs_total_nodes := 1\<rparr>) = 0" by (simp add: no_status_def)
    from running_cases [OF run, unfolded z0, folded d1(3)] show ?thesis
      using r t d1 e by (elim disjE) (auto simp: report_forms split: if_splits)
  qed
qed

lemma set_opt_alloc:
  assumes "powercap_set_opt e options idx s = Some s'" "is_powercap_on (np_opt s)" "\<not> is_powercap_unlimited s"
  shows "idx < 0 \<Longrightarrow> pc_powercap_status (np_opt s) = PC_STATUS_ASK_DEF \<Longrightarrow> pc_last_t1_allocated (np_opt s') = clipped s (pc_def_powercap (np_opt s))"
    and "idx < 0 \<Longrightarrow> pc_powercap_status (np_opt s) \<noteq> PC_STATUS_ASK_DEF \<Longrightarrow> pc_last_t1_allocated (np_opt s') = pc_last_t1_allocated (np_opt s)"
    and "0 \<le> idx \<Longrightarrow> pc_powercap_status (np_opt s) = PC_STATUS_GREEDY \<or>
        pc_powercap_status (np_opt s) = PC_STATUS_OK \<and> pc_last_t1_allocated (np_opt s) > pc_def_powercap (np_opt s) \<Longrightarrow>
      pc_last_t1_allocated (np_opt s') = clipped s (pc_last_t1_allocated (np_opt s) + po_extra_power options ! nat idx)"
proof -
  define s0 where "s0 = with_opt (\<lambda>opt. opt\<lparr>pc_cluster_perc_power := ucast (po_cluster_perc_power options)\<rparr>)
    (s\<lparr>np_last_cluster_perc := po_cluster_perc_power options\<rparr>)"
  have s0: "clipped s0 v = clipped s v" "pc_powercap_status (np_opt s0) = pc_powercap_status (np_opt s)"
    "pc_last_t1_allocated (np_opt s0) = pc_last_t1_allocated (np_opt s)" "pc_def_powercap (np_opt s0) = pc_def_powercap (np_opt s)" for v
    by (simp_all add: s0_def clipped_def)
  have w: "clipped (with_opt f s0) v = clipped s0 v" for f v by (simp add: clipped_def)
  note run = assms(1) [unfolded powercap_set_opt_def Let_def, folded s0_def, unfolded s0]
  show "pc_last_t1_allocated (np_opt s') = clipped s (pc_def_powercap (np_opt s))" if "idx < 0" "pc_powercap_status (np_opt s) = PC_STATUS_ASK_DEF"
    using run that assms(2,3) by (auto simp: bind_eq_Some_conv s0 w dest!: set_node_limit_Some(2) report_event_opt)
  show "pc_last_t1_allocated (np_opt s') = pc_last_t1_allocated (np_opt s)" if "idx < 0" "pc_powercap_status (np_opt s) \<noteq> PC_STATUS_ASK_DEF"
    using run that assms(2,3) s0(3) by auto
  show "pc_last_t1_allocated (np_opt s') = clipped s (pc_last_t1_allocated (np_opt s) + po_extra_power options ! nat idx)"
    if "0 \<le> idx" "pc_powercap_status (np_opt s) = PC_STATUS_GREEDY \<or>
        pc_powercap_status (np_opt s) = PC_STATUS_OK \<and> pc_last_t1_allocated (np_opt s) > pc_def_powercap (np_opt s)"
    using run that assms(2,3) by (auto simp: bind_eq_Some_conv s0 Let_def dest!: apply_extra_opt report_event_opt)
qed

lemma add_signed_le:
  fixes a :: u32 and b :: i32
  assumes "0 \<le> int (unat a) + sint b"
  shows "int (unat (a + b)) \<le> int (unat a) + sint b"
proof -
  have "uint (a + b) = (uint a + sint b) mod 2 ^ 32" 
    using uint_sint [of b] uint_word_ariths(1) [of a b] by (simp add: take_bit_eq_mod mod_add_right_eq)
  moreover have u: "int (unat x) = uint x" for x :: u32 by (rule uint_nat [symmetric])
  ultimately show ?thesis using assms zmod_le_nonneg_dividend [of "uint a + sint b" "2 ^ 32"] unfolding u [symmetric] by linarith
qed

lemma clipped_bound: "unat (clipped s v) \<le> unat v"
  by (auto simp: clipped_def ear_min_def word_le_nat_alt word_less_nat_alt)

text \<open>The new allocation of a node, for an option that takes at most the power over its default.\<close>

lemma options_bound:
  assumes "powercap_set_opt e options idx s = Some s'" "is_powercap_on (np_opt s)" "\<not> is_powercap_unlimited s"
  shows "greedy_report s d \<Longrightarrow> 0 \<le> idx \<Longrightarrow> - int (unat (extra_of (np_opt s))) \<le> sint (po_extra_power options ! nat idx) \<Longrightarrow>
      int (unat (get_powercap_allocated (np_opt s'))) \<le> int (unat (get_powercap_allocated (np_opt s))) + sint (po_extra_power options ! nat idx)"
    and "default_report s d \<or> quiet_report s d \<Longrightarrow> idx < 0 \<Longrightarrow> unat (get_powercap_allocated (np_opt s)) + unat (cs_requested d) < 2 ^ 32 \<Longrightarrow>
      unat (get_powercap_allocated (np_opt s')) \<le> unat (get_powercap_allocated (np_opt s)) + unat (cs_requested d)"
proof -
  let ?l = "pc_last_t1_allocated (np_opt s)" and ?d = "pc_def_powercap (np_opt s)"
  show "int (unat (get_powercap_allocated (np_opt s'))) \<le> int (unat (get_powercap_allocated (np_opt s))) + sint (po_extra_power options ! nat idx)"
    if g: "greedy_report s d" and idx: "0 \<le> idx" and lo: "- int (unat (extra_of (np_opt s))) \<le> sint (po_extra_power options ! nat idx)"
  proof -
    have "unat (extra_of (np_opt s)) \<le> unat ?l"
      by (auto simp: extra_of_def unsigned_ucast_eq take_bit_nat_eq_self_iff word_less_nat_alt unat_sub_if_size
          intro: order_trans [OF take_bit_nat_less_eq_self])
    then have "0 \<le> int (unat ?l) + sint (po_extra_power options ! nat idx)" using lo by linarith
    from add_signed_le [OF this] show ?thesis
      using set_opt_alloc(3) [OF assms idx] g clipped_bound [of s "?l + po_extra_power options ! nat idx"]
      by (auto simp: greedy_report_def get_powercap_allocated_def)
  qed
  show "unat (get_powercap_allocated (np_opt s')) \<le> unat (get_powercap_allocated (np_opt s)) + unat (cs_requested d)"
    if r: "default_report s d \<or> quiet_report s d" and idx: "idx < 0" and nw: "unat (get_powercap_allocated (np_opt s)) + unat (cs_requested d) < 2 ^ 32"
  proof (cases "default_report s d")
    case True
    then have req: "cs_requested d = ?d - ?l" "pc_powercap_status (np_opt s) = PC_STATUS_ASK_DEF" by (auto simp: default_report_def)
    have "unat (?l + (?d - ?l)) = unat ?l + unat (?d - ?l)"
      using nw unfolding req(1) by (intro unat_add_lem [THEN iffD1]) (simp add: get_powercap_allocated_def)
    then show ?thesis using set_opt_alloc(1) [OF assms idx req(2)] clipped_bound [of s ?d] req(1) by (simp add: get_powercap_allocated_def)
  next
    case False
    then show ?thesis using r set_opt_alloc(2) [OF assms idx] by (auto simp: quiet_report_def get_powercap_allocated_def)
  qed
qed

subsection \<open>Which option a node takes\<close>

lemma filter_loop_nth: "distinct ns \<Longrightarrow> i < length ns \<Longrightarrow> filter_loop (ns ! i) ns k = k + int i"
proof (induction ns arbitrary: i k)
  case (Cons n ns)
  then show ?case by (cases i) auto
qed simp

lemma filter_loop_absent: "c \<notin> set ns \<Longrightarrow> filter_loop c ns k = - 1"
  by (induction ns arbitrary: k) auto

lemma options_sum:
  fixes f :: "i32 \<Rightarrow> int"
  assumes "mset gn = mset (filter L nodes)" "distinct nodes" "length es = length gn"
  shows "(\<Sum>c\<leftarrow>nodes. if L c then f (es ! nat (filter_loop c gn 0)) else 0) = (\<Sum>e\<leftarrow>es. f e)"
proof -
  let ?x = "\<lambda>c. f (es ! nat (filter_loop c gn 0))"
  have d: "distinct gn" using mset_eq_imp_distinct_iff [OF assms(1)] assms(2) by simp
  have m: "(\<Sum>c\<leftarrow>xs. ?x c) = (\<Sum>c\<in>#mset xs. ?x c)" for xs by (induction xs) auto
  have "(\<Sum>c\<leftarrow>nodes. if L c then ?x c else 0) = (\<Sum>c\<leftarrow>filter L nodes. ?x c)" by (simp add: sum_list_map_filter')
  also have "\<dots> = (\<Sum>c\<leftarrow>gn. ?x c)" unfolding m assms(1) ..
  also have "map ?x gn = map f es" by (rule nth_equalityI) (use filter_loop_nth [OF d, of _ 0] assms(3) in auto)
  finally show ?thesis by simp
qed

lemma allocate_nodes:
  "allocate_free_power_to_greedy_nodes s cs opts f = (s', opts', r) \<Longrightarrow> po_greedy_nodes opts' = po_greedy_nodes opts \<and> po_num_greedy opts' = po_num_greedy opts"
  by (auto simp: allocate_free_power_to_greedy_nodes_def Let_def case_prod_unfold split: if_splits)

lemma reduce_nodes:
  "po_greedy_nodes (reduce_allocation s cs opts m) = po_greedy_nodes opts" "po_num_greedy (reduce_allocation s cs opts m) = po_num_greedy opts"
  by (simp_all add: reduce_allocation_def Let_def case_prod_unfold)

lemma prepare_nodes:
  "po_greedy_nodes (prepare_options s cs opts) = take (unat (cs_num_greedy cs)) (cs_greedy_nodes cs)"
  "po_num_greedy (prepare_options s cs opts) = cs_num_greedy cs"
  by (simp_all add: prepare_options_def Let_def)

lemma reallocation_nodes:
  "powercap_reallocation s cs opts = (True, s', opts') \<Longrightarrow>
   po_greedy_nodes opts' = take (unat (cs_num_greedy cs)) (cs_greedy_nodes cs) \<and> po_num_greedy opts' = cs_num_greedy cs"
  unfolding powercap_reallocation_def Let_def read_non_computational_power_def
  by (auto simp: prepare_nodes reduce_nodes dest!: allocate_nodes split: if_splits prod.splits)

lemma unat_sum_words:
  fixes f :: "i32 \<Rightarrow> u32"
  shows "(\<Sum>c\<leftarrow>nodes. unat (f c)) < 2 ^ 32 \<Longrightarrow> unat (\<Sum>c\<in>#mset nodes. f c) = (\<Sum>c\<leftarrow>nodes. unat (f c))"
  by (induction nodes) (auto simp: unat_word_ariths)

text \<open>The greedy entries of the collected status belong to the nodes that report them.\<close>

lemma collected_entries:
  assumes "mset (greedy_pairs cs) = (\<Sum>c\<in>#mset nodes. mset (greedy_pairs (own c)))" "listed_ok cs"
    and "\<forall>c \<in> set nodes. greedy_pairs (own c) = [] \<or> (\<exists>g. greedy_pairs (own c) = [(c, g)])"
  shows "mset (cs_greedy_nodes cs) = mset (filter (\<lambda>c. greedy_pairs (own c) \<noteq> []) nodes)"
    and "i < length (cs_greedy_nodes cs) \<Longrightarrow> greedy_pairs (own (cs_greedy_nodes cs ! i)) = [(cs_greedy_nodes cs ! i, cs_greedy_data cs ! i)]"
proof -
  have fst: "cs_greedy_nodes cs = map fst (greedy_pairs cs)" using assms(2) by (simp add: greedy_pairs_def listed_ok_def)
  have "image_mset fst (\<Sum>c\<in>#mset xs. mset (greedy_pairs (own c))) = mset (filter (\<lambda>c. greedy_pairs (own c) \<noteq> []) xs)"
    if "set xs \<subseteq> set nodes" for xs
    using that
  proof (induction xs)
    case (Cons c xs)
    then show ?case using assms(3) by auto
  qed simp
  from this [of nodes] show "mset (cs_greedy_nodes cs) = mset (filter (\<lambda>c. greedy_pairs (own c) \<noteq> []) nodes)"
    unfolding fst using assms(1) by simp
  show "greedy_pairs (own (cs_greedy_nodes cs ! i)) = [(cs_greedy_nodes cs ! i, cs_greedy_data cs ! i)]" if "i < length (cs_greedy_nodes cs)"
  proof -
    have "(cs_greedy_nodes cs ! i, cs_greedy_data cs ! i) \<in># mset (greedy_pairs cs)"
      using that assms(2) by (auto simp: greedy_pairs_def listed_ok_def set_zip)
    then obtain c where c: "c \<in> set nodes" "(cs_greedy_nodes cs ! i, cs_greedy_data cs ! i) \<in> set (greedy_pairs (own c))"
      unfolding assms(1) by auto
    then show ?thesis using assms(3) c by fastforce
  qed
qed

subsection \<open>The round\<close>

text \<open>A node that takes part in the powercap, known to its daemon by the address of the list.\<close>

definition managed :: "node_pc \<Rightarrow> i32 \<Rightarrow> bool" where
  "managed s c \<longleftrightarrow> np_ip s = c \<and> is_powercap_on (np_opt s) \<and> \<not> is_powercap_unlimited s"

abbreviation allocated :: "node_pc \<Rightarrow> nat" where
  "allocated s \<equiv> unat (get_powercap_allocated (np_opt s))"

text \<open>One node, whose entry of the list, if any, is number \<open>j\<close>.\<close>

lemma node_bound:
  fixes gn :: "i32 list"
  defines "L \<equiv> \<lambda>d. greedy_pairs d \<noteq> []"
  assumes "managed s c" "greedy_report s d \<or> default_report s d \<or> quiet_report s d" "allocated s + unat (cs_requested d) < 2 ^ 32"
    and "powercap_set_opt e opts (filter_loop c gn 0) s = Some s'" "distinct gn"
    and "L d \<Longrightarrow> \<exists>j g. j < length gn \<and> gn ! j = c \<and> greedy_pairs d = [(c, g)] \<and> - int (unat (gb_extra_power g)) \<le> sint (po_extra_power opts ! j)"
    and "\<not> L d \<Longrightarrow> c \<notin> set gn"
  shows "int (allocated s') \<le> int (allocated s) + int (unat (cs_requested d)) + (if L d then sint (po_extra_power opts ! nat (filter_loop c gn 0)) else 0)"
proof (cases "L d")
  case True
  then obtain j g where j: "j < length gn" "gn ! j = c" "greedy_pairs d = [(c, g)]" "- int (unat (gb_extra_power g)) \<le> sint (po_extra_power opts ! j)"
    using assms(7) by blast
  have i: "filter_loop c gn 0 = int j" using filter_loop_nth [OF assms(6) j(1), of 0] j(2) by simp
  have g: "greedy_report s d" using assms(3) j(3) by (auto simp: default_report_def quiet_report_def)
  then have "gb_extra_power g = extra_of (np_opt s)" using j(3) by (auto simp: greedy_report_def)
  then show ?thesis
    using options_bound(1) [OF assms(5) _ _ g] assms(2) j(4) True by (auto simp: i managed_def)
next
  case False
  then have "default_report s d \<or> quiet_report s d" using assms(3) by (auto simp: L_def greedy_report_def)
  then show ?thesis
    using options_bound(2) [OF assms(5) _ _ _ _ assms(4)] filter_loop_absent [OF assms(8) [OF False], of 0] assms(2) False by (auto simp: managed_def)
qed

text \<open>The reports of the nodes, the collected status and the options that answer it.\<close>

definition round_ok :: "bool \<Rightarrow> (i32 \<Rightarrow> node_site) \<Rightarrow> powercap_status \<Rightarrow> i32 list \<Rightarrow> powercap_opt \<Rightarrow> bool" where
  "round_ok rp sites cs nodes opts \<longleftrightarrow> status_totals rp sites cs (mset nodes) \<and> distinct nodes \<and>
     (\<forall>c \<in> set nodes. reports rp (sites c) \<and> managed (reported rp (sites c)) c) \<and>
     (\<Sum>c\<leftarrow>nodes. allocated (reported rp (sites c)) + unat (cs_requested (own_status rp (sites c)))) < 2 ^ 32 \<and>
     fair_options (greedy_list cs) opts \<and> po_greedy_nodes opts = cs_greedy_nodes cs \<and> po_num_greedy opts = cs_num_greedy cs"

lemma round_reports:
  assumes "round_ok rp sites cs nodes opts" "c \<in> set nodes"
  defines "s \<equiv> reported rp (sites c)" and "d \<equiv> own_status rp (sites c)"
  shows "cs_total_powercap d = get_powercap_allocated (np_opt s)" "greedy_report s d \<or> default_report s d \<or> quiet_report s d" "managed s c"
    and "greedy_pairs d = [] \<or> (\<exists>g. greedy_pairs d = [(c, g)])"
proof -
  have "reports rp (sites c)" and m: "managed s c" using assms(1,2) by (auto simp: round_ok_def s_def)
  then have r: "cs_total_powercap d = get_powercap_allocated (np_opt s) \<and> (greedy_report s d \<or> default_report s d \<or> quiet_report s d)"
    using site_report [of rp "sites c"] by (auto simp: reports_def own_status_def reported_def s_def d_def)
  then show "cs_total_powercap d = get_powercap_allocated (np_opt s)" "greedy_report s d \<or> default_report s d \<or> quiet_report s d" "managed s c"
    using m by auto
  show "greedy_pairs d = [] \<or> (\<exists>g. greedy_pairs d = [(c, g)])"
    using r m by (auto simp: report_forms managed_def)
qed

lemma round_entries:
  assumes "round_ok rp sites cs nodes opts"
  defines "L \<equiv> \<lambda>c. greedy_pairs (own_status rp (sites c)) \<noteq> []"
  shows "mset (cs_greedy_nodes cs) = mset (filter L nodes)" "distinct (cs_greedy_nodes cs)"
    "length (po_extra_power opts) = length (cs_greedy_nodes cs)"
    and "c \<in> set nodes \<Longrightarrow> L c \<Longrightarrow> \<exists>j g. j < length (cs_greedy_nodes cs) \<and> cs_greedy_nodes cs ! j = c \<and>
      greedy_pairs (own_status rp (sites c)) = [(c, g)] \<and> - int (unat (gb_extra_power g)) \<le> sint (po_extra_power opts ! j)"
proof -
  note t = assms(1) [unfolded round_ok_def status_totals_def Let_def]
  have gl: "greedy_list cs = cs_greedy_data cs" using t by (auto simp: listed_ok_def)
  have f: "list_all2 (\<lambda>g e. - int (unat (gb_extra_power g)) \<le> sint e \<and> sint e \<le> int (unat (gb_requested g))) (cs_greedy_data cs) (po_extra_power opts)"
    using t unfolding fair_options_def gl by blast
  have "mset (greedy_pairs cs) = (\<Sum>c\<in>#mset nodes. mset (greedy_pairs (own_status rp (sites c))))" and ok: "listed_ok cs" using t by auto
  note entries = collected_entries [OF this] 
  have pairs: "\<forall>c \<in> set nodes. greedy_pairs (own_status rp (sites c)) = [] \<or> (\<exists>g. greedy_pairs (own_status rp (sites c)) = [(c, g)])"
    using round_reports(4) [OF assms(1)] by blast
  show m: "mset (cs_greedy_nodes cs) = mset (filter L nodes)" using entries(1) [OF pairs] by (simp add: L_def)
  show "distinct (cs_greedy_nodes cs)" using mset_eq_imp_distinct_iff [OF m] t by simp
  show l: "length (po_extra_power opts) = length (cs_greedy_nodes cs)" using list_all2_lengthD [OF f] ok by (simp add: listed_ok_def)
  assume c: "c \<in> set nodes" "L c"
  then have "c \<in> set (cs_greedy_nodes cs)" using arg_cong [OF m, of set_mset] by auto
  then obtain j where j: "j < length (cs_greedy_nodes cs)" "cs_greedy_nodes cs ! j = c" by (auto simp: in_set_conv_nth)
  then show "\<exists>j g. j < length (cs_greedy_nodes cs) \<and> cs_greedy_nodes cs ! j = c \<and>
      greedy_pairs (own_status rp (sites c)) = [(c, g)] \<and> - int (unat (gb_extra_power g)) \<le> sint (po_extra_power opts ! j)"
    using entries(2) [OF pairs j(1)] list_all2_nthD2 [OF f, of j] l by auto
qed

lemma round_node:
  assumes "round_ok rp sites cs nodes opts" "c \<in> set nodes"
    and "dyncon_power_management (site_env (sites c)) (Set_Powercap_Opt opts) (reported rp (sites c)) = Some s'"
  defines "d \<equiv> own_status rp (sites c)"
  shows "int (allocated s') \<le> int (allocated (reported rp (sites c))) + int (unat (cs_requested d)) +
    (if greedy_pairs d \<noteq> [] then sint (po_extra_power opts ! nat (filter_loop c (cs_greedy_nodes cs) 0)) else 0)"
proof (rule node_bound)
  note t = assms(1) [unfolded round_ok_def status_totals_def Let_def]
  show m: "managed (reported rp (sites c)) c"
    and "greedy_report (reported rp (sites c)) d \<or> default_report (reported rp (sites c)) d \<or> quiet_report (reported rp (sites c)) d"
    using round_reports [OF assms(1,2)] by (auto simp: d_def)
  show "distinct (cs_greedy_nodes cs)" by (rule round_entries(2) [OF assms(1)])
  have "allocated (reported rp (sites c)) + unat (cs_requested d) \<le>
      (\<Sum>c\<leftarrow>nodes. allocated (reported rp (sites c)) + unat (cs_requested (own_status rp (sites c))))"
    by (rule member_le_sum_list) (use assms(2) in \<open>auto simp: d_def\<close>)
  then show "allocated (reported rp (sites c)) + unat (cs_requested d) < 2 ^ 32" using t by linarith
  show "powercap_set_opt (site_env (sites c)) opts (filter_loop c (cs_greedy_nodes cs) 0) (reported rp (sites c)) = Some s'"
    using assms(3) t m by (simp add: dyncon_filter_opt_def managed_def listed_ok_def)
  show "greedy_pairs d \<noteq> [] \<Longrightarrow> \<exists>j g. j < length (cs_greedy_nodes cs) \<and> cs_greedy_nodes cs ! j = c \<and>
      greedy_pairs d = [(c, g)] \<and> - int (unat (gb_extra_power g)) \<le> sint (po_extra_power opts ! j)"
    using round_entries(4) [OF assms(1,2)] by (simp add: d_def)
  show "\<not> greedy_pairs d \<noteq> [] \<Longrightarrow> c \<notin> set (cs_greedy_nodes cs)"
    using arg_cong [OF round_entries(1) [OF assms(1)], of set_mset] by (auto simp: d_def)
qed

lemma round_bound:
  assumes "round_ok rp sites cs nodes opts"
    and "\<And>c. c \<in> set nodes \<Longrightarrow> dyncon_power_management (site_env (sites c)) (Set_Powercap_Opt opts) (reported rp (sites c)) = Some (after c)"
  shows "int (\<Sum>c\<leftarrow>nodes. allocated (after c)) \<le> balance cs opts"
proof -
  let ?own = "\<lambda>c. own_status rp (sites c)" and ?es = "po_extra_power opts"
  let ?x = "\<lambda>c. if greedy_pairs (?own c) \<noteq> [] then sint (?es ! nat (filter_loop c (cs_greedy_nodes cs) 0)) else 0"
  let ?a = "\<lambda>c. allocated (reported rp (sites c))" and ?r = "\<lambda>c. unat (cs_requested (?own c))"
  note t = assms(1) [unfolded round_ok_def status_totals_def Let_def]
  have "int (\<Sum>c\<leftarrow>nodes. allocated (after c)) = (\<Sum>c\<leftarrow>nodes. int (allocated (after c)))" by (induction nodes) auto
  also have "\<dots> \<le> (\<Sum>c\<leftarrow>nodes. int (?a c) + int (?r c) + ?x c)"
    using round_node [OF assms(1) _ assms(2)] by (intro sum_list_mono) blast
  also have "\<dots> = int (\<Sum>c\<leftarrow>nodes. ?a c) + int (\<Sum>c\<leftarrow>nodes. ?r c) + (\<Sum>c\<leftarrow>nodes. ?x c)" by (induction nodes) auto
  also have "(\<Sum>c\<leftarrow>nodes. ?x c) = (\<Sum>e\<leftarrow>?es. sint e)"
    using t by (intro options_sum round_entries(1,3) [OF assms(1)]) simp
  also have "int (\<Sum>c\<leftarrow>nodes. ?a c) + int (\<Sum>c\<leftarrow>nodes. ?r c) + (\<Sum>e\<leftarrow>?es. sint e) = balance cs opts"
  proof -
    have e: "map (\<lambda>c. unat (cs_total_powercap (?own c))) nodes = map ?a nodes" using round_reports(1) [OF assms(1)] by auto
    have "(\<Sum>c\<leftarrow>nodes. ?a c) < 2 ^ 32" "(\<Sum>c\<leftarrow>nodes. ?r c) < 2 ^ 32" using t by (simp_all add: sum_list_addf)
    then show ?thesis using t unat_sum_words [of "\<lambda>c. cs_total_powercap (?own c)" nodes] unat_sum_words [of "\<lambda>c. cs_requested (?own c)" nodes]
      unfolding balance_def by (simp add: e)
  qed
  finally show ?thesis .
qed

lemma round_established:
  assumes "status_totals rp sites cs (mset nodes)" "distinct nodes" "length nodes \<le> 2 ^ 16"
    and "\<forall>c \<in> set nodes. reports rp (sites c) \<and> managed (reported rp (sites c)) c"
    and "(\<Sum>c\<leftarrow>nodes. allocated (reported rp (sites c)) + unat (cs_requested (own_status rp (sites c)))) < 2 ^ 32"
    and "unat (gm_current_cluster_powercap gm) < 2 ^ 31"
    and "powercap_reallocation (aggregate_data gm cs) cs empty_powercap_opt = (True, gm', opts)"
  shows "round_ok rp sites cs nodes opts"
    and "balance cs opts \<le> max (int (unat (gm_current_cluster_powercap gm)))
      (int (unat (cs_total_powercap cs)) + int (unat (cs_requested cs)) - int (extras (greedy_list cs)))"
proof -
  note t = assms(1) [unfolded status_totals_def Let_def]
  have len: "length (greedy_list cs) \<le> 2 ^ 16" "unat (cs_num_greedy cs) = length (greedy_list cs)" using t assms(3) by (auto simp: listed_ok_def)
  have rep: "cs_total_powercap (own_status rp (sites c)) = get_powercap_allocated (np_opt (reported rp (sites c)))" if "c \<in> set nodes" for c
    using site_report [of rp "sites c"] assms(4) that by (auto simp: reports_def own_status_def reported_def)
  then have e: "map (\<lambda>c. unat (cs_total_powercap (own_status rp (sites c)))) nodes = map (\<lambda>c. allocated (reported rp (sites c))) nodes" by auto
  have "unat (cs_total_powercap cs) + unat (cs_requested cs) < 2 ^ 32"
    using t assms(5) unat_sum_words [of "\<lambda>c. cs_total_powercap (own_status rp (sites c))" nodes]
      unat_sum_words [of "\<lambda>c. cs_requested (own_status rp (sites c))" nodes]
    by (simp add: e sum_list_addf)
  from reallocation_accepted [OF refl len aggregated_aggregate empty_ready this _ assms(7)] assms(6)
  have f: "fair_options (greedy_list cs) opts \<and> balance cs opts + int (unat (gm_total_free gm')) = max (int (unat (gm_current_cluster_powercap gm)))
      (int (unat (cs_total_powercap cs)) + int (unat (cs_requested cs)) - int (extras (greedy_list cs)))"
    by (simp add: aggregate_current)
  then show "balance cs opts \<le> max (int (unat (gm_current_cluster_powercap gm)))
      (int (unat (cs_total_powercap cs)) + int (unat (cs_requested cs)) - int (extras (greedy_list cs)))" by linarith
  show "round_ok rp sites cs nodes opts"
    unfolding round_ok_def using assms(1,2,4,5) f reallocation_nodes [OF assms(7)] t by (simp add: listed_ok_def)
qed

text \<open>
  C1. A round of the powercap keeps to the limit of the cluster: when the manager collects the
  status of the cluster, computes the options from it and the nodes apply them, the power then
  allocated on all the nodes that take part is at most the limit of the cluster or, when the limit is
  below what the running nodes need at least, at most that.
\<close>

theorem cluster_round_within_limit:
  assumes "\<And>c. ready c" "\<And>c. alive c \<Longrightarrow> accepts c" "distinct (concat ranges)" "length (concat ranges) \<le> 2 ^ 16"
    and "nodes = filter (\<lambda>c. alive c \<and> reports rp (sites c)) (concat ranges)" "\<And>c. c \<in> set nodes \<Longrightarrow> managed (reported rp (sites c)) c"
    and "(\<Sum>c\<leftarrow>nodes. allocated (reported rp (sites c)) + unat (cs_requested (own_status rp (sites c)))) < 2 ^ 32"
    and "data_all_nodes status_kind ranges accepts (status_answer alive rp sites) ready = Some cs"
    and "unat (gm_current_cluster_powercap gm) < 2 ^ 31" "powercap_reallocation (aggregate_data gm cs) cs empty_powercap_opt = (True, gm', opts)"
    and "\<And>c. c \<in> set nodes \<Longrightarrow> dyncon_power_management (site_env (sites c)) (Set_Powercap_Opt opts) (reported rp (sites c)) = Some (after c)"
  shows "int (\<Sum>c\<leftarrow>nodes. allocated (after c)) \<le> max (int (unat (gm_current_cluster_powercap gm)))
    (int (unat (cs_total_powercap cs)) + int (unat (cs_requested cs)) - int (extras (greedy_list cs)))"
proof -
  have "length (send_command_all ranges (\<lambda>c. alive c \<and> reports rp (sites c)) ready) \<le> 2 ^ 32 - 1"
    using command_length [of ready ranges "\<lambda>c. alive c \<and> reports rp (sites c)", OF assms(1)] assms(4) by simp
  from st.data_all_nodes_gives [OF this, of accepts] assms(2,8)
  have "status_totals rp sites cs (mset nodes)"
    unfolding send_command_all_mset [OF assms(1)] by (simp add: gives_def assms(5))
  then have "round_ok rp sites cs nodes opts" and le: "balance cs opts \<le> max (int (unat (gm_current_cluster_powercap gm)))
      (int (unat (cs_total_powercap cs)) + int (unat (cs_requested cs)) - int (extras (greedy_list cs)))"
    using assms(3,4,6,7,9,10) le_trans [OF length_filter_le [of _ "concat ranges"] assms(4)]
    by (intro round_established; force simp: assms(5))+
  from round_bound [OF this(1) assms(11)] le show ?thesis by (rule order_trans)
qed

text \<open>A node that asks for its default power of 1024 W while it has 512 W, and an idle one with 300 W.\<close>

definition asking_state :: node_pc where
  [example_states]: "asking_state = (on_example PC_STATUS_OK 512)\<lparr>np_opt := (np_opt (on_example PC_STATUS_OK 512))\<lparr>pc_def_powercap := 1024\<rparr>,
     np_pmgt := manager_example\<lparr>pg_limit := POWER_CAP_UNLIMITED\<rparr>\<rparr>"

definition round_sites :: "i32 \<Rightarrow> node_site" where
  "round_sites c = (if c = 7 then idle_site\<lparr>site_watts := 400, site_state := asking_state\<rparr>
     else idle_site\<lparr>site_state := (site_state idle_site)\<lparr>np_ip := 8\<rparr>\<rparr>)"

definition asked_state :: node_pc where
  [example_states]: "asked_state = with_opt (\<lambda>opt. opt\<lparr>pc_powercap_status := PC_STATUS_ASK_DEF\<rparr>)
     (asking_state\<lparr>np_pmgt := (np_pmgt asking_state)\<lparr>pg_status := replicate 4 zero_domain_status\<rparr>, np_events := [(POWERCAP_VALUE, 512)]\<rparr>)"

lemma asking_status: "site_status rp (round_sites 7) no_status =
    Some (no_status\<lparr>cs_total_nodes := 1, cs_requested := 512, cs_current_power := 400, cs_total_powercap := 512\<rparr>, asked_state)"
  by (simp add: site_status_def round_sites_def example_states dyncon_get_powerstatus_def
      powercap_get_status_def pmgt_get_status_def running_status_def powermon_report_event_def process_pmgt_status_def get_powercap_allocated_def
      no_status_def node_example_def Powercap_Status.node_example_def with_opt_def Let_def)

lemma resting_status: "site_status rp (round_sites 8) no_status =
    Some (no_status\<lparr>cs_total_nodes := 1, cs_idle_nodes := 1, cs_total_idle_power := 300, cs_current_power := 90, cs_total_powercap := 300\<rparr>,
      (site_state idle_site)\<lparr>np_ip := 8, np_events := [(POWERCAP_VALUE, 300)]\<rparr>)"
  by (simp add: site_status_def round_sites_def example_states dyncon_get_powerstatus_def powercap_get_status_def
      powermon_report_event_def process_pmgt_status_def get_powercap_allocated_def no_status_def node_example_def Powercap_Status.node_example_def)

lemmas round_example = asking_status resting_status

lemma round_example_facts:
  "reports rp (round_sites 7)" "reports rp (round_sites 8)" "reported rp (round_sites 7) = asked_state"
  "reported rp (round_sites 8) = (site_state idle_site)\<lparr>np_ip := 8, np_events := [(POWERCAP_VALUE, 300)]\<rparr>"
  "cs_total_powercap (own_status rp (round_sites 7)) = 512" "cs_total_powercap (own_status rp (round_sites 8)) = 300"
  "cs_requested (own_status rp (round_sites 7)) = 512" "cs_requested (own_status rp (round_sites 8)) = 0"
  "cs_released (own_status rp (round_sites 7)) = 0" "cs_released (own_status rp (round_sites 8)) = 0"
  "greedy_pairs (own_status rp (round_sites 7)) = []" "greedy_pairs (own_status rp (round_sites 8)) = []"
  by (simp_all add: reports_def reported_def own_status_def round_example) (simp_all add: no_status_def greedy_pairs_def)

lemma resting_default: "pc_powercap_status (np_opt s) \<noteq> PC_STATUS_ASK_DEF \<Longrightarrow> \<exists>s'. powercap_set_opt e opts (- 1) s = Some s'"
  by (simp add: powercap_set_opt_def Let_def)

lemma asked_default: "\<exists>s'. powercap_set_opt plugins_env opts (- 1) asked_state = Some s'"
proof -
  define s0 where "s0 = with_opt (\<lambda>opt. opt\<lparr>pc_cluster_perc_power := ucast (po_cluster_perc_power opts)\<rparr>)
    (asked_state\<lparr>np_last_cluster_perc := po_cluster_perc_power opts\<rparr>)"
  define f where "f = (\<lambda>opt :: node_powercap_opt. opt\<lparr>pc_powercap_status := PC_STATUS_OK, pc_last_t1_allocated := pc_def_powercap opt, pc_requested := 0\<rparr>)"
  note d = example_states
  have "two_domains (np_pmgt asked_state)" using manager_example_domains(1) by (simp add: d two_domains_def)
  then have "\<exists>s'. set_node_limit plugins_env 1024 (with_opt f s0) = Some s' \<and> two_domains (np_pmgt s') \<and> pg_limit (np_pmgt s') = 1024"
    by (intro set_limit_example) (simp_all add: s0_def f_def clipped_def ear_min_def, simp_all add: d with_opt_def)
  then obtain s1 where s1: "set_node_limit plugins_env 1024 (with_opt f s0) = Some s1" by blast
  have "same_node s0 s1" using set_node_limit_Some(1) [OF s1] by simp
  then obtain s2 where "powermon_report_event SET_ASK_DEF 0 s1 = Some s2"
    using report_event_total [of s0 s1] by (auto simp: s0_def d with_opt_def)
  moreover have "is_powercap_on (np_opt asked_state)" "\<not> is_powercap_unlimited asked_state" "pc_powercap_status (np_opt asked_state) = PC_STATUS_ASK_DEF"
    "pc_def_powercap (np_opt (with_opt f s0)) = 1024"
    by (simp_all add: d is_powercap_on_def is_powercap_set_def is_powercap_unlimited_def with_opt_def s0_def f_def)
  ultimately show ?thesis using s1 by (simp add: powercap_set_opt_def Let_def s0_def f_def)
qed

lemma cluster_round_within_limit_witness:
  "\<exists>cs gm' opts after.
     data_all_nodes status_kind [[7, 8]] (\<lambda>_. True) (status_answer (\<lambda>_. True) False round_sites) (\<lambda>_. True) = Some cs \<and>
     powercap_reallocation (aggregate_data (eargm_example\<lparr>gm_current_cluster_powercap := 2000\<rparr>) cs) cs empty_powercap_opt = (True, gm', opts) \<and>
     (\<forall>c \<in> {7, 8}. dyncon_power_management (site_env (round_sites c)) (Set_Powercap_Opt opts) (reported False (round_sites c)) = Some (after c)) \<and>
     allocated (after 7) + allocated (after 8) \<le> 2000"
proof -
  let ?gm = "eargm_example\<lparr>gm_current_cluster_powercap := 2000\<rparr>" and ?m = "{#7, 8 :: i32#}"
  have len: "length (send_command_all [[7, 8]] (\<lambda>c. True \<and> reports False (round_sites c)) (\<lambda>_. True)) \<le> 2 ^ 32 - 1"
    using command_length [of "\<lambda>_. True" "[[7, 8]]" "\<lambda>c. True \<and> reports False (round_sites c)"] by simp
  have "gives (status_totals False round_sites)
      (data_all_nodes status_kind [[7, 8]] (\<lambda>_. True) (status_answer (\<lambda>_. True) False round_sites) (\<lambda>_. True)) ?m"
    using st.data_all_nodes_gives [OF len, of "\<lambda>_. True"] by (simp add: send_command_all_mset round_example_facts)
  then obtain cs where cs: "data_all_nodes status_kind [[7, 8]] (\<lambda>_. True) (status_answer (\<lambda>_. True) False round_sites) (\<lambda>_. True) = Some cs"
      "status_totals False round_sites cs ?m"
    by (auto simp: gives_def split: option.splits)
  note t = cs(2) [unfolded status_totals_def Let_def, simplified round_example_facts image_mset_add_mset]
  obtain gm' opts where r: "powercap_reallocation (aggregate_data ?gm cs) cs empty_powercap_opt = (True, gm', opts)"
    using reallocation_without_release [of cs] t by (fastforce simp: round_example_facts)
  have none: "cs_greedy_nodes cs = []" "cs_greedy_data cs = []" using t by (auto simp: round_example_facts listed_ok_def greedy_pairs_def)
  have opts: "dyncon_filter_opt c opts = - 1" for c using reallocation_nodes [OF r] none by (simp add: dyncon_filter_opt_def)
  obtain s7 where "powercap_set_opt plugins_env opts (- 1) asked_state = Some s7" using asked_default by blast
  moreover obtain s8 where "powercap_set_opt plugins_env opts (- 1) (reported False (round_sites 8)) = Some s8"
    using resting_default [of "reported False (round_sites 8)"] by (auto simp: round_example_facts idle_site_def on_example_def)
  ultimately have after: "dyncon_power_management (site_env (round_sites c)) (Set_Powercap_Opt opts) (reported False (round_sites c)) =
      Some ((\<lambda>c. if c = 7 then s7 else s8) c)" if "c \<in> {7, 8}" for c
    using that by (auto simp: opts round_example_facts) (simp_all add: round_sites_def idle_site_def)
  have node: "managed (reported False (round_sites c)) c" if "c \<in> {7, 8}" for c
    using that by (auto simp: managed_def round_example_facts example_states
        with_opt_def is_powercap_on_def is_powercap_set_def is_powercap_unlimited_def)
  have a: "allocated asked_state = 512" "allocated (site_state idle_site) = 300"
    by (simp_all add: get_powercap_allocated_def example_states with_opt_def)
  have "int (\<Sum>c\<leftarrow>[7 :: i32, 8]. allocated (if c = 7 then s7 else s8)) \<le> max (int (unat (gm_current_cluster_powercap ?gm)))
      (int (unat (cs_total_powercap cs)) + int (unat (cs_requested cs)) - int (extras (greedy_list cs)))"
    by (rule cluster_round_within_limit [where after = "\<lambda>c. if c = 7 then s7 else s8", OF _ _ _ _ _ _ _ cs(1) _ r])
      (use node after in \<open>auto simp: round_example_facts a\<close>)
  then have "allocated s7 + allocated s8 \<le> 2000" using t none by (simp add: round_example_facts)
  then show ?thesis using cs(1) r after
    by (intro exI [of _ cs] exI [of _ gm'] exI [of _ opts] exI [of _ "\<lambda>c. if c = 7 then s7 else s8"]) auto
qed

end
