(* ===== verification/Spec2Isabelle.thy ===== *)
theory Spec2Isabelle
  imports Powercap_Status Meta_Allocation Job_Lifecycle Cluster_Round
begin

text \<open>
  Verification of the power management and the job management of EAR (Energy Aware Runtime).  All
  paths below are relative to \<^verbatim>\<open>src/src\<close>.

  \<^bold>\<open>The program.\<close>  A cluster runs one daemon per node (EARD, \<^verbatim>\<open>daemon\<close>), which applies a power
  limit to its node, tells the jobs which policy and frequency to use, and reports its power status.  A
  global manager (EARGM, \<^verbatim>\<open>global_manager\<close>) collects the statuses of its nodes and redistributes the
  power limit among them; several managers may be coordinated by a meta manager, which moves power
  between their limits.  All of them read one configuration (\<^verbatim>\<open>common/types/configuration\<close>), which
  describes the nodes as ranges of host names in islands, tags, policies, users and managers.

  \<^bold>\<open>Theories.\<close>
  \<^item> \<open>Prelude\<close>: the C types as words, the macros and return codes, facts on words and lists.
  \<^item> \<open>C_Float\<close>: single precision as rounding of rationals, exact below \<open>2 ^ 24\<close>.
  \<^item> \<open>Powercap_Types\<close>, \<open>Powercap_Status\<close>: the records exchanged by daemon and manager, and
    \<^verbatim>\<open>daemon/powercap/powercap_status.c\<close>.
  \<^item> \<open>Node_Conf\<close>: \<^verbatim>\<open>node_conf.c\<close>, the ranges of host names.  Counting, expansion and membership test
    are proved to agree with each other and with an independent reading of the notation.
  \<^item> \<open>Cluster_Conf\<close>: the node counts, tags and restrictions of \<^verbatim>\<open>cluster_conf.c\<close>.
  \<^item> \<open>Access_Control\<close>: who is a normal, an authorised or an energy-tag user.
  \<^item> \<open>Node_Settings\<close>: \<^verbatim>\<open>get_my_node_conf\<close> and the look-ups on policies, servers and managers.
  \<^item> \<open>Frequency\<close>: P-state tables (\<^verbatim>\<open>metrics/common/pstate.c\<close>), \<^verbatim>\<open>management/cpufreq/archs/default.c\<close>
    and the daemon's frequency interface.
  \<^item> \<open>Job_Policy\<close>: \<^verbatim>\<open>configure_context\<close>, the policy and settings of a new job.
  \<^item> \<open>Job_Contexts\<close>, \<open>Job_Lifecycle\<close>: the job list and the context table of
    \<^verbatim>\<open>daemon/power_monitor.c\<close>, the handlers of jobs, tasks and library connections, and their
    refinement of a multiset of running steps.
  \<^item> \<open>Cluster_Powercap\<close>, \<open>Cluster_Allocation\<close>, \<open>Cluster_Limits\<close>: \<^verbatim>\<open>global_manager/cluster_powercap.c\<close>,
    the conservation of power in a reallocation, and the limits and actions over sequences of commands
    and periods.
  \<^item> \<open>Meta_Eargm\<close>, \<open>Meta_Allocation\<close>: \<^verbatim>\<open>meta_eargm.c\<close>, \<^verbatim>\<open>eargm_ext_rm.c\<close> and the commands of
    \<^verbatim>\<open>eargm_rapi.c\<close>, and the conservation of power over a round.

  \<^item> \<open>Dvfs_Plugin\<close>, \<open>Gpu_Plugin\<close>, \<open>Gpu_Dvfs\<close>, \<open>Cpu_Plugins\<close>: the powercap plugins of
    \<^verbatim>\<open>daemon/powercap\<close> (\<^verbatim>\<open>dvfs.c\<close>, \<^verbatim>\<open>gpu.c\<close>, \<^verbatim>\<open>gpu_dvfs.c\<close>, \<^verbatim>\<open>cpu_generic.c\<close>, \<^verbatim>\<open>inm.c\<close>, \<^verbatim>\<open>grace_hopper.c\<close>,
    \<^verbatim>\<open>gpu_dummy.c\<close>): limits, control steps and statuses.
  \<^item> \<open>Power_Plugins\<close>, \<open>Power_Mgt\<close>: the table of plugins and \<^verbatim>\<open>powercap_mgt.c\<close>, which shares the limit of a
    node between its domains and moves power between CPU and GPU.
  \<^item> \<open>Domain_Budget\<close>, \<open>Node_Budget\<close>: the invariant that the limits of the domains keep to the limit of
    the node, for every operation of the manager and every plugin, and the inputs that break it.
  \<^item> \<open>Node_Powercap\<close>, \<open>Node_Limits\<close>: \<^verbatim>\<open>daemon/powercap/powercap.c\<close> with the commands of
    \<^verbatim>\<open>remote_api/dynamic_configuration.c\<close> that lead to it, and the limit of a node through every order of
    its events.
  \<^item> \<open>Propagation\<close>, \<open>Collection\<close>: how a command reaches the daemons and how their answers are merged
    (\<^verbatim>\<open>remote_api/eard_server_api.c\<close>, \<^verbatim>\<open>common/messaging/msg_internals.c\<close>).
  \<^item> \<open>Cluster_Round\<close>: daemons, propagation and manager together.

  \<^bold>\<open>What is shown.\<close>  A round of the meta manager conserves the power of the managers in
  two of its three cases and creates an exactly known amount in the third; a reallocation of a
  manager keeps to its limit, or to the least possible in a shortage; the status it works on counts every reachable node once; the options it
  sends reach every node once; applied by the nodes they leave at most the limit allocated on the
  cluster; and on each node, in the automatic mode and as long as no domain offers more power than it has, the
  limits of the domains keep to the limit of the node, which keeps to its configured maximum.  For the configuration, expansion, counting and membership of the node ranges
  agree, and users get the privileges and policies of the configuration.  For the jobs, the context
  table of a node stays consistent and refines a multiset of running steps, when contexts can be
  created.  For the frequencies and plugins, the control steps move each CPU in the right direction,
  bring a CPU above the limit to its lowest frequency and stay within the tables and budgets.  The lemmas marked as
  errors show inputs on which the code departs from what it means to do.

  \<^bold>\<open>Interfaces.\<close>  What one component relies on in another is a locale, interpreted on the definitions:
  the contract of a powercap plugin, the loops over the domains, and the \<open>collection\<close> of answers, which
  is interpreted for the power, the released power and the powercap status of the nodes.

  \<^bold>\<open>Conventions.\<close>  A C structure is a record whose fields carry a prefix, an array is a list, a machine
  integer is a word of its width wherever wrap-around can matter, and a read outside an array or through
  a null pointer, or a value that C leaves undefined, is \<^const>\<open>None\<close>.  Single precision arithmetic is rounded as in \<open>C_Float\<close>.
  Calls to the network, the hardware, the file system and other components are either parameters (their
  results) or entries of a trace (their order).

  \<^bold>\<open>Bounds.\<close>  The array sizes of the context table are the constants of the source.  The loops run over
  lists or have a decreasing measure and need no fuel: the propagation moves to higher positions of a
  range or to shorter lists of nodes.  Sums over the nodes of a cluster are words; where a theorem reads
  them as numbers it assumes that the power of the cluster is below \<open>2 ^ 32\<close> W.

  \<^bold>\<open>Not modelled.\<close>  Sockets, retries, the byte layout of messages and failing allocations: which daemons
  accept and answer is a parameter.  Threads: every operation of a daemon is one step, as its mutex makes
  it.  Parsing of the configuration file, the energy cap, the runtime library with its policies, models
  and loop detection, the hardware readers, the database cache, the reports, the scheduler plugins and
  the command line programs: they are mostly system, driver and database calls, vector code or
  formatting, with no state that the components above depend on.
\<close>

end
